(* ===== verification/Prelude.thy ===== *)
theory Prelude
  imports Main "HOL-Library.Word"
begin

section \<open>Shared vocabulary of the development\<close>

text \<open>
  What every component uses: the C integer types at their width, memory as lists of
  bytes, the big- and little-endian readings of them, and the list and word lemmas the
  component proofs share. The collection \<open>c_simps\<close> holds the equations that evaluate
  reads and writes of memory, \<open>byte_simps\<close> those of the byte conversions.
\<close>

unbundle bit_operations_syntax

named_theorems c_simps \<open>evaluation of C memory and string operations\<close>
named_theorems byte_simps \<open>conversions between machine words and bytes\<close>

subsection \<open>The integer types\<close>

type_synonym byte = "8 word"
type_synonym u32 = "32 word"
type_synonym u64 = "64 word"

text \<open>An address; \<open>NULL\<close> is the null pointer.\<close>

type_synonym ptr = "64 word"

abbreviation NULL :: ptr where "NULL \<equiv> 0"

text \<open>A C string literal as the bytes it denotes, without the terminating NUL.\<close>

definition str :: "string \<Rightarrow> byte list" where
  "str s = map of_char s"

lemma length_str [c_simps, simp]: "length (str s) = length s"
  by (simp add: str_def)

text \<open>A number as \<^verbatim>\<open>%d\<close> or \<^verbatim>\<open>%u\<close> prints it.\<close>

fun decimal :: "nat \<Rightarrow> byte list" where
  "decimal n = (if n < 10 then [0x30 + of_nat n] else decimal (n div 10) @ [0x30 + of_nat (n mod 10)])"

declare decimal.simps [simp del]

subsection \<open>Words and bytes\<close>

text \<open>\<open>be32 p i\<close> is the word the C expression
  \<^verbatim>\<open>p[i] << 24 | p[i+1] << 16 | p[i+2] << 8 | p[i+3]\<close> computes, \<open>be_bytes32\<close> the four
  bytes \<^verbatim>\<open>tmp >> 24, tmp >> 16, tmp >> 8, tmp >> 0\<close> stored back.\<close>

definition be32 :: "byte list \<Rightarrow> nat \<Rightarrow> u32" where
  "be32 p i = push_bit 24 (ucast (p ! i)) OR push_bit 16 (ucast (p ! (i + 1)))
     OR push_bit 8 (ucast (p ! (i + 2))) OR ucast (p ! (i + 3))"

definition be_bytes32 :: "u32 \<Rightarrow> byte list" where
  "be_bytes32 w = [ucast (drop_bit 24 w), ucast (drop_bit 16 w), ucast (drop_bit 8 w), ucast w]"

definition be_bytes64 :: "u64 \<Rightarrow> byte list" where
  "be_bytes64 w = map (\<lambda>i. ucast (drop_bit ((7 - i) * 8) w)) [0..<8]"

text \<open>The same in the order of a little-endian machine.\<close>

definition le32 :: "byte list \<Rightarrow> nat \<Rightarrow> u32" where
  "le32 p i = ucast (p ! i) OR push_bit 8 (ucast (p ! (i + 1)))
     OR push_bit 16 (ucast (p ! (i + 2))) OR push_bit 24 (ucast (p ! (i + 3)))"

definition le_bytes32 :: "u32 \<Rightarrow> byte list" where
  "le_bytes32 w = [ucast w, ucast (drop_bit 8 w), ucast (drop_bit 16 w), ucast (drop_bit 24 w)]"

lemma length_le_bytes32 [byte_simps, simp]: "length (le_bytes32 w) = 4"
  by (simp add: le_bytes32_def)

lemma length_be_bytes [byte_simps, simp]:
  "length (be_bytes32 w) = 4" "length (be_bytes64 v) = 8"
  by (simp_all add: be_bytes32_def be_bytes64_def)

lemma of_nat_and_63:
  "unat ((of_nat n :: u64) AND 63) = n mod 64"
proof -
  have "(of_nat n :: u64) AND 63 = take_bit 6 (of_nat n)"
    by (simp add: take_bit_eq_mask mask_eq_exp_minus_1)
  then have "unat ((of_nat n :: u64) AND 63) = take_bit 6 (take_bit 64 n)"
    by (simp add: unsigned_take_bit_eq unsigned_of_nat)
  also have "\<dots> = n mod 64"
    by (simp add: take_bit_eq_mod mod_mod_cancel)
  finally show ?thesis .
qed

lemma of_nat_and_63_eq:
  "((of_nat n :: u64) AND 63 = 56) = (n mod 64 = 56)"
proof -
  have "((of_nat n :: u64) AND 63 = 56) = (unat ((of_nat n :: u64) AND 63) = unat (56 :: u64))"
    by (simp only: word_unat_eq_iff)
  then show ?thesis by (simp add: of_nat_and_63)
qed

subsection \<open>Lists\<close>

lemma take_update_snoc:
  "n < length xs \<Longrightarrow> take (Suc n) (xs[n := x]) = take n xs @ [x]"
  by (simp add: take_Suc_conv_app_nth)

lemma drop_SucI: "drop i xs = drop i ys \<Longrightarrow> drop (Suc i) xs = drop (Suc i) ys"
  by (metis drop_Suc tl_drop)

lemma foldl_const_inv:
  assumes "\<And>s x. P s \<Longrightarrow> x \<in> set xs \<Longrightarrow> P (f s x)" and "P s"
  shows "P (foldl f s xs)"
  using assms by (induction xs arbitrary: s) auto

text \<open>The complete blocks of 64 bytes at the front of a byte string, in order.\<close>

definition blocks64 :: "byte list \<Rightarrow> byte list list" where
  "blocks64 m = map (\<lambda>k. take 64 (drop (64 * k) m)) [0..<length m div 64]"

lemma blocks64_Nil [simp]: "blocks64 [] = []"
  by (simp add: blocks64_def)

lemma blocks64_short: "length m < 64 \<Longrightarrow> blocks64 m = []"
  by (simp add: blocks64_def)

lemma blocks64_block: "length b = 64 \<Longrightarrow> blocks64 (b @ m) = b # blocks64 m"
proof -
  assume b: "length b = 64"
  then have "length (b @ m) div 64 = Suc (length m div 64)" by simp
  then have "blocks64 (b @ m) = map (\<lambda>k. take 64 (drop (64 * k) (b @ m))) (0 # map Suc [0..<length m div 64])"
    by (simp only: blocks64_def upt_conv_Cons [OF zero_less_Suc] map_Suc_upt)
  also have "\<dots> = b # blocks64 m"
    using b by (simp add: blocks64_def comp_def)
  finally show ?thesis .
qed

lemma blocks64_snoc:
  "blocks64 (m @ [x]) =
     (if length m mod 64 = 63
      then blocks64 m @ [drop (64 * (length m div 64)) m @ [x]] else blocks64 m)"
proof -
  let ?n = "length m div 64"
  have same: "take 64 (drop (64 * k) (m @ [x])) = take 64 (drop (64 * k) m)" if "k < ?n" for k
  proof -
    have "64 * k + 64 \<le> length m" using that by simp
    then show ?thesis by simp
  qed
  show ?thesis
  proof (cases "length m mod 64 = 63")
    case True
    then have len: "length m = 64 * ?n + 63"
      by (metis mult_div_mod_eq)
    have "length (m @ [x]) div 64 = Suc ?n"
      using True by (simp add: div_Suc mod_Suc)
    moreover have "length (drop (64 * ?n) (m @ [x])) = 64"
      using len by simp
    ultimately have "blocks64 (m @ [x]) = map (\<lambda>k. take 64 (drop (64 * k) (m @ [x]))) [0..<?n]
        @ [drop (64 * ?n) (m @ [x])]"
      by (simp only: blocks64_def upt_Suc_append [OF le0] map_append list.map) simp
    moreover have "map (\<lambda>k. take 64 (drop (64 * k) (m @ [x]))) [0..<?n] = blocks64 m"
      unfolding blocks64_def by (rule map_cong) (auto simp only: same set_upt atLeastLessThan_iff)
    ultimately show ?thesis using True by simp
  next
    case False
    then have "length (m @ [x]) div 64 = ?n" by (simp add: div_Suc mod_Suc)
    then have "blocks64 (m @ [x]) = map (\<lambda>k. take 64 (drop (64 * k) (m @ [x]))) [0..<?n]"
      by (simp only: blocks64_def)
    also have "\<dots> = blocks64 m"
      unfolding blocks64_def by (rule map_cong) (auto simp only: same set_upt atLeastLessThan_iff)
    finally show ?thesis using False by simp
  qed
qed

lemma blocks64_length: "b \<in> set (blocks64 m) \<Longrightarrow> length b = 64"
  by (auto simp: blocks64_def)

end
