(* ===== verification/Hash_Interface.thy ===== *)
theory Hash_Interface
  imports Prelude
begin

section \<open>The interface of a streaming hash\<close>

text \<open>
  SHA-1 and SHA-256 of libmincrypt and the MD5 of twrpDigest are used through the same
  three calls: initialise a context, feed it data in pieces, read the digest. The locale
  states the contract (a context represents the bytes fed so far, the digest is a function
  of those bytes; \<open>fits\<close> says which pieces one call takes) and proves what its clients use: the digest does not depend on how the
  data was cut into calls, nor on what the context held before it was initialised.
\<close>

locale hash_stream =
  fixes ok :: "'c \<Rightarrow> bool"
    and init :: "'c \<Rightarrow> 'c"
    and update :: "'c \<Rightarrow> byte list \<Rightarrow> 'c"
    and digest :: "'c \<Rightarrow> byte list"
    and repr :: "'c \<Rightarrow> byte list \<Rightarrow> bool"
    and reference :: "byte list \<Rightarrow> byte list"
    and fits :: "byte list \<Rightarrow> bool"
  assumes repr_init: "ok c \<Longrightarrow> repr (init c) []"
    and repr_update: "repr c m \<Longrightarrow> fits d \<Longrightarrow> repr (update c d) (m @ d)"
    and repr_digest: "repr c m \<Longrightarrow> digest c = reference m"
begin

lemma repr_foldl: "repr c m \<Longrightarrow> list_all fits ds \<Longrightarrow> repr (foldl update c ds) (m @ concat ds)"
proof (induction ds arbitrary: c m)
  case Nil
  then show ?case by simp
next
  case (Cons d ds)
  then show ?case using Cons.IH [of "update c d" "m @ d"] repr_update by simp
qed

lemma digest_chunks: "ok c \<Longrightarrow> list_all fits ds \<Longrightarrow> digest (foldl update (init c) ds) = reference (concat ds)"
  using repr_digest [OF repr_foldl [OF repr_init]] by simp

lemma digest_one: "ok c \<Longrightarrow> fits d \<Longrightarrow> digest (update (init c) d) = reference d"
  using digest_chunks [of c "[d]"] by simp

lemma digest_resplit:
  "\<lbrakk>ok c; ok c'; list_all fits ds; list_all fits ds'; concat ds = concat ds'\<rbrakk> \<Longrightarrow>
     digest (foldl update (init c) ds) = digest (foldl update (init c') ds')"
  by (simp add: digest_chunks)

end

subsection \<open>Padding\<close>

text \<open>The padding of the SHA family: a one bit, zeros up to 56 modulo 64 bytes, then the
  length in bits as eight big-endian bytes, which wraps at 64 bits as the code's
  \<^verbatim>\<open>cnt\<close> does.\<close>

definition md_zeros :: "nat \<Rightarrow> nat" where
  "md_zeros n = (120 - n mod 64) mod 64"

definition md_pad :: "byte list \<Rightarrow> byte list" where
  "md_pad m = m @ [0x80] @ replicate (md_zeros (length m + 1)) 0
                @ be_bytes64 (of_nat (length m) * 8)"

lemma md_zeros_low: "n mod 64 \<le> 56 \<Longrightarrow> md_zeros n = 56 - n mod 64"
  by (cases "n mod 64 = 56") (simp_all add: md_zeros_def mod_if [of "120 - _" 64])

lemma md_zeros_high: "56 < n mod 64 \<Longrightarrow> md_zeros n = 120 - n mod 64"
  by (simp add: md_zeros_def)

lemma md_zeros_step:
  assumes n: "n mod 64 \<noteq> 56"
  shows "md_zeros n = Suc (md_zeros (Suc n))"
proof (cases "n mod 64 < 56")
  case True
  then have "Suc n mod 64 \<le> 56" by (simp add: mod_Suc)
  then show ?thesis using True by (simp add: md_zeros_low mod_Suc Suc_diff_Suc)
next
  case False
  have "n mod 64 < 64" by simp
  then show ?thesis using n False
    by (cases "n mod 64 = 63") (simp_all add: md_zeros_high md_zeros_low mod_Suc)
qed

lemma md_zeros_mod: "(n + md_zeros n) mod 64 = 56"
proof -
  have "(n + md_zeros n) mod 64 = (n mod 64 + md_zeros n) mod 64" by (simp add: mod_add_left_eq)
  moreover have "n mod 64 < 64" by simp
  ultimately show ?thesis
    by (cases "n mod 64 \<le> 56") (simp_all add: md_zeros_low md_zeros_high)
qed

lemma md_pad_length: "length (md_pad m) mod 64 = 0"
proof -
  let ?k = "length m + 1 + md_zeros (length m + 1)"
  have "(?k + 8) mod 64 = (?k mod 64 + 8) mod 64" by (simp add: mod_add_left_eq)
  also have "\<dots> = 0" unfolding md_zeros_mod by simp
  finally show ?thesis by (simp add: md_pad_def add.assoc add.left_commute)
qed

end
