(* ===== verification/Mincrypt_Hash.thy ===== *)
theory Mincrypt_Hash
  imports Hash_Interface
begin

section \<open>libmincrypt: SHA-1 and SHA-256\<close>

text \<open>
  \<^verbatim>\<open>libmincrypt/sha.c\<close>, \<^verbatim>\<open>libmincrypt/sha256.c\<close> and the context they share
  (\<^verbatim>\<open>includes/mincrypt/hash-internal.h\<close>).
\<close>

subsection \<open>The hash context\<close>

datatype HASH_VTAB = SHA_VTAB | SHA256_VTAB

record HASH_CTX =
  hc_f :: HASH_VTAB
  hc_count :: u64
  hc_buf :: "byte list"
  hc_state :: "u32 list"

text \<open>A context in memory: a 64-byte block buffer and eight words of chaining state.\<close>

definition ctx_ok :: "HASH_CTX \<Rightarrow> bool" where
  "ctx_ok c \<longleftrightarrow> length (hc_buf c) = 64 \<and> length (hc_state c) = 8"

lemma pad_measure_decreases:
  fixes n :: u64
  assumes "n AND 63 \<noteq> 56"
  shows "md_zeros (unat ((n + 1) AND 63)) < md_zeros (unat (n AND 63))"
proof -
  obtain k where n: "n = of_nat k" by (rule that [of "unat n"]) simp
  have n1: "n + 1 = of_nat (Suc k)" by (simp add: n)
  have "k mod 64 \<noteq> 56" using assms by (simp add: n of_nat_and_63_eq)
  then have "md_zeros k = Suc (md_zeros (Suc k))" by (rule md_zeros_step)
  moreover have "md_zeros (j mod 64) = md_zeros j" for j by (simp add: md_zeros_def)
  ultimately show ?thesis by (simp only: n1 of_nat_and_63) (simp add: n of_nat_and_63)
qed

subsection \<open>The engine both algorithms share\<close>

text \<open>
  \<open>md_repr cf st0 c m\<close>: the context \<open>c\<close> is what an initialised context has become after the
  bytes \<open>m\<close> were fed to it: the chaining state has absorbed the complete blocks of \<open>m\<close>, the
  buffer starts with the bytes after them, the count is the length.
\<close>

definition md_repr :: "(byte list \<Rightarrow> u32 list \<Rightarrow> u32 list) \<Rightarrow> u32 list \<Rightarrow> HASH_CTX \<Rightarrow> byte list \<Rightarrow> bool" where
  "md_repr cf st0 c m \<longleftrightarrow>
     length (hc_buf c) = 64 \<and> hc_count c = of_nat (length m)
     \<and> hc_state c = foldl (\<lambda>st b. cf b st) st0 (blocks64 m)
     \<and> take (length m mod 64) (hc_buf c) = drop (64 * (length m div 64)) m"

lemma md_repr_tail_length: "md_repr cf st0 c m \<Longrightarrow> length (drop (64 * (length m div 64)) m) = length m mod 64"
  by (simp add: minus_mult_div_eq_mod)

locale md_engine =
  fixes cf :: "byte list \<Rightarrow> u32 list \<Rightarrow> u32 list"
    and loop :: "HASH_CTX \<Rightarrow> nat \<Rightarrow> byte list \<Rightarrow> HASH_CTX"
    and update :: "HASH_CTX \<Rightarrow> byte list \<Rightarrow> HASH_CTX"
    and pad_loop :: "HASH_CTX \<Rightarrow> HASH_CTX"
  assumes loop_Nil: "loop c i [] = c"
    and loop_full: "i + 1 = 64 \<Longrightarrow> loop c i (p # ps) =
       loop (c\<lparr>hc_buf := (hc_buf c)[i := p], hc_state := cf ((hc_buf c)[i := p]) (hc_state c)\<rparr>) 0 ps"
    and loop_part: "i + 1 \<noteq> 64 \<Longrightarrow> loop c i (p # ps) = loop (c\<lparr>hc_buf := (hc_buf c)[i := p]\<rparr>) (i + 1) ps"
    and update_eq: "update c d =
       loop (c\<lparr>hc_count := hc_count c + of_nat (length d)\<rparr>) (unat (hc_count c AND 63)) d"
    and pad_done: "hc_count c AND 63 = 56 \<Longrightarrow> pad_loop c = c"
    and pad_more: "hc_count c AND 63 \<noteq> 56 \<Longrightarrow> pad_loop c = pad_loop (update c [0])"
begin

lemma loop_set_count: "loop (c\<lparr>hc_count := n\<rparr>) i ps = (loop c i ps)\<lparr>hc_count := n\<rparr>"
proof (induction ps arbitrary: c i)
  case Nil
  then show ?case by (simp add: loop_Nil)
next
  case (Cons p ps)
  have swap: "c\<lparr>hc_count := n, hc_buf := b\<rparr> = c\<lparr>hc_buf := b\<rparr>\<lparr>hc_count := n\<rparr>"
    "c\<lparr>hc_count := n, hc_buf := b, hc_state := s\<rparr> = c\<lparr>hc_buf := b, hc_state := s\<rparr>\<lparr>hc_count := n\<rparr>" for b s
    by simp_all
  show ?case
  proof (cases "i + 1 = 64")
    case True
    then show ?thesis by (simp add: loop_full swap(2) Cons.IH del: HASH_CTX.update_convs)
  next
    case False
    then show ?thesis by (simp add: loop_part swap(1) Cons.IH del: HASH_CTX.update_convs)
  qed
qed

lemma loop_count: "hc_count (loop c i ps) = hc_count c"
proof -
  have "loop c i ps = (loop c i ps)\<lparr>hc_count := hc_count c\<rparr>"
    using loop_set_count [where n = "hc_count c" and c = c and i = i and ps = ps] by simp
  then show ?thesis by (metis HASH_CTX.select_convs(2) HASH_CTX.surjective HASH_CTX.update_convs(2))
qed

lemma update_Nil: "update c [] = c"
  by (simp add: update_eq loop_Nil)

lemma update_Cons: "update c (p # ps) = update (update c [p]) ps"
proof -
  obtain k where n: "hc_count c = of_nat k" by (rule that [of "unat (hc_count c)"]) simp
  have i: "unat (of_nat k AND (63 :: u64)) = k mod 64" by (simp add: of_nat_and_63)
  have n1: "of_nat k + 1 = (of_nat (Suc k) :: u64)" by simp
  let ?b = "(hc_buf c)[k mod 64 := p]"
  have cnt: "of_nat k + of_nat (length (p # ps)) = (of_nat (Suc k) + of_nat (length ps) :: u64)" by simp
  show ?thesis
  proof (cases "k mod 64 + 1 = 64")
    case True
    have u: "update c [p] = c\<lparr>hc_count := of_nat (Suc k), hc_buf := ?b, hc_state := cf ?b (hc_state c)\<rparr>"
      by (simp add: update_eq i n loop_full [OF True] loop_Nil n1)
    have j: "unat (of_nat (Suc k) AND (63::u64)) = 0" using True by (simp add: of_nat_and_63 mod_Suc del: of_nat_Suc)
    show ?thesis unfolding u
      by (simp add: update_eq i j n cnt loop_full [OF True] del: of_nat_Suc list.size(4))
        (rule arg_cong [where f = "\<lambda>x. loop x 0 ps"], simp)
  next
    case False
    have u: "update c [p] = c\<lparr>hc_count := of_nat (Suc k), hc_buf := ?b\<rparr>"
      by (simp add: update_eq i n loop_part [OF False] loop_Nil n1)
    have j: "unat (of_nat (Suc k) AND (63::u64)) = k mod 64 + 1"
      using False by (simp add: of_nat_and_63 mod_Suc del: of_nat_Suc)
    show ?thesis unfolding u
      by (simp add: update_eq i j n cnt loop_part [OF False] del: of_nat_Suc list.size(4))
        (rule arg_cong [where f = "\<lambda>x. loop x (Suc (k mod 64)) ps"], simp)
  qed
qed

lemma repr_byte:
  assumes r: "md_repr cf st0 c m"
  shows "md_repr cf st0 (update c [p]) (m @ [p])"
proof -
  let ?i = "length m mod 64" and ?c = "c\<lparr>hc_count := hc_count c + 1, hc_buf := (hc_buf c)[length m mod 64 := p]\<rparr>"
  have i: "unat (hc_count c AND 63) = ?i" using r by (simp add: md_repr_def of_nat_and_63)
  have lt: "?i < length (hc_buf c)" using r by (simp add: md_repr_def)
  have buf: "take (Suc ?i) ((hc_buf c)[?i := p]) = drop (64 * (length m div 64)) m @ [p]"
    using r lt by (simp add: take_update_snoc md_repr_def)
  have cnt: "(of_nat (length m) + 1 :: u64) = of_nat (length (m @ [p]))" by simp
  show ?thesis
  proof (cases "?i = 63")
    case True
    then have u: "update c [p] = ?c\<lparr>hc_state := cf ((hc_buf c)[?i := p]) (hc_state c)\<rparr>"
      by (simp add: update_eq i loop_full loop_Nil)
    have full: "(hc_buf c)[?i := p] = drop (64 * (length m div 64)) m @ [p]"
      using buf True r by (simp add: md_repr_def)
    then show ?thesis using r True unfolding u
      by (simp add: md_repr_def blocks64_snoc mod_Suc div_Suc minus_mult_div_eq_mod)
  next
    case False
    then have u: "update c [p] = ?c" by (simp add: update_eq i loop_part loop_Nil)
    show ?thesis using r False buf lt unfolding u
      by (simp add: md_repr_def blocks64_snoc mod_Suc div_Suc)
  qed
qed

lemma repr_update: "md_repr cf st0 c m \<Longrightarrow> md_repr cf st0 (update c ps) (m @ ps)"
proof (induction ps arbitrary: c m)
  case Nil
  then show ?case by (simp add: update_Nil)
next
  case (Cons p ps)
  then have "md_repr cf st0 (update (update c [p]) ps) ((m @ [p]) @ ps)"
    by (blast intro: repr_byte)
  then show ?case by (simp add: update_Cons [of c p ps])
qed

lemma repr_pad_loop:
  "md_repr cf st0 c m \<Longrightarrow> md_repr cf st0 (pad_loop c) (m @ replicate (md_zeros (length m)) 0)"
proof (induction "md_zeros (length m)" arbitrary: c m)
  case 0
  then have "length m mod 64 = 56" using md_zeros_step by (metis nat.distinct(1))
  then have "hc_count c AND 63 = 56" using "0.prems" by (simp add: md_repr_def of_nat_and_63_eq)
  then show ?case using 0 by (simp add: pad_done)
next
  case (Suc k)
  then have "length m mod 64 \<noteq> 56" by (auto simp: md_zeros_def)
  moreover from this have "hc_count c AND 63 \<noteq> 56"
    using Suc.prems by (simp add: md_repr_def of_nat_and_63_eq)
  moreover have "md_zeros (length m) = Suc (md_zeros (length (m @ [0])))"
    using calculation(1) by (simp add: md_zeros_step)
  ultimately show ?case
    using Suc.hyps(1) [of "m @ [0]" "update c [0]"] Suc.hyps(2) Suc.prems
    by (simp add: pad_more repr_byte)
qed

lemma repr_foldl_update:
  "md_repr cf st0 c m \<Longrightarrow>
   md_repr cf st0 (foldl (\<lambda>c i. update c [g i]) c is) (m @ map g is)"
proof (induction "is" arbitrary: c m)
  case Nil
  then show ?case by simp
next
  case (Cons i "is")
  then have "md_repr cf st0 (foldl (\<lambda>c i. update c [g i]) (update c [g i]) is) ((m @ [g i]) @ map g is)"
    by (blast intro: repr_byte)
  then show ?case by simp
qed

lemma repr_padded:
  assumes r: "md_repr cf st0 c m" and cnt: "cnt = hc_count c * 8"
  shows "md_repr cf st0
     (foldl (\<lambda>c i. update c [ucast (drop_bit ((7 - i) * 8) cnt)])
        (pad_loop (update c [0x80])) [0..<8]) (md_pad m)"
proof -
  have "cnt = of_nat (length m) * 8" using r cnt by (simp add: md_repr_def)
  then have "md_pad m = ((m @ [0x80]) @ replicate (md_zeros (length (m @ [0x80]))) 0)
      @ map (\<lambda>i. ucast (drop_bit ((7 - i) * 8) cnt)) [0..<8]"
    by (simp add: md_pad_def be_bytes64_def)
  then show ?thesis using repr_foldl_update [OF repr_pad_loop [OF repr_byte [OF r]]] by simp
qed

lemma padded_state:
  assumes "md_repr cf st0 c m" and "cnt = hc_count c * 8"
  shows "hc_state (foldl (\<lambda>c i. update c [ucast (drop_bit ((7 - i) * 8) cnt)])
        (pad_loop (update c [0x80])) [0..<8]) = foldl (\<lambda>st b. cf b st) st0 (blocks64 (md_pad m))"
  using repr_padded [OF assms] by (simp add: md_repr_def)

end

subsection \<open>SHA-1\<close>

definition rol :: "nat \<Rightarrow> u32 \<Rightarrow> u32" where
  "rol bits value = push_bit bits value OR drop_bit (32 - bits) value"

definition SHA1_expand :: "u32 list \<Rightarrow> nat \<Rightarrow> u32 list" where
  "SHA1_expand W t = W @ [rol 1 (W ! (t - 3) XOR W ! (t - 8) XOR W ! (t - 14) XOR W ! (t - 16))]"

definition SHA1_schedule :: "byte list \<Rightarrow> u32 list" where
  "SHA1_schedule p = foldl SHA1_expand (map (\<lambda>t. be32 p (4 * t)) [0..<16]) [16..<80]"

definition SHA1_round :: "u32 list \<Rightarrow> u32 \<times> u32 \<times> u32 \<times> u32 \<times> u32 \<Rightarrow> nat
    \<Rightarrow> u32 \<times> u32 \<times> u32 \<times> u32 \<times> u32" where
  "SHA1_round W = (\<lambda>(A, B, C, D, E) t.
     let tmp = rol 5 A + E + W ! t;
         tmp = tmp + (if t < 20 then (D XOR (B AND (C XOR D))) + 0x5A827999
                      else if t < 40 then (B XOR C XOR D) + 0x6ED9EBA1
                      else if t < 60 then ((B AND C) OR (D AND (B OR C))) + 0x8F1BBCDC
                      else (B XOR C XOR D) + 0xCA62C1D6)
     in (tmp, A, rol 30 B, C, D))"

definition SHA1_rounds :: "u32 list \<Rightarrow> u32 \<times> u32 \<times> u32 \<times> u32 \<times> u32 \<Rightarrow> u32 \<times> u32 \<times> u32 \<times> u32 \<times> u32" where
  "SHA1_rounds W s = foldl (SHA1_round W) s [0..<80]"

definition SHA1_compress :: "byte list \<Rightarrow> u32 list \<Rightarrow> u32 list" where
  "SHA1_compress p st =
     (let W = SHA1_schedule p;
          (A, B, C, D, E) = SHA1_rounds W (st ! 0, st ! 1, st ! 2, st ! 3, st ! 4)
      in st[0 := st ! 0 + A, 1 := st ! 1 + B, 2 := st ! 2 + C, 3 := st ! 3 + D, 4 := st ! 4 + E])"

definition SHA1_Transform :: "HASH_CTX \<Rightarrow> HASH_CTX" where
  "SHA1_Transform ctx = ctx\<lparr>hc_state := SHA1_compress (hc_buf ctx) (hc_state ctx)\<rparr>"

definition SHA_init :: "HASH_CTX \<Rightarrow> HASH_CTX" where
  "SHA_init ctx = ctx\<lparr>hc_f := SHA_VTAB,
     hc_state := (hc_state ctx)[0 := 0x67452301, 1 := 0xEFCDAB89, 2 := 0x98BADCFE,
                                3 := 0x10325476, 4 := 0xC3D2E1F0],
     hc_count := 0\<rparr>"

fun SHA_update_loop :: "HASH_CTX \<Rightarrow> nat \<Rightarrow> byte list \<Rightarrow> HASH_CTX" where
  "SHA_update_loop ctx i [] = ctx"
| "SHA_update_loop ctx i (p # ps) =
     (let ctx = ctx\<lparr>hc_buf := (hc_buf ctx)[i := p]\<rparr>
      in if i + 1 = 64 then SHA_update_loop (SHA1_Transform ctx) 0 ps
         else SHA_update_loop ctx (i + 1) ps)"

definition SHA_update :: "HASH_CTX \<Rightarrow> byte list \<Rightarrow> HASH_CTX" where
  "SHA_update ctx data =
     SHA_update_loop (ctx\<lparr>hc_count := hc_count ctx + of_nat (length data)\<rparr>)
       (unat (hc_count ctx AND 63)) data"

text \<open>\<^verbatim>\<open>while ((ctx->count & 63) != 56) SHA_update(ctx, "\\0", 1)\<close>: at most 63 rounds, since
  each adds one to the count.\<close>

lemma SHA_update_loop_count [simp]: "hc_count (SHA_update_loop c i ps) = hc_count c"
  by (induction c i ps rule: SHA_update_loop.induct) (auto simp: Let_def SHA1_Transform_def)

lemma SHA_update_count: "hc_count (SHA_update c ps) = hc_count c + of_nat (length ps)"
  by (simp add: SHA_update_def)

function SHA_pad_loop :: "HASH_CTX \<Rightarrow> HASH_CTX" where
  "SHA_pad_loop ctx =
     (if hc_count ctx AND 63 \<noteq> 56 then SHA_pad_loop (SHA_update ctx [0]) else ctx)"
  by pat_completeness auto
termination
  by (relation "measure (\<lambda>c. md_zeros (unat (hc_count c AND 63)))")
    (auto simp: SHA_update_count intro!: pad_measure_decreases)

declare SHA_pad_loop.simps [simp del]

definition SHA_final :: "HASH_CTX \<Rightarrow> HASH_CTX" where
  "SHA_final ctx =
     (let cnt = hc_count ctx * 8;
          ctx = SHA_pad_loop (SHA_update ctx [0x80]);
          ctx = foldl (\<lambda>ctx i. SHA_update ctx [ucast (drop_bit ((7 - i) * 8) cnt)]) ctx [0..<8]
      in ctx\<lparr>hc_buf := concat (map (\<lambda>i. be_bytes32 (hc_state ctx ! i)) [0..<5])
                     @ drop 20 (hc_buf ctx)\<rparr>)"

text \<open>\<open>c0\<close> is the uninitialised context on the stack.\<close>

definition SHA_hash :: "HASH_CTX \<Rightarrow> byte list \<Rightarrow> byte list" where
  "SHA_hash c0 data = take 20 (hc_buf (SHA_final (SHA_update (SHA_init c0) data)))"

interpretation sha1: md_engine SHA1_compress SHA_update_loop SHA_update SHA_pad_loop
  by unfold_locales
    (simp_all add: SHA1_Transform_def SHA_update_def SHA_pad_loop.simps Let_def)

subsection \<open>SHA-256\<close>

definition ror :: "u32 \<Rightarrow> nat \<Rightarrow> u32" where
  "ror value bits = drop_bit bits value OR push_bit (32 - bits) value"

definition shr :: "u32 \<Rightarrow> nat \<Rightarrow> u32" where
  "shr value bits = drop_bit bits value"

definition SHA256_K :: "u32 list" where
  "SHA256_K = concat [
    [0x428a2f98, 0x71374491, 0xb5c0fbcf, 0xe9b5dba5],
    [0x3956c25b, 0x59f111f1, 0x923f82a4, 0xab1c5ed5],
    [0xd807aa98, 0x12835b01, 0x243185be, 0x550c7dc3],
    [0x72be5d74, 0x80deb1fe, 0x9bdc06a7, 0xc19bf174],
    [0xe49b69c1, 0xefbe4786, 0x0fc19dc6, 0x240ca1cc],
    [0x2de92c6f, 0x4a7484aa, 0x5cb0a9dc, 0x76f988da],
    [0x983e5152, 0xa831c66d, 0xb00327c8, 0xbf597fc7],
    [0xc6e00bf3, 0xd5a79147, 0x06ca6351, 0x14292967],
    [0x27b70a85, 0x2e1b2138, 0x4d2c6dfc, 0x53380d13],
    [0x650a7354, 0x766a0abb, 0x81c2c92e, 0x92722c85],
    [0xa2bfe8a1, 0xa81a664b, 0xc24b8b70, 0xc76c51a3],
    [0xd192e819, 0xd6990624, 0xf40e3585, 0x106aa070],
    [0x19a4c116, 0x1e376c08, 0x2748774c, 0x34b0bcb5],
    [0x391c0cb3, 0x4ed8aa4a, 0x5b9cca4f, 0x682e6ff3],
    [0x748f82ee, 0x78a5636f, 0x84c87814, 0x8cc70208],
    [0x90befffa, 0xa4506ceb, 0xbef9a3f7, 0xc67178f2]]"

definition SHA256_expand :: "u32 list \<Rightarrow> nat \<Rightarrow> u32 list" where
  "SHA256_expand W t =
     (let s0 = ror (W ! (t - 15)) 7 XOR ror (W ! (t - 15)) 18 XOR shr (W ! (t - 15)) 3;
          s1 = ror (W ! (t - 2)) 17 XOR ror (W ! (t - 2)) 19 XOR shr (W ! (t - 2)) 10
      in W @ [W ! (t - 16) + s0 + W ! (t - 7) + s1])"

definition SHA256_schedule :: "byte list \<Rightarrow> u32 list" where
  "SHA256_schedule p = foldl SHA256_expand (map (\<lambda>t. be32 p (4 * t)) [0..<16]) [16..<64]"

type_synonym u32x8 = "u32 \<times> u32 \<times> u32 \<times> u32 \<times> u32 \<times> u32 \<times> u32 \<times> u32"

definition SHA256_round :: "u32 list \<Rightarrow> u32x8 \<Rightarrow> nat \<Rightarrow> u32x8" where
  "SHA256_round W = (\<lambda>(A, B, C, D, E, F, G, H) t.
     let s0 = ror A 2 XOR ror A 13 XOR ror A 22;
         maj = (A AND B) XOR (A AND C) XOR (B AND C);
         t2 = s0 + maj;
         s1 = ror E 6 XOR ror E 11 XOR ror E 25;
         ch = (E AND F) XOR (NOT E AND G);
         t1 = H + s1 + ch + SHA256_K ! t + W ! t
     in (t1 + t2, A, B, C, D + t1, E, F, G))"

definition SHA256_rounds :: "u32 list \<Rightarrow> u32x8 \<Rightarrow> u32x8" where
  "SHA256_rounds W s = foldl (SHA256_round W) s [0..<64]"

definition SHA256_compress :: "byte list \<Rightarrow> u32 list \<Rightarrow> u32 list" where
  "SHA256_compress p st =
     (let W = SHA256_schedule p;
          (A, B, C, D, E, F, G, H) = SHA256_rounds W
            (st ! 0, st ! 1, st ! 2, st ! 3, st ! 4, st ! 5, st ! 6, st ! 7)
      in st[0 := st ! 0 + A, 1 := st ! 1 + B, 2 := st ! 2 + C, 3 := st ! 3 + D,
            4 := st ! 4 + E, 5 := st ! 5 + F, 6 := st ! 6 + G, 7 := st ! 7 + H])"

definition SHA256_Transform :: "HASH_CTX \<Rightarrow> HASH_CTX" where
  "SHA256_Transform ctx = ctx\<lparr>hc_state := SHA256_compress (hc_buf ctx) (hc_state ctx)\<rparr>"

definition SHA256_init :: "HASH_CTX \<Rightarrow> HASH_CTX" where
  "SHA256_init ctx = ctx\<lparr>hc_f := SHA256_VTAB,
     hc_state := (hc_state ctx)[0 := 0x6a09e667, 1 := 0xbb67ae85, 2 := 0x3c6ef372,
                                3 := 0xa54ff53a, 4 := 0x510e527f, 5 := 0x9b05688c,
                                6 := 0x1f83d9ab, 7 := 0x5be0cd19],
     hc_count := 0\<rparr>"

fun SHA256_update_loop :: "HASH_CTX \<Rightarrow> nat \<Rightarrow> byte list \<Rightarrow> HASH_CTX" where
  "SHA256_update_loop ctx i [] = ctx"
| "SHA256_update_loop ctx i (p # ps) =
     (let ctx = ctx\<lparr>hc_buf := (hc_buf ctx)[i := p]\<rparr>
      in if i + 1 = 64 then SHA256_update_loop (SHA256_Transform ctx) 0 ps
         else SHA256_update_loop ctx (i + 1) ps)"

definition SHA256_update :: "HASH_CTX \<Rightarrow> byte list \<Rightarrow> HASH_CTX" where
  "SHA256_update ctx data =
     SHA256_update_loop (ctx\<lparr>hc_count := hc_count ctx + of_nat (length data)\<rparr>)
       (unat (hc_count ctx AND 63)) data"

lemma SHA256_update_loop_count [simp]: "hc_count (SHA256_update_loop c i ps) = hc_count c"
  by (induction c i ps rule: SHA256_update_loop.induct) (auto simp: Let_def SHA256_Transform_def)

lemma SHA256_update_count: "hc_count (SHA256_update c ps) = hc_count c + of_nat (length ps)"
  by (simp add: SHA256_update_def)

function SHA256_pad_loop :: "HASH_CTX \<Rightarrow> HASH_CTX" where
  "SHA256_pad_loop ctx =
     (if hc_count ctx AND 63 \<noteq> 56 then SHA256_pad_loop (SHA256_update ctx [0]) else ctx)"
  by pat_completeness auto
termination
  by (relation "measure (\<lambda>c. md_zeros (unat (hc_count c AND 63)))")
    (auto simp: SHA256_update_count intro!: pad_measure_decreases)

declare SHA256_pad_loop.simps [simp del]

definition SHA256_final :: "HASH_CTX \<Rightarrow> HASH_CTX" where
  "SHA256_final ctx =
     (let cnt = hc_count ctx * 8;
          ctx = SHA256_pad_loop (SHA256_update ctx [0x80]);
          ctx = foldl (\<lambda>ctx i. SHA256_update ctx [ucast (drop_bit ((7 - i) * 8) cnt)]) ctx [0..<8]
      in ctx\<lparr>hc_buf := concat (map (\<lambda>i. be_bytes32 (hc_state ctx ! i)) [0..<8])
                     @ drop 32 (hc_buf ctx)\<rparr>)"

definition SHA256_hash :: "HASH_CTX \<Rightarrow> byte list \<Rightarrow> byte list" where
  "SHA256_hash c0 data = take 32 (hc_buf (SHA256_final (SHA256_update (SHA256_init c0) data)))"

interpretation sha256: md_engine SHA256_compress SHA256_update_loop SHA256_update SHA256_pad_loop
  by unfold_locales
    (simp_all add: SHA256_Transform_def SHA256_update_def SHA256_pad_loop.simps Let_def)

subsection \<open>The reference: FIPS 180\<close>

text \<open>The hash functions as the standard states them, over rotations, \<open>Ch\<close>, \<open>Parity\<close> and
  \<open>Maj\<close>, with the message schedule as a recurrence and the state as a list of words.\<close>

definition fips_Ch :: "u32 \<Rightarrow> u32 \<Rightarrow> u32 \<Rightarrow> u32" where
  "fips_Ch x y z = (x AND y) XOR (NOT x AND z)"

definition fips_Maj :: "u32 \<Rightarrow> u32 \<Rightarrow> u32 \<Rightarrow> u32" where
  "fips_Maj x y z = (x AND y) XOR (x AND z) XOR (y AND z)"

definition fips_Parity :: "u32 \<Rightarrow> u32 \<Rightarrow> u32 \<Rightarrow> u32" where
  "fips_Parity x y z = x XOR y XOR z"

fun fips_W1 :: "byte list \<Rightarrow> nat \<Rightarrow> u32" where
  "fips_W1 p t = (if t < 16 then be32 p (4 * t)
     else word_rotl 1 (fips_W1 p (t - 3) XOR fips_W1 p (t - 8) XOR fips_W1 p (t - 14) XOR fips_W1 p (t - 16)))"

declare fips_W1.simps [simp del]

definition fips_f1 :: "nat \<Rightarrow> u32 \<Rightarrow> u32 \<Rightarrow> u32 \<Rightarrow> u32" where
  "fips_f1 t x y z = (if t < 20 then fips_Ch x y z else if t < 40 then fips_Parity x y z
     else if t < 60 then fips_Maj x y z else fips_Parity x y z)"

definition fips_K1 :: "nat \<Rightarrow> u32" where
  "fips_K1 t = (if t < 20 then 0x5A827999 else if t < 40 then 0x6ED9EBA1
     else if t < 60 then 0x8F1BBCDC else 0xCA62C1D6)"

definition fips_step1 :: "byte list \<Rightarrow> u32 \<times> u32 \<times> u32 \<times> u32 \<times> u32 \<Rightarrow> nat \<Rightarrow> u32 \<times> u32 \<times> u32 \<times> u32 \<times> u32" where
  "fips_step1 p = (\<lambda>(a, b, c, d, e) t.
     (word_rotl 5 a + fips_f1 t b c d + e + fips_K1 t + fips_W1 p t, a, word_rotl 30 b, c, d))"

definition fips_steps1 :: "byte list \<Rightarrow> u32 \<times> u32 \<times> u32 \<times> u32 \<times> u32 \<Rightarrow> u32 \<times> u32 \<times> u32 \<times> u32 \<times> u32" where
  "fips_steps1 p s = foldl (fips_step1 p) s [0..<80]"

definition fips_block1 :: "u32 list \<Rightarrow> byte list \<Rightarrow> u32 list" where
  "fips_block1 h p = (case fips_steps1 p (h ! 0, h ! 1, h ! 2, h ! 3, h ! 4)
     of (a, b, c, d, e) \<Rightarrow> [h ! 0 + a, h ! 1 + b, h ! 2 + c, h ! 3 + d, h ! 4 + e])"

definition fips_sha1 :: "byte list \<Rightarrow> byte list" where
  "fips_sha1 m = concat (map be_bytes32
     (foldl fips_block1 [0x67452301, 0xEFCDAB89, 0x98BADCFE, 0x10325476, 0xC3D2E1F0] (blocks64 (md_pad m))))"

fun fips_W2 :: "byte list \<Rightarrow> nat \<Rightarrow> u32" where
  "fips_W2 p t = (if t < 16 then be32 p (4 * t)
     else (word_rotr 17 (fips_W2 p (t - 2)) XOR word_rotr 19 (fips_W2 p (t - 2)) XOR drop_bit 10 (fips_W2 p (t - 2)))
        + fips_W2 p (t - 7)
        + (word_rotr 7 (fips_W2 p (t - 15)) XOR word_rotr 18 (fips_W2 p (t - 15)) XOR drop_bit 3 (fips_W2 p (t - 15)))
        + fips_W2 p (t - 16))"

declare fips_W2.simps [simp del]

definition fips_step2 :: "byte list \<Rightarrow> u32x8 \<Rightarrow> nat \<Rightarrow> u32x8" where
  "fips_step2 p = (\<lambda>(a, b, c, d, e, f, g, h) t.
     let t1 = h + (word_rotr 6 e XOR word_rotr 11 e XOR word_rotr 25 e) + fips_Ch e f g + SHA256_K ! t + fips_W2 p t;
         t2 = (word_rotr 2 a XOR word_rotr 13 a XOR word_rotr 22 a) + fips_Maj a b c
     in (t1 + t2, a, b, c, d + t1, e, f, g))"

definition fips_steps2 :: "byte list \<Rightarrow> u32x8 \<Rightarrow> u32x8" where
  "fips_steps2 p s = foldl (fips_step2 p) s [0..<64]"

definition fips_block2 :: "u32 list \<Rightarrow> byte list \<Rightarrow> u32 list" where
  "fips_block2 h p = (case fips_steps2 p (h ! 0, h ! 1, h ! 2, h ! 3, h ! 4, h ! 5, h ! 6, h ! 7)
     of (a, b, c, d, e, f, g, h') \<Rightarrow> [h ! 0 + a, h ! 1 + b, h ! 2 + c, h ! 3 + d,
                                   h ! 4 + e, h ! 5 + f, h ! 6 + g, h ! 7 + h'])"

definition fips_sha256 :: "byte list \<Rightarrow> byte list" where
  "fips_sha256 m = concat (map be_bytes32
     (foldl fips_block2 [0x6a09e667, 0xbb67ae85, 0x3c6ef372, 0xa54ff53a, 0x510e527f, 0x9b05688c, 0x1f83d9ab, 0x5be0cd19]
       (blocks64 (md_pad m))))"

lemma rol_rotl:
  assumes n: "0 < n" "n < 32"
  shows "rol n x = word_rotl n x"
proof (rule bit_word_eqI)
  fix k :: nat
  assume k: "k < LENGTH(32)"
  show "bit (rol n x) k = bit (word_rotl n x) k"
  proof (cases "n \<le> k")
    case True
    then have "(k + (32 - n)) mod 32 = k - n" using n k by (simp add: mod_if)
    moreover have "\<not> bit x (32 - n + k)" using True n by (intro impossible_bit) simp
    ultimately show ?thesis using True n k
      by (simp add: rol_def bit_or_iff bit_push_bit_iff bit_drop_bit_eq bit_word_rotl_iff)
  next
    case False
    then have "(k + (32 - n)) mod 32 = 32 - n + k" using n k by simp
    then show ?thesis using False n k
      by (simp add: rol_def bit_or_iff bit_push_bit_iff bit_drop_bit_eq bit_word_rotl_iff)
  qed
qed

lemma ror_rotr:
  assumes n: "0 < n" "n < 32"
  shows "ror x n = word_rotr n x"
proof (rule bit_word_eqI)
  fix k :: nat
  assume k: "k < LENGTH(32)"
  show "bit (ror x n) k = bit (word_rotr n x) k"
  proof (cases "k + n < 32")
    case True
    then have "\<not> 32 - n \<le> k" using n by simp
    then show ?thesis using True n k
      by (simp add: ror_def bit_or_iff bit_push_bit_iff bit_drop_bit_eq bit_word_rotr_iff add.commute [of n])
  next
    case False
    then have "(k + n) mod 32 = k - (32 - n)" using n k by (simp add: mod_if)
    moreover have "\<not> bit x (n + k)" using False by (intro impossible_bit) simp
    moreover have "32 - n \<le> k" using False by simp
    ultimately show ?thesis using False n k
      by (simp add: ror_def bit_or_iff bit_push_bit_iff bit_drop_bit_eq bit_word_rotr_iff)
  qed
qed

lemma ch_select: "d XOR (b AND (c XOR d)) = fips_Ch b c d"
  unfolding fips_Ch_def by (rule bit_word_eqI) (auto simp: bit_simps)

lemma maj_select: "(b AND c) OR (d AND (b OR c)) = fips_Maj b c d"
  unfolding fips_Maj_def by (rule bit_word_eqI) (auto simp: bit_simps)

lemma nth_map_upt0: "t < n \<Longrightarrow> map f [0..<n] ! t = f t"
  by simp

lemma schedule_prefix1:
  "n \<le> 64 \<Longrightarrow> foldl SHA1_expand (map (\<lambda>t. be32 p (4 * t)) [0..<16]) [16..<16 + n] = map (fips_W1 p) [0..<16 + n]"
proof (induction n)
  case 0
  show ?case by (simp add: fips_W1.simps)
next
  case (Suc n)
  let ?w = "\<lambda>k. fips_W1 p (16 + n - k)"
  have "fips_W1 p (16 + n) = rol 1 (?w 3 XOR ?w 8 XOR ?w 14 XOR ?w 16)"
    by (subst fips_W1.simps) (simp add: rol_rotl)
  moreover have "SHA1_expand (map (fips_W1 p) [0..<16 + n]) (16 + n)
      = map (fips_W1 p) [0..<16 + n] @ [rol 1 (?w 3 XOR ?w 8 XOR ?w 14 XOR ?w 16)]"
    by (simp only: SHA1_expand_def) (simp add: nth_map_upt0 del: upt.simps)
  ultimately show ?case using Suc
    by (simp only: add_Suc_right upt_Suc_append [OF le_add1] upt_Suc_append [OF le0] foldl_append) simp
qed

lemma SHA1_schedule_eq: "SHA1_schedule p = map (fips_W1 p) [0..<80]"
proof -
  have "16 + 64 = (80 :: nat)" by simp
  then show ?thesis using schedule_prefix1 [of 64 p] unfolding SHA1_schedule_def by (simp only: order_refl)
qed

lemma SHA1_schedule_nth: "t < 80 \<Longrightarrow> SHA1_schedule p ! t = fips_W1 p t"
  by (simp only: SHA1_schedule_eq nth_map_upt0)

lemma schedule_prefix2:
  "n \<le> 48 \<Longrightarrow> foldl SHA256_expand (map (\<lambda>t. be32 p (4 * t)) [0..<16]) [16..<16 + n] = map (fips_W2 p) [0..<16 + n]"
proof (induction n)
  case 0
  show ?case by (simp add: fips_W2.simps)
next
  case (Suc n)
  let ?w = "\<lambda>k. fips_W2 p (16 + n - k)"
  let ?x = "?w 16 + (ror (?w 15) 7 XOR ror (?w 15) 18 XOR shr (?w 15) 3) + ?w 7
      + (ror (?w 2) 17 XOR ror (?w 2) 19 XOR shr (?w 2) 10)"
  have "fips_W2 p (16 + n) = ?x"
    by (subst fips_W2.simps) (simp add: ror_rotr shr_def ac_simps)
  moreover have "SHA256_expand (map (fips_W2 p) [0..<16 + n]) (16 + n)
      = map (fips_W2 p) [0..<16 + n] @ [?x]"
    by (simp only: SHA256_expand_def Let_def) (simp add: nth_map_upt0 del: upt.simps)
  ultimately show ?case using Suc
    by (simp only: add_Suc_right upt_Suc_append [OF le_add1] upt_Suc_append [OF le0] foldl_append) simp
qed

lemma SHA256_schedule_nth: "t < 64 \<Longrightarrow> SHA256_schedule p ! t = fips_W2 p t"
proof -
  have "16 + 48 = (64 :: nat)" by simp
  then have "SHA256_schedule p = map (fips_W2 p) [0..<64]"
    using schedule_prefix2 [of 48 p] unfolding SHA256_schedule_def by (simp only: order_refl)
  then show "t < 64 \<Longrightarrow> SHA256_schedule p ! t = fips_W2 p t" by (simp only: nth_map_upt0)
qed

lemma SHA1_round_eq: "t < 80 \<Longrightarrow> SHA1_round (SHA1_schedule p) s t = fips_step1 p s t"
  by (cases s) (simp add: SHA1_round_def fips_step1_def SHA1_schedule_nth rol_rotl ch_select maj_select
      fips_f1_def fips_K1_def fips_Parity_def ac_simps)

lemma SHA256_round_eq: "t < 64 \<Longrightarrow> SHA256_round (SHA256_schedule p) s t = fips_step2 p s t"
  by (simp add: SHA256_round_def fips_step2_def SHA256_schedule_nth ror_rotr
      fips_Maj_def fips_Ch_def ac_simps Let_def split: prod.split)

lemma SHA1_compress_eq:
  assumes "length st = 8"
  shows "take 5 (SHA1_compress p st) = fips_block1 (take 5 st) p"
proof -
  have e: "SHA1_rounds (SHA1_schedule p) s = fips_steps1 p s" for s
    unfolding SHA1_rounds_def fips_steps1_def by (rule foldl_cong) (auto simp: SHA1_round_eq)
  obtain a b c d e x where "st = a # b # c # d # e # x"
    using assms by (auto simp: length_Suc_conv eval_nat_numeral)
  then show ?thesis
    by (simp add: SHA1_compress_def fips_block1_def e Let_def eval_nat_numeral split: prod.splits)
qed

lemma SHA256_compress_eq:
  assumes "length st = 8"
  shows "SHA256_compress p st = fips_block2 st p"
proof -
  have e: "SHA256_rounds (SHA256_schedule p) s = fips_steps2 p s" for s
    unfolding SHA256_rounds_def fips_steps2_def by (rule foldl_cong) (auto simp: SHA256_round_eq)
  obtain a b c d e f g h where "st = [a, b, c, d, e, f, g, h]"
    using assms by (auto simp: length_Suc_conv eval_nat_numeral)
  then show ?thesis
    by (simp add: SHA256_compress_def fips_block2_def e Let_def eval_nat_numeral split: prod.splits)
qed

subsection \<open>The code computes the reference\<close>

lemma SHA1_compress_length: "length (SHA1_compress p st) = length st"
  by (simp add: SHA1_compress_def Let_def split: prod.split)

lemma foldl_SHA1_compress:
  "length st = 8 \<Longrightarrow>
     length (foldl (\<lambda>st b. SHA1_compress b st) st bs) = 8
   \<and> take 5 (foldl (\<lambda>st b. SHA1_compress b st) st bs) = foldl fips_block1 (take 5 st) bs"
  by (induction bs arbitrary: st) (simp_all add: SHA1_compress_length SHA1_compress_eq)

lemma fips_block2_length: "length (fips_block2 h p) = 8"
  by (simp add: fips_block2_def split: prod.split)

lemma foldl_SHA256_compress:
  "length st = 8 \<Longrightarrow>
     foldl (\<lambda>st b. SHA256_compress b st) st bs = foldl fips_block2 st bs"
  by (induction bs arbitrary: st) (simp_all add: SHA256_compress_eq fips_block2_length)

definition SHA_repr :: "HASH_CTX \<Rightarrow> byte list \<Rightarrow> bool" where
  "SHA_repr c m \<longleftrightarrow> (\<exists>st0. length st0 = 8
     \<and> take 5 st0 = [0x67452301, 0xEFCDAB89, 0x98BADCFE, 0x10325476, 0xC3D2E1F0]
     \<and> md_repr SHA1_compress st0 c m)"

definition SHA256_repr :: "HASH_CTX \<Rightarrow> byte list \<Rightarrow> bool" where
  "SHA256_repr c m \<longleftrightarrow> md_repr SHA256_compress
     [0x6a09e667, 0xbb67ae85, 0x3c6ef372, 0xa54ff53a, 0x510e527f, 0x9b05688c, 0x1f83d9ab, 0x5be0cd19] c m"

text \<open>What a caller reads of the buffer that \<open>SHA_final\<close> and \<open>SHA256_final\<close> return.\<close>

definition SHA_digest :: "HASH_CTX \<Rightarrow> byte list" where
  "SHA_digest c = take 20 (hc_buf (SHA_final c))"

definition SHA256_digest :: "HASH_CTX \<Rightarrow> byte list" where
  "SHA256_digest c = take 32 (hc_buf (SHA256_final c))"

lemma list8_cases:
  assumes "length st = 8"
  obtains a b c d e f g h where "st = [a, b, c, d, e, f, g, h]"
  using assms by (auto simp: length_Suc_conv eval_nat_numeral)

lemma SHA_repr_init: "ctx_ok c \<Longrightarrow> SHA_repr (SHA_init c) []"
proof -
  assume c: "ctx_ok c"
  then obtain a1 a2 a3 a4 a5 a6 a7 a8 where "hc_state c = [a1, a2, a3, a4, a5, a6, a7, a8]"
    by (auto simp: ctx_ok_def elim: list8_cases)
  with c have "md_repr SHA1_compress
      [0x67452301, 0xEFCDAB89, 0x98BADCFE, 0x10325476, 0xC3D2E1F0, a6, a7, a8] (SHA_init c) []"
    by (simp add: SHA_init_def md_repr_def ctx_ok_def)
  then show ?thesis unfolding SHA_repr_def
    by (intro exI [of _ "[0x67452301, 0xEFCDAB89, 0x98BADCFE, 0x10325476, 0xC3D2E1F0, a6, a7, a8]"]) simp
qed

lemma SHA256_repr_init: "ctx_ok c \<Longrightarrow> SHA256_repr (SHA256_init c) []"
proof -
  assume c: "ctx_ok c"
  then obtain a1 a2 a3 a4 a5 a6 a7 a8 where "hc_state c = [a1, a2, a3, a4, a5, a6, a7, a8]"
    by (auto simp: ctx_ok_def elim: list8_cases)
  with c show ?thesis
    by (simp add: SHA256_repr_def SHA256_init_def md_repr_def ctx_ok_def)
qed

lemma hc_buf_written: "hc_buf (c\<lparr>hc_buf := b\<rparr>) = b"
  by simp

lemma SHA_repr_update: "SHA_repr c m \<Longrightarrow> SHA_repr (SHA_update c d) (m @ d)"
  unfolding SHA_repr_def by (blast intro: sha1.repr_update)

lemma SHA256_repr_update: "SHA256_repr c m \<Longrightarrow> SHA256_repr (SHA256_update c d) (m @ d)"
  unfolding SHA256_repr_def by (rule sha256.repr_update)

lemma concat_be_take:
  "n \<le> length st \<Longrightarrow> concat (map (\<lambda>i. be_bytes32 (st ! i)) [0..<n]) = concat (map be_bytes32 (take n st))"
proof -
  assume n: "n \<le> length st"
  have "map (\<lambda>i. be_bytes32 (st ! i)) [0..<n] = map be_bytes32 (take n st)"
    using n by (intro nth_equalityI) auto
  then show ?thesis by simp
qed

lemma length_concat_be: "length (concat (map be_bytes32 ws)) = 4 * length ws"
  by (induction ws) simp_all

lemma SHA_repr_digest:
  assumes "SHA_repr c m"
  shows "SHA_digest c = fips_sha1 m"
proof -
  from assms obtain st0 where l: "length st0 = 8"
    and h: "take 5 st0 = [0x67452301, 0xEFCDAB89, 0x98BADCFE, 0x10325476, 0xC3D2E1F0]"
    and r: "md_repr SHA1_compress st0 c m" by (auto simp: SHA_repr_def)
  let ?st = "foldl (\<lambda>st b. SHA1_compress b st) st0 (blocks64 (md_pad m))"
  have st: "length ?st = 8" "take 5 ?st = foldl fips_block1 (take 5 st0) (blocks64 (md_pad m))"
    using foldl_SHA1_compress [OF l] by blast+
  have "length (take 5 ?st) = 5" using st(1) by simp
  then have len: "length (concat (map be_bytes32 (take 5 ?st))) = 20" by (simp only: length_concat_be)
  have "hc_buf (SHA_final c) = concat (map be_bytes32 (take 5 ?st)) @ drop 20 (hc_buf (foldl
      (\<lambda>ctx i. SHA_update ctx [ucast (drop_bit ((7 - i) * 8) (hc_count c * 8))])
      (SHA_pad_loop (SHA_update c [0x80])) [0..<8]))"
    unfolding SHA_final_def Let_def using st
    by (simp only: hc_buf_written sha1.padded_state [OF r refl] concat_be_take)
  then have "SHA_digest c = concat (map be_bytes32 (take 5 ?st))"
    unfolding SHA_digest_def using len by (simp only: take_append) simp
  then show ?thesis unfolding fips_sha1_def st h .
qed

lemma SHA256_repr_digest:
  assumes "SHA256_repr c m"
  shows "SHA256_digest c = fips_sha256 m"
proof -
  let ?iv = "[0x6a09e667, 0xbb67ae85, 0x3c6ef372, 0xa54ff53a, 0x510e527f, 0x9b05688c, 0x1f83d9ab, 0x5be0cd19] :: u32 list"
  from assms have r: "md_repr SHA256_compress ?iv c m" by (simp add: SHA256_repr_def)
  let ?st = "foldl fips_block2 ?iv (blocks64 (md_pad m))"
  have st: "foldl (\<lambda>st b. SHA256_compress b st) ?iv (blocks64 (md_pad m)) = ?st"
    by (rule foldl_SHA256_compress) simp
  have l: "length ?st = 8"
    by (rule foldl_const_inv [where P = "\<lambda>s. length s = 8"]) (simp_all add: fips_block2_length)
  have len: "length (concat (map be_bytes32 ?st)) = 32" by (simp only: length_concat_be l)
  have "hc_buf (SHA256_final c) = concat (map be_bytes32 (take 8 ?st)) @ drop 32 (hc_buf (foldl
      (\<lambda>ctx i. SHA256_update ctx [ucast (drop_bit ((7 - i) * 8) (hc_count c * 8))])
      (SHA256_pad_loop (SHA256_update c [0x80])) [0..<8]))"
    unfolding SHA256_final_def Let_def using l
    by (simp only: hc_buf_written sha256.padded_state [OF r refl] st concat_be_take)
  then have "SHA256_digest c = concat (map be_bytes32 ?st)"
    unfolding SHA256_digest_def using len l by (simp only: take_append) simp
  then show ?thesis unfolding fips_sha256_def .
qed

interpretation sha1_stream: hash_stream ctx_ok SHA_init SHA_update SHA_digest SHA_repr fips_sha1 "\<lambda>_. True"
  by unfold_locales (blast intro: SHA_repr_init SHA_repr_update SHA_repr_digest)+

interpretation sha256_stream: hash_stream ctx_ok SHA256_init SHA256_update SHA256_digest SHA256_repr fips_sha256 "\<lambda>_. True"
  by unfold_locales (blast intro: SHA256_repr_init SHA256_repr_update SHA256_repr_digest)+

subsection \<open>Properties\<close>

lemma SHA_hash_digest: "SHA_hash c0 data = SHA_digest (SHA_update (SHA_init c0) data)"
  by (simp add: SHA_hash_def SHA_digest_def)

lemma SHA256_hash_digest: "SHA256_hash c0 data = SHA256_digest (SHA256_update (SHA256_init c0) data)"
  by (simp add: SHA256_hash_def SHA256_digest_def)

text \<open>(C7) The one-shot \<open>SHA256_hash\<close> of sha256.c, whatever the stack context held before, is the
  SHA-256 of FIPS 180 of its input.\<close>

theorem SHA256_hash_correct:
  assumes "ctx_ok c0"
  shows "SHA256_hash c0 data = fips_sha256 data"
  unfolding SHA256_hash_digest by (rule sha256_stream.digest_one [OF assms TrueI])

definition dirty_ctx :: HASH_CTX where
  "dirty_ctx = \<lparr>hc_f = SHA_VTAB, hc_count = 7, hc_buf = replicate 64 1, hc_state = replicate 8 2\<rparr>"

lemma dirty_ctx_ok: "ctx_ok dirty_ctx"
  by (simp add: dirty_ctx_def ctx_ok_def)

theorem SHA256_hash_correct_witness:
  "ctx_ok dirty_ctx \<and> SHA256_hash dirty_ctx (str ''abc'') = fips_sha256 (str ''abc'')"
  using dirty_ctx_ok SHA256_hash_correct [OF dirty_ctx_ok] by blast

text \<open>(C20) The one-shot \<open>SHA_hash\<close> of sha.c is the SHA-1 of FIPS 180 of its input.\<close>

theorem SHA_hash_correct:
  assumes "ctx_ok c0"
  shows "SHA_hash c0 data = fips_sha1 data"
  unfolding SHA_hash_digest by (rule sha1_stream.digest_one [OF assms TrueI])

theorem SHA_hash_correct_witness:
  "ctx_ok dirty_ctx \<and> SHA_hash dirty_ctx (str ''abc'') = fips_sha1 (str ''abc'')"
  using dirty_ctx_ok SHA_hash_correct [OF dirty_ctx_ok] by blast

text \<open>Feeding a message to \<open>SHA256_update\<close> in any pieces gives the digest of the whole: what the
  package verifier relies on when it hashes a file buffer by buffer.\<close>

theorem SHA256_chunked:
  assumes "ctx_ok c"
  shows "SHA256_digest (foldl SHA256_update (SHA256_init c) ds) = fips_sha256 (concat ds)"
  by (rule sha256_stream.digest_chunks [OF assms]) (simp add: list_all_iff)

theorem SHA256_chunked_witness:
  "SHA256_digest (foldl SHA256_update (SHA256_init dirty_ctx) [str ''ab'', [], str ''c''])
     = fips_sha256 (str ''abc'')"
  using SHA256_chunked [OF dirty_ctx_ok, of "[str ''ab'', [], str ''c'']"] by (simp add: str_def)

end
