(* ===== verification/Mincrypt_Rsa.thy ===== *)
theory Mincrypt_Rsa
  imports Mincrypt_Hash
begin

section \<open>libmincrypt: RSA signature verification\<close>

text \<open>
  \<^verbatim>\<open>libmincrypt/rsa.c\<close> and \<^verbatim>\<open>includes/mincrypt/rsa.h\<close>: Montgomery multiplication over little-endian
  arrays of 32-bit words, the public exponentiation built on it, and the PKCS1.5 check that
  compares a hash of the decrypted signature with a constant.
\<close>

subsection \<open>The code\<close>

definition RSANUMBYTES :: nat where "RSANUMBYTES = 256"
definition RSANUMWORDS :: nat where "RSANUMWORDS = 64"

record RSAPublicKey =
  rk_len :: int
  rk_n0inv :: u32
  rk_n :: "u32 list"
  rk_rr :: "u32 list"
  rk_exponent :: int

abbreviation klen :: "RSAPublicKey \<Rightarrow> nat" where
  "klen key \<equiv> nat (rk_len key)"

text \<open>\<^verbatim>\<open>a[] -= mod\<close>; the state of the loop is the borrow \<open>A\<close> (an \<^verbatim>\<open>int64_t\<close>) and the array.\<close>

definition subM_step :: "RSAPublicKey \<Rightarrow> u64 \<times> u32 list \<Rightarrow> nat \<Rightarrow> u64 \<times> u32 list" where
  "subM_step key = (\<lambda>(A, a) i.
     let A = A + (ucast (a ! i) - ucast (rk_n key ! i))
     in (signed_drop_bit 32 A, a[i := ucast A]))"

definition subM :: "RSAPublicKey \<Rightarrow> u32 list \<Rightarrow> u32 list" where
  "subM key a = snd (foldl (subM_step key) (0, a) [0..<klen key])"

text \<open>\<^verbatim>\<open>return a[] >= mod\<close>: from the most significant word down.\<close>

fun geM_loop :: "RSAPublicKey \<Rightarrow> u32 list \<Rightarrow> nat \<Rightarrow> bool" where
  "geM_loop key a 0 = True"
| "geM_loop key a (Suc i) =
     (if a ! i < rk_n key ! i then False
      else if a ! i > rk_n key ! i then True
      else geM_loop key a i)"

definition geM :: "RSAPublicKey \<Rightarrow> u32 list \<Rightarrow> bool" where
  "geM key a = geM_loop key a (klen key)"

text \<open>\<^verbatim>\<open>montgomery c[] += a * b[] / R % mod\<close>; the state of the loop is \<open>A\<close>, \<open>B\<close> and the array \<open>c\<close>.\<close>

definition montMulAdd_step :: "RSAPublicKey \<Rightarrow> u32 \<Rightarrow> u32 list \<Rightarrow> u32
    \<Rightarrow> u64 \<times> u64 \<times> u32 list \<Rightarrow> nat \<Rightarrow> u64 \<times> u64 \<times> u32 list" where
  "montMulAdd_step key a b d0 = (\<lambda>(A, B, c) i.
     let A = drop_bit 32 A + ucast a * ucast (b ! i) + ucast (c ! i);
         B = drop_bit 32 B + ucast d0 * ucast (rk_n key ! i) + ucast (ucast A :: u32)
     in (A, B, c[i - 1 := ucast B]))"

definition montMulAdd :: "RSAPublicKey \<Rightarrow> u32 list \<Rightarrow> u32 \<Rightarrow> u32 list \<Rightarrow> u32 list" where
  "montMulAdd key c a b =
     (let A = ucast a * ucast (b ! 0) + ucast (c ! 0);
          d0 = ucast A * rk_n0inv key;
          B = ucast d0 * ucast (rk_n key ! 0) + ucast (ucast A :: u32);
          (A, B, c) = foldl (montMulAdd_step key a b d0) (A, B, c) [1..<klen key];
          A = drop_bit 32 A + drop_bit 32 B;
          c = c[klen key - 1 := ucast A]
      in if drop_bit 32 A \<noteq> 0 then subM key c else c)"

text \<open>\<^verbatim>\<open>montgomery c[] = a[] * b[] / R % mod\<close>\<close>

definition montMul :: "RSAPublicKey \<Rightarrow> u32 list \<Rightarrow> u32 list \<Rightarrow> u32 list \<Rightarrow> u32 list" where
  "montMul key c a b =
     (let c = foldl (\<lambda>c i. c[i := 0]) c [0..<klen key]
      in foldl (\<lambda>c i. montMulAdd key c (a ! i) b) c [0..<klen key])"

text \<open>In-place public exponentiation. \<open>stk\<close> is what the three stack arrays held before; \<open>None\<close>
  is the null pointer the code dereferences for an exponent it does not know.\<close>

definition words_of_bytes :: "RSAPublicKey \<Rightarrow> byte list \<Rightarrow> u32 list \<Rightarrow> u32 list" where
  "words_of_bytes key inout a =
     foldl (\<lambda>a i. a[i := be32 inout ((klen key - 1 - i) * 4)]) a [0..<klen key]"

definition bytes_of_words :: "RSAPublicKey \<Rightarrow> u32 list \<Rightarrow> byte list \<Rightarrow> byte list" where
  "bytes_of_words key aaa inout =
     concat (map (\<lambda>i. be_bytes32 (aaa ! i)) (rev [0..<klen key])) @ drop (4 * klen key) inout"

definition modpow_f4 :: "RSAPublicKey \<Rightarrow> u32 list \<Rightarrow> u32 list \<Rightarrow> u32 list \<Rightarrow> u32 list" where
  "modpow_f4 key a aR aaR =
     (let aR = montMul key aR a (rk_rr key);
          (aR, aaR) = foldl (\<lambda>(aR, aaR) i.
              let aaR = montMul key aaR aR aR;
                  aR = montMul key aR aaR aaR
              in (aR, aaR)) (aR, aaR) [0, 2, 4, 6, 8, 10, 12, 14 :: nat]
      in montMul key aaR aR a)"

definition modpow_3 :: "RSAPublicKey \<Rightarrow> u32 list \<Rightarrow> u32 list \<Rightarrow> u32 list \<Rightarrow> u32 list" where
  "modpow_3 key a aR aaR =
     (let aR = montMul key aR a (rk_rr key);
          aaR = montMul key aaR aR aR
      in montMul key aR aaR a)"

definition modpow :: "RSAPublicKey \<Rightarrow> u32 list \<times> u32 list \<times> u32 list \<Rightarrow> byte list \<Rightarrow> byte list option" where
  "modpow key stk inout =
     (let (a, aR, aaR) = stk;
          a = words_of_bytes key inout a;
          aaa = (if rk_exponent key = 65537 then Some (modpow_f4 key a aR aaR)
                 else if rk_exponent key = 3 then Some (modpow_3 key a aR aaR)
                 else None)
      in case aaa of
           None \<Rightarrow> None
         | Some aaa \<Rightarrow>
             let aaa = (if geM key aaa then subM key aaa else aaa)
             in Some (bytes_of_words key aaa inout))"

definition kExpectedPadShaRsa2048 :: "byte list" where
  "kExpectedPadShaRsa2048 = [
    0xdc, 0xbd, 0xbe, 0x42, 0xd5, 0xf5, 0xa7, 0x2e,
    0x6e, 0xfc, 0xf5, 0x5d, 0xaf, 0x9d, 0xea, 0x68,
    0x7c, 0xfb, 0xf1, 0x67]"

definition kExpectedPadSha256Rsa2048 :: "byte list" where
  "kExpectedPadSha256Rsa2048 = [
    0xab, 0x28, 0x8d, 0x8a, 0xd7, 0xd9, 0x59, 0x92,
    0xba, 0xcc, 0xf8, 0x67, 0x20, 0xe1, 0x15, 0x2e,
    0x39, 0x8d, 0x80, 0x36, 0xd6, 0x6f, 0xf0, 0xfd,
    0x90, 0xe8, 0x7d, 0x8b, 0xe1, 0x7c, 0x87, 0x59]"

definition RSA_verify :: "RSAPublicKey \<Rightarrow> byte list \<Rightarrow> int \<Rightarrow> byte list \<Rightarrow> int
    \<Rightarrow> u32 list \<times> u32 list \<times> u32 list \<Rightarrow> HASH_CTX \<Rightarrow> bool" where
  "RSA_verify key signature len hash hash_len stk c0 =
     (if rk_len key \<noteq> int RSANUMWORDS then False
      else if len \<noteq> int RSANUMBYTES then False
      else if hash_len \<noteq> 20 \<and> hash_len \<noteq> 32 then False
      else if rk_exponent key \<noteq> 3 \<and> rk_exponent key \<noteq> 65537 then False
      else
        let buf = map (\<lambda>i. signature ! i) [0..<nat len]
        in case modpow key stk buf of
             None \<Rightarrow> False
           | Some buf \<Rightarrow>
               let buf = foldl (\<lambda>buf i. buf[i := buf ! i XOR hash ! (i - nat (len - hash_len))])
                           buf [nat (len - hash_len)..<nat len];
                   (buf, padding_hash) =
                     (if hash_len = 20
                      then (SHA_hash c0 buf @ drop 20 buf, kExpectedPadShaRsa2048)
                      else (SHA256_hash c0 buf @ drop 32 buf, kExpectedPadSha256Rsa2048))
               in list_all (\<lambda>i. buf ! i = padding_hash ! i) [0..<nat hash_len])"

subsection \<open>Word arrays as numbers\<close>

fun val :: "u32 list \<Rightarrow> int" where
  "val [] = 0"
| "val (w # ws) = uint w + 2 ^ 32 * val ws"

lemma val_append: "val (xs @ ys) = val xs + 2 ^ (32 * length xs) * val ys"
  by (induction xs) (simp_all add: power_add algebra_simps)

lemma val_nonneg [simp]: "0 \<le> val xs"
  by (induction xs) simp_all

lemma val_less: "val xs < 2 ^ (32 * length xs)"
proof (induction xs)
  case Nil
  show ?case by simp
next
  case (Cons w ws)
  have "uint w < 2 ^ 32" using uint_lt2p [of w] by simp
  moreover have "val ws + 1 \<le> 2 ^ (32 * length ws)" using Cons by simp
  then have "2 ^ 32 * (val ws + 1) \<le> 2 ^ 32 * 2 ^ (32 * length ws)" by simp
  ultimately show ?case by (simp add: power_add algebra_simps)
qed

lemma val_take_Suc:
  "i < length xs \<Longrightarrow> val (take (Suc i) xs) = val (take i xs) + 2 ^ (32 * i) * uint (xs ! i)"
  by (simp add: take_Suc_conv_app_nth val_append min_def)

lemma val_take_1: "0 < length xs \<Longrightarrow> val (take 1 xs) = uint (xs ! 0)"
  using val_take_Suc [of 0 xs] by simp

lemma val_replicate_0 [simp]: "val (replicate n 0) = 0"
  by (induction n) simp_all

subsection \<open>64-bit accumulators as integers\<close>

lemma uint_of_int64: "0 \<le> k \<Longrightarrow> k < 2 ^ 64 \<Longrightarrow> uint (of_int k :: u64) = k"
  by (simp add: uint_word_of_int_eq take_bit_int_eq_self)

lemma ucast_of_int64: "ucast (of_int k :: u64) = (of_int k :: u32)"
  by (rule bit_word_eqI) (simp add: bit_simps)

lemma ucast_of_uint: "ucast (w :: u32) = (of_int (uint w) :: u64)"
  by (rule bit_word_eqI) (simp add: bit_simps)

lemma uint_of_int32: "uint (of_int k :: u32) = k mod 2 ^ 32"
  by (simp add: uint_word_of_int_eq take_bit_eq_mod)

lemma drop_bit_of_int64:
  assumes "0 \<le> k" "k < 2 ^ 64"
  shows "drop_bit 32 (of_int k :: u64) = of_int (k div 2 ^ 32)"
proof (rule word_uint_eqI)
  have "0 \<le> k div 2 ^ 32" "k div 2 ^ 32 < 2 ^ 64" using assms by simp_all
  then have "uint (of_int (k div 2 ^ 32) :: u64) = k div 2 ^ 32" by (rule uint_of_int64)
  then show "uint (drop_bit 32 (of_int k :: u64)) = uint (of_int (k div 2 ^ 32) :: u64)"
    using assms by (simp add: drop_bit_eq_div uint_div uint_of_int64)
qed

lemma signed_drop_bit_of_int64:
  assumes "- (2 ^ 63) \<le> k" "k < 2 ^ 63"
  shows "signed_drop_bit 32 (of_int k :: u64) = of_int (k div 2 ^ 32)"
proof -
  have s: "sint (of_int j :: u64) = j" if "- (2 ^ 63) \<le> j" "j < 2 ^ 63" for j
    using that by (simp add: signed_of_int signed_take_bit_int_eq_self)
  have "- (2 ^ 63) \<le> k div 2 ^ 32" "k div 2 ^ 32 < 2 ^ 63" using assms by simp_all
  then have "sint (signed_drop_bit 32 (of_int k :: u64)) = sint (of_int (k div 2 ^ 32) :: u64)"
    using assms by (simp only: sint_signed_drop_bit_eq s drop_bit_eq_div)
  then show ?thesis by (rule signed_word_eqI)
qed

subsection \<open>Subtraction and comparison\<close>

lemma pow32_Suc: "(2 :: int) ^ (32 * Suc i) = 2 ^ 32 * 2 ^ (32 * i)"
  by (simp only: mult_Suc_right power_add)

lemma uint32_lt: "uint (w :: u32) < 2 ^ 32"
  using uint_lt2p [of w] by simp

lemma borrow_bounds:
  fixes k p q :: int
  assumes "k \<in> {- 1, 0}" "0 \<le> p" "p < 2 ^ 32" "0 \<le> q" "q < 2 ^ 32"
  shows "- (2 ^ 32) \<le> k + p - q" "k + p - q < 2 ^ 32"
  using assms by auto

lemma val_take_less: "i \<le> length xs \<Longrightarrow> val (take i xs) < 2 ^ (32 * i)"
  using val_less [of "take i xs"] by (simp del: length_take add: length_take [of i xs] min_absorb2)

lemma subM_loop_inv:
  assumes "i \<le> length a" "i \<le> length (rk_n key)"
  shows "\<exists>k a'. foldl (subM_step key) (0, a) [0..<i] = (of_int k, a')
     \<and> k \<in> {- 1, 0} \<and> length a' = length a \<and> drop i a' = drop i a
     \<and> val (take i a') + 2 ^ (32 * i) * k = val (take i a) - val (take i (rk_n key))"
  using assms
proof (induction i)
  case 0
  show ?case by simp
next
  case (Suc i)
  let ?n = "rk_n key"
  from Suc obtain k a' where st: "foldl (subM_step key) (0, a) [0..<i] = (of_int k, a')"
    and k: "k \<in> {- 1, 0}" and len: "length a' = length a" and dr: "drop i a' = drop i a"
    and eq: "val (take i a') + 2 ^ (32 * i) * k = val (take i a) - val (take i ?n)"
    by auto
  have ai: "a' ! i = a ! i" using dr len Suc.prems by (metis Suc_le_lessD hd_drop_conv_nth)
  define j where "j = k + uint (a ! i) - uint (?n ! i)"
  have jb: "- (2 ^ 32) \<le> j" "j < 2 ^ 32"
    unfolding j_def by (rule borrow_bounds [OF k uint_ge_0 uint32_lt uint_ge_0 uint32_lt])+
  have A: "(of_int k + (ucast (a ! i) - ucast (?n ! i)) :: u64) = of_int j"
    unfolding j_def by (simp only: ucast_of_uint of_int_add of_int_diff add_diff_eq)
  have jd: "j div 2 ^ 32 \<in> {- 1, 0}"
  proof -
    have "- 1 \<le> j div 2 ^ 32" using jb(1) by simp
    moreover have "j div 2 ^ 32 < 1" using jb(2) by simp
    ultimately show ?thesis by auto
  qed
  have step: "foldl (subM_step key) (0, a) [0..<Suc i] = (of_int (j div 2 ^ 32), a'[i := of_int j])"
  proof -
    have "- (2 ^ 63) \<le> j" "j < 2 ^ 63" using jb by simp_all
    then have sd: "signed_drop_bit 32 (of_int j :: u64) = of_int (j div 2 ^ 32)"
      by (rule signed_drop_bit_of_int64)
    have "foldl (subM_step key) (0, a) [0..<Suc i] = subM_step key (of_int k, a') i" by (simp add: st)
    then show ?thesis by (simp only: subM_step_def prod.case Let_def ai A sd ucast_of_int64)
  qed
  have t: "val (take (Suc i) (a'[i := of_int j])) = val (take i a') + 2 ^ (32 * i) * (j mod 2 ^ 32)"
    using len Suc.prems by (simp add: val_take_Suc uint_of_int32)
  have "2 ^ (32 * i) * (j mod 2 ^ 32) + 2 ^ (32 * Suc i) * (j div 2 ^ 32)
      = 2 ^ (32 * i) * (j mod 2 ^ 32 + 2 ^ 32 * (j div 2 ^ 32))"
    by (simp only: pow32_Suc) (simp only: algebra_simps)
  also have "\<dots> = 2 ^ (32 * i) * j" by (simp only: mod_mult_div_eq)
  finally have "2 ^ (32 * i) * (j mod 2 ^ 32) + 2 ^ (32 * Suc i) * (j div 2 ^ 32) = 2 ^ (32 * i) * j" .
  then have "val (take (Suc i) (a'[i := of_int j])) + 2 ^ (32 * Suc i) * (j div 2 ^ 32)
      = val (take i a') + 2 ^ (32 * i) * j" unfolding t by simp
  also have "\<dots> = val (take (Suc i) a) - val (take (Suc i) ?n)"
    using eq Suc.prems by (simp add: j_def val_take_Suc algebra_simps)
  finally show ?case
    using step jd len dr Suc.prems
    by (intro exI [of _ "j div 2 ^ 32"] exI [of _ "a'[i := of_int j]"])
      (simp add: drop_SucI [OF dr])
qed

lemma subM_value:
  assumes "length a = klen key" "length (rk_n key) = klen key"
    and "- (2 ^ (32 * klen key)) \<le> val a - val (rk_n key)"
  shows "length (subM key a) = klen key
     \<and> val (subM key a) = (val a - val (rk_n key)) mod 2 ^ (32 * klen key)"
proof -
  let ?l = "klen key" and ?d = "val a - val (rk_n key)"
  obtain k a' where st: "foldl (subM_step key) (0, a) [0..<?l] = (of_int k, a')"
    and k: "k \<in> {- 1, 0}" and len: "length a' = length a"
    and eq: "val (take ?l a') + 2 ^ (32 * ?l) * k = val (take ?l a) - val (take ?l (rk_n key))"
    using subM_loop_inv [of ?l a key] assms by (metis order_refl)
  have "val a' + 2 ^ (32 * ?l) * k = ?d" using eq len assms by simp
  moreover have "0 \<le> val a'" "val a' < 2 ^ (32 * ?l)" using val_less [of a'] len assms by simp_all
  ultimately have "val a' = ?d mod 2 ^ (32 * ?l)"
    by (metis mod_mult_self2 mod_pos_pos_trivial)
  then show ?thesis using st len assms by (simp add: subM_def)
qed

lemma geM_loop_value:
  "i \<le> length a \<Longrightarrow> i \<le> length (rk_n key) \<Longrightarrow>
     geM_loop key a i \<longleftrightarrow> val (take i (rk_n key)) \<le> val (take i a)"
proof (induction i)
  case 0
  show ?case by simp
next
  case (Suc i)
  let ?n = "rk_n key"
  have lt: "val (take (Suc i) xs) < val (take (Suc i) ys)"
    if "i < length xs" "i < length ys" "xs ! i < ys ! i" for xs ys
  proof -
    have "uint (xs ! i) + 1 \<le> uint (ys ! i)" using that by (simp add: word_less_def)
    then have "2 ^ (32 * i) * (uint (xs ! i) + 1) \<le> 2 ^ (32 * i) * uint (ys ! i)"
      by (intro mult_left_mono) simp_all
    moreover have "val (take i xs) < 2 ^ (32 * i)" using that by (intro val_take_less) simp
    moreover have "0 \<le> val (take i ys)" by simp
    ultimately have "val (take i xs) + 2 ^ (32 * i) * uint (xs ! i) < val (take i ys) + 2 ^ (32 * i) * uint (ys ! i)"
      by (simp only: distrib_left mult_1_right)
    then show ?thesis using that by (simp only: val_take_Suc)
  qed
  show ?case
    using lt [of a ?n] lt [of ?n a] Suc
    by (cases "a ! i < ?n ! i"; cases "?n ! i < a ! i") (auto simp: val_take_Suc)
qed

lemma geM_value:
  assumes "length a = klen key" "length (rk_n key) = klen key"
  shows "geM key a \<longleftrightarrow> val (rk_n key) \<le> val a"
  using geM_loop_value [of "klen key" a key] assms by (simp add: geM_def)

subsection \<open>Montgomery multiplication\<close>

text \<open>The state of \<^verbatim>\<open>montMulAdd\<close>'s loop after \<open>i\<close> words, as an equation between numbers; neither
  accumulator can exceed 64 bits.\<close>

lemma mac_bound:
  fixes x y z w :: int
  assumes "0 \<le> x" "x < 2 ^ 32" "0 \<le> y" "y < 2 ^ 32" "0 \<le> z" "z < 2 ^ 32" "0 \<le> w" "w < 2 ^ 32"
  shows "0 \<le> w + x * y + z \<and> w + x * y + z < 2 ^ 64"
proof -
  have "x * y \<le> (2 ^ 32 - 1) * (2 ^ 32 - 1)" using assms by (intro mult_mono) simp_all
  moreover have "0 \<le> x * y" using assms by simp
  ultimately show ?thesis using assms by simp
qed

lemma hi_bound: "0 \<le> k \<Longrightarrow> k < 2 ^ 64 \<Longrightarrow> 0 \<le> k div 2 ^ 32 \<and> k div 2 ^ 32 < (2 ^ 32 :: int)"
  by (auto simp: div_less_iff_less_mult)

lemma lo_bound: "0 \<le> k mod 2 ^ 32 \<and> k mod 2 ^ 32 < (2 ^ 32 :: int)"
  by simp

lemma lo_hi: "k mod 2 ^ 32 + 2 ^ 32 * (k div 2 ^ 32) = (k :: int)"
  by (rule mod_mult_div_eq)

lemma lo_word: "ucast (ucast (of_int k :: u64) :: u32) = (of_int (k mod 2 ^ 32) :: u64)"
  by (simp only: ucast_of_int64 ucast_of_uint uint_of_int32)

definition mont_inv :: "RSAPublicKey \<Rightarrow> u32 list \<Rightarrow> u32 \<Rightarrow> u32 list \<Rightarrow> u32 \<Rightarrow> nat
    \<Rightarrow> u64 \<times> u64 \<times> u32 list \<Rightarrow> bool" where
  "mont_inv key c a b d i st \<longleftrightarrow> (\<exists>kA kB c'. st = (of_int kA, of_int kB, c')
     \<and> 0 \<le> kA \<and> kA < 2 ^ 64 \<and> 0 \<le> kB \<and> kB < 2 ^ 64
     \<and> length c' = length c \<and> drop i c' = drop i c
     \<and> 2 ^ 32 * val (take (i - 1) c') + 2 ^ (32 * i) * (kA div 2 ^ 32 + kB div 2 ^ 32)
       = val (take i c) + uint a * val (take i b) + uint d * val (take i (rk_n key)))"

lemma mont_invI:
  assumes "st = (of_int kA, of_int kB, c')"
    and "0 \<le> kA \<and> kA < 2 ^ 64" "0 \<le> kB \<and> kB < 2 ^ 64" "length c' = length c" "drop i c' = drop i c"
    and "2 ^ 32 * val (take (i - 1) c') + 2 ^ (32 * i) * (kA div 2 ^ 32 + kB div 2 ^ 32)
       = val (take i c) + uint a * val (take i b) + uint d * val (take i (rk_n key))"
  shows "mont_inv key c a b d i st"
  unfolding mont_inv_def using assms by blast

lemma mont_inv_first:
  assumes l: "0 < klen key" "length c = klen key" "klen key \<le> length b" "length (rk_n key) = klen key"
    and inv: "(uint (rk_n0inv key) * uint (rk_n key ! 0) + 1) mod 2 ^ 32 = 0"
    and A: "A = ucast a * ucast (b ! 0) + ucast (c ! 0)"
    and d: "d = ucast A * rk_n0inv key"
    and B: "B = ucast d * ucast (rk_n key ! 0) + ucast (ucast A :: u32)"
  shows "mont_inv key c a b d 1 (A, B, c)"
proof -
  define kA where "kA = 0 + uint a * uint (b ! 0) + uint (c ! 0)"
  define kB where "kB = 0 + uint d * uint (rk_n key ! 0) + kA mod 2 ^ 32"
  have kA: "0 \<le> kA \<and> kA < 2 ^ 64" unfolding kA_def
    by (rule mac_bound [OF uint_ge_0 uint32_lt uint_ge_0 uint32_lt uint_ge_0 uint32_lt]) simp_all
  have kB: "0 \<le> kB \<and> kB < 2 ^ 64" unfolding kB_def
    by (rule mac_bound [OF uint_ge_0 uint32_lt uint_ge_0 uint32_lt]) simp_all
  have Ak: "A = of_int kA"
    by (simp only: A kA_def ucast_of_uint of_int_add of_int_mult of_int_0 add_0_left)
  have Bk: "B = of_int kB"
    by (simp only: B kB_def Ak ucast_of_int64 ucast_of_uint uint_of_int32 of_int_add of_int_mult of_int_0 add_0_left)
  have "uint d = (kA * uint (rk_n0inv key)) mod 2 ^ 32"
    by (simp add: d Ak ucast_of_int64 uint_mult_lem uint_word_ariths uint_of_int32 mod_mult_left_eq)
  then have "kB mod 2 ^ 32 = (kA * (uint (rk_n0inv key) * uint (rk_n key ! 0) + 1)) mod 2 ^ 32"
    unfolding kB_def by (simp add: mod_mult_left_eq mod_add_eq mod_add_right_eq distrib_left mult.assoc)
      (metis (no_types, opaque_lifting) mod_add_left_eq mod_mult_left_eq mult.assoc)
  also have "\<dots> = 0" using inv by (simp add: mod_eq_0_iff_dvd)
  finally have "2 ^ 32 * (kB div 2 ^ 32) = kB" using lo_hi [of kB] by simp
  then have "2 ^ 32 * (kA div 2 ^ 32 + kB div 2 ^ 32) = kA + uint d * uint (rk_n key ! 0)"
    using lo_hi [of kA] unfolding kB_def by (simp add: distrib_left)
  moreover have "val (take 1 c) = uint (c ! 0)" "val (take 1 b) = uint (b ! 0)"
    "val (take 1 (rk_n key)) = uint (rk_n key ! 0)" by (rule val_take_1, use l in linarith)+
  ultimately have "2 ^ 32 * val (take (1 - 1) c) + 2 ^ (32 * 1) * (kA div 2 ^ 32 + kB div 2 ^ 32)
      = val (take 1 c) + uint a * val (take 1 b) + uint d * val (take 1 (rk_n key))"
    by (simp add: kA_def)
  then show ?thesis using kA kB Ak Bk by (intro mont_invI [of _ kA kB c]) simp_all
qed

lemma mont_inv_step:
  assumes i: "0 < i" "i < klen key"
    and l: "length c = klen key" "klen key \<le> length b" "length (rk_n key) = klen key"
    and inv: "mont_inv key c a b d i st"
  shows "mont_inv key c a b d (Suc i) (montMulAdd_step key a b d st i)"
proof -
  let ?n = "rk_n key"
  obtain kA kB c' where st: "st = (of_int kA, of_int kB, c')"
    and kA: "0 \<le> kA" "kA < 2 ^ 64" and kB: "0 \<le> kB" "kB < 2 ^ 64"
    and len: "length c' = length c" and dr: "drop i c' = drop i c"
    and eq: "2 ^ 32 * val (take (i - 1) c') + 2 ^ (32 * i) * (kA div 2 ^ 32 + kB div 2 ^ 32)
       = val (take i c) + uint a * val (take i b) + uint d * val (take i ?n)"
    using inv unfolding mont_inv_def by blast
  have ci: "c' ! i = c ! i" using dr len l i by (metis hd_drop_conv_nth)
  define jA where "jA = kA div 2 ^ 32 + uint a * uint (b ! i) + uint (c ! i)"
  define jB where "jB = kB div 2 ^ 32 + uint d * uint (?n ! i) + jA mod 2 ^ 32"
  have jA: "0 \<le> jA \<and> jA < 2 ^ 64" unfolding jA_def
    using hi_bound [OF kA]
    by (intro mac_bound [OF uint_ge_0 uint32_lt uint_ge_0 uint32_lt uint_ge_0 uint32_lt]) simp_all
  have jB: "0 \<le> jB \<and> jB < 2 ^ 64" unfolding jB_def
    using hi_bound [OF kB]
    by (intro mac_bound [OF uint_ge_0 uint32_lt uint_ge_0 uint32_lt]) simp_all
  have A: "drop_bit 32 (of_int kA) + ucast a * ucast (b ! i) + ucast (c' ! i) = (of_int jA :: u64)"
    by (simp only: ci jA_def drop_bit_of_int64 [OF kA] ucast_of_uint of_int_add of_int_mult)
  have B: "drop_bit 32 (of_int kB) + ucast d * ucast (?n ! i) + ucast (of_int jA :: u32)
      = (of_int jB :: u64)"
    by (simp only: jB_def drop_bit_of_int64 [OF kB] ucast_of_uint uint_of_int32 of_int_add of_int_mult)
  have step: "montMulAdd_step key a b d st i = (of_int jA, of_int jB, c'[i - 1 := of_int jB])"
    by (simp only: montMulAdd_step_def st prod.case Let_def A B ucast_of_int64)
  have t: "val (take i (c'[i - 1 := of_int jB])) = val (take (i - 1) c') + 2 ^ (32 * (i - 1)) * (jB mod 2 ^ 32)"
    using val_take_Suc [of "i - 1" "c'[i - 1 := of_int jB]"] i l len by (simp add: uint_of_int32)
  have p: "(2 :: int) ^ (32 * i) = 2 ^ 32 * 2 ^ (32 * (i - 1))"
    using i(1) by (cases i) (simp_all add: power_add)
  have "2 ^ 32 * val (take i (c'[i - 1 := of_int jB])) + 2 ^ (32 * Suc i) * (jA div 2 ^ 32 + jB div 2 ^ 32)
      = 2 ^ 32 * val (take (i - 1) c') + 2 ^ (32 * i) * ((jB mod 2 ^ 32 + 2 ^ 32 * (jB div 2 ^ 32)) + 2 ^ 32 * (jA div 2 ^ 32))"
    unfolding t by (simp only: pow32_Suc p) (simp only: algebra_simps)
  also have "\<dots> = 2 ^ 32 * val (take (i - 1) c')
      + 2 ^ (32 * i) * (kB div 2 ^ 32 + uint d * uint (?n ! i) + (jA mod 2 ^ 32 + 2 ^ 32 * (jA div 2 ^ 32)))"
    by (simp only: lo_hi [of jB]) (simp only: jB_def add.assoc)
  also have "\<dots> = (2 ^ 32 * val (take (i - 1) c') + 2 ^ (32 * i) * (kA div 2 ^ 32 + kB div 2 ^ 32))
      + 2 ^ (32 * i) * (uint (c ! i) + uint a * uint (b ! i) + uint d * uint (?n ! i))"
    by (simp only: lo_hi [of jA]) (simp only: jA_def algebra_simps)
  finally have "2 ^ 32 * val (take i (c'[i - 1 := of_int jB])) + 2 ^ (32 * Suc i) * (jA div 2 ^ 32 + jB div 2 ^ 32)
      = val (take (Suc i) c) + uint a * val (take (Suc i) b) + uint d * val (take (Suc i) ?n)"
    using i l by (simp only: eq) (simp add: val_take_Suc algebra_simps)
  moreover have "drop (Suc i) (c'[i - 1 := of_int jB]) = drop (Suc i) c"
    using i by (simp add: drop_SucI [OF dr])
  ultimately show ?thesis
    unfolding step using jA jB len by (intro mont_invI [of _ jA jB "c'[i - 1 := of_int jB]"]) simp_all
qed

lemma mont_inv_loop:
  assumes i: "1 \<le> i" "i \<le> klen key"
    and l: "length c = klen key" "klen key \<le> length b" "length (rk_n key) = klen key"
    and inv: "mont_inv key c a b d 1 st"
  shows "mont_inv key c a b d i (foldl (montMulAdd_step key a b d) st [1..<i])"
  using i
proof (induction i rule: dec_induct)
  case base
  show ?case using inv by simp
next
  case (step i)
  then have "mont_inv key c a b d i (foldl (montMulAdd_step key a b d) st [1..<i])" by simp
  then have "mont_inv key c a b d (Suc i)
      (montMulAdd_step key a b d (foldl (montMulAdd_step key a b d) st [1..<i]) i)"
    using step.hyps step.prems l by (intro mont_inv_step) simp_all
  then show ?case using step.hyps by simp
qed

text \<open>What the routine requires of a key: as many words as it says, and \<^verbatim>\<open>n0inv\<close> as documented
  (\<open>-1 / n[0] mod 2^32\<close>). The number the key stands for is \<open>rsa_n\<close>.\<close>

definition rsa_n :: "RSAPublicKey \<Rightarrow> int" where "rsa_n key = val (rk_n key)"
definition rsa_R :: "RSAPublicKey \<Rightarrow> int" where "rsa_R key = 2 ^ (32 * klen key)"

definition key_ok :: "RSAPublicKey \<Rightarrow> bool" where
  "key_ok key \<longleftrightarrow> 0 < rk_len key \<and> length (rk_n key) = klen key
     \<and> (uint (rk_n0inv key) * uint (rk_n key ! 0) + 1) mod 2 ^ 32 = 0"

lemma key_okD:
  assumes "key_ok key"
  shows "0 < klen key" "length (rk_n key) = klen key"
    "(uint (rk_n0inv key) * uint (rk_n key ! 0) + 1) mod 2 ^ 32 = 0"
  using assms by (auto simp: key_ok_def)

lemma rsa_n_bounds: "key_ok key \<Longrightarrow> 0 \<le> rsa_n key \<and> rsa_n key < rsa_R key"
  using val_less [of "rk_n key"] by (simp add: rsa_n_def rsa_R_def key_okD)

lemma mont_total_bound:
  fixes x a b d n R :: int
  assumes "0 \<le> x" "x < R" "0 \<le> b" "b < R" "0 \<le> n" "n < R"
    and "0 \<le> a" "a < 2 ^ 32" "0 \<le> d" "d < 2 ^ 32"
  shows "x + a * b + d * n < 2 ^ 32 * (R + n)"
proof -
  have "a * b \<le> (2 ^ 32 - 1) * R" using assms by (intro mult_mono) simp_all
  moreover have "d * n \<le> (2 ^ 32 - 1) * n" using assms by (intro mult_right_mono) simp_all
  ultimately show ?thesis using assms by (simp add: algebra_simps)
qed

lemma montMulAdd_value:
  assumes k: "key_ok key" and c: "length c = klen key" and b: "klen key \<le> length b"
    and bb: "val (take (klen key) b) < rsa_R key"
  shows "length (montMulAdd key c a b) = klen key \<and>
    (\<exists>d. 2 ^ 32 * val (montMulAdd key c a b) = val c + uint a * val (take (klen key) b) + d * rsa_n key)"
proof -
  let ?l = "klen key"
  define A where "A = (ucast a * ucast (b ! 0) + ucast (c ! 0) :: u64)"
  define d where "d = ucast A * rk_n0inv key"
  define B where "B = (ucast d * ucast (rk_n key ! 0) + ucast (ucast A :: u32) :: u64)"
  have "mont_inv key c a b d 1 (A, B, c)"
    by (rule mont_inv_first [OF key_okD(1) [OF k] c b key_okD(2,3) [OF k] A_def d_def B_def])
  then have "mont_inv key c a b d ?l (foldl (montMulAdd_step key a b d) (A, B, c) [1..<?l])"
    using key_okD [OF k] c b by (intro mont_inv_loop) simp_all
  then obtain kA kB c' where st: "foldl (montMulAdd_step key a b d) (A, B, c) [1..<?l] = (of_int kA, of_int kB, c')"
    and kA: "0 \<le> kA" "kA < 2 ^ 64" and kB: "0 \<le> kB" "kB < 2 ^ 64" and len: "length c' = ?l"
    and eq: "2 ^ 32 * val (take (?l - 1) c') + 2 ^ (32 * ?l) * (kA div 2 ^ 32 + kB div 2 ^ 32)
       = val c + uint a * val (take ?l b) + uint d * rsa_n key"
    unfolding mont_inv_def using c key_okD [OF k] by (auto simp: rsa_n_def)
  define e where "e = kA div 2 ^ 32 + kB div 2 ^ 32"
  have e: "0 \<le> e" "e < 2 ^ 33" using hi_bound [OF kA] hi_bound [OF kB] unfolding e_def by simp_all
  then have e64: "0 \<le> e" "e < 2 ^ 64" by simp_all
  define r where "r = c'[?l - 1 := of_int e]"
  have A': "drop_bit 32 (of_int kA) + drop_bit 32 (of_int kB) = (of_int e :: u64)"
    by (simp only: e_def drop_bit_of_int64 [OF kA] drop_bit_of_int64 [OF kB] of_int_add)
  have hi: "drop_bit 32 (of_int e :: u64) \<noteq> 0 \<longleftrightarrow> e div 2 ^ 32 \<noteq> 0"
  proof -
    have "0 \<le> e div 2 ^ 32" "e div 2 ^ 32 < 2 ^ 64" using e by (simp_all add: div_less_iff_less_mult)
    then have "uint (of_int (e div 2 ^ 32) :: u64) = e div 2 ^ 32" by (rule uint_of_int64)
    then show ?thesis by (simp only: drop_bit_of_int64 [OF e64] word_uint_eq_iff unsigned_0)
  qed
  have res: "montMulAdd key c a b = (if e div 2 ^ 32 \<noteq> 0 then subM key r else r)"
    unfolding montMulAdd_def Let_def A_def [symmetric] d_def [symmetric] B_def [symmetric] st
    by (simp only: prod.case A' hi ucast_of_int64 r_def)
  have lr: "length r = ?l" using len by (simp add: r_def)
  have "val r = val (take (?l - 1) c') + 2 ^ (32 * (?l - 1)) * (e mod 2 ^ 32)"
    using val_take_Suc [of "?l - 1" r] len key_okD [OF k] by (simp add: r_def uint_of_int32)
  moreover have "rsa_R key = 2 ^ 32 * 2 ^ (32 * (?l - 1))"
    using key_okD(1) [OF k] pow32_Suc [of "?l - 1"] by (simp add: rsa_R_def)
  ultimately have "2 ^ 32 * (val r + rsa_R key * (e div 2 ^ 32))
      = 2 ^ 32 * val (take (?l - 1) c') + rsa_R key * (e mod 2 ^ 32 + 2 ^ 32 * (e div 2 ^ 32))"
    by (simp only:) (simp only: algebra_simps)
  then have tot: "2 ^ 32 * (val r + rsa_R key * (e div 2 ^ 32)) = val c + uint a * val (take ?l b) + uint d * rsa_n key"
    using eq by (simp only: lo_hi e_def rsa_R_def)
  have "val c < rsa_R key" using val_less [of c] c by (simp add: rsa_R_def)
  then have "2 ^ 32 * (val r + rsa_R key * (e div 2 ^ 32)) < 2 ^ 32 * (rsa_R key + rsa_n key)"
    unfolding tot using bb rsa_n_bounds [OF k]
    by (intro mont_total_bound uint32_lt) simp_all
  then have X: "val r + rsa_R key * (e div 2 ^ 32) < rsa_R key + rsa_n key" by simp
  show ?thesis
  proof (cases "e div 2 ^ 32 = 0")
    case True
    then show ?thesis using res lr tot by (intro conjI exI [of _ "uint d"]) simp_all
  next
    case False
    have "e div 2 ^ 32 < 2" using e by (simp add: div_less_iff_less_mult)
    moreover have "0 \<le> e div 2 ^ 32" using e by simp
    ultimately have one: "e div 2 ^ 32 = 1" using False by linarith
    have nb: "0 \<le> rsa_n key" "rsa_n key < rsa_R key" using rsa_n_bounds [OF k] by simp_all
    have "length (subM key r) = ?l \<and> val (subM key r) = (val r - val (rk_n key)) mod 2 ^ (32 * ?l)"
    proof (rule subM_value [OF lr key_okD(2) [OF k]])
      show "- (2 ^ (32 * ?l)) \<le> val r - val (rk_n key)"
        using nb val_nonneg [of r] unfolding rsa_n_def rsa_R_def by linarith
    qed
    moreover have "(val r - val (rk_n key)) mod 2 ^ (32 * ?l) = val r + rsa_R key - rsa_n key"
    proof -
      have "(val r - val (rk_n key)) mod 2 ^ (32 * ?l) = (val r + rsa_R key - rsa_n key) mod rsa_R key"
        by (simp add: rsa_R_def rsa_n_def mod_eq_dvd_iff)
      also have "\<dots> = val r + rsa_R key - rsa_n key"
        using X [unfolded one] nb val_nonneg [of r] by (intro mod_pos_pos_trivial) linarith+
      finally show ?thesis .
    qed
    moreover have "montMulAdd key c a b = subM key r" using res False by simp
    ultimately have "length (montMulAdd key c a b) = ?l"
      "2 ^ 32 * val (montMulAdd key c a b) = val c + uint a * val (take ?l b) + (uint d - 2 ^ 32) * rsa_n key"
      using tot one by (simp_all only:) (simp_all add: algebra_simps)
    then show ?thesis by blast
  qed
qed

lemma val_bound: "length xs = klen key \<Longrightarrow> 0 \<le> val xs \<and> val xs < rsa_R key"
  using val_less [of xs] by (simp add: rsa_R_def)

lemma clear_words: "n \<le> length c \<Longrightarrow> foldl (\<lambda>c i. c[i := 0 :: u32]) c [0..<n] = replicate n 0 @ drop n c"
proof (induction n)
  case 0
  show ?case by simp
next
  case (Suc n)
  then have "foldl (\<lambda>c i. c[i := 0]) c [0..<Suc n] = (replicate n 0 @ drop n c)[n := 0]" by simp
  also have "\<dots> = replicate n 0 @ 0 # drop (Suc n) c"
    using Suc.prems by (simp add: list_update_append Cons_nth_drop_Suc [symmetric])
  finally show ?case by (simp add: replicate_append_same [symmetric])
qed

lemma montMul_value:
  assumes k: "key_ok key" and l: "length c = klen key" "length a = klen key" "length b = klen key"
  shows "length (montMul key c a b) = klen key \<and>
    (\<exists>d. rsa_R key * val (montMul key c a b) = val a * val b + d * rsa_n key)"
proof -
  let ?z = "foldl (\<lambda>c i. c[i := 0 :: u32]) c [0..<klen key]"
  have z: "length ?z = klen key" "val ?z = 0" using l by (simp_all add: clear_words)
  have bb: "val (take (klen key) b) < rsa_R key" using val_bound [OF l(3)] l by simp
  have "length (foldl (\<lambda>c i. montMulAdd key c (a ! i) b) ?z [0..<i]) = klen key \<and>
    (\<exists>d. 2 ^ (32 * i) * val (foldl (\<lambda>c i. montMulAdd key c (a ! i) b) ?z [0..<i])
       = val (take i a) * val b + d * rsa_n key)" (is "?P i") if "i \<le> klen key" for i
    using that
  proof (induction i)
    case 0
    show ?case using z by (auto intro: exI [of _ 0])
  next
    case (Suc i)
    let ?c = "foldl (\<lambda>c i. montMulAdd key c (a ! i) b) ?z [0..<i]"
    obtain d where lc: "length ?c = klen key"
      and d: "2 ^ (32 * i) * val ?c = val (take i a) * val b + d * rsa_n key" using Suc by auto
    obtain d' where lc': "length (montMulAdd key ?c (a ! i) b) = klen key"
      and d': "2 ^ 32 * val (montMulAdd key ?c (a ! i) b) = val ?c + uint (a ! i) * val b + d' * rsa_n key"
      using montMulAdd_value [OF k lc _ bb, of "a ! i"] l by auto
    have "2 ^ (32 * Suc i) * val (montMulAdd key ?c (a ! i) b)
        = 2 ^ (32 * i) * (2 ^ 32 * val (montMulAdd key ?c (a ! i) b))"
      by (simp only: pow32_Suc) (simp only: algebra_simps)
    also have "\<dots> = 2 ^ (32 * i) * val ?c + 2 ^ (32 * i) * (uint (a ! i) * val b + d' * rsa_n key)"
      by (simp only: d') (simp only: algebra_simps)
    also have "\<dots> = val (take (Suc i) a) * val b + (d + 2 ^ (32 * i) * d') * rsa_n key"
      using Suc.prems l by (simp only: d val_take_Suc Suc_le_eq) (simp only: algebra_simps)
    finally show ?case using lc' by (auto simp del: power_Suc)
  qed
  from this [of "klen key"] show ?thesis
    using l by (simp only: montMul_def Let_def rsa_R_def take_all order_refl)
qed

text \<open>The same as a congruence, which is what the exponentiation composes.\<close>

definition cong_n :: "RSAPublicKey \<Rightarrow> int \<Rightarrow> int \<Rightarrow> bool" where
  "cong_n key x y \<longleftrightarrow> rsa_n key dvd x - y"

lemma cong_n_trans: "cong_n key x y \<Longrightarrow> cong_n key y z \<Longrightarrow> cong_n key x z"
  unfolding cong_n_def using dvd_add [of "rsa_n key" "x - y" "y - z"] by simp

lemma cong_n_mult: "cong_n key x y \<Longrightarrow> cong_n key x' y' \<Longrightarrow> cong_n key (x * x') (y * y')"
  unfolding cong_n_def mod_eq_dvd_iff [symmetric] by (rule mod_mult_cong)

lemma cong_n_refl [simp]: "cong_n key x x"
  by (simp add: cong_n_def)

lemma cong_n_cancel:
  assumes "odd (rsa_n key)" "cong_n key (rsa_R key * x) (rsa_R key * y)"
  shows "cong_n key x y"
proof -
  have "coprime (rsa_n key) (rsa_R key)"
    using assms(1) by (simp add: rsa_R_def coprime_right_2_iff_odd)
  moreover have "rsa_n key dvd rsa_R key * (x - y)" using assms(2) by (simp add: cong_n_def algebra_simps)
  ultimately show ?thesis by (simp add: cong_n_def coprime_dvd_mult_right_iff)
qed

lemma montMul_cong:
  assumes "key_ok key" "length c = klen key" "length a = klen key" "length b = klen key"
  shows "length (montMul key c a b) = klen key"
    "cong_n key (rsa_R key * val (montMul key c a b)) (val a * val b)"
  using montMul_value [OF assms] by (auto simp: cong_n_def)

lemma montMul_std:
  assumes k: "key_ok key" "odd (rsa_n key)" and l: "length c = klen key" "length a = klen key" "length b = klen key"
    and a: "cong_n key (val a) (rsa_R key * x)" and b: "cong_n key (val b) (rsa_R key * y)"
  shows "cong_n key (val (montMul key c a b)) (rsa_R key * (x * y))"
proof (rule cong_n_cancel [OF k(2)])
  have "cong_n key (val a * val b) (rsa_R key * x * (rsa_R key * y))" by (rule cong_n_mult [OF a b])
  then show "cong_n key (rsa_R key * val (montMul key c a b)) (rsa_R key * (rsa_R key * (x * y)))"
    using cong_n_trans [OF montMul_cong(2) [OF k(1) l]] by (simp add: algebra_simps)
qed

lemma montMul_out:
  assumes k: "key_ok key" "odd (rsa_n key)" and l: "length c = klen key" "length a = klen key" "length b = klen key"
    and a: "cong_n key (val a) (rsa_R key * x)"
  shows "cong_n key (val (montMul key c a b)) (x * val b)"
proof (rule cong_n_cancel [OF k(2)])
  have "cong_n key (val a * val b) (rsa_R key * x * val b)" by (rule cong_n_mult [OF a cong_n_refl])
  then show "cong_n key (rsa_R key * val (montMul key c a b)) (rsa_R key * (x * val b))"
    using cong_n_trans [OF montMul_cong(2) [OF k(1) l]] by (simp add: algebra_simps)
qed

text \<open>The rest of what a key promises (\<^verbatim>\<open>rr = R^2 mod N\<close>, an odd modulus with its top bit set).\<close>

definition key_wf :: "RSAPublicKey \<Rightarrow> bool" where
  "key_wf key \<longleftrightarrow> key_ok key \<and> odd (rsa_n key) \<and> length (rk_rr key) = klen key
     \<and> (val (rk_rr key) - rsa_R key * rsa_R key) mod rsa_n key = 0
     \<and> rsa_R key \<le> 2 * rsa_n key"

lemma montMul_in:
  assumes "key_wf key" "length c = klen key" "length a = klen key"
  shows "length (montMul key c a (rk_rr key)) = klen key"
    "cong_n key (val (montMul key c a (rk_rr key))) (rsa_R key * val a)"
proof -
  have k: "key_ok key" "odd (rsa_n key)" and rr: "length (rk_rr key) = klen key"
    "cong_n key (val (rk_rr key)) (rsa_R key * rsa_R key)"
    using assms(1) by (auto simp: key_wf_def cong_n_def mod_eq_0_iff_dvd)
  show "length (montMul key c a (rk_rr key)) = klen key"
    by (rule montMul_cong(1) [OF k(1) assms(2,3) rr(1)])
  have "cong_n key (val a * val (rk_rr key)) (val a * (rsa_R key * rsa_R key))"
    by (rule cong_n_mult [OF cong_n_refl rr(2)])
  then have "cong_n key (rsa_R key * val (montMul key c a (rk_rr key))) (rsa_R key * (rsa_R key * val a))"
    using cong_n_trans [OF montMul_cong(2) [OF k(1) assms(2,3) rr(1)]] by (simp add: algebra_simps)
  then show "cong_n key (val (montMul key c a (rk_rr key))) (rsa_R key * val a)"
    by (rule cong_n_cancel [OF k(2)])
qed

subsection \<open>Big-endian byte strings as numbers\<close>

fun be_val :: "byte list \<Rightarrow> int" where
  "be_val [] = 0"
| "be_val (b # bs) = uint b * 256 ^ length bs + be_val bs"

lemma be_val_append: "be_val (xs @ ys) = be_val xs * 256 ^ length ys + be_val ys"
  by (induction xs) (simp_all add: power_add algebra_simps)

lemma uint8_lt: "uint (b :: byte) < 256"
  using uint_lt2p [of b] by simp

lemma be32_as_int:
  "be32 p i = of_int (uint (p ! i) * 2 ^ 24 + uint (p ! (i + 1)) * 2 ^ 16 + uint (p ! (i + 2)) * 2 ^ 8 + uint (p ! (i + 3)))"
proof -
  have small: "\<not> bit (b :: byte) n" if "8 \<le> n" for b n
    using that by (simp add: impossible_bit)
  have uc: "ucast (b :: byte) = (of_int (uint b) :: u32)" for b
    by (rule bit_word_eqI) (simp add: bit_simps)
  let ?a = "push_bit 24 (ucast (p ! i) :: u32)" and ?b = "push_bit 16 (ucast (p ! (i + 1)) :: u32)"
    and ?c = "push_bit 8 (ucast (p ! (i + 2)) :: u32)" and ?d = "ucast (p ! (i + 3)) :: u32"
  have "?c AND ?d = 0" by (rule bit_word_eqI) (auto simp: bit_simps small)
  then have 1: "?c OR ?d = ?c + ?d" by (rule disjunctive_add_eq_or [symmetric])
  have "?b AND (?c OR ?d) = 0" by (rule bit_word_eqI) (auto simp: bit_simps small)
  then have 2: "?b OR ?c OR ?d = ?b + (?c OR ?d)" by (rule disjunctive_add_eq_or [symmetric])
  have "?a AND (?b OR ?c OR ?d) = 0" by (rule bit_word_eqI) (auto simp: bit_simps small)
  then have 3: "?a OR ?b OR ?c OR ?d = ?a + (?b OR ?c OR ?d)" by (rule disjunctive_add_eq_or [symmetric])
  have "?a OR ?b OR ?c OR ?d = ?a + ?b + ?c + ?d"
    by (simp only: 1 2 [unfolded 1] 3 [unfolded 1 2 [unfolded 1]] add.assoc)
  then have "be32 p i = ?a + ?b + ?c + ?d" unfolding be32_def .
  then show ?thesis by (simp only: push_bit_eq_mult uc of_int_add of_int_mult of_int_power of_int_numeral)
qed

lemma uint_be32: "uint (be32 p i) = be_val [p ! i, p ! (i + 1), p ! (i + 2), p ! (i + 3)]"
proof -
  have b: "0 \<le> uint (p ! j) \<and> uint (p ! j) < 256" for j using uint8_lt by simp
  have "uint (p ! i) * 2 ^ 24 + uint (p ! (i + 1)) * 2 ^ 16 + uint (p ! (i + 2)) * 2 ^ 8 + uint (p ! (i + 3)) < 2 ^ 32"
    using b [of i] b [of "i + 1"] b [of "i + 2"] b [of "i + 3"] by simp
  then show ?thesis unfolding be32_as_int uint_of_int32 using b by (simp add: mod_pos_pos_trivial)
qed

lemma be_val_be_bytes32: "be_val (be_bytes32 w) = uint w"
proof -
  have uc: "uint (ucast (drop_bit n w) :: byte) = uint w div 2 ^ n mod 256" for n
  proof -
    have "uint (ucast (drop_bit n w) :: byte) = take_bit 8 (uint (drop_bit n w))"
      by (simp add: unsigned_ucast_eq)
    also have "uint (drop_bit n w) = drop_bit n (uint w)"
      by (simp only: unsigned_drop_bit_eq)
        (rule arg_cong, rule take_bit_int_eq_self, use uint32_lt in simp_all)
    finally show ?thesis by (simp add: take_bit_eq_mod drop_bit_eq_div)
  qed
  define x where "x = uint w"
  define y where "y = x div 256"
  define z where "z = y div 256"
  define v where "v = z div 256"
  have dd: "x div 2 ^ 8 = y" "x div 2 ^ 16 = z" "x div 2 ^ 24 = v"
    by (simp_all add: v_def z_def y_def zdiv_zmult2_eq [symmetric])
  have "x < 2 ^ 32" using uint32_lt by (simp add: x_def)
  moreover have "0 \<le> x" by (simp add: x_def)
  ultimately have "v < 256" "0 \<le> v" by (simp_all add: div_less_iff_less_mult flip: dd(3))
  then have "v mod 256 = v" by simp
  moreover have "x = 256 * y + x mod 256" "y = 256 * z + y mod 256" "z = 256 * v + z mod 256"
    unfolding v_def z_def y_def by simp_all
  ultimately have "v mod 256 * 256 ^ 3 + z mod 256 * 256 ^ 2 + y mod 256 * 256 + x mod 256 = x" by simp
  then show ?thesis using uc [of 24] uc [of 16] uc [of 8] uc [of 0]
    by (simp add: be_bytes32_def dd [simplified] flip: x_def)
qed

lemma foldl_fill:
  "n \<le> length a \<Longrightarrow> foldl (\<lambda>a i. a[i := f i]) a [0..<n] = map f [0..<n] @ drop n a"
proof (induction n)
  case 0
  show ?case by simp
next
  case (Suc n)
  then have "foldl (\<lambda>a i. a[i := f i]) a [0..<Suc n] = (map f [0..<n] @ drop n a)[n := f n]" by simp
  also have "\<dots> = map f [0..<n] @ f n # drop (Suc n) a"
    using Suc.prems by (simp add: list_update_append Cons_nth_drop_Suc [symmetric])
  finally show ?case by simp
qed

lemma words_of_bytes_value:
  assumes "length a = klen key" "4 * klen key \<le> length inout"
  shows "length (words_of_bytes key inout a) = klen key
     \<and> val (words_of_bytes key inout a) = be_val (take (4 * klen key) inout)"
proof -
  let ?l = "klen key" and ?f = "\<lambda>i. be32 inout ((klen key - 1 - i) * 4)"
  have w: "words_of_bytes key inout a = map ?f [0..<?l]"
    using assms by (simp add: words_of_bytes_def foldl_fill)
  have "val (map ?f [0..<i]) = be_val (take (4 * i) (drop (4 * (?l - i)) inout))" if "i \<le> ?l" for i
    using that
  proof (induction i)
    case 0
    show ?case by simp
  next
    case (Suc i)
    let ?j = "(?l - 1 - i) * 4"
    have j: "?j + 4 = 4 * (?l - i)" "4 * (?l - Suc i) = ?j" using Suc.prems by simp_all
    have "?j + 4 \<le> length inout" using j assms(2) by simp
    then have "drop ?j inout = [inout ! ?j, inout ! (?j + 1), inout ! (?j + 2), inout ! (?j + 3)] @ drop (?j + 4) inout"
      by (simp add: Cons_nth_drop_Suc numeral_eq_Suc)
    then have "take (4 * Suc i) (drop (4 * (?l - Suc i)) inout)
        = [inout ! ?j, inout ! (?j + 1), inout ! (?j + 2), inout ! (?j + 3)] @ take (4 * i) (drop (4 * (?l - i)) inout)"
      by (simp only: j take_append mult_Suc_right) simp
    moreover have "length (take (4 * i) (drop (4 * (?l - i)) inout)) = 4 * i"
      using assms Suc.prems by simp
    moreover have "(256 :: int) ^ (4 * i) = 2 ^ (32 * i)"
      by (simp add: power_mult)
    ultimately have "be_val (take (4 * Suc i) (drop (4 * (?l - Suc i)) inout))
        = uint (?f i) * 2 ^ (32 * i) + be_val (take (4 * i) (drop (4 * (?l - i)) inout))"
      by (simp only: be_val_append uint_be32)
    then show ?case using Suc by (simp add: val_append)
  qed
  from this [of ?l] show ?thesis by (simp add: w)
qed

lemma be_val_words: "be_val (concat (map be_bytes32 (rev ws))) = val ws"
proof (induction ws)
  case Nil
  show ?case by simp
next
  case (Cons w ws)
  then show ?case by (simp add: be_val_append be_val_be_bytes32 algebra_simps)
qed

lemma bytes_of_words_value:
  assumes "length aaa = klen key"
  shows "bytes_of_words key aaa inout = concat (map be_bytes32 (rev aaa)) @ drop (4 * klen key) inout"
proof -
  have "map (\<lambda>i. be_bytes32 (aaa ! i)) (rev [0..<klen key]) = map be_bytes32 (rev (map ((!) aaa) [0..<klen key]))"
    by (simp add: rev_map comp_def)
  also have "map ((!) aaa) [0..<klen key] = aaa" using assms map_nth [of aaa] by simp
  finally show ?thesis by (simp only: bytes_of_words_def)
qed

subsection \<open>Public exponentiation\<close>

text \<open>The three arrays on the stack hold whatever they hold, but have room for the key.\<close>

definition stk_ok :: "RSAPublicKey \<Rightarrow> u32 list \<times> u32 list \<times> u32 list \<Rightarrow> bool" where
  "stk_ok key = (\<lambda>(a, aR, aaR). length a = klen key \<and> length aR = klen key \<and> length aaR = klen key)"

lemma modpow_3_value:
  assumes w: "key_wf key" and l: "length a = klen key" "length aR = klen key" "length aaR = klen key"
  shows "length (modpow_3 key a aR aaR) = klen key \<and> cong_n key (val (modpow_3 key a aR aaR)) (val a ^ 3)"
proof -
  have k: "key_ok key" "odd (rsa_n key)" using w by (simp_all add: key_wf_def)
  define x where "x = montMul key aR a (rk_rr key)"
  define y where "y = montMul key aaR x x"
  have x: "length x = klen key" "cong_n key (val x) (rsa_R key * val a)"
    using montMul_in [OF w l(2,1)] by (simp_all add: x_def)
  have y: "length y = klen key" using montMul_cong(1) [OF k(1) l(3) x(1) x(1)] by (simp add: y_def)
  have "cong_n key (val y) (rsa_R key * (val a * val a))"
    unfolding y_def by (rule montMul_std [OF k l(3) x(1) x(1) x(2) x(2)])
  then have "cong_n key (val (montMul key x y a)) (val a * val a * val a)"
    by (rule montMul_out [OF k x(1) y l(1)])
  moreover have "length (montMul key x y a) = klen key" by (rule montMul_cong(1) [OF k(1) x(1) y l(1)])
  ultimately show ?thesis by (simp add: modpow_3_def Let_def x_def y_def power3_eq_cube)
qed

lemma modpow_square_loop:
  assumes k: "key_ok key" "odd (rsa_n key)"
    and l: "length aR = klen key" "length aaR = klen key" and x: "cong_n key (val aR) (rsa_R key * x)"
  shows "\<exists>aR' aaR'. foldl (\<lambda>(aR, aaR) i. let aaR = montMul key aaR aR aR; aR = montMul key aR aaR aaR in (aR, aaR))
        (aR, aaR) is = (aR', aaR') \<and> length aR' = klen key \<and> length aaR' = klen key
        \<and> cong_n key (val aR') (rsa_R key * x ^ (4 ^ length is))"
  using l x
proof (induction "is" arbitrary: aR aaR x)
  case Nil
  then show ?case by simp
next
  case (Cons i "is")
  define y where "y = montMul key aaR aR aR"
  define z where "z = montMul key aR y y"
  have ly: "length y = klen key"
    using montMul_cong(1) [OF k(1)] Cons.prems by (simp add: y_def)
  have lz: "length z = klen key"
    using montMul_cong(1) [OF k(1)] Cons.prems ly by (simp add: z_def)
  have y: "cong_n key (val y) (rsa_R key * (x * x))"
    unfolding y_def using Cons.prems by (intro montMul_std [OF k])
  have "cong_n key (val z) (rsa_R key * (x * x * (x * x)))"
    unfolding z_def using Cons.prems ly y by (intro montMul_std [OF k])
  then have "cong_n key (val z) (rsa_R key * x ^ 4)"
    by (simp add: power4_eq_xxxx mult.assoc)
  from Cons.IH [OF lz ly this] show ?case
    by (simp add: y_def [symmetric] z_def [symmetric] Let_def power_mult)
qed

lemma modpow_f4_value:
  assumes w: "key_wf key" and l: "length a = klen key" "length aR = klen key" "length aaR = klen key"
  shows "length (modpow_f4 key a aR aaR) = klen key \<and> cong_n key (val (modpow_f4 key a aR aaR)) (val a ^ 65537)"
proof -
  have k: "key_ok key" "odd (rsa_n key)" using w by (simp_all add: key_wf_def)
  define x where "x = montMul key aR a (rk_rr key)"
  have x: "length x = klen key" "cong_n key (val x) (rsa_R key * val a)"
    using montMul_in [OF w l(2,1)] by (simp_all add: x_def)
  obtain y z where loop: "foldl (\<lambda>(aR, aaR) i. let aaR = montMul key aaR aR aR; aR = montMul key aR aaR aaR in (aR, aaR))
        (x, aaR) [0, 2, 4, 6, 8, 10, 12, 14 :: nat] = (y, z)"
    and y: "length y = klen key" and z: "length z = klen key"
    and c: "cong_n key (val y) (rsa_R key * val a ^ (4 ^ length [0, 2, 4, 6, 8, 10, 12, 14 :: nat]))"
    using modpow_square_loop [OF k x(1) l(3) x(2)] by blast
  have "cong_n key (val y) (rsa_R key * val a ^ 65536)" using c by simp
  then have "cong_n key (val (montMul key z y a)) (val a ^ 65536 * val a)"
    by (rule montMul_out [OF k z y l(1)])
  moreover have "val a ^ 65536 * val a = val a ^ 65537"
    using power_add [of "val a" 65536 1] by simp
  moreover have "length (montMul key z y a) = klen key" by (rule montMul_cong(1) [OF k(1) z y l(1)])
  ultimately show ?thesis
    unfolding modpow_f4_def Let_def x_def [symmetric] loop [unfolded Let_def] by simp
qed

lemma final_reduction:
  assumes w: "key_wf key" and l: "length aaa = klen key"
  shows "length (if geM key aaa then subM key aaa else aaa) = klen key \<and>
    val (if geM key aaa then subM key aaa else aaa) = val aaa mod rsa_n key"
proof -
  have k: "key_ok key" "rsa_R key \<le> 2 * rsa_n key" using w by (simp_all add: key_wf_def)
  note n = key_okD(2) [OF k(1)] and nb = rsa_n_bounds [OF k(1)] and vb = val_bound [OF l]
  have ge: "geM key aaa \<longleftrightarrow> rsa_n key \<le> val aaa"
    using geM_value [OF l n] by (simp add: rsa_n_def)
  show ?thesis
  proof (cases "rsa_n key \<le> val aaa")
    case True
    have "length (subM key aaa) = klen key \<and> val (subM key aaa) = (val aaa - val (rk_n key)) mod 2 ^ (32 * klen key)"
      using True nb vb unfolding rsa_n_def rsa_R_def by (intro subM_value [OF l n]) linarith
    moreover have "(val aaa - val (rk_n key)) mod 2 ^ (32 * klen key) = val aaa - rsa_n key"
      using True nb vb unfolding rsa_n_def rsa_R_def by (intro mod_pos_pos_trivial) linarith+
    moreover have "val aaa mod rsa_n key = val aaa - rsa_n key"
    proof -
      have "val aaa mod rsa_n key = (val aaa - rsa_n key) mod rsa_n key" by (simp add: mod_eq_dvd_iff)
      also have "\<dots> = val aaa - rsa_n key" using True vb k(2) by (intro mod_pos_pos_trivial) linarith+
      finally show ?thesis .
    qed
    ultimately show ?thesis using True ge by simp
  next
    case False
    then show ?thesis using ge l vb by (simp add: mod_pos_pos_trivial)
  qed
qed

lemma modpow_value:
  assumes w: "key_wf key" and s: "stk_ok key stk" and io: "length inout = 4 * klen key"
    and e: "rk_exponent key = 3 \<or> rk_exponent key = 65537"
  shows "\<exists>out. modpow key stk inout = Some out \<and> length out = 4 * klen key
    \<and> be_val out = be_val inout ^ nat (rk_exponent key) mod rsa_n key"
proof -
  obtain a0 aR aaR where stk: "stk = (a0, aR, aaR)" by (cases stk)
  then have l: "length a0 = klen key" "length aR = klen key" "length aaR = klen key"
    using s by (simp_all add: stk_ok_def)
  define a where "a = words_of_bytes key inout a0"
  have a: "length a = klen key" "val a = be_val inout"
    using words_of_bytes_value [OF l(1), of inout] io by (simp_all add: a_def)
  define r where "r = (if rk_exponent key = 65537 then modpow_f4 key a aR aaR else modpow_3 key a aR aaR)"
  have r: "length r = klen key" "cong_n key (val r) (be_val inout ^ nat (rk_exponent key))"
    using e modpow_3_value [OF w a(1) l(2,3)] modpow_f4_value [OF w a(1) l(2,3)]
    by (auto simp: r_def a(2))
  define f where "f = (if geM key r then subM key r else r)"
  have f: "length f = klen key" "val f = val r mod rsa_n key"
    using final_reduction [OF w r(1)] by (simp_all add: f_def)
  have "val r mod rsa_n key = be_val inout ^ nat (rk_exponent key) mod rsa_n key"
    using r(2) by (simp add: cong_n_def mod_eq_dvd_iff)
  moreover have "modpow key stk inout = Some (bytes_of_words key f inout)"
    using e by (auto simp: modpow_def stk Let_def a_def [symmetric] r_def f_def)
  moreover have "bytes_of_words key f inout = concat (map be_bytes32 (rev f))"
    using bytes_of_words_value [OF f(1)] io by simp
  moreover have "length (concat (map be_bytes32 (rev f))) = 4 * klen key"
    using f(1) by (simp add: length_concat comp_def sum_list_triv)
  ultimately show ?thesis using f(2) by (simp add: be_val_words)
qed

subsection \<open>The signature check\<close>

text \<open>Integers as big-endian strings of a given length (\<open>I2OSP\<close> of PKCS1).\<close>

fun i2osp :: "nat \<Rightarrow> int \<Rightarrow> byte list" where
  "i2osp 0 x = []"
| "i2osp (Suc k) x = i2osp k (x div 256) @ [of_int x]"

lemma i2osp_numeral: "i2osp (numeral k) x = i2osp (pred_numeral k) (x div 256) @ [of_int x]"
  by (simp add: numeral_eq_Suc)

lemma i2osp_be_val: "i2osp (length xs) (be_val xs) = xs"
proof (induction xs rule: rev_induct)
  case Nil
  show ?case by simp
next
  case (snoc b xs)
  have "(be_val xs * 256 + uint b) div 256 = be_val xs" using uint8_lt [of b] by simp
  moreover have "(of_int (be_val xs * 256 + uint b) :: byte) = b"
  proof -
    have "(256 :: byte) = 0" by (rule word_uint_eqI) simp
    then show ?thesis by (simp only: of_int_add of_int_mult of_int_numeral mult_zero_right add_0_left) simp
  qed
  ultimately show ?case using snoc by (simp add: be_val_append)
qed

text \<open>What a signature decrypts to, and that string with the hash it should contain cleared.\<close>

definition rsa_em :: "RSAPublicKey \<Rightarrow> byte list \<Rightarrow> byte list" where
  "rsa_em key signature = i2osp (4 * klen key) (be_val signature ^ nat (rk_exponent key) mod rsa_n key)"

definition xor_tail :: "byte list \<Rightarrow> byte list \<Rightarrow> byte list" where
  "xor_tail em hash = take (length em - length hash) em
     @ map2 (XOR) (drop (length em - length hash) em) hash"

lemma xor_loop:
  "k + m \<le> length buf \<Longrightarrow>
   foldl (\<lambda>buf i. buf[i := buf ! i XOR hash ! (i - k)]) buf [k..<k + m]
     = map (\<lambda>j. if k \<le> j \<and> j < k + m then buf ! j XOR hash ! (j - k) else buf ! j) [0..<length buf]"
proof (induction m)
  case 0
  have "map (\<lambda>j. if k \<le> j \<and> j < k + 0 then buf ! j XOR hash ! (j - k) else buf ! j) [0..<length buf] = map ((!) buf) [0..<length buf]"
    by (intro map_cong) auto
  then show ?case by (simp add: map_nth)
next
  case (Suc m)
  let ?b = "map (\<lambda>j. if k \<le> j \<and> j < k + m then buf ! j XOR hash ! (j - k) else buf ! j) [0..<length buf]"
  have "?b[k + m := ?b ! (k + m) XOR hash ! m]
     = map (\<lambda>j. if k \<le> j \<and> j < k + Suc m then buf ! j XOR hash ! (j - k) else buf ! j) [0..<length buf]"
    using Suc.prems by (intro nth_equalityI) (auto simp: nth_list_update)
  then show ?case using Suc by simp
qed

lemma xor_loop_tail:
  assumes "length hash \<le> length buf" "n = length buf"
  shows "foldl (\<lambda>buf i. buf[i := buf ! i XOR hash ! (i - (n - length hash))]) buf
     [n - length hash..<n] = xor_tail buf hash"
proof -
  let ?k = "length buf - length hash"
  have "map (\<lambda>j. if ?k \<le> j \<and> j < ?k + length hash then buf ! j XOR hash ! (j - ?k) else buf ! j) [0..<length buf]
      = xor_tail buf hash"
    using assms(1) by (intro nth_equalityI) (auto simp: xor_tail_def nth_append)
  then show ?thesis using xor_loop [of ?k "length hash" buf hash] assms by simp
qed

lemma list_all_eq_take:
  assumes "length p = n" "length d = n"
  shows "list_all (\<lambda>i. (d @ r) ! i = p ! i) [0..<n] \<longleftrightarrow> d = p"
proof -
  have "d = p \<longleftrightarrow> (\<forall>i<n. d ! i = p ! i)" using assms by (simp add: list_eq_iff_nth_eq)
  moreover have "(d @ r) ! i = d ! i" if "i < n" for i using that assms by (simp add: nth_append)
  ultimately show ?thesis by (auto simp: list_all_iff)
qed

lemma fips_sha1_length: "length (fips_sha1 m) = 20"
proof -
  have "length (foldl fips_block1 h bs) = 5" if "length h = 5" for h bs
    using that by (intro foldl_const_inv [where P = "\<lambda>s. length s = 5"]) (auto simp: fips_block1_def split: prod.splits)
  then show ?thesis by (simp only: fips_sha1_def length_concat_be) simp
qed

lemma fips_sha256_length: "length (fips_sha256 m) = 32"
proof -
  have "length (foldl fips_block2 h bs) = 8" if "length h = 8" for h bs
    using that by (intro foldl_const_inv [where P = "\<lambda>s. length s = 8"]) (auto simp: fips_block2_length)
  then show ?thesis by (simp only: fips_sha256_def length_concat_be) simp
qed

text \<open>The hash chosen by \<^verbatim>\<open>hash_len\<close> and the constant it is compared with.\<close>

definition rsa_digest :: "nat \<Rightarrow> byte list \<Rightarrow> byte list" where
  "rsa_digest n m = (if n = 20 then fips_sha1 m else fips_sha256 m)"

definition rsa_expected :: "nat \<Rightarrow> byte list" where
  "rsa_expected n = (if n = 20 then kExpectedPadShaRsa2048 else kExpectedPadSha256Rsa2048)"

lemma RSA_verify_value:
  assumes w: "key_wf key" and s: "stk_ok key stk" and c: "ctx_ok c0"
    and len: "length signature = nat len" and hl: "length hash = nat hash_len"
  shows "RSA_verify key signature len hash hash_len stk c0 \<longleftrightarrow>
    rk_len key = 64 \<and> len = 256 \<and> (hash_len = 20 \<or> hash_len = 32)
    \<and> (rk_exponent key = 3 \<or> rk_exponent key = 65537)
    \<and> rsa_digest (nat hash_len) (xor_tail (rsa_em key signature) hash) = rsa_expected (nat hash_len)"
proof (cases "rk_len key = 64 \<and> len = 256 \<and> (hash_len = 20 \<or> hash_len = 32)
    \<and> (rk_exponent key = 3 \<or> rk_exponent key = 65537)")
  case False
  then show ?thesis by (auto simp: RSA_verify_def RSANUMWORDS_def RSANUMBYTES_def)
next
  case True
  have sig: "map ((!) signature) [0..<nat len] = signature" using len map_nth [of signature] by simp
  have len4: "length signature = 4 * klen key" using True len by simp
  obtain em where em: "modpow key stk signature = Some em" and lem: "length em = 4 * klen key"
    and v: "be_val em = be_val signature ^ nat (rk_exponent key) mod rsa_n key"
    using modpow_value [OF w s len4] True by blast
  have emeq: "em = rsa_em key signature"
    unfolding rsa_em_def using i2osp_be_val [of em] lem v by simp
  have hlen: "length hash \<le> length em" using True hl lem by auto
  have idx: "nat (len - hash_len) = length em - length hash" "nat len = length em"
    using True hl lem by auto
  define x where "x = xor_tail em hash"
  have x: "foldl (\<lambda>buf i. buf[i := buf ! i XOR hash ! (i - nat (len - hash_len))]) em
     [nat (len - hash_len)..<nat len] = x"
    unfolding idx x_def by (rule xor_loop_tail [OF hlen refl])
  have h1: "SHA_hash c0 x = fips_sha1 x" unfolding SHA_hash_digest by (rule sha1_stream.digest_one [OF c TrueI])
  have h2: "SHA256_hash c0 x = fips_sha256 x" unfolding SHA256_hash_digest by (rule sha256_stream.digest_one [OF c TrueI])
  have "RSA_verify key signature len hash hash_len stk c0 \<longleftrightarrow>
      (if hash_len = 20 then list_all (\<lambda>i. (fips_sha1 x @ drop 20 x) ! i = kExpectedPadShaRsa2048 ! i) [0..<20]
       else list_all (\<lambda>i. (fips_sha256 x @ drop 32 x) ! i = kExpectedPadSha256Rsa2048 ! i) [0..<32])"
    using True em x h1 h2 sig
    by (auto simp: RSA_verify_def RSANUMWORDS_def RSANUMBYTES_def Let_def simp del: upt_rec_numeral)
  also have "\<dots> \<longleftrightarrow> rsa_digest (nat hash_len) x = rsa_expected (nat hash_len)"
  proof -
    have "list_all (\<lambda>i. (fips_sha1 x @ drop 20 x) ! i = kExpectedPadShaRsa2048 ! i) [0..<20] \<longleftrightarrow>
        fips_sha1 x = kExpectedPadShaRsa2048"
      by (rule list_all_eq_take) (simp_all add: kExpectedPadShaRsa2048_def fips_sha1_length)
    moreover have "list_all (\<lambda>i. (fips_sha256 x @ drop 32 x) ! i = kExpectedPadSha256Rsa2048 ! i) [0..<32] \<longleftrightarrow>
        fips_sha256 x = kExpectedPadSha256Rsa2048"
      by (rule list_all_eq_take) (simp_all add: kExpectedPadSha256Rsa2048_def fips_sha256_length)
    ultimately show ?thesis using True by (auto simp: rsa_digest_def rsa_expected_def)
  qed
  finally show ?thesis using True emeq x_def by blast
qed

subsection \<open>Properties\<close>

text \<open>(C16) In-place public exponentiation: for a well-formed key and either supported exponent,
  \<^verbatim>\<open>modpow\<close> returns and leaves in the buffer exactly the big-endian bytes of
  \<open>signature ^ e mod n\<close>, whatever the stack arrays held.\<close>

theorem modpow_correct:
  assumes "key_wf key" and "stk_ok key stk" and "length inout = 4 * klen key"
    and "rk_exponent key = 3 \<or> rk_exponent key = 65537"
  shows "modpow key stk inout = Some (i2osp (4 * klen key) (be_val inout ^ nat (rk_exponent key) mod rsa_n key))"
  using modpow_value [OF assms] i2osp_be_val by metis

definition small_key :: RSAPublicKey where
  "small_key = \<lparr>rk_len = 1, rk_n0inv = 0x7fffffff, rk_n = [0x80000001], rk_rr = [4], rk_exponent = 3\<rparr>"

lemma small_key_wf: "key_wf small_key" "stk_ok small_key ([9], [8], [7])"
  by (simp_all add: key_wf_def key_ok_def rsa_n_def rsa_R_def small_key_def stk_ok_def)

lemma small_key_out: "i2osp 4 (4278190081 ^ 3 mod 2147483649) = [0x7d, 0x05, 0xfc, 0x00]"
proof -
  have "(4278190081 ^ 3 mod 2147483649 :: int) = 2097544192" by simp
  then show ?thesis by (simp add: i2osp_numeral)
qed

theorem modpow_correct_witness:
  "modpow small_key ([9], [8], [7]) [0xff, 0, 0, 1] = Some [0x7d, 0x05, 0xfc, 0x00]"
proof -
  have "be_val [0xff, 0, 0, 1] = 4278190081" "rsa_n small_key = 2147483649"
    "nat (rk_exponent small_key) = 3" "4 * klen small_key = 4"
    by (simp_all add: small_key_def rsa_n_def)
  then show ?thesis
    using modpow_correct [OF small_key_wf, of "[0xff, 0, 0, 1]"]
    by (simp only: small_key_out) (simp add: small_key_def)
qed

text \<open>(C2) \<^verbatim>\<open>RSA_verify\<close> accepts exactly when the key has 64 words, the signature 256 bytes, the hash 20
  or 32 bytes, the exponent is 3 or 65537, and the digest of the decrypted signature with the
  hash xored into its tail is the stored constant.\<close>

theorem RSA_verify_iff:
  assumes "key_wf key" and "stk_ok key stk" and "ctx_ok c0"
    and "length signature = nat len" and "length hash = nat hash_len"
  shows "RSA_verify key signature len hash hash_len stk c0 \<longleftrightarrow>
    rk_len key = 64 \<and> len = 256 \<and> (hash_len = 20 \<or> hash_len = 32)
    \<and> (rk_exponent key = 3 \<or> rk_exponent key = 65537)
    \<and> rsa_digest (nat hash_len) (xor_tail (rsa_em key signature) hash) = rsa_expected (nat hash_len)"
  by (rule RSA_verify_value [OF assms])

definition large_key :: RSAPublicKey where
  "large_key = \<lparr>rk_len = 64, rk_n0inv = 0xffffffff, rk_n = 1 # replicate 62 0 @ [0x80000000],
     rk_rr = 4 # replicate 63 0, rk_exponent = 65537\<rparr>"

lemma large_key_wf: "key_wf large_key" "stk_ok large_key (replicate 64 1, replicate 64 2, replicate 64 3)"
proof -
  have n: "rsa_n large_key = 2 ^ 2047 + 1"
    by (simp only: rsa_n_def large_key_def RSAPublicKey.simps val.simps val_append val_replicate_0 length_replicate) simp
  have k: "klen large_key = 64" by (simp add: large_key_def)
  have rr: "val (rk_rr large_key) = 4"
    by (simp only: large_key_def RSAPublicKey.simps val.simps val_replicate_0) simp
  have "(4 - 2 * x * (2 * x)) mod (x + 1) = 0" for x :: int
  proof -
    have "4 - 2 * x * (2 * x) = (x + 1) * (4 - 4 * x)" by (simp add: algebra_simps)
    then show ?thesis by simp
  qed
  moreover have R: "rsa_R large_key = 2 * 2 ^ 2047" by (simp add: rsa_R_def k)
  ultimately have "(val (rk_rr large_key) - rsa_R large_key * rsa_R large_key) mod rsa_n large_key = 0"
    by (simp only: n rr)
  moreover have "key_ok large_key"
    by (simp add: key_ok_def large_key_def)
  moreover have "odd (rsa_n large_key)" "rsa_R large_key \<le> 2 * rsa_n large_key"
    by (simp_all only: n R) simp_all
  ultimately show "key_wf large_key" by (simp add: key_wf_def k) (simp add: large_key_def)
  show "stk_ok large_key (replicate 64 1, replicate 64 2, replicate 64 3)"
    by (simp add: stk_ok_def k)
qed

theorem RSA_verify_iff_witness:
  "RSA_verify large_key (replicate 256 5) 256 (replicate 20 6) 20
      (replicate 64 1, replicate 64 2, replicate 64 3) dirty_ctx \<longleftrightarrow>
   fips_sha1 (xor_tail (rsa_em large_key (replicate 256 5)) (replicate 20 6)) = kExpectedPadShaRsa2048"
  using RSA_verify_iff [OF large_key_wf dirty_ctx_ok, of "replicate 256 5" 256 "replicate 20 6" 20]
  by (simp add: rsa_digest_def rsa_expected_def) (simp add: large_key_def)

end
