(* ===== verification/Mincrypt_P256.thy ===== *)
theory Mincrypt_P256
  imports Mincrypt_Rsa "HOL-Library.Monad_Syntax"
begin

section \<open>libmincrypt: 256-bit integers\<close>

text \<open>
  \<^verbatim>\<open>libmincrypt/p256.c\<close>: the numbers of 8 digits of 32 bits behind ECDSA on P-256, with their arithmetic
  modulo a prime, and the test that a point is on the curve. A number is the list of its digits, the
  least significant first; every loop reads the digits of index \<open>i\<close> before it writes the digit of index \<open>i\<close>
  of its result, so that a result may overwrite an argument. A failing assertion, a shift by the
  whole width of a digit and a loop that does not return are the result \<open>None\<close>.
\<close>

subsection \<open>The code\<close>

type_synonym p256_int = "u32 list"

abbreviation (input) P256_NDIGITS :: nat where "P256_NDIGITS \<equiv> 8"

definition SECP256r1_p :: p256_int where
  "SECP256r1_p = [- 1, - 1, - 1, 0, 0, 0, 1, - 1]"

definition SECP256r1_n :: p256_int where
  "SECP256r1_n = [0xfc632551, 0xf3b9cac2, 0xa7179e84, 0xbce6faad, - 1, - 1, 0, - 1]"

definition SECP256r1_b :: p256_int where
  "SECP256r1_b = [0x27d2604b, 0x3bce3c3e, 0xcc53b0f6, 0x651d06b0, 0x769886bc, 0xb3ebbd55, 0xaa3a93e7, 0x5ac635d8]"

definition p256_init :: "p256_int \<Rightarrow> p256_int" where
  "p256_init a = replicate (length a) 0"

definition p256_clear :: "p256_int \<Rightarrow> p256_int" where
  "p256_clear a = p256_init a"

definition p256_get_bit :: "p256_int \<Rightarrow> nat \<Rightarrow> u32" where
  "p256_get_bit scalar b = drop_bit (b mod 32) (scalar ! (b div 32)) AND 1"

definition p256_is_zero :: "p256_int \<Rightarrow> bool" where
  "p256_is_zero a = (foldl (OR) 0 a = 0)"

text \<open>The loop all of the following have: an accumulator of 64 bits takes the next term, its low digit is
  stored, and it is shifted right, with or without its sign.\<close>

fun digits_loop :: "(u64 \<Rightarrow> u64) \<Rightarrow> u64 \<Rightarrow> u64 list \<Rightarrow> u64 \<times> u32 list" where
  "digits_loop shift acc [] = (acc, [])"
| "digits_loop shift acc (x # xs) =
     (let acc = acc + x;
          (out, ds) = digits_loop shift (shift acc) xs
      in (out, ucast acc # ds))"

abbreviation carry_loop :: "u64 \<Rightarrow> u64 list \<Rightarrow> u64 \<times> u32 list" where
  "carry_loop \<equiv> digits_loop (drop_bit 32)"

abbreviation borrow_loop :: "u64 \<Rightarrow> u64 list \<Rightarrow> u64 \<times> u32 list" where
  "borrow_loop \<equiv> digits_loop (signed_drop_bit 32)"

definition mulAdd :: "p256_int \<Rightarrow> u32 \<Rightarrow> u32 \<Rightarrow> u32 list \<Rightarrow> u32 \<times> u32 list" where
  "mulAdd a b tp c =
     (let (carry, c) = carry_loop 0 (map2 (\<lambda>c a. ucast c + ucast a * ucast b) c a)
      in (tp + ucast carry, c))"

definition subTop :: "u32 \<Rightarrow> u32 list \<Rightarrow> u32 \<Rightarrow> u32 list \<Rightarrow> (u32 \<times> u32 list) option" where
  "subTop top_a a top_c c =
     (let (borrow, c) = borrow_loop 0 (map2 (\<lambda>c a. ucast c - ucast a) c a);
          borrow = borrow + ucast top_c;
          borrow = borrow - ucast top_a;
          top_c = ucast borrow
      in if signed_drop_bit 32 borrow = 0 then Some (top_c, c) else None)"

definition p256_subM :: "p256_int \<Rightarrow> u32 \<Rightarrow> u32 list \<Rightarrow> u32 \<Rightarrow> u32 \<times> u32 list" where
  "p256_subM m tp c msk =
     (let (borrow, c) = borrow_loop 0 (map2 (\<lambda>c m. ucast c - ucast (m AND msk)) c m)
      in (tp + ucast borrow, c))"

definition p256_addM :: "p256_int \<Rightarrow> u32 \<Rightarrow> u32 list \<Rightarrow> u32 \<Rightarrow> u32 \<times> u32 list" where
  "p256_addM m tp c msk =
     (let (carry, c) = carry_loop 0 (map2 (\<lambda>c m. ucast c + ucast (m AND msk)) c m)
      in (tp + ucast carry, c))"

text \<open>The digits \<open>tmp + i\<close> of the product as an argument and a result.\<close>

definition digits_at :: "nat \<Rightarrow> u32 list \<Rightarrow> u32 list" where
  "digits_at i tmp = take P256_NDIGITS (drop i tmp)"

definition put_digits :: "nat \<Rightarrow> u32 list \<Rightarrow> u32 list \<Rightarrow> u32 list" where
  "put_digits i c tmp = take i tmp @ c @ drop (i + P256_NDIGITS) tmp"

fun mul_digit :: "p256_int \<Rightarrow> u32 list \<times> u32 \<Rightarrow> nat \<times> u32 \<Rightarrow> u32 list \<times> u32" where
  "mul_digit a (tmp, tp) (i, b) =
     (let tmp = (if i \<noteq> 0 then tmp[i + P256_NDIGITS - 1 := tp] else tmp);
          (tp, c) = mulAdd a b 0 (digits_at i tmp)
      in (put_digits i c tmp, tp))"

fun reduce_digit :: "p256_int \<Rightarrow> (u32 list \<times> u32) option \<Rightarrow> nat \<Rightarrow> (u32 list \<times> u32) option" where
  "reduce_digit m None i = None"
| "reduce_digit m (Some (tmp, tp)) i =
     (let (top_reducer, reducer) = mulAdd m tp 0 (replicate P256_NDIGITS 0)
      in case subTop top_reducer reducer tp (digits_at i tmp) of
           None \<Rightarrow> None
         | Some (tp, c) \<Rightarrow>
             if \<not> tp \<le> 1 then None
             else
               let (tp, c) = p256_subM m tp c (NOT (tp - 1));
                   tmp = put_digits i c tmp
               in if tp \<noteq> 0 then None else Some (tmp, tmp ! (i + P256_NDIGITS - 1)))"

definition p256_modmul :: "p256_int \<Rightarrow> p256_int \<Rightarrow> u32 \<Rightarrow> p256_int \<Rightarrow> p256_int option" where
  "p256_modmul m a top_b b =
     (let tmp = replicate (P256_NDIGITS * 2 + 1) 0;
          (tmp, tp) = foldl (mul_digit a) (tmp, 0) (zip [0..<P256_NDIGITS + 1] (b @ [top_b]))
      in case foldl (reduce_digit m) (Some (tmp, tp)) (rev [0..<P256_NDIGITS + 1]) of
           None \<Rightarrow> None
         | Some (tmp, tp) \<Rightarrow>
             let (msk, c) = p256_subM m 0 (digits_at 0 tmp) (- 1);
                 (tp, c) = p256_addM m 0 c msk
             in Some c)"

definition p256_is_odd :: "p256_int \<Rightarrow> bool" where
  "p256_is_odd a = (hd a AND 1 \<noteq> 0)"

definition p256_is_even :: "p256_int \<Rightarrow> bool" where
  "p256_is_even a = (\<not> hd a AND 1 \<noteq> 0)"

text \<open>Shifts by \<open>n\<close> bits; \<open>low\<close> is the digit before the first one. By \<open>n % 32 = 0\<close> the code shifts a digit by 32.\<close>

fun shl_digits :: "nat \<Rightarrow> u32 \<Rightarrow> u32 list \<Rightarrow> u32 list" where
  "shl_digits n low [] = []"
| "shl_digits n low (d # ds) = (push_bit n d OR drop_bit (32 - n) low) # shl_digits n d ds"

definition p256_shl :: "p256_int \<Rightarrow> int \<Rightarrow> (u32 \<times> p256_int) option" where
  "p256_shl a n =
     (if n < 0 \<or> n mod 32 = 0 then None
      else
        let n = nat (n mod 32)
        in Some (ucast (drop_bit 32 (push_bit n (ucast (last a) :: u64))), push_bit n (hd a) # shl_digits n (hd a) (tl a)))"

fun shr_digits :: "nat \<Rightarrow> u32 list \<Rightarrow> u32 list" where
  "shr_digits n [] = []"
| "shr_digits n [d] = [drop_bit n d]"
| "shr_digits n (d # e # ds) = (drop_bit n d OR push_bit (32 - n) e) # shr_digits n (e # ds)"

definition p256_shr :: "p256_int \<Rightarrow> int \<Rightarrow> p256_int option" where
  "p256_shr a n = (if n < 0 \<or> n mod 32 = 0 then None else Some (shr_digits (nat (n mod 32)) a))"

fun p256_shr1 :: "p256_int \<Rightarrow> u32 \<Rightarrow> p256_int" where
  "p256_shr1 [] highbit = []"
| "p256_shr1 [d] highbit = [drop_bit 1 d OR push_bit 31 highbit]"
| "p256_shr1 (d # e # ds) highbit = (drop_bit 1 d OR push_bit 31 e) # p256_shr1 (e # ds) highbit"

text \<open>The results are \<^verbatim>\<open>int\<close>; a borrow is -1.\<close>

definition p256_cmp :: "p256_int \<Rightarrow> p256_int \<Rightarrow> int" where
  "p256_cmp a b =
     (let (borrow, ds) = borrow_loop 0 (map2 (\<lambda>a b. ucast a - ucast b) a b);
          notzero = foldl (\<lambda>z d. z OR (if d \<noteq> 0 then 1 else 0)) 0 ds
      in sint ((ucast borrow :: u32) OR notzero))"

definition p256_sub :: "p256_int \<Rightarrow> p256_int \<Rightarrow> int \<times> p256_int" where
  "p256_sub a b =
     (let (borrow, c) = borrow_loop 0 (map2 (\<lambda>a b. ucast a - ucast b) a b)
      in (sint (ucast borrow :: u32), c))"

definition p256_add :: "p256_int \<Rightarrow> p256_int \<Rightarrow> int \<times> p256_int" where
  "p256_add a b =
     (let (carry, c) = carry_loop 0 (map2 (\<lambda>a b. ucast a + ucast b) a b)
      in (sint (ucast carry :: u32), c))"

definition p256_add_d :: "p256_int \<Rightarrow> u32 \<Rightarrow> int \<times> p256_int" where
  "p256_add_d a d =
     (let (carry, b) = carry_loop (ucast d) (map ucast a)
      in (sint (ucast carry :: u32), b))"

definition p256_mod :: "p256_int \<Rightarrow> p256_int \<Rightarrow> p256_int" where
  "p256_mod m a = (let (msk, c) = p256_subM m 0 a (- 1) in snd (p256_addM m 0 c msk))"

text \<open>One half of a number modulo an odd one, and the difference of two.\<close>

definition half_mod :: "p256_int \<Rightarrow> p256_int \<Rightarrow> p256_int" where
  "half_mod m r =
     (if p256_is_even r then p256_shr1 r 0
      else let (carry, r) = p256_add r m in p256_shr1 r (of_int carry))"

definition sub_mod :: "p256_int \<Rightarrow> p256_int \<Rightarrow> p256_int \<Rightarrow> p256_int" where
  "sub_mod m s r = (let (borrow, s) = p256_sub s r in if borrow \<noteq> 0 then snd (p256_add s m) else s)"

partial_function (option) modinv_loop :: "p256_int \<Rightarrow> p256_int \<Rightarrow> p256_int \<Rightarrow> p256_int \<Rightarrow> p256_int \<Rightarrow> p256_int option" where
  "modinv_loop m R S U V =
     (if p256_is_even U then modinv_loop m (half_mod m R) S (p256_shr1 U 0) V
      else if p256_is_even V then modinv_loop m R (half_mod m S) U (p256_shr1 V 0)
      else if fst (p256_sub V U) = 0 then
        let V = snd (p256_sub V U);
            S = sub_mod m S R
        in if p256_is_zero V then Some R else modinv_loop m R S U V
      else modinv_loop m (sub_mod m R S) S (snd (p256_sub U V)) V)"

definition p256_modinv_vartime :: "p256_int \<Rightarrow> p256_int \<Rightarrow> p256_int option" where
  "p256_modinv_vartime m a =
     map_option (p256_mod m) (modinv_loop m (replicate P256_NDIGITS 0) (1 # replicate (P256_NDIGITS - 1) 0) m a)"

definition p256_is_valid_point :: "p256_int \<Rightarrow> p256_int \<Rightarrow> bool option" where
  "p256_is_valid_point x y =
     (if p256_cmp SECP256r1_p x \<le> 0 \<or> p256_cmp SECP256r1_p y \<le> 0 \<or> p256_is_zero x \<or> p256_is_zero y then Some False
      else do {
        y2 \<leftarrow> p256_modmul SECP256r1_p y 0 y;
        x3 \<leftarrow> p256_modmul SECP256r1_p x 0 x;
        x3 \<leftarrow> p256_modmul SECP256r1_p x 0 x3;
        let x3 = sub_mod SECP256r1_p x3 x;
        let x3 = sub_mod SECP256r1_p x3 x;
        let x3 = sub_mod SECP256r1_p x3 x;
        let (carry, x3) = p256_add x3 SECP256r1_b;
        let x3 = (if carry \<noteq> 0 then snd (p256_sub x3 SECP256r1_p) else x3);
        Some (p256_cmp y2 x3 = 0)
      })"

definition p256_from_bin :: "byte list \<Rightarrow> p256_int" where
  "p256_from_bin src = rev (map (\<lambda>k. be32 src (4 * k)) [0..<P256_NDIGITS])"

subsection \<open>The digit loops\<close>

fun weigh :: "int list \<Rightarrow> int" where
  "weigh [] = 0"
| "weigh (t # ts) = t + 2 ^ 32 * weigh ts"

lemma pow_digits: "(2 :: int) ^ (32 * Suc n) = 2 ^ 32 * 2 ^ (32 * n)"
  by (rule pow32_Suc)

lemma digit_split: "j mod 2 ^ 32 + 2 ^ 32 * (w + B * K) = j + 2 ^ 32 * x"
  if "w + B * K = j div 2 ^ 32 + x" for j w B K x :: int
proof -
  have "j mod 2 ^ 32 + 2 ^ 32 * (w + B * K) = (j mod 2 ^ 32 + 2 ^ 32 * (j div 2 ^ 32)) + 2 ^ 32 * x"
    unfolding that by (simp only: distrib_left add.assoc)
  then show ?thesis by (simp only: mod_mult_div_eq)
qed

lemma carry_loop_value:
  assumes "list_all (\<lambda>t. 0 \<le> t \<and> t \<le> 2 ^ 64 - 2 ^ 32) ts" and "0 \<le> A" and "A < 2 ^ 32"
  shows "\<exists>K ds. carry_loop (of_int A) (map of_int ts) = (of_int K, ds) \<and> 0 \<le> K \<and> K < 2 ^ 32 \<and> length ds = length ts
    \<and> val ds + 2 ^ (32 * length ts) * K = A + weigh ts"
  using assms
proof (induction ts arbitrary: A)
  case Nil
  then show ?case by (intro exI [of _ A] exI [of _ "[]"]) simp
next
  case (Cons t ts)
  define j where "j = A + t"
  have t: "0 \<le> t" "t \<le> 2 ^ 64 - 2 ^ 32" and l: "list_all (\<lambda>t. 0 \<le> t \<and> t \<le> 2 ^ 64 - 2 ^ 32) ts" using Cons.prems(1) by simp_all
  have j: "0 \<le> j" "j < 2 ^ 64" using t Cons.prems(2,3) unfolding j_def by linarith+
  have d: "0 \<le> j div 2 ^ 32" "j div 2 ^ 32 < 2 ^ 32" using j by simp_all
  from Cons.IH [OF l d] obtain K ds where v: "carry_loop (of_int (j div 2 ^ 32)) (map of_int ts) = (of_int K, ds)" "0 \<le> K" "K < 2 ^ 32"
    "length ds = length ts" "val ds + 2 ^ (32 * length ts) * K = j div 2 ^ 32 + weigh ts" by blast
  have a: "of_int A + of_int t = (of_int j :: u64)" by (simp add: j_def)
  have "carry_loop (of_int A) (map of_int (t # ts)) = (of_int K, of_int j # ds)"
    by (simp only: list.map digits_loop.simps a Let_def drop_bit_of_int64 [OF j] v(1) prod.case ucast_of_int64)
  moreover have "val (of_int j # ds) + 2 ^ (32 * length (t # ts)) * K = A + weigh (t # ts)"
    using digit_split [OF v(5)] by (simp only: val.simps uint_of_int32 list.size pow_digits add_Suc_right add_0_right weigh.simps j_def) (simp only: algebra_simps)
  ultimately show ?case using v by (intro exI [of _ K] exI [of _ "of_int j # ds"]) simp
qed

lemma borrow_loop_value:
  assumes "list_all (\<lambda>t. \<bar>t\<bar> \<le> 2 ^ 33) ts" and "\<bar>A\<bar> \<le> 2 ^ 33"
  shows "\<exists>K ds. borrow_loop (of_int A) (map of_int ts) = (of_int K, ds) \<and> \<bar>K\<bar> \<le> 2 ^ 33 \<and> length ds = length ts
    \<and> val ds + 2 ^ (32 * length ts) * K = A + weigh ts"
  using assms
proof (induction ts arbitrary: A)
  case Nil
  then show ?case by (intro exI [of _ A] exI [of _ "[]"]) simp
next
  case (Cons t ts)
  define j where "j = A + t"
  have t: "\<bar>t\<bar> \<le> 2 ^ 33" and l: "list_all (\<lambda>t. \<bar>t\<bar> \<le> 2 ^ 33) ts" using Cons.prems(1) by simp_all
  have b: "\<bar>j\<bar> \<le> 2 ^ 34" using t Cons.prems(2) by (simp add: j_def abs_le_iff)
  then have j: "- (2 ^ 63) \<le> j" "j < 2 ^ 63" by (simp_all add: abs_le_iff)
  have d: "\<bar>j div 2 ^ 32\<bar> \<le> 2 ^ 33" 
    using zdiv_mono1 [of j "2 ^ 34" "2 ^ 32"] zdiv_mono1 [of "- (2 ^ 34)" j "2 ^ 32"] b by (simp add: abs_le_iff)
  from Cons.IH [OF l d] obtain K ds where v: "borrow_loop (of_int (j div 2 ^ 32)) (map of_int ts) = (of_int K, ds)" "\<bar>K\<bar> \<le> 2 ^ 33"
    "length ds = length ts" "val ds + 2 ^ (32 * length ts) * K = j div 2 ^ 32 + weigh ts" by blast
  have a: "of_int A + of_int t = (of_int j :: u64)" by (simp add: j_def)
  have "borrow_loop (of_int A) (map of_int (t # ts)) = (of_int K, of_int j # ds)"
    by (simp only: list.map digits_loop.simps a Let_def signed_drop_bit_of_int64 [OF j] v(1) prod.case ucast_of_int64)
  moreover have "val (of_int j # ds) + 2 ^ (32 * length (t # ts)) * K = A + weigh (t # ts)"
    using digit_split [OF v(4)] by (simp only: val.simps uint_of_int32 list.size pow_digits add_Suc_right add_0_right weigh.simps j_def) (simp only: algebra_simps)
  ultimately show ?case using v by (intro exI [of _ K] exI [of _ "of_int j # ds"]) simp
qed

text \<open>The terms of the loops: the digits of \<open>c\<close> and a multiple of those of \<open>a\<close>.\<close>

abbreviation (input) terms :: "int \<Rightarrow> u32 list \<Rightarrow> u32 list \<Rightarrow> int list" where
  "terms k c a \<equiv> map2 (\<lambda>c a. uint c + k * uint a) c a"

lemma weigh_terms: "length c = length a \<Longrightarrow> weigh (terms k c a) = val c + k * val a"
  by (induction c a rule: list_induct2) (simp_all add: algebra_simps)

lemma terms_carry: "0 \<le> k \<Longrightarrow> k < 2 ^ 32 \<Longrightarrow> list_all (\<lambda>t. 0 \<le> t \<and> t \<le> 2 ^ 64 - 2 ^ 32) (terms k c a)"
proof -
  assume k: "0 \<le> k" "k < 2 ^ 32"
  have "uint (x :: u32) + k * uint (y :: u32) \<le> 2 ^ 64 - 2 ^ 32" for x y
  proof -
    have "k * uint y \<le> (2 ^ 32 - 1) * (2 ^ 32 - 1)" using k uint32_lt [of y] by (intro mult_mono) simp_all
    then show ?thesis using uint32_lt [of x] by simp
  qed
  then show ?thesis using k by (auto simp: list_all_iff)
qed

lemma terms_borrow: "k \<in> {- 1, 0} \<Longrightarrow> list_all (\<lambda>t. \<bar>t\<bar> \<le> 2 ^ 33) (terms k c a)"
proof -
  have i: "\<bar>p - q\<bar> \<le> 2 ^ 33 \<and> \<bar>p\<bar> \<le> 2 ^ 33" if "0 \<le> p" "p < 2 ^ 32" "0 \<le> q" "q < 2 ^ 32" for p q :: int
    using that by auto
  have "\<bar>uint (x :: u32) - uint (y :: u32)\<bar> \<le> 2 ^ 33" "\<bar>uint x\<bar> \<le> 2 ^ 33" for x y
    using i [OF uint_ge_0 uint32_lt uint_ge_0 uint32_lt] by blast+
  then show "k \<in> {- 1, 0} \<Longrightarrow> list_all (\<lambda>t. \<bar>t\<bar> \<le> 2 ^ 33) (terms k c a)" by (auto simp: list_all_iff)
qed

lemma code_terms: "(\<And>x y. f x y = (of_int (uint x + k * uint y) :: u64)) \<Longrightarrow> map2 f c a = map of_int (terms k c a)"
  by (auto simp: map_eq_conv)

lemma carry_terms:
  assumes "\<And>x y. f x y = (of_int (uint x + k * uint y) :: u64)" and "0 \<le> k" and "k < 2 ^ 32" and "length c = length a"
  shows "\<exists>K ds. carry_loop 0 (map2 f c a) = (of_int K, ds) \<and> 0 \<le> K \<and> K < 2 ^ 32 \<and> length ds = length a
    \<and> val ds + 2 ^ (32 * length a) * K = val c + k * val a"
  using carry_loop_value [OF terms_carry [OF assms(2,3)], of 0 c a] assms(4)
  by (simp only: code_terms [OF assms(1)] weigh_terms length_map length_zip) simp

lemma borrow_terms:
  assumes "\<And>x y. f x y = (of_int (uint x + k * uint y) :: u64)" and "k \<in> {- 1, 0}" and "length c = length a"
  shows "\<exists>K ds. borrow_loop 0 (map2 f c a) = (of_int K, ds) \<and> \<bar>K\<bar> \<le> 2 ^ 33 \<and> length ds = length a
    \<and> val ds + 2 ^ (32 * length a) * K = val c + k * val a"
  using borrow_loop_value [OF terms_borrow [OF assms(2)], of 0 c a] assms(3)
  by (simp only: code_terms [OF assms(1)] weigh_terms length_map length_zip) simp

text \<open>What a number and its carry are, when their sum is known.\<close>

lemma carry_of:
  fixes v B K x :: int
  assumes "v + B * K = x" and "0 \<le> v" and "v < B"
  shows "K = x div B" and "v = x mod B"
proof -
  have x: "x = B * K + v" using assms(1) by (simp only: add.commute)
  show "K = x div B" by (rule int_div_pos_eq [OF x assms(2,3), symmetric])
  show "v = x mod B" by (rule int_mod_pos_eq [OF x assms(2,3), symmetric])
qed

lemma carry_0: "0 \<le> x \<Longrightarrow> x < B \<Longrightarrow> x div B = (0 :: int) \<and> x mod B = x"
  by simp

lemma carry_1: "B \<le> x \<Longrightarrow> x < 2 * B \<Longrightarrow> x div B = (1 :: int) \<and> x mod B = x - B"
proof -
  assume "B \<le> x" "x < 2 * B"
  then have x: "x = B * 1 + (x - B)" "0 \<le> x - B" "x - B < B" by simp_all
  show ?thesis using int_div_pos_eq [OF x] int_mod_pos_eq [OF x] by blast
qed

lemma carry_m1: "- B \<le> x \<Longrightarrow> x < 0 \<Longrightarrow> x div B = (- 1 :: int) \<and> x mod B = x + B"
proof -
  assume "- B \<le> x" "x < 0"
  then have x: "x = B * - 1 + (x + B)" "0 \<le> x + B" "x + B < B" by simp_all
  show ?thesis using int_div_pos_eq [OF x] int_mod_pos_eq [OF x] by blast
qed

text \<open>Sums, differences and reductions of numbers below a bound, as the digits hold them.\<close>

lemma sum_carry:
  fixes p q B :: int
  assumes "0 \<le> p \<and> p < B" and "0 \<le> q \<and> q < B"
  shows "(p + q) div B = (if p + q < B then 0 else 1)" and "(p + q) mod B = (if p + q < B then p + q else p + q - B)"
  using assms carry_0 [of "p + q" B] carry_1 [of B "p + q"] by auto

lemma diff_carry:
  fixes p q B :: int
  assumes "0 \<le> p \<and> p < B" and "0 \<le> q \<and> q < B"
  shows "(p - q) div B = (if p < q then - 1 else 0)" and "(p - q) mod B = (if p < q then p - q + B else p - q)"
  using assms carry_0 [of "p - q" B] carry_m1 [of B "p - q"] by auto

lemma diff_reduced:
  fixes p q m B :: int
  assumes "0 \<le> p" and "p < m" and "0 \<le> q" and "q < m" and "m < B"
  shows "p < q \<Longrightarrow> ((p - q) mod B + m) mod B = (p - q) mod m" and "\<not> p < q \<Longrightarrow> (p - q) mod B = (p - q) mod m"
proof -
  have b: "0 \<le> p \<and> p < B" "0 \<le> q \<and> q < B" "0 \<le> p \<and> p < m" "0 \<le> q \<and> q < m" using assms by auto
  note d = diff_carry(2) [OF b(1,2)] diff_carry(2) [OF b(3,4)]
  show "\<not> p < q \<Longrightarrow> (p - q) mod B = (p - q) mod m" using d by simp
  assume l: "p < q"
  have "(p - q + B + m) mod B = p - q + m"
    using sum_carry(2) [of "p - q + B" B m] l assms by auto
  then show "((p - q) mod B + m) mod B = (p - q) mod m" using d l by simp
qed

lemma mod_reduced:
  fixes a m B :: int
  assumes "0 \<le> a" and "a < B" and "0 \<le> m" and "m < B" and "a < 2 * m"
  shows "a < m \<Longrightarrow> ((a - m) mod B + m) mod B = a mod m" and "\<not> a < m \<Longrightarrow> (a - m) mod B = a mod m"
proof -
  have b: "0 \<le> a \<and> a < B" "0 \<le> m \<and> m < B" using assms by auto
  note d = diff_carry(2) [OF b]
  show "\<not> a < m \<Longrightarrow> (a - m) mod B = a mod m" using d assms carry_1 [of m a] by simp
  assume l: "a < m"
  have "(a - m + B + m) mod B = a" using assms by simp
  then show "((a - m) mod B + m) mod B = a mod m" using d l assms by simp
qed

lemma two_parts: "v = r + 2 * q \<Longrightarrow> 2 ^ 31 * v = 2 ^ 31 * r + 2 ^ 32 * (q :: int)"
  by simp

lemma shift_digit:
  fixes d v P h :: int
  shows "d div 2 + 2 ^ 31 * (v mod 2) + 2 ^ 32 * (v div 2 + P * h) = (d + 2 ^ 32 * v) div 2 + 2 ^ 32 * P * h"
proof -
  have "(d + 2 ^ 32 * v) div 2 = d div 2 + 2 ^ 31 * v" using div_mult_self2 [of 2 d "2 ^ 31 * v"] by simp
  moreover have "2 ^ 31 * v = 2 ^ 31 * (v mod 2) + 2 ^ 32 * (v div 2)"
    by (rule two_parts) (rule mod_mult_div_eq [symmetric])
  ultimately show ?thesis by (simp add: distrib_left)
qed

lemma half_split:
  fixes s B H :: int
  assumes "B = 2 * H"
  shows "s div 2 = s mod B div 2 + H * (s div B)"
proof -
  have "s mod B + B * (s div B) = s" by (rule mod_mult_div_eq)
  moreover have "B * (s div B) = H * (s div B) * 2" by (simp only: assms mult.assoc mult.commute)
  ultimately have "s = s mod B + H * (s div B) * 2" by (simp only:)
  then have "s div 2 = (s mod B + H * (s div B) * 2) div 2" by (rule arg_cong)
  also have "\<dots> = s mod B div 2 + H * (s div B)" by (subst div_mult_self1) simp_all
  finally show ?thesis .
qed

lemma quotient_less:
  fixes B D c :: int
  assumes "0 < B" and "D < B * c"
  shows "D div B < c"
proof (rule ccontr)
  assume "\<not> D div B < c"
  then have "B * c \<le> B * (D div B)" using assms(1) by simp
  also have "\<dots> \<le> D" using mult_div_mod_eq [of B D] pos_mod_sign [OF assms(1), of D] by linarith
  finally show False using assms(2) by simp
qed

subsection \<open>Operations on one number\<close>

lemma val_bounds: "length a = n \<Longrightarrow> 0 \<le> val a \<and> val a < 2 ^ (32 * n)"
  using val_less [of a] by simp

lemma add_term: "(ucast x + ucast y :: u64) = of_int (uint (x :: u32) + 1 * uint (y :: u32))"
  by (simp only: ucast_of_uint of_int_add mult_1)

lemma sub_term: "(ucast x - ucast y :: u64) = of_int (uint (x :: u32) + - 1 * uint (y :: u32))"
  by (simp only: ucast_of_uint mult_minus1 add_uminus_conv_diff of_int_diff)

lemma mul_term: "(ucast x + ucast y * ucast b :: u64) = of_int (uint (x :: u32) + uint (b :: u32) * uint (y :: u32))"
  by (simp only: ucast_of_uint of_int_add of_int_mult mult.commute)

lemma mask_terms:
  "(ucast x - ucast (y AND - 1) :: u64) = of_int (uint (x :: u32) + - 1 * uint (y :: u32))"
  "(ucast x - ucast (y AND 0) :: u64) = of_int (uint x + 0 * uint y)"
  "(ucast x + ucast (y AND - 1) :: u64) = of_int (uint x + 1 * uint y)"
  "(ucast x + ucast (y AND 0) :: u64) = of_int (uint x + 0 * uint y)"
  by (simp_all only: and.right_neutral and_zero_eq ucast_of_uint mult_minus1 add_uminus_conv_diff of_int_diff of_int_add mult_1 mult_zero_left
      unsigned_0 of_int_0 diff_0_right add_0_right)

lemma sint_carry: "K \<in> {- 1, 0, 1} \<Longrightarrow> sint (ucast (of_int K :: u64) :: u32) = K"
  by (auto simp: ucast_of_int64)

lemma val_Cons_0: "val (d # ds) = 0 \<longleftrightarrow> d = 0 \<and> val ds = 0"
  using val_nonneg [of ds] uint_ge_0 [of d] by (auto simp: add_nonneg_eq_0_iff uint_0_iff)

lemma add_value:
  assumes "length a = n" and "length b = n"
  shows "p256_add a b = ((val a + val b) div 2 ^ (32 * n), snd (p256_add a b))" and "length (snd (p256_add a b)) = n"
    and "val (snd (p256_add a b)) = (val a + val b) mod 2 ^ (32 * n)"
proof -
  obtain K ds where v: "carry_loop 0 (map2 (\<lambda>a b. ucast a + ucast b) a b) = (of_int K, ds)" "length ds = n"
    "val ds + 2 ^ (32 * n) * K = val a + val b"
    using carry_terms [OF add_term, of a b] assms by auto
  note d = val_bounds [OF v(2)] and a = val_bounds [OF assms(1)] and b = val_bounds [OF assms(2)]
  note k = carry_of [OF v(3) conjunct1 [OF d] conjunct2 [OF d]]
  have "K \<in> {- 1, 0, 1}" unfolding k(1) sum_carry(1) [OF a b] by simp
  then show "p256_add a b = ((val a + val b) div 2 ^ (32 * n), snd (p256_add a b))" "length (snd (p256_add a b)) = n"
    "val (snd (p256_add a b)) = (val a + val b) mod 2 ^ (32 * n)"
    using k d v by (simp_all add: p256_add_def sint_carry)
qed

lemma sub_value:
  assumes "length a = n" and "length b = n"
  shows "p256_sub a b = ((val a - val b) div 2 ^ (32 * n), snd (p256_sub a b))" and "length (snd (p256_sub a b)) = n"
    and "val (snd (p256_sub a b)) = (val a - val b) mod 2 ^ (32 * n)"
    and "p256_cmp a b = (if val a < val b then - 1 else if val a = val b then 0 else 1)"
proof -
  obtain K ds where v: "borrow_loop 0 (map2 (\<lambda>a b. ucast a - ucast b) a b) = (of_int K, ds)" "length ds = n"
    "val ds + 2 ^ (32 * n) * K = val a - val b"
    using borrow_terms [OF sub_term, of a b] assms by auto
  note d = val_bounds [OF v(2)] and a = val_bounds [OF assms(1)] and b = val_bounds [OF assms(2)]
  note k = carry_of [OF v(3) conjunct1 [OF d] conjunct2 [OF d]]
  have K: "K = (if val a < val b then - 1 else 0)" unfolding k(1) by (rule diff_carry(1) [OF a b])
  then have s: "K \<in> {- 1, 0, 1}" by simp
  then show "p256_sub a b = ((val a - val b) div 2 ^ (32 * n), snd (p256_sub a b))" "length (snd (p256_sub a b)) = n"
    "val (snd (p256_sub a b)) = (val a - val b) mod 2 ^ (32 * n)"
    using k d v by (simp_all add: p256_sub_def sint_carry)
  have ne: "val (d # ds) = 0 \<longleftrightarrow> d = 0 \<and> val ds = 0" for d ds by (rule val_Cons_0)
  have nz: "foldl (\<lambda>z d. z OR (if d \<noteq> 0 then 1 else 0)) z ds = (if val ds = 0 then z else z OR 1)" for z :: u32
  proof (induction ds arbitrary: z)
    case (Cons d ds)
    then show ?case by (simp add: or.assoc ne del: val.simps)
  qed simp
  show "p256_cmp a b = (if val a < val b then - 1 else if val a = val b then 0 else 1)"
    using v K ucast_of_int64 [of "- 1"] by (cases "val a < val b") (auto simp: p256_cmp_def nz)
qed

lemma is_zero_value: "p256_is_zero a \<longleftrightarrow> val a = 0"
proof -
  have "foldl (OR) z a = 0 \<longleftrightarrow> z = 0 \<and> val a = 0" for z :: u32
  proof (induction a arbitrary: z)
    case (Cons d a)
    then show ?case by (auto simp: val_Cons_0 or_eq_0_iff simp del: val.simps)
  qed simp
  then show ?thesis by (simp add: p256_is_zero_def)
qed

lemma odd_digit: "d AND 1 = (if odd (uint d) then 1 else (0 :: u32))"
  by (rule word_uint_eqI) (simp add: uint_mod and_one_eq odd_iff_mod_2_eq_one)

lemma even_value: "a \<noteq> [] \<Longrightarrow> p256_is_even a \<longleftrightarrow> even (val a)"
  by (cases a) (simp_all add: p256_is_even_def odd_digit)

lemma shr1_digit:
  fixes d e h :: u32
  shows "h \<le> 1 \<Longrightarrow> uint (drop_bit 1 d OR push_bit 31 h) = uint d div 2 + 2 ^ 31 * uint h"
    and "drop_bit 1 d OR push_bit 31 e = drop_bit 1 d OR push_bit 31 (e AND 1)"
proof -
  show "drop_bit 1 d OR push_bit 31 e = drop_bit 1 d OR push_bit 31 (e AND 1)"
  proof (rule bit_word_eqI)
    fix n assume "n < LENGTH(32)"
    then have "31 \<le> n \<Longrightarrow> n - 31 = 0" by simp
    then show "bit (drop_bit 1 d OR push_bit 31 e) n = bit (drop_bit 1 d OR push_bit 31 (e AND 1)) n"
      by (simp only: bit_or_iff bit_push_bit_iff bit_and_iff bit_1_iff) blast
  qed
  assume le: "h \<le> 1"
  have "drop_bit 1 d AND push_bit 31 h = 0"
    by (rule bit_word_eqI) (auto simp: bit_simps dest: bit_imp_le_length)
  then have "drop_bit 1 d OR push_bit 31 h = drop_bit 1 d + push_bit 31 h" by (rule disjunctive_add_eq_or [symmetric])
  moreover have h: "h = 0 \<or> h = 1" using le by (simp add: word_le_nat_alt) (metis le_Suc_eq le_zero_eq One_nat_def unat_0 unat_1 word_unat_eq_iff)
  moreover have "uint (drop_bit 1 d) = uint d div 2" by (simp add: drop_bit_eq_div uint_div)
  moreover have "uint d div 2 < 2 ^ 31" using uint32_lt [of d] by simp
  ultimately show "uint (drop_bit 1 d OR push_bit 31 h) = uint d div 2 + 2 ^ 31 * uint h"
    by (auto simp: uint_word_ariths push_bit_eq_mult)
qed

lemma shr1_value:
  assumes "a \<noteq> []" and "h \<le> 1"
  shows "val (p256_shr1 a h) = val a div 2 + 2 ^ (32 * length a - 1) * uint h \<and> length (p256_shr1 a h) = length a"
  using assms
proof (induction a h rule: p256_shr1.induct)
  case (2 d h)
  then show ?case by (simp only: p256_shr1.simps val.simps shr1_digit(1)) simp
next
  case (3 d e ds h)
  let ?v = "val (e # ds)"
  have l: "e AND 1 \<le> 1" by (simp add: odd_digit)
  have "?v mod 2 = uint e mod 2" using mod_mult_self2 [of "uint e" 2 "2 ^ 31 * val ds"] by simp
  then have e: "uint (e AND 1) = ?v mod 2" by (simp add: odd_digit odd_iff_mod_2_eq_one)
  have p: "(2 :: int) ^ (32 * length (d # e # ds) - 1) = 2 ^ 32 * 2 ^ (32 * length (e # ds) - 1)"
  proof -
    have "32 * length (d # e # ds) - 1 = 32 + (32 * length (e # ds) - 1)" by simp
    then show ?thesis by (simp only: power_add)
  qed
  have IH: "val (p256_shr1 (e # ds) h) = ?v div 2 + 2 ^ (32 * length (e # ds) - 1) * uint h \<and> length (p256_shr1 (e # ds) h) = length (e # ds)"
    using 3 by simp
  have "val (p256_shr1 (d # e # ds) h) = uint d div 2 + 2 ^ 31 * (?v mod 2) + 2 ^ 32 * val (p256_shr1 (e # ds) h)"
    by (subst p256_shr1.simps(3), subst val.simps(2)) (simp only: shr1_digit(2) [of d e] shr1_digit(1) [OF l] e)
  also have "\<dots> = (uint d + 2 ^ 32 * ?v) div 2 + 2 ^ 32 * 2 ^ (32 * length (e # ds) - 1) * uint h"
    unfolding conjunct1 [OF IH] by (rule shift_digit)
  also have "\<dots> = val (d # e # ds) div 2 + 2 ^ (32 * length (d # e # ds) - 1) * uint h"
    unfolding p val.simps(2) [of d "e # ds"] ..
  finally show ?case using IH by simp
qed simp

subsection \<open>Operations modulo a number\<close>

lemma half_value:
  assumes "length m = n" and "length r = n" and "0 < n" and "odd (val m)" and "val r < val m"
  shows "length (half_mod m r) = n" and "val (half_mod m r) < val m" and "\<exists>k \<in> {0, 1}. 2 * val (half_mod m r) = val r + k * val m"
proof -
  let ?B = "2 ^ (32 * n) :: int"
  have r: "r \<noteq> []" using assms(2,3) by auto
  have b: "0 \<le> val m \<and> val m < ?B" "0 \<le> val r \<and> val r < ?B" using val_bounds assms(1,2) by blast+
  have v: "length (half_mod m r) = n \<and> val (half_mod m r) = (if even (val r) then val r else val r + val m) div 2"
  proof (cases "even (val r)")
    case True
    then show ?thesis using shr1_value [OF r, of 0] assms(2) by (simp add: half_mod_def even_value [OF r])
  next
    case False
    let ?s = "val r + val m"
    note a = add_value [OF assms(2,1)]
    have k: "?s div ?B \<in> {0, 1}" unfolding sum_carry(1) [OF b(2,1)] by simp
    then have h: "(of_int (?s div ?B) :: u32) \<le> 1" "uint (of_int (?s div ?B) :: u32) = ?s div ?B" by auto
    have c: "snd (p256_add r m) \<noteq> []" using a(2) assms(3) by auto
    have B: "?B = 2 * 2 ^ (32 * n - 1)" 
    proof -
      have "32 * n = Suc (32 * n - 1)" using assms(3) by simp
      then show ?thesis by (metis power_Suc)
    qed
    have "?s div 2 = ?s mod ?B div 2 + 2 ^ (32 * n - 1) * (?s div ?B)" by (rule half_split [OF B])
    moreover have "half_mod m r = p256_shr1 (snd (p256_add r m)) (of_int (?s div ?B))"
    proof -
      have "fst (p256_add r m) = ?s div ?B" using arg_cong [OF a(1), of fst] by (simp only: fst_conv)
      then show ?thesis using False by (simp only: half_mod_def even_value [OF r] if_False Let_def split_beta)
    qed
    ultimately show ?thesis using shr1_value [OF c h(1)] False by (simp only: a(2,3) h(2) if_False simp_thms)
  qed
  show "length (half_mod m r) = n" using v by blast
  show "\<exists>k \<in> {0, 1}. 2 * val (half_mod m r) = val r + k * val m" using v assms(4) by (cases "even (val r)") auto
  then show "val (half_mod m r) < val m" using assms(5) val_nonneg [of "half_mod m r"] b by (auto simp del: val_nonneg)
qed

lemma sub_mod_value:
  assumes "length m = n" and "length s = n" and "length r = n" and "val s < val m" and "val r < val m"
  shows "length (sub_mod m s r) = n" and "val (sub_mod m s r) = (val s - val r) mod val m"
proof -
  let ?B = "2 ^ (32 * n) :: int" and ?d = "val s - val r"
  note a = sub_value [OF assms(2,3)]
  have b: "0 \<le> val m \<and> val m < ?B" "0 \<le> val r \<and> val r < ?B" "0 \<le> val s \<and> val s < ?B" using val_bounds assms(1-3) by blast+
  have "length (sub_mod m s r) = n \<and> val (sub_mod m s r) = ?d mod val m"
  proof (cases "val s < val r")
    case True
    have p: "p256_sub s r = (- 1, snd (p256_sub s r))" using a(1) diff_carry(1) [OF b(3,2)] True by simp
    note c = add_value [OF a(2) assms(1)]
    have "val (snd (p256_add (snd (p256_sub s r)) m)) = ?d mod val m"
      unfolding c(3) a(3) by (rule diff_reduced(1)) (use b assms(4,5) True in simp_all)
    then show ?thesis using c(2) by (simp add: sub_mod_def p [THEN arg_cong [where f = fst]] split_beta)
  next
    case False
    have p: "p256_sub s r = (0, snd (p256_sub s r))" using a(1) diff_carry(1) [OF b(3,2)] False by simp
    have "val (snd (p256_sub s r)) = ?d mod val m"
      unfolding a(3) by (rule diff_reduced(2)) (use b assms(4,5) False in simp_all)
    then show ?thesis using a(2) by (simp add: sub_mod_def p [THEN arg_cong [where f = fst]] split_beta)
  qed
  then show "length (sub_mod m s r) = n" "val (sub_mod m s r) = ?d mod val m" by blast+
qed

lemma subM_terms:
  assumes "length c = n" and "length m = n" and "msk \<in> {- 1, 0}"
  shows "\<exists>K c'. p256_subM m tp c msk = (tp + of_int K, c') \<and> length c' = n
    \<and> val c' + 2 ^ (32 * n) * K = val c - (if msk = 0 then 0 else val m)"
proof (cases "msk = 0")
  case True
  then show ?thesis using borrow_terms [OF mask_terms(2), of c m] assms by (auto simp: p256_subM_def ucast_of_int64 split_beta)
next
  case False
  then have "msk = - 1" using assms(3) by simp
  then show ?thesis using borrow_terms [OF mask_terms(1), of c m] assms by (auto simp: p256_subM_def ucast_of_int64 split_beta)
qed

lemma addM_terms:
  assumes "length c = n" and "length m = n" and "msk \<in> {- 1, 0}"
  shows "\<exists>K c'. p256_addM m tp c msk = (tp + of_int K, c') \<and> length c' = n
    \<and> val c' + 2 ^ (32 * n) * K = val c + (if msk = 0 then 0 else val m)"
proof (cases "msk = 0")
  case True
  then show ?thesis using carry_terms [OF mask_terms(4), of c m] assms by (auto simp: p256_addM_def ucast_of_int64 split_beta)
next
  case False
  then have "msk = - 1" using assms(3) by simp
  then show ?thesis using carry_terms [OF mask_terms(3), of c m] assms by (auto simp: p256_addM_def ucast_of_int64 split_beta)
qed

lemma mod_value:
  assumes "length m = n" and "length a = n" and "val a < 2 * val m"
  shows "length (p256_mod m a) = n" and "val (p256_mod m a) = val a mod val m"
proof -
  let ?B = "2 ^ (32 * n) :: int" and ?d = "val a - val m"
  have b: "0 \<le> val m \<and> val m < ?B" "0 \<le> val a \<and> val a < ?B" using val_bounds assms(1,2) by blast+
  obtain K c where s: "p256_subM m 0 a (- 1) = (of_int K, c)" "length c = n" "val c + ?B * K = ?d"
    using subM_terms [OF assms(2,1), of "- 1" 0] by auto
  note c = val_bounds [OF s(2)]
  note k = carry_of [OF s(3) conjunct1 [OF c] conjunct2 [OF c]]
  have "length (p256_mod m a) = n \<and> val (p256_mod m a) = val a mod val m"
  proof (cases "val a < val m")
    case True
    have d: "K = - 1" unfolding k(1) diff_carry(1) [OF b(2,1)] using True by simp
    obtain L e where e: "p256_addM m 0 c (- 1) = (of_int L, e)" "length e = n" "val e + ?B * L = val c + val m"
      using addM_terms [OF s(2) assms(1), of "- 1" 0] by auto
    note ev = val_bounds [OF e(2)]
    have "val e = (val c + val m) mod ?B" by (rule carry_of(2) [OF e(3) conjunct1 [OF ev] conjunct2 [OF ev]])
    also have "\<dots> = val a mod val m" unfolding k(2) by (rule mod_reduced(1)) (use b assms(3) True in auto)
    finally show ?thesis using e s d by (simp add: p256_mod_def)
  next
    case False
    have d: "K = 0" unfolding k(1) diff_carry(1) [OF b(2,1)] using False by simp
    obtain L e where e: "p256_addM m 0 c 0 = (of_int L, e)" "length e = n" "val e + ?B * L = val c"
      using addM_terms [OF s(2) assms(1), of 0 0] by auto
    note ev = val_bounds [OF e(2)]
    have "val e = val c mod ?B" by (rule carry_of(2) [OF e(3) conjunct1 [OF ev] conjunct2 [OF ev]])
    also have "\<dots> = val a mod val m" unfolding k(2) mod_mod_trivial by (rule mod_reduced(2)) (use b assms(3) False in auto)
    finally show ?thesis using e s d by (simp add: p256_mod_def)
  qed
  then show "length (p256_mod m a) = n" "val (p256_mod m a) = val a mod val m" by blast+
qed

lemma mulAdd_value:
  fixes b :: u32
  assumes "length c = n" and "length a = n"
  shows "\<exists>c' t. mulAdd a b 0 c = (t, c') \<and> length c' = n \<and> val c' + 2 ^ (32 * n) * uint t = val c + uint b * val a"
proof -
  obtain K ds where v: "carry_loop 0 (map2 (\<lambda>c a. ucast c + ucast a * ucast b) c a) = (of_int K, ds)" "0 \<le> K" "K < 2 ^ 32"
    "length ds = n" "val ds + 2 ^ (32 * n) * K = val c + uint b * val a"
    using carry_terms [OF mul_term [of _ _ b] uint_ge_0 uint32_lt, of c a] assms by auto
  have "uint (of_int K :: u32) = K" using v(2,3) by (simp only: uint_of_int32) simp
  then show ?thesis using v by (simp add: mulAdd_def ucast_of_int64)
qed

lemma subTop_value:
  fixes ta tc :: u32
  assumes "length c = n" and "length a = n"
  defines "D \<equiv> val c + 2 ^ (32 * n) * uint tc - (val a + 2 ^ (32 * n) * uint ta)"
  assumes "0 \<le> D" and "D < 2 ^ (32 * n) * 2 ^ 32"
  shows "\<exists>t c'. subTop ta a tc c = Some (t, c') \<and> length c' = n \<and> val c' + 2 ^ (32 * n) * uint t = D"
proof -
  let ?B = "2 ^ (32 * n) :: int"
  obtain K ds where v: "borrow_loop 0 (map2 (\<lambda>c a. ucast c - ucast a) c a) = (of_int K, ds)" "length ds = n"
    "val ds + ?B * K = val c - val a"
    using borrow_terms [OF sub_term, of c a] assms(1,2) by auto
  define J where "J = K + uint tc - uint ta"
  have "val ds + ?B * J = D" using v(3) by (simp add: J_def D_def algebra_simps)
  note d = val_bounds [OF v(2)]
  have J: "J = D div ?B" by (rule carry_of(1) [OF \<open>val ds + ?B * J = D\<close> conjunct1 [OF d] conjunct2 [OF d]])
  have Bp: "0 < ?B" by simp
  have j: "0 \<le> J" "J < 2 ^ 32" unfolding J using pos_imp_zdiv_nonneg_iff [OF Bp, of D] quotient_less [OF Bp assms(5)] assms(4) by blast+
  have a: "(of_int K + ucast tc - ucast ta :: u64) = of_int J"
    by (simp only: ucast_of_uint J_def of_int_add of_int_diff)
  have "signed_drop_bit 32 (of_int J :: u64) = of_int (J div 2 ^ 32)" by (rule signed_drop_bit_of_int64) (use j in simp_all)
  then have "signed_drop_bit 32 (of_int J :: u64) = 0" using j by simp
  moreover have "uint (of_int J :: u32) = J" using j by (simp only: uint_of_int32) simp
  ultimately show ?thesis using v(1,2) \<open>val ds + ?B * J = D\<close> by (simp add: subTop_def a ucast_of_int64)
qed

subsection \<open>Numbers from bytes\<close>

lemma from_bin_value: "32 \<le> length src \<Longrightarrow> length (p256_from_bin src) = 8 \<and> val (p256_from_bin src) = be_val (take 32 src)"
proof -
  assume l: "32 \<le> length src"
  have "val (rev (map (\<lambda>k. be32 src (4 * k)) [0..<n])) = be_val (take (4 * n) src)" if "n \<le> 8" for n
    using that
  proof (induction n)
    case (Suc n)
    have "take (4 * Suc n) src = take (4 * n) src @ [src ! (4 * n), src ! (4 * n + 1), src ! (4 * n + 2), src ! (4 * n + 3)]"
      using l Suc.prems by (simp add: take_Suc_conv_app_nth numeral_eq_Suc)
    then have "be_val (take (4 * Suc n) src) = be_val (take (4 * n) src) * 2 ^ 32 + uint (be32 src (4 * n))"
      by (simp only: be_val_append uint_be32 list.size) simp
    then show ?case using Suc by simp
  qed simp
  from this [of 8] show ?thesis by (simp add: p256_from_bin_def)
qed

subsection \<open>Multiplication\<close>

text \<open>What \<open>p256_modmul\<close> asks of its modulus: 8 digits, the most significant one full.\<close>

definition modulus_ok :: "p256_int \<Rightarrow> bool" where
  "modulus_ok m \<longleftrightarrow> length m = 8 \<and> m ! 7 = - 1"

lemma modulus_bounds:
  assumes "modulus_ok m"
  shows "length m = 8" and "2 ^ 256 - 2 ^ 224 \<le> val m" and "val m < 2 ^ 256"
proof -
  show l: "length m = 8" using assms by (simp add: modulus_ok_def)
  have "val (take (Suc 7) m) = val (take 7 m) + 2 ^ (32 * 7) * uint (m ! 7)" by (rule val_take_Suc) (simp add: l)
  moreover have "uint (m ! 7) = 2 ^ 32 - 1" using assms by (simp add: modulus_ok_def unsigned_minus_1_eq_mask mask_eq_exp_minus_1)
  moreover have "take (Suc 7) m = m" using l by simp
  ultimately show "2 ^ 256 - 2 ^ 224 \<le> val m" using val_nonneg [of "take 7 m"] by (simp del: val_nonneg)
  show "val m < 2 ^ 256" using val_less [of m] l by simp
qed

lemma reduce_bounds:
  fixes c t m D :: int
  assumes "0 \<le> c" and "c < 2 ^ 256" and "0 \<le> t" and "t < 2 ^ 32" and "2 ^ 256 - 2 ^ 224 \<le> m" and "m < 2 ^ 256" and "D = c + t * (2 ^ 256 - m)"
  shows "0 \<le> D" and "D < 2 ^ 256 + m" and "D < 2 ^ 256 * 2 ^ 32"
proof -
  have "0 \<le> t * (2 ^ 256 - m)" using assms by simp
  moreover have "t * (2 ^ 256 - m) \<le> (2 ^ 32 - 1) * 2 ^ 224" using assms by (intro mult_mono) simp_all
  ultimately show "0 \<le> D" "D < 2 ^ 256 + m" "D < 2 ^ 256 * 2 ^ 32" using assms by simp_all
qed

lemma reduce_step:
  assumes "modulus_ok m" and "length tmp = 17" and "i \<le> 8"
  shows "\<exists>tmp' k. reduce_digit m (Some (tmp, tp)) i = Some (tmp', tmp' ! (i + 7)) \<and> length tmp' = 17 \<and> take i tmp' = take i tmp
    \<and> val (digits_at i tmp') = val (digits_at i tmp) + 2 ^ 256 * uint tp - k * val m"
proof -
  let ?c = "digits_at i tmp"
  note m = modulus_bounds [OF assms(1)]
  have lc: "length ?c = 8" using assms(2,3) by (simp add: digits_at_def)
  obtain r tr where r: "mulAdd m tp 0 (replicate 8 0) = (tr, r)" "length r = 8" "val r + 2 ^ (32 * 8) * uint tr = uint tp * val m"
    using mulAdd_value [of "replicate 8 0" 8 m tp] m(1) by auto
  define D where "D = val ?c + uint tp * (2 ^ 256 - val m)"
  have c: "0 \<le> val ?c" "val ?c < 2 ^ 256" using val_bounds [OF lc] by simp_all
  note D = reduce_bounds [OF c uint_ge_0 uint32_lt m(2,3) D_def]
  have e: "val ?c + 2 ^ (32 * 8) * uint tp - (val r + 2 ^ (32 * 8) * uint tr) = D"
    unfolding r(3) D_def by (simp add: algebra_simps)
  obtain t d where s: "subTop tr r tp ?c = Some (t, d)" "length d = 8" "val d + 2 ^ (32 * 8) * uint t = D"
    using subTop_value [OF lc r(2), of tp tr] D(1,3) unfolding e by auto
  have d: "0 \<le> val d" "val d < 2 ^ 256" using val_bounds [OF s(2)] by simp_all
  have "uint t < 2"
  proof (rule ccontr)
    assume "\<not> uint t < 2"
    then have "2 ^ 256 * 2 \<le> 2 ^ 256 * uint t" by simp
    then show False using s(3) d(1) D(2) m(3) by (simp del: val_nonneg)
  qed
  moreover have "x = 0 \<or> x = 1" if "0 \<le> x" "x < 2" for x :: int using that by auto
  ultimately have "uint t = 0 \<or> uint t = 1" using uint_ge_0 [of t] by blast
  then have t: "t = 0 \<or> t = 1" by (auto simp: word_uint_eq_iff)
  define msk where "msk = NOT (t - 1)"
  have msk: "msk \<in> {- 1, 0}" "msk = 0 \<longleftrightarrow> t = 0" using t by (auto simp: msk_def)
  obtain K f where f: "p256_subM m t d msk = (t + of_int K, f)" "length f = 8"
      "val f + 2 ^ (32 * 8) * K = val d - (if msk = 0 then 0 else val m)"
    using subM_terms [OF s(2) m(1) msk(1), of t] by auto
  have fb: "0 \<le> val f" "val f < 2 ^ (32 * 8)" using val_bounds [OF f(2)] by simp_all
  have "K = - uint t"
  proof (cases "t = 0")
    case True
    have z: "val f + 2 ^ (32 * 8) * K = val d" using f(3) msk(2) True by simp
    show ?thesis using carry_of(1) [OF z fb] d True by simp
  next
    case False
    then have t1: "uint t = 1" using t by auto
    have z: "val f + 2 ^ (32 * 8) * K = val d - val m" using f(3) msk(2) False by simp
    have "- (2 ^ 256) \<le> val d - val m \<and> val d - val m < 0" using d(1) m(3) s(3) t1 D(2) by (simp del: val_nonneg)
    then show ?thesis using carry_of(1) [OF z fb] carry_m1 [of "2 ^ 256" "val d - val m"] t1 by simp
  qed
  then have K: "t + of_int K = 0" "val f + 2 ^ (32 * 8) * K = val f - 2 ^ (32 * 8) * uint t" by simp_all
  have vf: "val f = D - (if msk = 0 then 0 else val m)" using f(3) s(3) unfolding K(2) by simp
  let ?t = "put_digits i f tmp"
  have at: "digits_at i ?t = f" "length ?t = 17" "take i ?t = take i tmp"
    using f(2) assms(2,3) by (simp_all add: digits_at_def put_digits_def)
  have le: "t \<le> 1" using t by auto
  have red: "reduce_digit m (Some (tmp, tp)) i = Some (?t, ?t ! (i + 7))"
    using r(1) s(1) le f(1) K(1) by (simp add: Let_def add.commute flip: msk_def)
  have "val f = val ?c + 2 ^ 256 * uint tp - (uint tp + (if msk = 0 then 0 else 1)) * val m"
    unfolding vf D_def by (simp add: algebra_simps)
  then show ?thesis by (intro exI [of _ ?t] exI [of _ "uint tp + (if msk = 0 then 0 else 1)"]) (simp only: red at simp_thms)
qed

lemma digits_split:
  assumes "length x = 17" and "n \<le> 8"
  shows "val (take (Suc (n + 7)) x) = val (take n x) + 2 ^ (32 * n) * val (digits_at n x)" and "Suc (n + 7) = n + 8"
proof -
  show e: "Suc (n + 7) = n + 8" by simp
  show "val (take (Suc (n + 7)) x) = val (take n x) + 2 ^ (32 * n) * val (digits_at n x)"
    using assms unfolding e by (simp add: take_add val_append digits_at_def)
qed

lemma reduce_value:
  assumes "modulus_ok m" and "length tmp = 17" and "n \<le> 9" and "n = 0 \<Longrightarrow> tp = tmp ! 7"
  shows "\<exists>tmp' tp'. foldl (reduce_digit m) (Some (tmp, tp)) (rev [0..<n]) = Some (tmp', tp') \<and> length tmp' = 17
    \<and> val (digits_at 0 tmp') mod val m = (val (take (n + 7) tmp) + 2 ^ (32 * (n + 7)) * uint tp) mod val m"
  using assms(2-4)
proof (induction n arbitrary: tmp tp)
  case 0
  have "val (take (Suc 7) tmp) = val (take 7 tmp) + 2 ^ (32 * 7) * uint (tmp ! 7)" by (rule val_take_Suc) (simp add: 0)
  then show ?case using 0 by (simp add: digits_at_def)
next
  case (Suc n)
  have n: "n \<le> 8" using Suc.prems(2) by simp
  obtain t k where s: "reduce_digit m (Some (tmp, tp)) n = Some (t, t ! (n + 7))" "length t = 17" "take n t = take n tmp"
      "val (digits_at n t) = val (digits_at n tmp) + 2 ^ 256 * uint tp - k * val m"
    using reduce_step [OF assms(1) Suc.prems(1) n] by blast
  obtain t' tp' where IH: "foldl (reduce_digit m) (Some (t, t ! (n + 7))) (rev [0..<n]) = Some (t', tp')" "length t' = 17"
      "val (digits_at 0 t') mod val m = (val (take (n + 7) t) + 2 ^ (32 * (n + 7)) * uint (t ! (n + 7))) mod val m"
    using Suc.IH [OF s(2), of "t ! (n + 7)"] n by auto
  have "val (take (n + 7) t) + 2 ^ (32 * (n + 7)) * uint (t ! (n + 7)) = val (take (Suc (n + 7)) t)"
    by (rule val_take_Suc [symmetric]) (use s(2) n in simp)
  also have "\<dots> = val (take n tmp) + 2 ^ (32 * n) * (val (digits_at n tmp) + 2 ^ 256 * uint tp - k * val m)"
    unfolding digits_split(1) [OF s(2) n] s(3,4) ..
  also have "\<dots> = val (take (n + 8) tmp) + 2 ^ (32 * (n + 8)) * uint tp - (2 ^ (32 * n) * k) * val m"
  proof -
    have s8: "val (take (n + 8) tmp) = val (take n tmp) + 2 ^ (32 * n) * val (digits_at n tmp)"
      using digits_split [OF Suc.prems(1) n] by (simp only:)
    have pw: "(2 :: int) ^ (32 * (n + 8)) = 2 ^ (32 * n) * 2 ^ 256" by (simp add: distrib_left power_add)
    have g: "x + P * (d + Q * t - k * m) = (x + P * d) + P * Q * t - (P * k) * m" for x P d Q t k m :: int by (simp add: algebra_simps)
    show ?thesis unfolding s8 pw by (rule g)
  qed
  also have "\<dots> mod val m = (val (take (n + 8) tmp) + 2 ^ (32 * (n + 8)) * uint tp) mod val m"
    using mod_mult_self1 [of "val (take (n + 8) tmp) + 2 ^ (32 * (n + 8)) * uint tp - (2 ^ (32 * n) * k) * val m" "2 ^ (32 * n) * k" "val m"] by simp
  finally have "val (digits_at 0 t') mod val m = (val (take (n + 8) tmp) + 2 ^ (32 * (n + 8)) * uint tp) mod val m" unfolding IH(3) .
  then show ?case using IH(1,2) s(1) by (simp add: add.commute)
qed

lemma mul_step:
  assumes "length a = 8" and "length tmp = 17" and "i \<le> 8" and "i = 0 \<Longrightarrow> tp = tmp ! 7"
  shows "\<exists>tmp' tp'. mul_digit a (tmp, tp) (i, b) = (tmp', tp') \<and> length tmp' = 17
    \<and> val (take (i + 8) tmp') + 2 ^ (32 * (i + 8)) * uint tp' = val (take (i + 7) tmp) + 2 ^ (32 * (i + 7)) * uint tp + 2 ^ (32 * i) * (uint b * val a)"
proof -
  define x where "x = (if i \<noteq> 0 then tmp[i + 7 := tp] else tmp)"
  have x: "length x = 17" "take (i + 7) x = take (i + 7) tmp" "x ! (i + 7) = tp"
    using assms(2-4) by (cases "i = 0"; simp add: x_def)+
  have lc: "length (digits_at i x) = 8" using x(1) assms(3) by (simp add: digits_at_def)
  obtain c t where c: "mulAdd a b 0 (digits_at i x) = (t, c)" "length c = 8" "val c + 2 ^ (32 * 8) * uint t = val (digits_at i x) + uint b * val a"
    using mulAdd_value [OF lc assms(1), of b] by blast
  let ?t = "put_digits i c x"
  have t: "length ?t = 17" "take (i + 8) ?t = take i x @ c" using x(1) c(2) assms(3) by (simp_all add: put_digits_def)
  have "val (take (i + 8) ?t) + 2 ^ (32 * (i + 8)) * uint t = val (take i x) + 2 ^ (32 * i) * (val c + 2 ^ (32 * 8) * uint t)"
    using x(1) assms(3) by (simp add: t(2) val_append power_add algebra_simps)
  also have "\<dots> = (val (take i x) + 2 ^ (32 * i) * val (digits_at i x)) + 2 ^ (32 * i) * (uint b * val a)"
    unfolding c(3) by (simp only: distrib_left add.assoc)
  also have "val (take i x) + 2 ^ (32 * i) * val (digits_at i x) = val (take (Suc (i + 7)) x)"
    by (rule digits_split(1) [OF x(1) assms(3), symmetric])
  also have "\<dots> = val (take (i + 7) tmp) + 2 ^ (32 * (i + 7)) * uint tp"
    using x assms(3) by (subst val_take_Suc) simp_all
  finally have v: "val (take (i + 8) ?t) + 2 ^ (32 * (i + 8)) * uint t
      = val (take (i + 7) tmp) + 2 ^ (32 * (i + 7)) * uint tp + 2 ^ (32 * i) * (uint b * val a)" .
  have "i + 8 - 1 = i + 7" by simp
  then have "mul_digit a (tmp, tp) (i, b) = (let (t, c) = mulAdd a b 0 (digits_at i x) in (put_digits i c x, t))"
    by (simp only: mul_digit.simps Let_def x_def)
  then have "mul_digit a (tmp, tp) (i, b) = (?t, t)" by (simp only: c(1) Let_def prod.case)
  then show ?thesis using t(1) v by blast
qed

lemma mul_value:
  assumes "length a = 8" and "length bs = 9" and "n \<le> 9"
  shows "\<exists>tmp tp. foldl (mul_digit a) (replicate 17 0, 0) (zip [0..<n] (take n bs)) = (tmp, tp) \<and> length tmp = 17
    \<and> (n = 0 \<longrightarrow> tp = tmp ! 7) \<and> val (take (n + 7) tmp) + 2 ^ (32 * (n + 7)) * uint tp = val a * val (take n bs)"
  using assms(3)
proof (induction n)
  case 0
  show ?case by simp
next
  case (Suc n)
  then obtain tmp tp where IH: "foldl (mul_digit a) (replicate 17 0, 0) (zip [0..<n] (take n bs)) = (tmp, tp)" "length tmp = 17"
      "n = 0 \<longrightarrow> tp = tmp ! 7" "val (take (n + 7) tmp) + 2 ^ (32 * (n + 7)) * uint tp = val a * val (take n bs)" by auto
  have n: "n \<le> 8" "n < length bs" using Suc.prems assms(2) by simp_all
  obtain t t' where s: "mul_digit a (tmp, tp) (n, bs ! n) = (t, t')" "length t = 17"
      "val (take (n + 8) t) + 2 ^ (32 * (n + 8)) * uint t' = val a * val (take n bs) + 2 ^ (32 * n) * (uint (bs ! n) * val a)"
    using mul_step [OF assms(1) IH(2) n(1), of tp "bs ! n"] IH(3,4) by auto
  have "zip [0..<Suc n] (take (Suc n) bs) = zip [0..<n] (take n bs) @ [(n, bs ! n)]"
    using n(2) by (simp add: take_Suc_conv_app_nth zip_append)
  then have "foldl (mul_digit a) (replicate 17 0, 0) (zip [0..<Suc n] (take (Suc n) bs)) = (t, t')"
    by (simp only: foldl_append IH(1) foldl.simps s(1))
  moreover have "val a * val (take n bs) + 2 ^ (32 * n) * (uint (bs ! n) * val a) = val a * val (take (Suc n) bs)"
    unfolding val_take_Suc [OF n(2)] by (simp add: algebra_simps)
  moreover have "Suc n + 7 = n + 8" by simp
  ultimately show ?case using s(2,3) by (intro exI [of _ t] exI [of _ t']) (simp only: simp_thms nat.distinct)
qed

lemma modmul_value:
  assumes "modulus_ok m" and "length a = 8" and "length b = 8"
  shows "\<exists>c. p256_modmul m a top_b b = Some c \<and> length c = 8 \<and> val c = val a * (val b + 2 ^ 256 * uint top_b) mod val m"
proof -
  let ?bs = "b @ [top_b]"
  note m = modulus_bounds [OF assms(1)]
  have "val a * val (take 9 ?bs) = val a * (val b + 2 ^ 256 * uint top_b)" using assms(3) by (simp add: val_append)
  moreover obtain tmp tp where p: "foldl (mul_digit a) (replicate 17 0, 0) (zip [0..<9] (take 9 ?bs)) = (tmp, tp)" "length tmp = 17"
      "val (take (9 + 7) tmp) + 2 ^ (32 * (9 + 7)) * uint tp = val a * val (take 9 ?bs)"
    using mul_value [OF assms(2), of ?bs 9] assms(3) by auto
  moreover obtain t tp' where r: "foldl (reduce_digit m) (Some (tmp, tp)) (rev [0..<9]) = Some (t, tp')" "length t = 17"
      "val (digits_at 0 t) mod val m = (val (take (9 + 7) tmp) + 2 ^ (32 * (9 + 7)) * uint tp) mod val m"
    using reduce_value [OF assms(1) p(2), of 9 tp] by auto
  ultimately have v: "val (digits_at 0 t) mod val m = val a * (val b + 2 ^ 256 * uint top_b) mod val m" by (simp only:)
  have l: "length (digits_at 0 t) = 8" using r(2) by (simp add: digits_at_def)
  have "val (digits_at 0 t) < 2 * val m" using val_less [of "digits_at 0 t"] l m(2) by simp
  note f = mod_value [OF m(1) l this]
  have n: "9 = 8 + (1 :: nat)" "replicate (8 * 2 + 1) 0 = replicate 17 (0 :: u32)" "take 9 ?bs = ?bs" using assms(3) by simp_all
  have "p256_modmul m a top_b b = Some (p256_mod m (digits_at 0 t))"
    unfolding p256_modmul_def n(2) using p(1) [unfolded n(3)] r(1)
    by (simp add: p256_mod_def split_beta Let_def del: upt_Suc)
  then show ?thesis using f v by simp
qed

subsection \<open>Inversion\<close>

text \<open>The state of the loop: \<open>R * a = U\<close> and \<open>S * a = V\<close> modulo \<open>m\<close>, and the two numbers have the greatest common
  divisor of \<open>a\<close> and \<open>m\<close>.\<close>

definition modinv_inv :: "p256_int \<Rightarrow> int \<Rightarrow> p256_int \<Rightarrow> p256_int \<Rightarrow> p256_int \<Rightarrow> p256_int \<Rightarrow> bool" where
  "modinv_inv m a R S U V \<longleftrightarrow>
     length R = 8 \<and> length S = 8 \<and> length U = 8 \<and> length V = 8 \<and> val R < val m \<and> val S < val m \<and> 0 < val U \<and> 0 < val V
     \<and> val m dvd val R * a - val U \<and> val m dvd val S * a - val V \<and> (odd (val U) \<or> odd (val V)) \<and> gcd (val U) (val V) = gcd a (val m)"

lemma dvd_half:
  fixes m r a u r' u' k :: int
  assumes "odd m" and "m dvd r * a - u" and "2 * r' = r + k * m" and "u = 2 * u'"
  shows "m dvd r' * a - u'"
proof -
  have "2 * (r' * a - u') = (r * a - u) + m * (k * a)" using assms(3,4) by (simp add: algebra_simps)
  then have "m dvd 2 * (r' * a - u')" using assms(2) by simp
  moreover have "coprime m 2" using assms(1) by simp
  ultimately show ?thesis using coprime_dvd_mult_right_iff by blast
qed

lemma dvd_diff_mod:
  fixes m s r a u v :: int
  assumes "m dvd r * a - u" and "m dvd s * a - v"
  shows "m dvd (s - r) mod m * a - (v - u)"
proof -
  obtain q where q: "(s - r) mod m = s - r - m * q" by (rule that [OF minus_mult_div_eq_mod [symmetric]])
  have e: "(s - r) mod m * a - (v - u) = (s * a - v) - (r * a - u) - m * (q * a)" unfolding q by (simp add: algebra_simps)
  show ?thesis unfolding e by (rule dvd_diff [OF dvd_diff [OF assms(2,1)] dvd_triv_left])
qed

lemma gcd_half:
  fixes u v :: int
  assumes "odd v" and "u = 2 * u'"
  shows "gcd u' v = gcd u v"
  using assms gcd_mult_left_left_cancel [of v 2 u'] by simp

lemma shr_even:
  assumes "length u = 8" and "even (val u)"
  shows "length (p256_shr1 u 0) = 8" and "val u = 2 * val (p256_shr1 u 0)"
proof -
  have "u \<noteq> []" using assms(1) by auto
  then show "length (p256_shr1 u 0) = 8" "val u = 2 * val (p256_shr1 u 0)" using shr1_value [of u 0] assms by simp_all
qed

lemma modinv_loop_value:
  assumes "length m = 8" and "odd (val m)" and "modinv_inv m a R S U V"
  shows "\<exists>r. modinv_loop m R S U V = Some r \<and> length r = 8 \<and> val r < val m \<and> val m dvd val r * a - gcd a (val m)"
  using assms(3)
proof (induction "nat (val U + val V)" arbitrary: R S U V rule: less_induct)
  case less
  have len: "length R = 8" "length S = 8" "length U = 8" "length V = 8" and R: "val R < val m" and S: "val S < val m"
    and U: "0 < val U" and V: "0 < val V" and dR: "val m dvd val R * a - val U" and dS: "val m dvd val S * a - val V"
    and o: "odd (val U) \<or> odd (val V)" and g: "gcd (val U) (val V) = gcd a (val m)"
    using less.prems by (simp_all add: modinv_inv_def)
  have ne: "U \<noteq> []" "V \<noteq> []" using len by auto
  note ev = even_value [OF ne(1)] even_value [OF ne(2)]
  note sV = sub_value [OF len(4,3)] and sU = sub_value [OF len(3,4)]
  have B: "0 \<le> val U \<and> val U < 2 ^ (32 * 8)" "0 \<le> val V \<and> val V < 2 ^ (32 * 8)" using val_bounds len by blast+
  consider (u) "even (val U)" | (v) "odd (val U)" "even (val V)" | (le) "odd (val U)" "odd (val V)" "val U \<le> val V"
    | (gt) "odd (val U)" "odd (val V)" "val V < val U" by linarith
  then show ?case
  proof cases
    case u
    let ?U = "p256_shr1 U 0" and ?R = "half_mod m R"
    note h = half_value [OF assms(1) len(1) zero_less_numeral assms(2) R] and s = shr_even [OF len(3) u]
    obtain k where k: "2 * val ?R = val R + k * val m" using h(3) by blast
    have "modinv_inv m a ?R S ?U V"
      using h(1,2) s len S U V o u dS dvd_half [OF assms(2) dR k s(2)] gcd_half [OF _ s(2), of "val V"] g
      by (auto simp: modinv_inv_def)
    moreover have "nat (val ?U + val V) < nat (val U + val V)" using s(2) U V by simp
    ultimately show ?thesis using less.hyps [of ?U V ?R S] u by (subst modinv_loop.simps) (simp add: ev)
  next
    case v
    let ?V = "p256_shr1 V 0" and ?S = "half_mod m S"
    note h = half_value [OF assms(1) len(2) zero_less_numeral assms(2) S] and s = shr_even [OF len(4) v(2)]
    obtain k where k: "2 * val ?S = val S + k * val m" using h(3) by blast
    have "modinv_inv m a R ?S U ?V"
      using h(1,2) s len R U V v dR dvd_half [OF assms(2) dS k s(2)] gcd_half [OF v(1) s(2)] g
      by (auto simp: modinv_inv_def gcd.commute)
    moreover have "nat (val U + val ?V) < nat (val U + val V)" using s(2) U V by simp
    ultimately show ?thesis using less.hyps [of U ?V R ?S] v by (subst modinv_loop.simps) (simp add: ev)
  next
    case le
    let ?V = "snd (p256_sub V U)" and ?S = "sub_mod m S R"
    have f: "fst (p256_sub V U) = 0" using arg_cong [OF sV(1), of fst] diff_carry(1) [OF B(2,1)] le(3) by simp
    have v: "val ?V = val V - val U" using sV(3) diff_carry(2) [OF B(2,1)] le(3) by simp
    note m = sub_mod_value [OF assms(1) len(2,1) S R]
    show ?thesis
    proof (cases "val V = val U")
      case True
      then have "p256_is_zero ?V" by (simp add: is_zero_value v)
      then have "modinv_loop m R S U V = Some R" using le f by (subst modinv_loop.simps) (simp add: ev Let_def)
      moreover have "gcd a (val m) = val U" using g True U by simp
      ultimately show ?thesis using len R dR by simp
    next
      case False
      then have nz: "\<not> p256_is_zero ?V" by (simp add: is_zero_value v)
      have "modinv_inv m a R ?S U ?V"
        using m sV(2) len R U V le False v dR dvd_diff_mod [OF dR dS] pos_mod_bound [of "val m" "val S - val R"] S val_nonneg [of S] gcd_diff1 [of "val V" "val U"] g
        by (auto simp: modinv_inv_def gcd.commute simp del: val_nonneg)
      moreover have "nat (val U + val ?V) < nat (val U + val V)" using v U V by simp
      ultimately show ?thesis using less.hyps [of U ?V R ?S] le f nz by (subst modinv_loop.simps) (simp add: ev Let_def)
    qed
  next
    case gt
    let ?U = "snd (p256_sub U V)" and ?R = "sub_mod m R S"
    have f: "fst (p256_sub V U) \<noteq> 0" using arg_cong [OF sV(1), of fst] diff_carry(1) [OF B(2,1)] gt(3) by simp
    have u: "val ?U = val U - val V" using sU(3) diff_carry(2) [OF B(1,2)] gt(3) by simp
    note m = sub_mod_value [OF assms(1) len(1,2) R S]
    have "modinv_inv m a ?R S ?U V"
      using m sU(2) len S U V gt u dS dvd_diff_mod [OF dS dR] pos_mod_bound [of "val m" "val R - val S"] R val_nonneg [of R] gcd_diff1 [of "val U" "val V"] g
      by (auto simp: modinv_inv_def simp del: val_nonneg)
    moreover have "nat (val ?U + val V) < nat (val U + val V)" using u U V by simp
    ultimately show ?thesis using less.hyps [of ?U V ?R S] gt f by (subst modinv_loop.simps) (simp add: ev)
  qed
qed

lemma modinv_loop_zero:
  assumes "modinv_loop m R S U V = Some r"
  shows "length V = 8 \<longrightarrow> val V \<noteq> 0"
proof (rule modinv_loop.raw_induct [OF _ assms, where P = "\<lambda>m R S U V r. length V = 8 \<longrightarrow> val V \<noteq> 0"], goal_cases)
  case step: (1 loop m R S U V r)
  show ?case
  proof (intro impI notI)
    assume l: "length V = 8" and z: "val V = 0"
    have "V \<noteq> []" using l by auto
    note e = even_value [OF this]
    have s: "length (p256_shr1 V 0) = 8" "val (p256_shr1 V 0) = 0" using shr_even [OF l] z by simp_all
    show False
      using step(2) step(1) [of m "half_mod m R" S "p256_shr1 U 0" V r] step(1) [of m R "half_mod m S" U "p256_shr1 V 0" r] l z s
      by (auto simp: e split: if_splits)
  qed
qed

subsection \<open>Properties\<close>

text \<open>(C6) \<^verbatim>\<open>p256_modmul\<close> on 8 digits returns, none of its assertions failing, and its result is the product modulo the
  modulus, reduced, for every modulus with a full first digit and every additional digit \<open>top_b\<close>.\<close>

theorem p256_modmul_correct:
  assumes "modulus_ok m" and "length a = 8" and "length b = 8"
  shows "\<exists>c. p256_modmul m a top_b b = Some c \<and> length c = 8 \<and> val c = val a * (val b + 2 ^ 256 * uint top_b) mod val m"
  by (rule modmul_value [OF assms])

lemma p_ok: "modulus_ok SECP256r1_p"
  by (simp add: modulus_ok_def SECP256r1_p_def)

lemma p_value: "val SECP256r1_p = 2 ^ 256 - 2 ^ 224 + 2 ^ 192 + 2 ^ 96 - 1"
  by (simp add: SECP256r1_p_def unsigned_minus_1_eq_mask mask_eq_exp_minus_1)

theorem p256_modmul_correct_witness:
  "\<exists>c. p256_modmul SECP256r1_p SECP256r1_b 5 SECP256r1_n = Some c
     \<and> val c = val SECP256r1_b * (val SECP256r1_n + 2 ^ 256 * 5) mod (2 ^ 256 - 2 ^ 224 + 2 ^ 192 + 2 ^ 96 - 1)"
proof -
  have "length SECP256r1_b = 8" "length SECP256r1_n = 8" by (simp_all add: SECP256r1_b_def SECP256r1_n_def)
  from p256_modmul_correct [OF p_ok this, of 5] show ?thesis unfolding p_value by auto
qed

text \<open>(C12) \<^verbatim>\<open>p256_modinv_vartime\<close> returns for every number but 0, and its result times the number is their greatest common
  divisor with the modulus, so the inverse where there is one, for every odd modulus; for 0 its loop never ends.\<close>

theorem p256_modinv_correct:
  assumes "length m = 8" and "odd (val m)" and "1 < val m" and "length a = 8"
  shows "(val a \<noteq> 0 \<longrightarrow> (\<exists>b. p256_modinv_vartime m a = Some b \<and> length b = 8 \<and> val b < val m \<and> val b * val a mod val m = gcd (val a) (val m) mod val m))
    \<and> (val a = 0 \<longrightarrow> p256_modinv_vartime m a = None)"
proof -
  let ?R = "replicate 8 0 :: u32 list" and ?S = "1 # replicate (8 - 1) 0 :: u32 list"
  have "\<exists>b. p256_modinv_vartime m a = Some b \<and> length b = 8 \<and> val b < val m \<and> val b * val a mod val m = gcd (val a) (val m) mod val m" if "val a \<noteq> 0"
  proof -
    have "val ?S = 1" by (simp add: numeral_eq_Suc)
    then have "modinv_inv m (val a) ?R ?S m a"
      using assms that val_nonneg [of a] by (auto simp: modinv_inv_def gcd.commute simp del: val_nonneg)
    from modinv_loop_value [OF assms(1,2) this] obtain r where r: "modinv_loop m ?R ?S m a = Some r" "length r = 8" "val r < val m"
      "val m dvd val r * val a - gcd (val a) (val m)" by blast
    have "val r < 2 * val m" using r(3) assms(3) by simp
    note p = mod_value [OF assms(1) r(2) this]
    have "val (p256_mod m r) = val r" using p(2) r(3) by simp
    moreover have "val r * val a mod val m = gcd (val a) (val m) mod val m" using r(4) by (simp add: mod_eq_dvd_iff)
    ultimately show ?thesis using p(1) r by (simp add: p256_modinv_vartime_def)
  qed
  moreover have "p256_modinv_vartime m a = None" if "val a = 0"
    using modinv_loop_zero [of m ?R ?S m a] that assms(4) by (cases "modinv_loop m ?R ?S m a") (auto simp: p256_modinv_vartime_def)
  ultimately show ?thesis by blast
qed

theorem p256_modinv_correct_witness:
  "(\<exists>b. p256_modinv_vartime [35, 0, 0, 0, 0, 0, 0, 0] [12, 0, 0, 0, 0, 0, 0, 0] = Some b \<and> val b * 12 mod 35 = 1)
    \<and> p256_modinv_vartime [35, 0, 0, 0, 0, 0, 0, 0] [0, 0, 0, 0, 0, 0, 0, 0] = None"
proof -
  have g: "gcd 12 (35 :: int) = 1" by (simp add: gcd_non_0_int)
  show ?thesis
    using p256_modinv_correct [of "[35, 0, 0, 0, 0, 0, 0, 0]" "[12, 0, 0, 0, 0, 0, 0, 0]"]
      p256_modinv_correct [of "[35, 0, 0, 0, 0, 0, 0, 0]" "[0, 0, 0, 0, 0, 0, 0, 0]"] g
    by auto
qed

subsection \<open>The curve\<close>

definition curve_side :: "int \<Rightarrow> int" where
  "curve_side x = (x ^ 3 - 3 * x) mod val SECP256r1_p + val SECP256r1_b"

definition on_curve :: "int \<Rightarrow> int \<Rightarrow> bool" where
  "on_curve x y \<longleftrightarrow> 0 < x \<and> x < val SECP256r1_p \<and> 0 < y \<and> y < val SECP256r1_p
     \<and> y ^ 2 mod val SECP256r1_p = (x ^ 3 - 3 * x + val SECP256r1_b) mod val SECP256r1_p"

lemma valid_point_value:
  assumes "length x = 8" and "length y = 8"
  defines "p \<equiv> val SECP256r1_p" and "s \<equiv> curve_side (val x)"
  shows "p256_is_valid_point x y = Some (0 < val x \<and> val x < p \<and> 0 < val y \<and> val y < p
    \<and> val y ^ 2 mod p = (if s < 2 ^ 256 then s else s - p))"
proof -
  let ?p = SECP256r1_p and ?b = SECP256r1_b
  note m = modulus_bounds [OF p_ok]
  have lb: "length ?b = 8" by (simp add: SECP256r1_b_def)
  have c: "p256_cmp ?p z \<le> 0 \<longleftrightarrow> \<not> val z < p" if "length z = 8" for z
    using sub_value(4) [OF m(1) that] by (auto simp: p_def)
  have z: "p256_is_zero z \<longleftrightarrow> \<not> 0 < val z" for z using val_nonneg [of z] by (auto simp: is_zero_value simp del: val_nonneg)
  show ?thesis
  proof (cases "0 < val x \<and> val x < p \<and> 0 < val y \<and> val y < p")
    case False
    then show ?thesis using c [OF assms(1)] c [OF assms(2)] z by (auto simp: p256_is_valid_point_def)
  next
    case True
    then have xp: "val x < val ?p" by (simp add: p_def)
    obtain y2 where y2: "p256_modmul ?p y 0 y = Some y2" "length y2 = 8" "val y2 = val y * val y mod p"
      using modmul_value [OF p_ok assms(2,2), of 0] by (auto simp: p_def)
    obtain q where q: "p256_modmul ?p x 0 x = Some q" "length q = 8" "val q = val x * val x mod p"
      using modmul_value [OF p_ok assms(1,1), of 0] by (auto simp: p_def)
    obtain x3 where x3: "p256_modmul ?p x 0 q = Some x3" "length x3 = 8" "val x3 = val x * val q mod p"
      using modmul_value [OF p_ok assms(1) q(2), of 0] by (auto simp: p_def)
    have pos: "0 < p" using True by linarith
    have lt: "w mod p < p" for w using pos by simp
    have lp: "val w < val ?p" if "val w = v mod p" for w v using lt [of v] that by (simp add: p_def)
    let ?s1 = "sub_mod ?p x3 x" let ?s2 = "sub_mod ?p ?s1 x" let ?s = "sub_mod ?p ?s2 x"
    note s1 = sub_mod_value [OF m(1) x3(2) assms(1) lp [OF x3(3)] xp, folded p_def]
    note s2 = sub_mod_value [OF m(1) s1(1) assms(1) lp [OF s1(2)] xp, folded p_def]
    note s3 = sub_mod_value [OF m(1) s2(1) assms(1) lp [OF s2(2)] xp, folded p_def]
    have "val ?s = (val x * (val x * val x) - val x - val x - val x) mod p"
      unfolding s3(2) s2(2) s1(2) x3(3) q(3) mod_diff_left_eq mod_mult_right_eq ..
    also have "val x * (val x * val x) - val x - val x - val x = val x ^ 3 - 3 * val x" by (simp add: power3_eq_cube)
    finally have s: "val ?s + val ?b = s" by (simp add: s_def curve_side_def p_def)
    let ?B = "2 ^ (32 * 8) :: int"
    note a = add_value [OF s3(1) lb, unfolded s]
    have bb: "0 \<le> val ?s \<and> val ?s < ?B" "0 \<le> val ?b \<and> val ?b < ?B" using val_bounds s3(1) lb by blast+
    note sc = sum_carry [OF bb, unfolded s]
    define x3' where "x3' = (if fst (p256_add ?s ?b) \<noteq> 0 then snd (p256_sub (snd (p256_add ?s ?b)) ?p) else snd (p256_add ?s ?b))"
    have f: "fst (p256_add ?s ?b) = s div ?B" using arg_cong [OF a(1), of fst] by (simp only: fst_conv)
    have x3': "length x3' = 8 \<and> val x3' = (if s < 2 ^ 256 then s else s - p)"
    proof (cases "s < 2 ^ 256")
      case True
      then have "s div ?B = 0" "s mod ?B = s" using sc by simp_all
      then have "x3' = snd (p256_add ?s ?b)" unfolding x3'_def f by simp
      then show ?thesis using a(2,3) sc(2) True by simp
    next
      case False
      then have "s div ?B \<noteq> 0" and md: "s mod ?B = s - ?B" using sc by simp_all
      then have e: "x3' = snd (p256_sub (snd (p256_add ?s ?b)) ?p)" unfolding x3'_def f by simp
      note d = sub_value [OF a(2) m(1)]
      have "val ?s < p" unfolding s3(2) by (rule lt)
      then have sp: "s < ?B + p" "p < ?B" "0 \<le> p" using bb(2) s m(3) pos by (simp_all add: p_def)
      have "val x3' = (s - ?B - p) mod ?B" unfolding e d(3) a(3) md p_def ..
      also have "\<dots> = s - p" using carry_m1 [of ?B "s - ?B - p"] sp False by simp
      finally show ?thesis using d(2) False unfolding e by simp
    qed
    have "p256_cmp y2 x3' = 0 \<longleftrightarrow> val y2 = val x3'" using sub_value(4) [OF y2(2) conjunct1 [OF x3']] by auto
    moreover have "p256_is_valid_point x y = Some (p256_cmp y2 x3' = 0)"
      using True c [OF assms(1)] c [OF assms(2)] z y2(1) q(1) x3(1)
      by (simp add: p256_is_valid_point_def Let_def split_beta x3'_def)
    ultimately show ?thesis using True x3' y2(3) by (simp add: power2_eq_square)
  qed
qed

text \<open>(C40) \<^verbatim>\<open>p256_is_valid_point\<close> returns for every two numbers, accepts only points of the curve, and accepts all of
  them but those for which \<open>x^3 - 3 x\<close>, reduced, plus \<open>b\<close> lies between the prime and \<open>2^256\<close>, where the sum is not
  reduced; those it rejects.\<close>

theorem valid_point_correct:
  assumes "length x = 8" and "length y = 8"
  shows "\<exists>v. p256_is_valid_point x y = Some v \<and> (v \<longrightarrow> on_curve (val x) (val y))
    \<and> (curve_side (val x) < val SECP256r1_p \<or> 2 ^ 256 \<le> curve_side (val x) \<longrightarrow> v = on_curve (val x) (val y))
    \<and> (\<not> (curve_side (val x) < val SECP256r1_p \<or> 2 ^ 256 \<le> curve_side (val x)) \<longrightarrow> \<not> v)"
proof -
  define p s where "p = val SECP256r1_p" and "s = curve_side (val x)"
  have pb: "0 < p" "p < 2 ^ 256" "val SECP256r1_b < p" unfolding p_def p_value by (simp_all add: SECP256r1_b_def)
  have side: "(val x ^ 3 - 3 * val x + val SECP256r1_b) mod p = s mod p" by (simp add: s_def curve_side_def p_def mod_add_left_eq)
  let ?t = "(val x ^ 3 - 3 * val x) mod p"
  have "0 \<le> ?t" "?t < p" by (rule pos_mod_sign [OF pb(1)], rule pos_mod_bound [OF pb(1)])
  moreover have "s = ?t + val SECP256r1_b" by (simp only: s_def curve_side_def p_def)
  ultimately have s: "0 \<le> s" "s < 2 * p" using pb(3) val_nonneg [of SECP256r1_b] by linarith+
  let ?r = "if s < 2 ^ 256 then s else s - p"
  have sq: "val y ^ 2 mod p < p" using pb by simp
  have r: "s < p \<or> 2 ^ 256 \<le> s \<Longrightarrow> s mod p = ?r" using carry_0 [of s p] carry_1 [of p s] s pb by auto
  have "p256_is_valid_point x y = Some (0 < val x \<and> val x < p \<and> 0 < val y \<and> val y < p \<and> val y ^ 2 mod p = ?r)"
    unfolding p_def s_def by (rule valid_point_value [OF assms])
  then show ?thesis using r sq unfolding on_curve_def p_def [symmetric] s_def [symmetric] side by auto
qed

text \<open>The value of \<open>curve_side\<close> from the quotients and remainders of its products.\<close>

lemma curve_side_steps:
  assumes "x * x = q1 * val SECP256r1_p + r1" and "x * r1 = q2 * val SECP256r1_p + r2" and "r2 - 3 * x = val SECP256r1_p * k + r3"
    and "0 \<le> r3" and "r3 < val SECP256r1_p"
  shows "curve_side x = r3 + val SECP256r1_b"
    and "(x ^ 3 - 3 * x + val SECP256r1_b) mod val SECP256r1_p = (r3 + val SECP256r1_b) mod val SECP256r1_p"
proof -
  let ?p = "val SECP256r1_p"
  have "x ^ 3 - 3 * x = x * (x * x) - 3 * x" by (simp add: power3_eq_cube)
  also have "\<dots> = (x * q1) * ?p + x * r1 - 3 * x" unfolding assms(1) by (simp add: algebra_simps)
  also have "\<dots> = ?p * (x * q1 + q2 + k) + r3" using assms(2,3) by (simp add: algebra_simps)
  finally have "(x ^ 3 - 3 * x) mod ?p = r3" by (rule int_mod_pos_eq [OF _ assms(4,5)])
  then show c: "curve_side x = r3 + val SECP256r1_b" by (simp add: curve_side_def)
  have "(x ^ 3 - 3 * x + val SECP256r1_b) mod ?p = curve_side x mod ?p" by (simp add: curve_side_def mod_add_left_eq)
  then show "(x ^ 3 - 3 * x + val SECP256r1_b) mod ?p = (r3 + val SECP256r1_b) mod ?p" unfolding c .
qed

lemma p_number: "val SECP256r1_p = 0xffffffff00000001000000000000000000000000ffffffffffffffffffffffff"
  unfolding p_value by simp

lemma b_number: "val SECP256r1_b = 0x5ac635d8aa3a93e7b3ebbd55769886bc651d06b0cc53b0f63bce3c3e27d2604b"
  by (simp add: SECP256r1_b_def)

text \<open>A point of the curve that is rejected: its \<open>y\<close> is 1.\<close>

definition rejected_x :: p256_int where
  "rejected_x = [0xa50bb96c, 0x20a9feb2, 0x7e11a9de, 0x3cbdd6b4, 0x09092bc4, 0x50f66362, 0xf60d05f7, 0x09e78d4e]"

lemma rejected_steps:
  "(0x9e78d4ef60d05f750f6636209092bc43cbdd6b47e11a9de20a9feb2a50bb96c :: int) * 0x9e78d4ef60d05f750f6636209092bc43cbdd6b47e11a9de20a9feb2a50bb96c = 0x62195fe02f22b13cd192fb46ab49b9e45496c2b8c8d2d180f4a28bb833d95f * 0xffffffff00000001000000000000000000000000ffffffffffffffffffffffff + 0xa199ab921dd21684663c3f83aff19b1913900fa752ced6248434ea4a65c91eef"
  "(0x9e78d4ef60d05f750f6636209092bc43cbdd6b47e11a9de20a9feb2a50bb96c :: int) * 0xa199ab921dd21684663c3f83aff19b1913900fa752ced6248434ea4a65c91eef = 0x64091e575c981a472d06ee15a1826038812891c6a4c1fcc7f7080261fd80825 * 0xffffffff00000001000000000000000000000000ffffffffffffffffffffffff + 0xc2f0721337ec7dff3ef76cd0a482fc90511c7d6dade14ca4262fbfd9c750cbf9"
  "(0xc2f0721337ec7dff3ef76cd0a482fc90511c7d6dade14ca4262fbfd9c750cbf9 :: int) - 3 * 0x9e78d4ef60d05f750f6636209092bc43cbdd6b47e11a9de20a9feb2a50bb96c = 0xffffffff00000001000000000000000000000000ffffffffffffffffffffffff * 0x0 + 0xa539ca2655c56c194c1442aa896779439ae2f95033ac4f09c431c3c1d82d9fb5"
  by simp_all

lemma rejected_side:
  "curve_side (val rejected_x) = 0xa539ca2655c56c194c1442aa896779439ae2f95033ac4f09c431c3c1d82d9fb5 + 0x5ac635d8aa3a93e7b3ebbd55769886bc651d06b0cc53b0f63bce3c3e27d2604b"
  "(val rejected_x ^ 3 - 3 * val rejected_x + val SECP256r1_b) mod val SECP256r1_p = 1"
proof -
  have x: "val rejected_x = 0x9e78d4ef60d05f750f6636209092bc43cbdd6b47e11a9de20a9feb2a50bb96c" by (simp add: rejected_x_def)
  note c = curve_side_steps [of "val rejected_x" "0x62195fe02f22b13cd192fb46ab49b9e45496c2b8c8d2d180f4a28bb833d95f" "0xa199ab921dd21684663c3f83aff19b1913900fa752ced6248434ea4a65c91eef" "0x64091e575c981a472d06ee15a1826038812891c6a4c1fcc7f7080261fd80825" "0xc2f0721337ec7dff3ef76cd0a482fc90511c7d6dade14ca4262fbfd9c750cbf9" "0x0" "0xa539ca2655c56c194c1442aa896779439ae2f95033ac4f09c431c3c1d82d9fb5",
      unfolded x p_number b_number, OF rejected_steps]
  show "curve_side (val rejected_x) = 0xa539ca2655c56c194c1442aa896779439ae2f95033ac4f09c431c3c1d82d9fb5 + 0x5ac635d8aa3a93e7b3ebbd55769886bc651d06b0cc53b0f63bce3c3e27d2604b" unfolding x by (rule c(1)) simp_all
  have "(val rejected_x ^ 3 - 3 * val rejected_x + val SECP256r1_b) mod val SECP256r1_p = (0xa539ca2655c56c194c1442aa896779439ae2f95033ac4f09c431c3c1d82d9fb5 + 0x5ac635d8aa3a93e7b3ebbd55769886bc651d06b0cc53b0f63bce3c3e27d2604b) mod 0xffffffff00000001000000000000000000000000ffffffffffffffffffffffff"
    unfolding x p_number b_number by (rule c(2)) simp_all
  also have "\<dots> = 1" by (rule int_mod_pos_eq [of _ _ 1]) simp_all
  finally show "(val rejected_x ^ 3 - 3 * val rejected_x + val SECP256r1_b) mod val SECP256r1_p = 1" .
qed

text \<open>So a point of the curve with this first coordinate is rejected.\<close>

theorem valid_point_rejected:
  "on_curve (val rejected_x) (val [1, 0, 0, 0, 0, 0, 0, 0]) \<and> p256_is_valid_point rejected_x [1, 0, 0, 0, 0, 0, 0, 0] = Some False"
proof -
  have x: "val rejected_x = 0x9e78d4ef60d05f750f6636209092bc43cbdd6b47e11a9de20a9feb2a50bb96c" by (simp add: rejected_x_def)
  have y: "val [1, 0, 0, 0, 0, 0, 0, 0] = 1" by simp
  have l: "length rejected_x = 8" "length [1, 0, 0, 0, 0, 0, 0, 0 :: u32] = 8" by (simp_all add: rejected_x_def)
  have r: "0 < val rejected_x" "val rejected_x < val SECP256r1_p" "1 < val SECP256r1_p" unfolding x p_number by simp_all
  have "on_curve (val rejected_x) (val [1, 0, 0, 0, 0, 0, 0, 0])"
    unfolding on_curve_def rejected_side(2) y using r by simp
  moreover have "curve_side (val rejected_x) < 2 ^ 256" "curve_side (val rejected_x) \<noteq> 1" unfolding rejected_side(1) by simp_all
  then have "p256_is_valid_point rejected_x [1, 0, 0, 0, 0, 0, 0, 0] = Some False"
    unfolding valid_point_value [OF l] y using r by simp
  ultimately show ?thesis by blast
qed

text \<open>The base point of the curve.\<close>

definition base_x :: p256_int where
  "base_x = [0xd898c296, 0xf4a13945, 0x2deb33a0, 0x77037d81, 0x63a440f2, 0xf8bce6e5, 0xe12c4247, 0x6b17d1f2]"

definition base_y :: p256_int where
  "base_y = [0x37bf51f5, 0xcbb64068, 0x6b315ece, 0x2bce3357, 0x7c0f9e16, 0x8ee7eb4a, 0xfe1a7f9b, 0x4fe342e2]"

lemma base_steps:
  "(0x6b17d1f2e12c4247f8bce6e563a440f277037d812deb33a0f4a13945d898c296 :: int) * 0x6b17d1f2e12c4247f8bce6e563a440f277037d812deb33a0f4a13945d898c296 = 0x2cccebb89adadb2d42e032c9f9d26319901d0e9589fc7dbbcf3d110b7c638fa8 * 0xffffffff00000001000000000000000000000000ffffffffffffffffffffffff + 0x98f6b84d29bef2b281819a5e0e3690d833b699495d694dd1002ae56c426b3f8c"
  "(0x6b17d1f2e12c4247f8bce6e563a440f277037d812deb33a0f4a13945d898c296 :: int) * 0x98f6b84d29bef2b281819a5e0e3690d833b699495d694dd1002ae56c426b3f8c = 0x3ffd5aa59b9b6c423bf2ec3b463c2dc873f51fec695acfaf0687eac3779c8101 * 0xffffffff00000001000000000000000000000000ffffffffffffffffffffffff + 0x3c609d594a3eae9cb85f88944be7a619497801f461809fcd60f29c8f83bbd509"
  "(0x3c609d594a3eae9cb85f88944be7a619497801f461809fcd60f29c8f83bbd509 :: int) - 3 * 0x6b17d1f2e12c4247f8bce6e563a440f277037d812deb33a0f4a13945d898c296 = 0xffffffff00000001000000000000000000000000ffffffffffffffffffffffff * - 0x2 + 0xfb19277ea6b9e7c6ce28d3e420fae341e46d8972d7bf04ea830ef0bdf9f18d45"
  "(0x4fe342e2fe1a7f9b8ee7eb4a7c0f9e162bce33576b315ececbb6406837bf51f5 :: int) ^ 2 = 0xffffffff00000001000000000000000000000000ffffffffffffffffffffffff * 0x18ee0d07e1cadf1365bd80dd843314dd534834655163ed44a7f051b975f0f918 + 0x55df5d5850f47bad82149139979369fe498a9022a412b5e0bedd2cfc21c3ed91"
  "(0xfb19277ea6b9e7c6ce28d3e420fae341e46d8972d7bf04ea830ef0bdf9f18d45 :: int) + 0x5ac635d8aa3a93e7b3ebbd55769886bc651d06b0cc53b0f63bce3c3e27d2604b = 0xffffffff00000001000000000000000000000000ffffffffffffffffffffffff * 0x1 + 0x55df5d5850f47bad82149139979369fe498a9022a412b5e0bedd2cfc21c3ed91"
  by (simp_all add: power2_eq_square)

theorem valid_point_correct_witness:
  "p256_is_valid_point base_x base_y = Some True \<and> on_curve (val base_x) (val base_y)"
proof -
  have x: "val base_x = 0x6b17d1f2e12c4247f8bce6e563a440f277037d812deb33a0f4a13945d898c296" by (simp add: base_x_def)
  have y: "val base_y = 0x4fe342e2fe1a7f9b8ee7eb4a7c0f9e162bce33576b315ececbb6406837bf51f5" by (simp add: base_y_def)
  have l: "length base_x = 8" "length base_y = 8" by (simp_all add: base_x_def base_y_def)
  note c = curve_side_steps [of "val base_x" "0x2cccebb89adadb2d42e032c9f9d26319901d0e9589fc7dbbcf3d110b7c638fa8" "0x98f6b84d29bef2b281819a5e0e3690d833b699495d694dd1002ae56c426b3f8c" "0x3ffd5aa59b9b6c423bf2ec3b463c2dc873f51fec695acfaf0687eac3779c8101" "0x3c609d594a3eae9cb85f88944be7a619497801f461809fcd60f29c8f83bbd509" "- 0x2" "0xfb19277ea6b9e7c6ce28d3e420fae341e46d8972d7bf04ea830ef0bdf9f18d45",
      unfolded x p_number b_number, OF base_steps(1-3)]
  have y2: "(0x4fe342e2fe1a7f9b8ee7eb4a7c0f9e162bce33576b315ececbb6406837bf51f5 :: int) ^ 2 mod 0xffffffff00000001000000000000000000000000ffffffffffffffffffffffff = 0x55df5d5850f47bad82149139979369fe498a9022a412b5e0bedd2cfc21c3ed91" by (rule int_mod_pos_eq [OF base_steps(4)]) simp_all
  have s2: "((0xfb19277ea6b9e7c6ce28d3e420fae341e46d8972d7bf04ea830ef0bdf9f18d45 :: int) + 0x5ac635d8aa3a93e7b3ebbd55769886bc651d06b0cc53b0f63bce3c3e27d2604b) mod 0xffffffff00000001000000000000000000000000ffffffffffffffffffffffff = 0x55df5d5850f47bad82149139979369fe498a9022a412b5e0bedd2cfc21c3ed91" by (rule int_mod_pos_eq [OF base_steps(5)]) simp_all
  have "on_curve (val base_x) (val base_y)" unfolding on_curve_def x y p_number b_number y2 by (subst c(2)) (simp_all only: s2, simp_all)
  moreover have "curve_side (val base_x) < val SECP256r1_p \<or> 2 ^ 256 \<le> curve_side (val base_x)"
    unfolding x p_number by (subst (1 2) c(1)) simp_all
  ultimately show ?thesis using valid_point_correct [OF l] by auto
qed

end
