(* ===== verification/Mincrypt_Dsa.thy ===== *)
theory Mincrypt_Dsa
  imports Mincrypt_P256
begin

section \<open>libmincrypt: unpacking DSA signatures\<close>

text \<open>
  \<^verbatim>\<open>libmincrypt/dsa_sig.c\<close>: the two numbers of a signature from its ASN.1 encoding. The signature is the memory from
  its address on, with its length given; reading beyond that memory is the result \<open>None\<close>, and \<open>Some None\<close>
  is the return value 0.
\<close>

subsection \<open>The code\<close>

definition byte_at :: "byte list \<Rightarrow> nat \<Rightarrow> byte option" where
  "byte_at mem i = (if i < length mem then Some (mem ! i) else None)"

fun trim_zeros :: "byte list \<Rightarrow> nat \<Rightarrow> (byte list \<times> nat) option" where
  "trim_zeros [] src_len = None"
| "trim_zeros (b # src) src_len = (if b = 0 \<and> src_len > 0 then trim_zeros src (src_len - 1) else Some (b # src, src_len))"

definition trim_to_p256_bytes :: "byte list \<Rightarrow> nat \<Rightarrow> byte list option option" where
  "trim_to_p256_bytes src src_len =
     do {
       (src, src_len) \<leftarrow> trim_zeros src src_len;
       if src_len > 32 \<or> src_len < 1 then Some None
       else
         let dst_offset = 32 - src_len
         in if length src < src_len then None else Some (Some (replicate dst_offset 0 @ take src_len src))
     }"

definition dsa_sig_unpack :: "byte list \<Rightarrow> int \<Rightarrow> (p256_int \<times> p256_int) option option" where
  "dsa_sig_unpack sig sig_len =
     (if sig_len < 8 then Some None
      else do {
        b0 \<leftarrow> byte_at sig 0;
        if b0 \<noteq> 0x30 then Some None
        else do {
          b2 \<leftarrow> byte_at sig 2;
          if b2 \<noteq> 0x02 then Some None
          else do {
            b1 \<leftarrow> byte_at sig 1;
            let seq_len = uint b1;
            if seq_len \<le> 0 \<or> seq_len + 2 \<noteq> sig_len then Some None
            else do {
              b3 \<leftarrow> byte_at sig 3;
              let r_len = uint b3;
              if r_len < 1 \<or> r_len > seq_len - 5 then Some None
              else do {
                tag \<leftarrow> byte_at sig (nat (4 + r_len));
                if tag \<noteq> 0x02 then Some None
                else do {
                  b \<leftarrow> byte_at sig (nat (5 + r_len));
                  let s_len = uint b;
                  if s_len < 1 \<or> s_len \<noteq> seq_len - 4 - r_len then Some None
                  else do {
                    r \<leftarrow> trim_to_p256_bytes (drop 4 sig) (nat r_len);
                    case r of
                      None \<Rightarrow> Some None
                    | Some r_bytes \<Rightarrow> do {
                        s \<leftarrow> trim_to_p256_bytes (drop (nat (6 + r_len)) sig) (nat s_len);
                        case s of
                          None \<Rightarrow> Some None
                        | Some s_bytes \<Rightarrow> Some (Some (p256_from_bin r_bytes, p256_from_bin s_bytes))
                      }
                  }
                }
              }
            }
          }
        }
      })"

subsection \<open>The encoding\<close>

text \<open>The form that the parser reads: a sequence of two integers, every length in one byte. The bytes of the integers
  may be any, so that the form is wider than DER: \<open>der_integer\<close> are the bytes DER has for a number that is not
  negative, without a sign bit and without a needless leading zero. \<open>p256_bytes\<close> are those of the numbers that are
  positive and below \<open>2^256\<close>.\<close>

definition sig_form :: "byte list \<Rightarrow> byte list \<Rightarrow> byte list" where
  "sig_form R S = [0x30, of_nat (length R + length S + 4), 0x02, of_nat (length R)] @ R @ [0x02, of_nat (length S)] @ S"

definition form_ok :: "byte list \<Rightarrow> byte list \<Rightarrow> bool" where
  "form_ok R S \<longleftrightarrow> R \<noteq> [] \<and> S \<noteq> [] \<and> length R + length S + 4 < 256"

definition der_integer :: "byte list \<Rightarrow> bool" where
  "der_integer R \<longleftrightarrow> R \<noteq> [] \<and> hd R < 0x80 \<and> (1 < length R \<and> hd R = 0 \<longrightarrow> 0x80 \<le> R ! 1)"

definition significant :: "byte list \<Rightarrow> byte list" where
  "significant R = dropWhile ((=) 0) R"

definition p256_bytes :: "byte list \<Rightarrow> bool" where
  "p256_bytes R \<longleftrightarrow> significant R \<noteq> [] \<and> length (significant R) \<le> 32"

lemma length_form: "length (sig_form R S) = length R + length S + 6"
  by (simp add: sig_form_def)

lemma be_val_zeros: "be_val (replicate k 0 @ xs) = be_val xs"
  by (induction k) simp_all

lemma be_val_significant: "be_val (significant R) = be_val R"
  by (induction R) (auto simp: significant_def)

lemma significant_length: "length (significant R) \<le> length R"
  by (simp add: significant_def length_dropWhile_le)

lemma be_val_bounds: "0 \<le> be_val R \<and> be_val R < 256 ^ length R"
proof (induction R)
  case (Cons b R)
  have "uint b \<le> 255" using unsigned_less [of b, where 'a = int] by simp
  then have "uint b * 256 ^ length R \<le> 255 * 256 ^ length R" by (rule mult_right_mono) simp
  moreover have "0 \<le> uint b * 256 ^ length R" by simp
  ultimately show ?case using Cons.IH unfolding be_val.simps length_Cons power_Suc by linarith
qed simp

lemma be_val_least: "b \<noteq> 0 \<Longrightarrow> 256 ^ length R \<le> be_val (b # R)"
proof -
  assume "b \<noteq> 0"
  then have "1 \<le> uint b" using uint_ge_0 [of b] uint_0_iff [of b] by linarith
  then have "1 * 256 ^ length R \<le> uint b * 256 ^ length R" by (rule mult_right_mono) simp
  then show ?thesis using be_val_bounds [of R] unfolding be_val.simps by linarith
qed

lemma significant_cases:
  obtains (none) "significant R = []" | (some) b bs where "significant R = b # bs" "b \<noteq> 0"
proof (cases "significant R")
  case (Cons b bs)
  then show thesis using some hd_dropWhile [of "(=) 0" R] by (simp add: significant_def)
qed (rule none)

lemma p256_bytes_iff: "p256_bytes R \<longleftrightarrow> 0 < be_val R \<and> be_val R < 2 ^ 256"
proof (cases R rule: significant_cases)
  case none
  then show ?thesis using be_val_significant [of R] by (simp add: p256_bytes_def)
next
  case (some b bs)
  have q: "(2 :: int) ^ 256 = 256 ^ 32" by simp
  note v = be_val_significant [of R, unfolded some(1)] and l = be_val_least [OF some(2), of bs] and u = be_val_bounds [of "b # bs"]
  have "0 < (256 :: int) ^ length bs" by simp
  then have pos: "0 < be_val R" using l v by linarith
  show ?thesis
  proof (cases "length bs < 32")
    case True
    then have "(256 :: int) ^ length (b # bs) \<le> 256 ^ 32" by (intro power_increasing) simp_all
    then have "be_val R < 2 ^ 256" using u v unfolding q by linarith
    then show ?thesis using True pos by (simp add: p256_bytes_def some(1))
  next
    case False
    then have "(256 :: int) ^ 32 \<le> 256 ^ length bs" by (intro power_increasing) simp_all
    then have "\<not> be_val R < 2 ^ 256" using l v unfolding q by linarith
    then show ?thesis using False by (simp add: p256_bytes_def some(1))
  qed
qed

lemma der_integer_short:
  assumes "der_integer R" and "p256_bytes R"
  shows "length R \<le> 33"
proof -
  obtain b bs where R: "R = b # bs" using assms(1) by (cases R) (auto simp: der_integer_def)
  have "bs = [] \<or> length bs \<le> length (significant R)"
    using assms(1) R by (cases bs) (auto simp: der_integer_def significant_def)
  then show ?thesis using assms(2) R by (auto simp: p256_bytes_def)
qed

lemma trim_zeros_value:
  "trim_zeros (R @ beyond) (length R) =
     (if significant R = [] \<and> beyond = [] then None else Some (significant R @ beyond, length (significant R)))"
proof (induction R)
  case Nil
  then show ?case by (cases beyond) (simp_all add: significant_def)
next
  case (Cons b R)
  then show ?case by (cases "b = 0") (auto simp: significant_def)
qed

lemma trim_value:
  "trim_to_p256_bytes (R @ beyond) (length R) =
     (if significant R = [] \<and> beyond = [] then None
      else Some (if p256_bytes R then Some (replicate (32 - length (significant R)) 0 @ significant R) else None))"
  by (simp add: trim_to_p256_bytes_def trim_zeros_value p256_bytes_def Let_def Suc_le_eq not_less)

lemma trimmed_value:
  assumes "p256_bytes R"
  defines "b \<equiv> replicate (32 - length (significant R)) 0 @ significant R"
  shows "length (p256_from_bin b) = 8 \<and> val (p256_from_bin b) = be_val R"
proof -
  have "length b = 32" using assms by (simp add: p256_bytes_def)
  then show ?thesis using from_bin_value [of b] by (simp add: b_def be_val_zeros be_val_significant)
qed

lemma uint_small: "n < 256 \<Longrightarrow> uint (of_nat n :: byte) = int n"
  by (simp add: uint_nat unat_of_nat)

lemma byte_of_nat_inj: "of_nat m = (of_nat k :: byte) \<Longrightarrow> m < 256 \<Longrightarrow> k < 256 \<Longrightarrow> m = k"
  by (drule arg_cong [where f = uint]) (simp only: uint_small of_nat_eq_iff)

lemma form_unique:
  assumes "sig_form R S @ beyond = sig_form R' S' @ beyond'" "form_ok R S" "form_ok R' S'"
  shows "R' = R \<and> S' = S"
proof -
  have "(of_nat (length R) :: byte) = of_nat (length R')" using assms(1) by (simp add: sig_form_def)
  then have "length R = length R'" by (rule byte_of_nat_inj) (use assms(2,3) in \<open>simp_all add: form_ok_def\<close>)
  then have q: "R = R'" "(of_nat (length S) :: byte) = of_nat (length S')" "S @ beyond = S' @ beyond'"
    using assms(1) by (simp_all add: sig_form_def)
  have "length S = length S'" by (rule byte_of_nat_inj [OF q(2)]) (use assms(2,3) in \<open>simp_all add: form_ok_def\<close>)
  then show ?thesis using q by simp
qed

lemma unpack_form:
  assumes "form_ok R S"
  shows "dsa_sig_unpack (sig_form R S @ beyond) (int (length (sig_form R S))) =
     (if \<not> p256_bytes R then Some None
      else if significant S = [] \<and> beyond = [] then None
      else if \<not> p256_bytes S then Some None
      else Some (Some (p256_from_bin (replicate (32 - length (significant R)) 0 @ significant R),
                       p256_from_bin (replicate (32 - length (significant S)) 0 @ significant S))))"
proof -
  let ?sig = "sig_form R S @ beyond" and ?s = "[0x02, of_nat (length S)] @ S @ beyond"
  have l: "0 < length R" "0 < length S" "length R + length S + 4 < 256" using assms by (simp_all add: form_ok_def)
  have u: "uint (of_nat (length R + length S + 4) :: byte) = int (length R + length S + 4)"
    "uint (of_nat (length R) :: byte) = int (length R)" "uint (of_nat (length S) :: byte) = int (length S)"
    using l by (simp_all only: uint_small)
  have sig: "?sig = [0x30, of_nat (length R + length S + 4), 0x02, of_nat (length R)] @ R @ ?s" by (simp add: sig_form_def)
  have at: "byte_at ?sig 0 = Some 0x30" "byte_at ?sig 2 = Some 0x02" "byte_at ?sig 1 = Some (of_nat (length R + length S + 4))"
    "byte_at ?sig 3 = Some (of_nat (length R))" "byte_at ?sig (nat (4 + int (length R))) = Some 0x02"
    "byte_at ?sig (nat (5 + int (length R))) = Some (of_nat (length S))"
    unfolding sig by (simp_all add: byte_at_def nat_add_distrib nth_append numeral_eq_Suc)
  have dr: "drop 4 ?sig = R @ ?s" "drop (nat (6 + int (length R))) ?sig = S @ beyond"
  proof -
    have "nat (6 + int (length R)) = Suc (Suc (Suc (Suc (length R + 2))))" by simp
    then show "drop 4 ?sig = R @ ?s" "drop (nat (6 + int (length R))) ?sig = S @ beyond" unfolding sig by simp_all
  qed
  have n: "nat (int (length R)) = length R" "nat (int (length S)) = length S" by simp_all
  have g: "\<not> int (length (sig_form R S)) < 8" "\<not> (int (length R + length S + 4) \<le> 0 \<or> int (length R + length S + 4) + 2 \<noteq> int (length (sig_form R S)))"
    "\<not> (int (length R) < 1 \<or> int (length R) > int (length R + length S + 4) - 5)"
    "\<not> (int (length S) < 1 \<or> int (length S) \<noteq> int (length R + length S + 4) - 4 - int (length R))"
    unfolding length_form using l by linarith+
  have tr: "trim_to_p256_bytes (R @ ?s) (length R) = Some (if p256_bytes R then Some (replicate (32 - length (significant R)) 0 @ significant R) else None)"
    by (simp add: trim_value)
  show ?thesis
    unfolding dsa_sig_unpack_def
    by (simp only: at dr n g u tr trim_value [of S beyond] if_False bind.bind_lunit Let_def simp_thms) (simp split: option.splits)
qed

lemma unpack_other:
  assumes "n \<le> int (length sig)" and "\<not> (\<exists>R S beyond. sig = sig_form R S @ beyond \<and> n = int (length (sig_form R S)) \<and> form_ok R S)"
  shows "dsa_sig_unpack sig n = Some None"
proof (cases "n < 8")
  case True
  then show ?thesis by (simp add: dsa_sig_unpack_def)
next
  case False
  then have "Suc (Suc (Suc (Suc 0))) \<le> length sig" using assms(1) by simp
  then obtain b0 b1 b2 b3 rest where s: "sig = b0 # b1 # b2 # b3 # rest" by (auto simp: Suc_le_length_iff)
  define rl sl where "rl = unat b3" and "sl = unat (rest ! (rl + 1))"
  show ?thesis
  proof (rule ccontr)
    assume a: "dsa_sig_unpack sig n \<noteq> Some None"
    have at: "byte_at sig 0 = Some b0" "byte_at sig 1 = Some b1" "byte_at sig 2 = Some b2" "byte_at sig 3 = Some b3"
      by (simp_all add: byte_at_def s numeral_eq_Suc)
    have h: "b0 = 0x30" "b2 = 0x02" "uint b1 + 2 = n" "1 \<le> uint b3" "uint b3 \<le> uint b1 - 5"
      using a False unfolding dsa_sig_unpack_def by (auto simp only: at bind.bind_lunit Let_def if_True if_False not_le not_less simp_thms split: if_splits)
    have lr: "int rl = uint b3" by (simp add: rl_def)
    have len: "rl + 2 \<le> length rest" using h(3,5) assms(1) s lr by simp
    have at2: "byte_at sig (nat (4 + uint b3)) = Some (rest ! rl)" "byte_at sig (nat (5 + uint b3)) = Some (rest ! (rl + 1))"
      using len by (simp_all add: byte_at_def s nat_add_distrib flip: lr)
    have ls: "int sl = uint (rest ! (rl + 1))" by (simp add: sl_def)
    have g: "\<not> (uint b1 \<le> 0 \<or> uint b1 + 2 \<noteq> n)" "\<not> (uint b3 < 1 \<or> uint b3 > uint b1 - 5)" "\<not> n < 8" using h False by auto
    have h2: "rest ! rl = 0x02" "1 \<le> uint (rest ! (rl + 1))" "uint (rest ! (rl + 1)) = uint b1 - 4 - uint b3"
      using a unfolding dsa_sig_unpack_def
      by (auto simp only: at at2 h(1,2) g bind.bind_lunit Let_def if_True if_False not_le not_less simp_thms split: if_splits)
    define R S beyond where "R = take rl rest" and "S = take sl (drop (rl + 2) rest)" and "beyond = drop (rl + 2 + sl) rest"
    have total: "rl + sl + 4 = unat b1" using h2(3) lr ls uint_nat [of b1] by linarith
    then have "rl + 2 + sl \<le> length rest"
    proof -
      have "n \<le> int (length rest) + 4" using assms(1) unfolding s by simp
      then show ?thesis using h(3) total uint_nat [of b1] by linarith
    qed
    then have lRS: "length R = rl" "length S = sl" by (simp_all add: R_def S_def)
    have "rest = R @ drop rl rest" by (simp add: R_def)
    also have "drop rl rest = rest ! rl # rest ! (rl + 1) # drop (rl + 2) rest"
      using len by (simp add: Cons_nth_drop_Suc)
    also have "drop (rl + 2) rest = S @ beyond" by (simp only: S_def beyond_def append_take_drop_id add.commute flip: drop_drop)
    finally have r: "rest = R @ [rest ! rl, rest ! (rl + 1)] @ S @ beyond" by simp
    have b: "b1 = of_nat (length R + length S + 4)" "b3 = of_nat (length R)" "rest ! (rl + 1) = of_nat (length S)"
      unfolding lRS total by (simp_all add: rl_def sl_def)
    have "sig = sig_form R S @ beyond" unfolding sig_form_def using s h(1,2) h2(1) b r by simp
    moreover have "form_ok R S" using lRS h(4) h2(2) lr ls total unsigned_less [of b1, where 'a = nat] by (auto simp: form_ok_def)
    moreover have "n = int (length (sig_form R S))" unfolding length_form lRS using h(3) total uint_nat [of b1] by linarith
    ultimately show False using assms(2) by blast
  qed
qed

subsection \<open>Properties\<close>

lemma unpack_cases:
  assumes "n \<le> int (length sig)"
  shows "(case dsa_sig_unpack sig n of
      Some (Some (r, s)) \<Rightarrow> \<exists>R S beyond. sig = sig_form R S @ beyond \<and> n = int (length (sig_form R S)) \<and> form_ok R S \<and> p256_bytes R \<and> p256_bytes S
        \<and> length r = 8 \<and> val r = be_val R \<and> length s = 8 \<and> val s = be_val S
    | Some None \<Rightarrow> \<not> (\<exists>R S beyond. sig = sig_form R S @ beyond \<and> n = int (length (sig_form R S)) \<and> form_ok R S \<and> p256_bytes R \<and> p256_bytes S)
    | None \<Rightarrow> \<exists>R S. sig = sig_form R S \<and> n = int (length sig) \<and> p256_bytes R \<and> S \<noteq> [] \<and> significant S = [])"
proof (cases "\<exists>R S beyond. sig = sig_form R S @ beyond \<and> n = int (length (sig_form R S)) \<and> form_ok R S")
  case True
  then obtain R S beyond where d: "sig = sig_form R S @ beyond" "n = int (length (sig_form R S))" "form_ok R S" by blast
  note u = unpack_form [OF d(3), of beyond, folded d(1,2)]
  have p: "\<not> p256_bytes S" if "significant S = []" using that by (simp add: p256_bytes_def)
  have uniq: "R' = R \<and> S' = S" if "sig = sig_form R' S' @ b'" "form_ok R' S'" for R' S' b'
    using form_unique [of R S beyond R' S' b'] d that by simp
  consider (r) "\<not> p256_bytes R" | (z) "p256_bytes R" "significant S = []" "beyond = []"
    | (s) "p256_bytes R" "\<not> p256_bytes S" "\<not> (significant S = [] \<and> beyond = [])" | (ok) "p256_bytes R" "p256_bytes S" by blast
  then show ?thesis
  proof cases
    case r
    then show ?thesis using u uniq by auto
  next
    case z
    then show ?thesis using u d by (auto simp: form_ok_def)
  next
    case s
    then show ?thesis using u uniq by auto
  next
    case ok
    then have "significant S \<noteq> []" by (simp add: p256_bytes_def)
    then show ?thesis using u d ok trimmed_value [OF ok(1)] trimmed_value [OF ok(2)] by (simp only: simp_thms if_True if_False option.case prod.case) blast
  qed
next
  case False
  then show ?thesis using unpack_other [OF assms False] by auto
qed

lemma unpack_accepts:
  assumes "form_ok R S" and "p256_bytes R" and "p256_bytes S"
  obtains r s where "dsa_sig_unpack (sig_form R S @ beyond) (int (length (sig_form R S))) = Some (Some (r, s))"
    "length r = 8" "val r = be_val R" "length s = 8" "val s = be_val S"
proof -
  have "significant S \<noteq> []" using assms(3) by (simp add: p256_bytes_def)
  then show thesis using that unpack_form [OF assms(1), of beyond] assms(2,3) trimmed_value [OF assms(2)] trimmed_value [OF assms(3)] by simp
qed

lemma der_form_ok:
  assumes "der_integer R" "der_integer S" "p256_bytes R" "p256_bytes S"
  shows "form_ok R S \<and> length R + length S + 4 < 128"
  using der_integer_short [OF assms(1,3)] der_integer_short [OF assms(2,4)] assms(1,2) by (simp add: form_ok_def der_integer_def)

text \<open>(C13) \<^verbatim>\<open>dsa_sig_unpack\<close> accepts exactly the signatures that are a sequence of two integers with every length in one
  byte (up to 255, also where DER has a longer form) whose bytes, read as unsigned numbers, are positive and below \<open>2^256\<close>:
  leading zeros and a set top bit are not looked at. It gives these numbers. The DER encoding of two such
  numbers is among them, and its length byte is below 128. It stays within the memory of the signature,
  except for a signature whose second number is zero, where it reads the byte behind it.\<close>

theorem dsa_sig_unpack_correct:
  assumes "n \<le> int (length sig)"
  shows "(case dsa_sig_unpack sig n of
      Some (Some (r, s)) \<Rightarrow> \<exists>R S beyond. sig = sig_form R S @ beyond \<and> n = int (length (sig_form R S)) \<and> form_ok R S
        \<and> 0 < be_val R \<and> be_val R < 2 ^ 256 \<and> 0 < be_val S \<and> be_val S < 2 ^ 256
        \<and> length r = 8 \<and> val r = be_val R \<and> length s = 8 \<and> val s = be_val S
    | Some None \<Rightarrow> \<not> (\<exists>R S beyond. sig = sig_form R S @ beyond \<and> n = int (length (sig_form R S)) \<and> form_ok R S
        \<and> 0 < be_val R \<and> be_val R < 2 ^ 256 \<and> 0 < be_val S \<and> be_val S < 2 ^ 256)
    | None \<Rightarrow> \<exists>R S. sig = sig_form R S \<and> n = int (length sig) \<and> 0 < be_val R \<and> be_val R < 2 ^ 256 \<and> S \<noteq> [] \<and> be_val S = 0)
    \<and> (\<forall>R S beyond. der_integer R \<and> der_integer S \<and> 0 < be_val R \<and> be_val R < 2 ^ 256 \<and> 0 < be_val S \<and> be_val S < 2 ^ 256
        \<and> sig = sig_form R S @ beyond \<and> n = int (length (sig_form R S)) \<longrightarrow>
          length R + length S + 4 < 128 \<and> (\<exists>r s. dsa_sig_unpack sig n = Some (Some (r, s)) \<and> val r = be_val R \<and> val s = be_val S))"
proof (intro conjI allI impI)
  have z: "be_val S = 0" if "significant S = []" for S using be_val_significant [of S] that by simp
  show "case dsa_sig_unpack sig n of
      Some (Some (r, s)) \<Rightarrow> \<exists>R S beyond. sig = sig_form R S @ beyond \<and> n = int (length (sig_form R S)) \<and> form_ok R S
        \<and> 0 < be_val R \<and> be_val R < 2 ^ 256 \<and> 0 < be_val S \<and> be_val S < 2 ^ 256
        \<and> length r = 8 \<and> val r = be_val R \<and> length s = 8 \<and> val s = be_val S
    | Some None \<Rightarrow> \<not> (\<exists>R S beyond. sig = sig_form R S @ beyond \<and> n = int (length (sig_form R S)) \<and> form_ok R S
        \<and> 0 < be_val R \<and> be_val R < 2 ^ 256 \<and> 0 < be_val S \<and> be_val S < 2 ^ 256)
    | None \<Rightarrow> \<exists>R S. sig = sig_form R S \<and> n = int (length sig) \<and> 0 < be_val R \<and> be_val R < 2 ^ 256 \<and> S \<noteq> [] \<and> be_val S = 0"
  proof (cases "dsa_sig_unpack sig n")
    case None
    then obtain R S where "sig = sig_form R S" "n = int (length sig)" "p256_bytes R" "S \<noteq> []" "significant S = []"
      using unpack_cases [OF assms] by auto
    then show ?thesis unfolding None option.case using z p256_bytes_iff by blast
  next
    case (Some res)
    show ?thesis
    proof (cases res)
      case None
      show ?thesis using unpack_cases [OF assms] unfolding Some None by (simp only: option.case p256_bytes_iff conj_assoc simp_thms)
    next
      case rs: (Some rs)
      obtain r s where "rs = (r, s)" by fastforce
      then show ?thesis using unpack_cases [OF assms] unfolding Some rs by (simp only: option.case prod.case p256_bytes_iff conj_assoc)
    qed
  qed
next
  fix R S beyond
  assume a: "der_integer R \<and> der_integer S \<and> 0 < be_val R \<and> be_val R < 2 ^ 256 \<and> 0 < be_val S \<and> be_val S < 2 ^ 256
        \<and> sig = sig_form R S @ beyond \<and> n = int (length (sig_form R S))"
  then have p: "der_integer R" "der_integer S" "p256_bytes R" "p256_bytes S" by (simp_all add: p256_bytes_iff)
  show "length R + length S + 4 < 128" using der_form_ok [OF p] by blast
  show "\<exists>r s. dsa_sig_unpack sig n = Some (Some (r, s)) \<and> val r = be_val R \<and> val s = be_val S"
    using unpack_accepts [OF conjunct1 [OF der_form_ok [OF p]] p(3,4), of beyond] a by metis
qed

theorem dsa_sig_unpack_correct_witness:
  "(\<exists>r s. dsa_sig_unpack [0x30, 7, 2, 2, 0, 0x81, 2, 1, 5] 9 = Some (Some (r, s)) \<and> val r = 0x81 \<and> val s = 5)
    \<and> dsa_sig_unpack [0x30, 6, 2, 1, 0, 2, 1, 5] 8 = Some None
    \<and> (\<exists>r s. dsa_sig_unpack [0x30, 6, 2, 1, 0x81, 2, 1, 5] 8 = Some (Some (r, s)) \<and> \<not> der_integer [0x81])"
proof -
  let ?a = "[0x30, 7, 2, 2, 0, 0x81, 2, 1, 5] :: byte list" and ?b = "[0x30, 6, 2, 1, 0, 2, 1, 5] :: byte list"
    and ?c = "[0x30, 6, 2, 1, 0x81, 2, 1, 5] :: byte list"
  have a: "?a = sig_form [0, 0x81] [5] @ []" and c: "?c = sig_form [0x81] [5] @ []" by (simp_all add: sig_form_def)
  have "\<exists>r s. dsa_sig_unpack ?a 9 = Some (Some (r, s)) \<and> val r = be_val [0, 0x81] \<and> val s = be_val [5]"
  proof -
    have "der_integer [0, 0x81] \<and> der_integer [5]" by (simp add: der_integer_def)
    moreover have "0 < be_val [0, 0x81] \<and> be_val [0, 0x81] < 2 ^ 256" "0 < be_val [5] \<and> be_val [5] < 2 ^ 256" by simp_all
    moreover have "(9 :: int) = int (length (sig_form [0, 0x81] [5]))" by (simp add: length_form)
    moreover have "(9 :: int) \<le> int (length ?a)" by simp
    ultimately show ?thesis using a dsa_sig_unpack_correct [of 9 ?a] by blast
  qed
  then have "\<exists>r s. dsa_sig_unpack ?a 9 = Some (Some (r, s)) \<and> val r = 0x81 \<and> val s = 5" by simp
  moreover have "dsa_sig_unpack ?b 8 = Some None"
  proof -
    have b: "?b = sig_form [0] [5] @ []" "(8 :: int) = int (length (sig_form [0] [5]))" by (simp_all add: sig_form_def)
    have "form_ok [0] [5]" "\<not> p256_bytes [0]" by (simp_all add: form_ok_def p256_bytes_def significant_def)
    then show ?thesis unfolding b using unpack_form [of "[0]" "[5]" "[]"] by (simp only: if_True simp_thms)
  qed
  moreover have "\<exists>r s. dsa_sig_unpack ?c 8 = Some (Some (r, s)) \<and> \<not> der_integer [0x81]"
  proof -
    have e: "(8 :: int) = int (length (sig_form [0x81] [5]))" by (simp add: length_form)
    have "form_ok [0x81] [5]" "p256_bytes [0x81]" "p256_bytes [5]" by (simp_all add: form_ok_def p256_bytes_def significant_def)
    then obtain r s where "dsa_sig_unpack ?c 8 = Some (Some (r, s))" unfolding c e by (rule unpack_accepts)
    moreover have "\<not> der_integer [0x81]" by (simp add: der_integer_def)
    ultimately show ?thesis by blast
  qed
  ultimately show ?thesis by blast
qed

end
