(* ===== verification/Minzip_Hash.thy ===== *)
theory Minzip_Hash
  imports Prelude "HOL-Library.Multiset"
begin

section \<open>minzip: the hash table of archive entries\<close>

text \<open>
  \<^verbatim>\<open>minzip/Hash.c\<close> and \<^verbatim>\<open>minzip/Hash.h\<close>: an open-addressing table with linear probing and
  tombstones. Slots hold pointers; the comparison function the caller passes is a parameter, as are
  the outcomes of \<^verbatim>\<open>calloc\<close>. An operation that stops the program (a failed assertion,
  \<^verbatim>\<open>abort\<close>), reads outside the array, or probes forever has the result \<open>None\<close>. The \<^verbatim>\<open>int\<close>
  counters are unbounded here; below \<open>2 ^ 28\<close> slots no product of them overflows.
\<close>

subsection \<open>The table\<close>

record HashEntry =
  he_hash :: u32
  he_data :: ptr

definition HASH_TOMBSTONE :: ptr where "HASH_TOMBSTONE = 0xcbcacccd"

text \<open>\<open>ht_free\<close> is the free function's address.\<close>

record HashTable =
  ht_size :: int
  ht_num :: int
  ht_dead :: int
  ht_entries :: "HashEntry list"
  ht_free :: ptr

definition LOAD_NUMER :: int where "LOAD_NUMER = 5"
definition LOAD_DENOM :: int where "LOAD_DENOM = 8"

definition mzHashSize :: "u64 \<Rightarrow> u64" where
  "mzHashSize sz = (sz * 8) div 5 + 1"

definition roundUpPower2 :: "u32 \<Rightarrow> u32" where
  "roundUpPower2 v =
     (let v = v - 1;
          v = v OR drop_bit 1 v;
          v = v OR drop_bit 2 v;
          v = v OR drop_bit 4 v;
          v = v OR drop_bit 8 v;
          v = v OR drop_bit 16 v
      in v + 1)"

text \<open>\<^verbatim>\<open>calloc\<close>: every slot has hash value 0 and no data.\<close>

definition calloc_entries :: "int \<Rightarrow> HashEntry list" where
  "calloc_entries n = replicate (nat n) \<lparr>he_hash = 0, he_data = NULL\<rparr>"

text \<open>\<open>mem1\<close> and \<open>mem2\<close> say whether the two allocations succeed; \<open>Some None\<close> is the result
  \<^verbatim>\<open>NULL\<close>.\<close>

definition mzHashTableCreate :: "u64 \<Rightarrow> ptr \<Rightarrow> bool \<Rightarrow> bool \<Rightarrow> HashTable option option" where
  "mzHashTableCreate initialSize freeFunc mem1 mem2 =
     (if \<not> initialSize > 0 then None
      else if \<not> mem1 then Some None
      else
        let sz = sint (roundUpPower2 (ucast initialSize))
        in if \<not> mem2 then Some None
           else Some (Some \<lparr>ht_size = sz, ht_num = 0, ht_dead = 0,
                            ht_entries = calloc_entries sz, ht_free = freeFunc\<rparr>))"

text \<open>Clearing returns the table and the data handed to the free function, in order.\<close>

fun clear_loop :: "ptr \<Rightarrow> HashEntry list \<Rightarrow> HashEntry list \<times> ptr list" where
  "clear_loop freeFunc [] = ([], [])"
| "clear_loop freeFunc (e # es) =
     (let (es', freed) = clear_loop freeFunc es
      in if he_data e = HASH_TOMBSTONE then (e\<lparr>he_data := NULL\<rparr> # es', freed)
         else if he_data e \<noteq> NULL then
           (e\<lparr>he_data := NULL\<rparr> # es', if freeFunc \<noteq> NULL then he_data e # freed else freed)
         else (e # es', freed))"

definition mzHashTableClear :: "HashTable \<Rightarrow> HashTable \<times> ptr list" where
  "mzHashTableClear t =
     (let (es, freed) = clear_loop (ht_free t) (ht_entries t)
      in (t\<lparr>ht_entries := es, ht_num := 0, ht_dead := 0\<rparr>, freed))"

text \<open>Freeing a table is what it hands to the free function; the memory of the table is gone.\<close>

definition mzHashTableFree :: "HashTable option \<Rightarrow> ptr list" where
  "mzHashTableFree t = (case t of None \<Rightarrow> [] | Some t \<Rightarrow> snd (mzHashTableClear t))"

definition countTombStones :: "HashTable \<Rightarrow> int" where
  "countTombStones t =
     foldl (\<lambda>count i. if he_data (ht_entries t ! i) = HASH_TOMBSTONE then count + 1 else count)
       0 [0..<nat (ht_size t)]"

subsection \<open>Probing\<close>

text \<open>The slot where a hash value starts, \<^verbatim>\<open>hash & (tableSize-1)\<close>.\<close>

definition home_slot :: "u32 \<Rightarrow> int \<Rightarrow> nat" where
  "home_slot h sz = unat (h AND (of_int sz - 1))"

text \<open>The probe loop that lookup, removal and the probe counter share: it ends at an empty slot or
  at an entry that \<open>hit\<close> accepts, wraps at the end of the array, and in a table of one slot ends
  past the array.\<close>

partial_function (option) probe ::
  "(HashEntry \<Rightarrow> bool) \<Rightarrow> int \<Rightarrow> HashEntry list \<Rightarrow> nat \<Rightarrow> nat option" where
  "probe hit sz es i =
     (if \<not> i < length es then None
      else if he_data (es ! i) = NULL then Some i
      else if hit (es ! i) then Some i
      else if int (i + 1) = sz then
        (if sz = 1 then Some (i + 1) else probe hit sz es 0)
      else probe hit sz es (i + 1))"

definition lookup_hit :: "u32 \<Rightarrow> ptr \<Rightarrow> (ptr \<Rightarrow> ptr \<Rightarrow> int) \<Rightarrow> HashEntry \<Rightarrow> bool" where
  "lookup_hit itemHash item cmpFunc e \<longleftrightarrow>
     he_data e \<noteq> HASH_TOMBSTONE \<and> he_hash e = itemHash \<and> cmpFunc (he_data e) item = 0"

text \<open>Finding a free slot in the new array of a resize: \<^verbatim>\<open>(newIdx + 1) & (newSize-1)\<close>.\<close>

partial_function (option) free_slot :: "int \<Rightarrow> HashEntry list \<Rightarrow> nat \<Rightarrow> nat option" where
  "free_slot newSize es i =
     (if \<not> i < length es then None
      else if he_data (es ! i) \<noteq> NULL then free_slot newSize es (home_slot (of_nat (i + 1)) newSize)
      else Some i)"

fun resize_loop :: "int \<Rightarrow> HashEntry list \<Rightarrow> HashEntry list \<Rightarrow> HashEntry list option" where
  "resize_loop newSize [] new = Some new"
| "resize_loop newSize (e # es) new =
     (if he_data e \<noteq> NULL \<and> he_data e \<noteq> HASH_TOMBSTONE then
        (case free_slot newSize new (home_slot (he_hash e) newSize) of
           None \<Rightarrow> None
         | Some newIdx \<Rightarrow>
             resize_loop newSize es (new[newIdx := \<lparr>he_hash = he_hash e, he_data = he_data e\<rparr>]))
      else resize_loop newSize es new)"

definition resizeHash :: "HashTable \<Rightarrow> int \<Rightarrow> bool \<Rightarrow> (bool \<times> HashTable) option" where
  "resizeHash t newSize mem =
     (if countTombStones t \<noteq> ht_dead t then None
      else if \<not> mem then Some (False, t)
      else case resize_loop newSize (take (nat (ht_size t)) (ht_entries t)) (calloc_entries newSize) of
             None \<Rightarrow> None
           | Some new \<Rightarrow>
               let t = t\<lparr>ht_entries := new, ht_size := newSize, ht_dead := 0\<rparr>
               in if countTombStones t \<noteq> 0 then None else Some (True, t))"

definition mzHashTableLookup ::
  "HashTable \<Rightarrow> u32 \<Rightarrow> ptr \<Rightarrow> (ptr \<Rightarrow> ptr \<Rightarrow> int) \<Rightarrow> bool \<Rightarrow> bool \<Rightarrow> (ptr \<times> HashTable) option" where
  "mzHashTableLookup t itemHash item cmpFunc doAdd mem =
     (if \<not> ht_size t > 0 then None
      else if item = HASH_TOMBSTONE then None
      else if item = NULL then None
      else
        case probe (lookup_hit itemHash item cmpFunc) (ht_size t) (ht_entries t)
               (home_slot itemHash (ht_size t)) of
          None \<Rightarrow> None
        | Some i \<Rightarrow>
            if \<not> i < length (ht_entries t) then None
            else if he_data (ht_entries t ! i) = NULL then
              (if doAdd then
                 let t = t\<lparr>ht_entries := (ht_entries t)[i := \<lparr>he_hash = itemHash, he_data = item\<rparr>],
                           ht_num := ht_num t + 1\<rparr>
                 in case (if (ht_num t + ht_dead t) * LOAD_DENOM > ht_size t * LOAD_NUMER
                          then resizeHash t (ht_size t * 2) mem else Some (True, t)) of
                      None \<Rightarrow> None
                    | Some (ok, t) \<Rightarrow>
                        if \<not> ok then None
                        else if \<not> ht_num t < ht_size t then None
                        else Some (item, t)
               else Some (NULL, t))
            else Some (he_data (ht_entries t ! i), t))"

definition mzHashTableRemove :: "HashTable \<Rightarrow> u32 \<Rightarrow> ptr \<Rightarrow> (bool \<times> HashTable) option" where
  "mzHashTableRemove t itemHash item =
     (if \<not> ht_size t > 0 then None
      else
        case probe (\<lambda>e. he_data e = item) (ht_size t) (ht_entries t) (home_slot itemHash (ht_size t)) of
          None \<Rightarrow> None
        | Some i \<Rightarrow>
            if i < length (ht_entries t) \<and> he_data (ht_entries t ! i) \<noteq> NULL then
              Some (True, t\<lparr>ht_entries := (ht_entries t)[i := (ht_entries t ! i)\<lparr>he_data := HASH_TOMBSTONE\<rparr>],
                            ht_num := ht_num t - 1, ht_dead := ht_dead t + 1\<rparr>)
            else Some (False, t))"

text \<open>\<open>func\<close> may change the world \<open>w\<close> it runs in.\<close>

fun foreach_loop :: "(ptr \<Rightarrow> 'w \<Rightarrow> int \<times> 'w) \<Rightarrow> HashEntry list \<Rightarrow> 'w \<Rightarrow> int \<times> 'w" where
  "foreach_loop func [] w = (0, w)"
| "foreach_loop func (e # es) w =
     (if he_data e \<noteq> NULL \<and> he_data e \<noteq> HASH_TOMBSTONE then
        (let (v, w) = func (he_data e) w in if v \<noteq> 0 then (v, w) else foreach_loop func es w)
      else foreach_loop func es w)"

definition mzHashForeach :: "HashTable \<Rightarrow> (ptr \<Rightarrow> 'w \<Rightarrow> int \<times> 'w) \<Rightarrow> 'w \<Rightarrow> int \<times> 'w" where
  "mzHashForeach t func w = foreach_loop func (take (nat (ht_size t)) (ht_entries t)) w"

text \<open>The counting probe: the same walk with a step counter.\<close>

partial_function (option) count_loop ::
  "(HashEntry \<Rightarrow> bool) \<Rightarrow> int \<Rightarrow> HashEntry list \<Rightarrow> nat \<Rightarrow> int \<Rightarrow> (nat \<times> int) option" where
  "count_loop hit sz es i n =
     (if \<not> i < length es then None
      else if he_data (es ! i) = NULL then Some (i, n)
      else if hit (es ! i) then Some (i, n)
      else if int (i + 1) = sz then
        (if sz = 1 then Some (i + 1, n) else count_loop hit sz es 0 (n + 1))
      else count_loop hit sz es (i + 1) (n + 1))"

definition countProbes :: "HashTable \<Rightarrow> u32 \<Rightarrow> ptr \<Rightarrow> (ptr \<Rightarrow> ptr \<Rightarrow> int) \<Rightarrow> int option" where
  "countProbes t itemHash item cmpFunc =
     (if \<not> ht_size t > 0 then None
      else if item = HASH_TOMBSTONE then None
      else if item = NULL then None
      else
        case count_loop (lookup_hit itemHash item cmpFunc) (ht_size t) (ht_entries t)
               (home_slot itemHash (ht_size t)) 0 of
          None \<Rightarrow> None
        | Some (i, n) \<Rightarrow>
            if \<not> i < length (ht_entries t) then None
            else if he_data (ht_entries t ! i) = NULL then Some (- 1)
            else Some n)"

subsection \<open>Iterators\<close>

text \<open>An iterator is an index into its table; \<^verbatim>\<open>data\<close> is never used.\<close>

definition mzHashTableNumEntries :: "HashTable \<Rightarrow> int" where
  "mzHashTableNumEntries t = ht_num t"

function iter_from :: "HashTable \<Rightarrow> int \<Rightarrow> int" where
  "iter_from t i =
     (if i < ht_size t then
        (let d = he_data (ht_entries t ! nat i)
         in if d \<noteq> NULL \<and> d \<noteq> HASH_TOMBSTONE then i else iter_from t (i + 1))
      else i)"
  by pat_completeness auto
termination by (relation "measure (\<lambda>(t, i). nat (ht_size t - i))") auto

declare iter_from.simps [simp del]

definition mzHashIterNext :: "HashTable \<Rightarrow> int \<Rightarrow> int" where
  "mzHashIterNext t idx = iter_from t (idx + 1)"

definition mzHashIterBegin :: "HashTable \<Rightarrow> int" where
  "mzHashIterBegin t = mzHashIterNext t (- 1)"

definition mzHashIterDone :: "HashTable \<Rightarrow> int \<Rightarrow> bool" where
  "mzHashIterDone t idx \<longleftrightarrow> idx \<ge> ht_size t"

definition mzHashIterData :: "HashTable \<Rightarrow> int \<Rightarrow> ptr option" where
  "mzHashIterData t idx =
     (if idx \<ge> 0 \<and> idx < ht_size t then Some (he_data (ht_entries t ! nat idx)) else None)"

text \<open>What \<^verbatim>\<open>mzHashTableProbeCount\<close> logs: minimum, maximum and total number of probes, and the number
  of entries.\<close>

function probe_count_loop :: "HashTable \<Rightarrow> (ptr \<Rightarrow> u32) \<Rightarrow> (ptr \<Rightarrow> ptr \<Rightarrow> int) \<Rightarrow> int
    \<Rightarrow> int \<times> int \<times> int \<times> int \<Rightarrow> (int \<times> int \<times> int \<times> int) option" where
  "probe_count_loop t calcFunc cmpFunc it (minProbe, maxProbe, totalProbe, numEntries) =
     (if mzHashIterDone t it then Some (minProbe, maxProbe, totalProbe, numEntries)
      else case mzHashIterData t it of
        None \<Rightarrow> None
      | Some d \<Rightarrow>
          (case countProbes t (calcFunc d) d cmpFunc of
             None \<Rightarrow> None
           | Some n \<Rightarrow>
               probe_count_loop t calcFunc cmpFunc (mzHashIterNext t it)
                 (if n < minProbe then n else minProbe, if n > maxProbe then n else maxProbe,
                  totalProbe + n, numEntries + 1)))"
  by pat_completeness auto

lemma iter_from_ge: "i \<le> iter_from t i"
  by (induction t i rule: iter_from.induct) (subst iter_from.simps, auto simp: Let_def)

termination probe_count_loop
proof (relation "measure (\<lambda>(t, calcFunc, cmpFunc, it, s). nat (ht_size t - it))", goal_cases)
  case 1
  show ?case by simp
next
  case (2 t calcFunc cmpFunc it)
  then show ?case
    using iter_from_ge [of "it + 1" t] by (auto simp: mzHashIterDone_def mzHashIterNext_def)
qed

definition mzHashTableProbeCount :: "HashTable \<Rightarrow> (ptr \<Rightarrow> u32) \<Rightarrow> (ptr \<Rightarrow> ptr \<Rightarrow> int)
    \<Rightarrow> (int \<times> int \<times> int \<times> int) option" where
  "mzHashTableProbeCount t calcFunc cmpFunc =
     probe_count_loop t calcFunc cmpFunc (mzHashIterBegin t) (65536 * 32767, 0, 0, 0)"

subsection \<open>What a table holds\<close>

definition is_live :: "HashEntry \<Rightarrow> bool" where
  "is_live e \<longleftrightarrow> he_data e \<noteq> NULL \<and> he_data e \<noteq> HASH_TOMBSTONE"

definition is_tomb :: "HashEntry \<Rightarrow> bool" where
  "is_tomb e \<longleftrightarrow> he_data e = HASH_TOMBSTONE"

definition live_of :: "HashEntry list \<Rightarrow> HashEntry multiset" where
  "live_of es = filter_mset is_live (mset es)"

definition tombs_of :: "HashEntry list \<Rightarrow> HashEntry multiset" where
  "tombs_of es = filter_mset is_tomb (mset es)"

definition home :: "HashEntry list \<Rightarrow> u32 \<Rightarrow> nat" where
  "home es h = unat h mod length es"

text \<open>Every live entry is reached from its home slot without crossing an empty one.\<close>

definition chains :: "HashEntry list \<Rightarrow> bool" where
  "chains es \<longleftrightarrow> (\<forall>j < length es. is_live (es ! j) \<longrightarrow>
     (\<exists>d < length es. j = (home es (he_hash (es ! j)) + d) mod length es
        \<and> (\<forall>e < d. he_data (es ! ((home es (he_hash (es ! j)) + e) mod length es)) \<noteq> NULL)))"

definition ht_inv :: "HashTable \<Rightarrow> bool" where
  "ht_inv t \<longleftrightarrow> (\<exists>k. k \<le> 30 \<and> ht_size t = 2 ^ k) \<and> int (length (ht_entries t)) = ht_size t
     \<and> ht_num t = int (size (live_of (ht_entries t))) \<and> ht_dead t = int (size (tombs_of (ht_entries t)))
     \<and> (ht_num t + ht_dead t) * 8 \<le> ht_size t * 5 \<and> chains (ht_entries t)"

definition ht_live :: "HashTable \<Rightarrow> HashEntry multiset" where
  "ht_live t = live_of (ht_entries t)"

lemma tomb_not_null [simp]: "HASH_TOMBSTONE \<noteq> NULL" "NULL \<noteq> HASH_TOMBSTONE"
  by (simp_all add: HASH_TOMBSTONE_def)

lemma live_of_update:
  "i < length es \<Longrightarrow> live_of (es[i := e]) =
     live_of es - (if is_live (es ! i) then {#es ! i#} else {#}) + (if is_live e then {#e#} else {#})"
  by (simp add: live_of_def mset_update)

lemma tombs_of_update:
  "i < length es \<Longrightarrow> tombs_of (es[i := e]) =
     tombs_of es - (if is_tomb (es ! i) then {#es ! i#} else {#}) + (if is_tomb e then {#e#} else {#})"
  by (simp add: tombs_of_def mset_update)

lemma live_of_nth: "i < length es \<Longrightarrow> is_live (es ! i) \<Longrightarrow> es ! i \<in># live_of es"
  by (simp add: live_of_def)

lemma live_of_ex: "e \<in># live_of es \<Longrightarrow> \<exists>i < length es. es ! i = e \<and> is_live e"
  by (auto simp: live_of_def in_set_conv_nth)

lemma live_tombs_full:
  "(\<forall>i < length es. he_data (es ! i) \<noteq> NULL) \<Longrightarrow> size (live_of es) + size (tombs_of es) = length es"
proof (induction es)
  case Nil
  show ?case by (simp add: live_of_def tombs_of_def)
next
  case (Cons e es)
  have "\<forall>i < length es. he_data (es ! i) \<noteq> NULL" using Cons.prems by fastforce
  moreover have "he_data e \<noteq> NULL" using Cons.prems by fastforce
  ultimately show ?case using Cons.IH by (auto simp: live_of_def tombs_of_def is_live_def is_tomb_def)
qed

lemma null_slot_exists:
  assumes "size (live_of es) + size (tombs_of es) < length es"
  shows "\<exists>i < length es. he_data (es ! i) = NULL"
  using live_tombs_full [of es] assms by auto

lemma home_slot_mod:
  assumes "k \<le> 31" "length es = 2 ^ k"
  shows "home_slot h (2 ^ k) = home es h"
proof -
  have m: "(of_int (2 ^ k) - 1 :: u32) = mask k" by (simp add: mask_eq_exp_minus_1)
  have "unat (take_bit k h) = take_bit k (unat h)" by (simp add: unsigned_take_bit_eq)
  then show ?thesis
    by (simp only: home_slot_def home_def assms(2) m take_bit_eq_mask [symmetric])
      (simp add: take_bit_eq_mod)
qed

subsection \<open>The probe walk\<close>

lemma cyclic_slot: "j < n \<Longrightarrow> \<exists>d < n. (i + d) mod n = (j :: nat)"
proof -
  assume j: "j < n"
  let ?d = "(n - i mod n + j) mod n"
  have "(i + ?d) mod n = (i + (n - i mod n + j)) mod n" by (simp add: mod_add_right_eq)
  also have "\<dots> = (i mod n + (n - i mod n) + j) mod n" by (simp add: mod_simps add.assoc)
  also have "i mod n + (n - i mod n) = n" using j by (simp add: less_imp_le)
  also have "(n + j) mod n = j" using j by simp
  finally show ?thesis using j by (intro exI [of _ ?d]) simp
qed

text \<open>The slots the walk visits from \<open>i\<close>; it stops at the first one that \<open>stops\<close>.\<close>

definition stops :: "(HashEntry \<Rightarrow> bool) \<Rightarrow> HashEntry \<Rightarrow> bool" where
  "stops hit e \<longleftrightarrow> he_data e = NULL \<or> hit e"

lemma probe_first:
  assumes "i < length es" and "stops hit (es ! ((i + d) mod length es))"
    and "\<forall>e < d. \<not> stops hit (es ! ((i + e) mod length es))"
  shows "probe hit (int (length es)) es i = Some ((i + d) mod length es)"
  using assms
proof (induction d arbitrary: i)
  case 0
  then show ?case by (subst probe.simps) (auto simp: stops_def)
next
  case (Suc d)
  let ?n = "length es"
  have not0: "\<not> stops hit (es ! i)" using Suc.prems(1) Suc.prems(3)[rule_format, of 0] by simp
  have n1: "?n \<noteq> 1" using Suc.prems not0 by auto
  have step: "(Suc i mod ?n + e) mod ?n = (i + Suc e) mod ?n" for e
    by (simp add: mod_add_left_eq)
  have IH: "probe hit (int ?n) es (Suc i mod ?n) = Some ((i + Suc d) mod ?n)"
  proof -
    have "0 < ?n" using Suc.prems(1) by linarith
    then have "Suc i mod ?n < ?n" by simp
    moreover have "stops hit (es ! ((Suc i mod ?n + d) mod ?n))" using Suc.prems(2) by (simp only: step)
    moreover have "\<forall>e<d. \<not> stops hit (es ! ((Suc i mod ?n + e) mod ?n))"
      using Suc.prems(3) by (simp only: step) auto
    ultimately show ?thesis using Suc.IH by (simp only: step)
  qed
  show ?case
  proof (cases "Suc i = ?n")
    case True
    then show ?thesis using IH not0 n1 Suc.prems(1)
      by (subst probe.simps) (auto simp: stops_def)
  next
    case False
    then show ?thesis using IH not0 Suc.prems(1)
      by (subst probe.simps) (auto simp: stops_def)
  qed
qed

lemma probe_result:
  assumes "i < length es" and "\<exists>j < length es. he_data (es ! j) = NULL"
  obtains d where "d < length es" "stops hit (es ! ((i + d) mod length es))"
    "\<forall>e < d. \<not> stops hit (es ! ((i + e) mod length es))"
    "probe hit (int (length es)) es i = Some ((i + d) mod length es)"
proof -
  let ?P = "\<lambda>d. stops hit (es ! ((i + d) mod length es))"
  obtain j where j: "j < length es" "he_data (es ! j) = NULL" using assms(2) by blast
  then obtain d where d: "d < length es" "(i + d) mod length es = j" using cyclic_slot by blast
  then have "?P d" using j by (simp add: stops_def)
  then have L: "?P (LEAST d. ?P d)" "(LEAST d. ?P d) \<le> d" by (rule LeastI, rule Least_le)
  have "\<forall>e < (LEAST d. ?P d). \<not> ?P e" using not_less_Least by blast
  then show thesis using that L d probe_first [OF assms(1)] by (meson le_less_trans)
qed

subsection \<open>Chains under updates\<close>

lemma home_less: "es \<noteq> [] \<Longrightarrow> home es h < length es"
  by (simp add: home_def)

lemma home_update [simp]: "home (es[i := e]) h = home es h"
  by (simp add: home_def)

text \<open>Filling the empty slot a walk from an entry's home ended at.\<close>

lemma chains_insert:
  assumes c: "chains es" and n: "es \<noteq> []" and d: "d < length es"
    and i: "i = (home es (he_hash e) + d) mod length es"
    and walk: "\<forall>k < d. he_data (es ! ((home es (he_hash e) + k) mod length es)) \<noteq> NULL"
    and e: "he_data e \<noteq> NULL"
  shows "chains (es[i := e])"
  unfolding chains_def
proof (intro allI impI, simp only: length_list_update home_update)
  fix j
  assume j: "j < length es" and l: "is_live (es[i := e] ! j)"
  have il: "i < length es" using n by (simp add: i)
  have keep: "he_data (es[i := e] ! m) \<noteq> NULL" if "he_data (es ! m) \<noteq> NULL" for m
    using that e by (cases "m = i") (auto simp: nth_list_update il)
  show "\<exists>d < length es. j = (home es (he_hash (es[i := e] ! j)) + d) mod length es
        \<and> (\<forall>k < d. he_data (es[i := e] ! ((home es (he_hash (es[i := e] ! j)) + k) mod length es)) \<noteq> NULL)"
  proof (cases "j = i")
    case True
    then show ?thesis using d i walk keep il by (intro exI [of _ d]) simp
  next
    case False
    then have same: "es[i := e] ! j = es ! j" by simp
    then have "is_live (es ! j)" using l by simp
    then show ?thesis using c j keep unfolding chains_def same by blast
  qed
qed

text \<open>Replacing the data of a live entry by the tombstone.\<close>

lemma chains_remove:
  assumes c: "chains es"
  shows "chains (es[i := (es ! i)\<lparr>he_data := HASH_TOMBSTONE\<rparr>])"
  unfolding chains_def
proof (intro allI impI, simp only: length_list_update home_update)
  let ?e = "(es ! i)\<lparr>he_data := HASH_TOMBSTONE\<rparr>"
  fix j
  assume j: "j < length es" and l: "is_live (es[i := ?e] ! j)"
  have keep: "he_data (es[i := ?e] ! m) \<noteq> NULL" if "he_data (es ! m) \<noteq> NULL" for m
    using that by (cases "m = i"; cases "i < length es") (auto simp: list_update_beyond not_less)
  have "j \<noteq> i" using l j by (auto simp: is_live_def)
  then have same: "es[i := ?e] ! j = es ! j" by simp
  then have "is_live (es ! j)" using l by simp
  then show "\<exists>d < length es. j = (home es (he_hash (es[i := ?e] ! j)) + d) mod length es
        \<and> (\<forall>k < d. he_data (es[i := ?e] ! ((home es (he_hash (es[i := ?e] ! j)) + k) mod length es)) \<noteq> NULL)"
    using c j keep unfolding chains_def same by blast
qed

lemma ht_invD:
  assumes "ht_inv t"
  obtains k where "k \<le> 30" "ht_size t = 2 ^ k" "length (ht_entries t) = 2 ^ k"
    "0 < length (ht_entries t)" "ht_size t = int (length (ht_entries t))"
    "\<exists>j < length (ht_entries t). he_data (ht_entries t ! j) = NULL" "chains (ht_entries t)"
proof -
  from assms obtain k where k: "k \<le> 30" "ht_size t = 2 ^ k" by (auto simp: ht_inv_def)
  have len: "int (length (ht_entries t)) = ht_size t" using assms by (simp add: ht_inv_def)
  then have l2: "length (ht_entries t) = 2 ^ k" using k(2) by (metis of_nat_eq_iff of_nat_numeral of_nat_power)
  have "(ht_num t + ht_dead t) * 8 \<le> ht_size t * 5" "0 < ht_size t" using assms k by (simp_all add: ht_inv_def)
  then have "ht_num t + ht_dead t < ht_size t" by presburger
  then have "size (live_of (ht_entries t)) + size (tombs_of (ht_entries t)) < length (ht_entries t)"
    using assms by (simp add: ht_inv_def)
  then have "\<exists>j < length (ht_entries t). he_data (ht_entries t ! j) = NULL" by (rule null_slot_exists)
  moreover have "0 < length (ht_entries t)" using l2 by simp
  moreover have "chains (ht_entries t)" using assms by (simp add: ht_inv_def)
  ultimately show thesis using that k l2 len by simp
qed

text \<open>Where any of the probes ends in a good table.\<close>

lemma ht_probe:
  assumes inv: "ht_inv t"
  obtains d where "d < length (ht_entries t)"
    "stops hit (ht_entries t ! ((home (ht_entries t) h + d) mod length (ht_entries t)))"
    "\<forall>e < d. \<not> stops hit (ht_entries t ! ((home (ht_entries t) h + e) mod length (ht_entries t)))"
    "probe hit (ht_size t) (ht_entries t) (home_slot h (ht_size t))
       = Some ((home (ht_entries t) h + d) mod length (ht_entries t))"
proof -
  obtain k where k: "k \<le> 30" "ht_size t = 2 ^ k" "length (ht_entries t) = 2 ^ k"
    and pos: "0 < length (ht_entries t)" and sz: "ht_size t = int (length (ht_entries t))"
    and ex: "\<exists>j < length (ht_entries t). he_data (ht_entries t ! j) = NULL"
    using inv by (rule ht_invD) blast
  have "home_slot h (ht_size t) = home (ht_entries t) h"
    unfolding k(2) by (rule home_slot_mod) (use k in simp_all)
  moreover have "home (ht_entries t) h < length (ht_entries t)" using pos by (intro home_less) simp
  ultimately show thesis using probe_result [OF _ ex] that sz by metis
qed

text \<open>The walk finds a hit when some live entry with that hash is one.\<close>

lemma ht_probe_hit:
  assumes c: "chains es" and x: "x \<in># live_of es" "he_hash x = h" "hit x"
    and d: "d < length es" "stops hit (es ! ((home es h + d) mod length es))"
    "\<forall>e < d. \<not> stops hit (es ! ((home es h + e) mod length es))"
  shows "he_data (es ! ((home es h + d) mod length es)) \<noteq> NULL
     \<and> hit (es ! ((home es h + d) mod length es))"
proof -
  obtain j where j: "j < length es" "es ! j = x" "is_live x" using live_of_ex [OF x(1)] by blast
  then obtain d' where d': "d' < length es" "j = (home es h + d') mod length es"
    and walk: "\<forall>e < d'. he_data (es ! ((home es h + e) mod length es)) \<noteq> NULL"
    using c x(2) unfolding chains_def by blast
  have xn: "he_data x \<noteq> NULL" using j(3) by (simp add: is_live_def)
  have "\<not> d' < d" using d(3) d'(2) j(2) x(3) by (auto simp: stops_def)
  then have "d < d' \<or> d = d'" by linarith
  then have "he_data (es ! ((home es h + d) mod length es)) \<noteq> NULL"
    using walk xn j(2) d'(2) by auto
  then show ?thesis using d(2) by (simp add: stops_def)
qed

subsection \<open>Resizing\<close>

lemma countTombStones_value:
  assumes "int (length (ht_entries t)) = ht_size t"
  shows "countTombStones t = int (size (tombs_of (ht_entries t)))"
proof -
  let ?es = "ht_entries t"
  have "foldl (\<lambda>count i. if he_data (?es ! i) = HASH_TOMBSTONE then count + 1 else count) 0 [0..<n]
      = int (size (tombs_of (take n ?es)))" if "n \<le> length ?es" for n
    using that
    by (induction n) (auto simp: tombs_of_def is_tomb_def take_Suc_conv_app_nth)
  from this [of "length ?es"] show ?thesis using assms by (simp add: countTombStones_def flip: assms)
qed

lemma home_slot_next:
  fixes es :: "HashEntry list"
  assumes k: "k \<le> 31" "length es = 2 ^ k" and i: "i < length es"
  shows "home_slot (of_nat (i + 1)) (2 ^ k) = Suc i mod length es"
proof -
  have "(2 :: nat) ^ k \<le> 2 ^ 31" using k(1) by (intro power_increasing) simp_all
  then have "Suc i < 2 ^ 32" using i k(2) by simp
  then have "unat (of_nat (Suc i) :: u32) = Suc i"
    by (simp only: unsigned_of_nat) (simp add: take_bit_nat_eq_self del: of_nat_Suc)
  then have "unat (of_nat (i + 1) :: u32) = Suc i" by (simp only: Suc_eq_plus1)
  then show ?thesis by (simp only: home_slot_mod [OF k] home_def)
qed

lemma free_slot_first:
  assumes k: "k \<le> 31" "length es = 2 ^ k"
    and "i < length es" and "he_data (es ! ((i + d) mod length es)) = NULL"
    and "\<forall>e < d. he_data (es ! ((i + e) mod length es)) \<noteq> NULL"
  shows "free_slot (2 ^ k) es i = Some ((i + d) mod length es)"
  using assms(3-)
proof (induction d arbitrary: i)
  case 0
  then show ?case by (subst free_slot.simps) auto
next
  case (Suc d)
  let ?n = "length es"
  have step: "(Suc i mod ?n + e) mod ?n = (i + Suc e) mod ?n" for e
    by (simp add: mod_add_left_eq)
  have ne: "he_data (es ! i) \<noteq> NULL" using Suc.prems(1) Suc.prems(3)[rule_format, of 0] by simp
  have "0 < ?n" using Suc.prems(1) by linarith
  then have "Suc i mod ?n < ?n" by simp
  moreover have "he_data (es ! ((Suc i mod ?n + d) mod ?n)) = NULL" using Suc.prems(2) by (simp only: step)
  moreover have "\<forall>e<d. he_data (es ! ((Suc i mod ?n + e) mod ?n)) \<noteq> NULL"
    using Suc.prems(3) by (simp only: step) auto
  ultimately have "free_slot (2 ^ k) es (Suc i mod ?n) = Some ((i + Suc d) mod ?n)"
    using Suc.IH by (simp only: step)
  then show ?case
    using ne Suc.prems(1) home_slot_next [OF k Suc.prems(1)] by (subst free_slot.simps) simp
qed

lemma free_slot_result:
  assumes k: "k \<le> 31" "length es = 2 ^ k" and ex: "\<exists>j < length es. he_data (es ! j) = NULL"
  obtains d where "d < length es" "he_data (es ! ((home es h + d) mod length es)) = NULL"
    "\<forall>e < d. he_data (es ! ((home es h + e) mod length es)) \<noteq> NULL"
    "free_slot (2 ^ k) es (home_slot h (2 ^ k)) = Some ((home es h + d) mod length es)"
proof -
  let ?P = "\<lambda>d. he_data (es ! ((home es h + d) mod length es)) = NULL"
  obtain j where j: "j < length es" "he_data (es ! j) = NULL" using ex by blast
  then obtain d where d: "d < length es" "(home es h + d) mod length es = j" using cyclic_slot by blast
  then have "?P d" using j by simp
  then have L: "?P (LEAST d. ?P d)" "(LEAST d. ?P d) \<le> d" by (rule LeastI, rule Least_le)
  have nl: "\<forall>e < (LEAST d. ?P d). \<not> ?P e" using not_less_Least by blast
  have "es \<noteq> []" using j by auto
  then have "free_slot (2 ^ k) es (home es h) = Some ((home es h + (LEAST d. ?P d)) mod length es)"
    by (intro free_slot_first [OF k home_less L(1) nl])
  then show thesis using that [of "LEAST d. ?P d"] L d nl home_slot_mod [OF k, of h] by simp
qed

text \<open>An array being refilled: no tombstones, chains intact, live entries \<open>m\<close>.\<close>

definition refill :: "nat \<Rightarrow> HashEntry list \<Rightarrow> HashEntry multiset \<Rightarrow> bool" where
  "refill k es m \<longleftrightarrow> length es = 2 ^ k \<and> chains es \<and> tombs_of es = {#} \<and> live_of es = m"

lemma resize_loop_refill:
  assumes k: "k \<le> 31" and "refill k new m" and "size m + size (live_of es) < 2 ^ k"
  shows "\<exists>new'. resize_loop (2 ^ k) es new = Some new' \<and> refill k new' (m + live_of es)"
  using assms(2-)
proof (induction es arbitrary: new m)
  case Nil
  then show ?case by (simp add: live_of_def)
next
  case (Cons e es)
  show ?case
  proof (cases "is_live e")
    case False
    then have "live_of (e # es) = live_of es" by (simp add: live_of_def)
    then show ?thesis using Cons.IH Cons.prems False by (auto simp: is_live_def)
  next
    case True
    then have le: "live_of (e # es) = add_mset e (live_of es)" by (simp add: live_of_def)
    have new: "length new = 2 ^ k" "chains new" "tombs_of new = {#}" "live_of new = m"
      using Cons.prems(1) by (simp_all add: refill_def)
    have "size (live_of new) + size (tombs_of new) < length new" using Cons.prems(2) new by simp
    then have ex: "\<exists>j < length new. he_data (new ! j) = NULL" by (rule null_slot_exists)
    obtain d where d: "d < length new" "he_data (new ! ((home new (he_hash e) + d) mod length new)) = NULL"
      "\<forall>x < d. he_data (new ! ((home new (he_hash e) + x) mod length new)) \<noteq> NULL"
      and fs: "free_slot (2 ^ k) new (home_slot (he_hash e) (2 ^ k)) = Some ((home new (he_hash e) + d) mod length new)"
      using free_slot_result [OF k new(1) ex] by blast
    define i where "i = (home new (he_hash e) + d) mod length new"
    have il: "i < length new" using new(1) by (simp add: i_def)
    let ?e = "\<lparr>he_hash = he_hash e, he_data = he_data e\<rparr> :: HashEntry"
    have e: "?e = e" by simp
    have ch: "chains (new[i := e])"
      using new(1) d True by (intro chains_insert [OF new(2) _ d(1) i_def]) (auto simp: is_live_def)
    have ni: "\<not> is_live (new ! i)" "\<not> is_tomb (new ! i)" using d(2) by (simp_all add: i_def is_live_def is_tomb_def)
    have "refill k (new[i := e]) (add_mset e m)"
      using new ch ni True il
      by (simp add: refill_def live_of_update tombs_of_update) (simp add: is_live_def is_tomb_def)
    then obtain new' where "resize_loop (2 ^ k) es (new[i := e]) = Some new'"
      "refill k new' (add_mset e m + live_of es)"
      using Cons.IH Cons.prems(2) le by fastforce
    moreover have "resize_loop (2 ^ k) (e # es) new = resize_loop (2 ^ k) es (new[i := e])"
      using True fs e by (simp add: is_live_def i_def [symmetric]) (simp only: e)
    ultimately show ?thesis using le by simp
  qed
qed

lemma calloc_refill: "refill k (calloc_entries (2 ^ k)) {#}"
proof -
  have "nat ((2 :: int) ^ k) = 2 ^ k" by (simp add: nat_power_eq)
  then show ?thesis
    by (auto simp: refill_def calloc_entries_def chains_def tombs_of_def live_of_def is_live_def is_tomb_def
        filter_mset_eq_conv)
qed

lemma resizeHash_value:
  assumes k: "k \<le> 30" "ht_size t = 2 ^ k" "int (length (ht_entries t)) = ht_size t"
    and d: "ht_dead t = int (size (tombs_of (ht_entries t)))"
  shows "\<exists>es. resizeHash t (ht_size t * 2) True
      = Some (True, t\<lparr>ht_entries := es, ht_size := ht_size t * 2, ht_dead := 0\<rparr>)
    \<and> refill (Suc k) es (live_of (ht_entries t))"
proof -
  have len: "length (ht_entries t) = 2 ^ k" using k(2,3) by (metis of_nat_eq_iff of_nat_numeral of_nat_power)
  have "size (live_of (ht_entries t)) \<le> length (ht_entries t)"
    unfolding live_of_def by (metis size_filter_mset_lesseq size_mset)
  also have "\<dots> < 2 ^ Suc k" using len by simp
  finally obtain es where es: "resize_loop (2 ^ Suc k) (ht_entries t) (calloc_entries (2 ^ Suc k)) = Some es"
    "refill (Suc k) es (live_of (ht_entries t))"
    using resize_loop_refill [OF _ calloc_refill, of "Suc k" "ht_entries t"] k(1) by auto
  have tk: "take (nat (ht_size t)) (ht_entries t) = ht_entries t" using k(3) by simp
  have sz: "ht_size t * 2 = 2 ^ Suc k" using k(2) by simp
  let ?t = "t\<lparr>ht_entries := es, ht_size := 2 ^ Suc k, ht_dead := 0\<rparr>"
  have "countTombStones ?t = 0"
    using es(2) by (subst countTombStones_value) (simp_all add: refill_def)
  moreover have "countTombStones t = ht_dead t" using countTombStones_value [OF k(3)] d by simp
  ultimately have "resizeHash t (ht_size t * 2) True = Some (True, ?t)"
    using es(1) unfolding resizeHash_def tk sz by (simp add: Let_def del: power_Suc)
  then show ?thesis using es(2) unfolding sz by blast
qed

subsection \<open>Lookup, insertion and removal\<close>

definition item_ok :: "ptr \<Rightarrow> bool" where
  "item_ok item \<longleftrightarrow> item \<noteq> NULL \<and> item \<noteq> HASH_TOMBSTONE"

text \<open>The live entries a lookup would accept.\<close>

definition hits :: "HashTable \<Rightarrow> u32 \<Rightarrow> ptr \<Rightarrow> (ptr \<Rightarrow> ptr \<Rightarrow> int) \<Rightarrow> HashEntry multiset" where
  "hits t itemHash item cmpFunc =
     filter_mset (\<lambda>e. he_hash e = itemHash \<and> cmpFunc (he_data e) item = 0) (ht_live t)"

lemma lookup_hit_live:
  "e \<in># hits t h item cmp \<longleftrightarrow> e \<in># ht_live t \<and> lookup_hit h item cmp e"
  by (auto simp: hits_def lookup_hit_def ht_live_def live_of_def is_live_def)

lemma size_pos: "ht_inv t \<Longrightarrow> 0 < ht_size t"
  by (auto simp: ht_inv_def)

text \<open>The slot that is \<open>d\<close> steps behind the one where a hash value starts.\<close>

definition probe_slot :: "HashTable \<Rightarrow> u32 \<Rightarrow> nat \<Rightarrow> nat" where
  "probe_slot t h d = (home (ht_entries t) h + d) mod length (ht_entries t)"

lemma lookup_first:
  assumes inv: "ht_inv t" and item: "item_ok item" and x: "x \<in># hits t h item cmp"
  obtains d where "d < length (ht_entries t)" "ht_entries t ! probe_slot t h d \<in># hits t h item cmp"
    "\<forall>e < d. \<not> lookup_hit h item cmp (ht_entries t ! probe_slot t h e)"
    "\<And>doAdd mem. mzHashTableLookup t h item cmp doAdd mem = Some (he_data (ht_entries t ! probe_slot t h d), t)"
proof -
  let ?es = "ht_entries t"
  obtain d where d: "d < length ?es" "stops (lookup_hit h item cmp) (?es ! ((home ?es h + d) mod length ?es))"
    "\<forall>e < d. \<not> stops (lookup_hit h item cmp) (?es ! ((home ?es h + e) mod length ?es))"
    and p: "probe (lookup_hit h item cmp) (ht_size t) ?es (home_slot h (ht_size t))
       = Some ((home ?es h + d) mod length ?es)"
    using inv by (rule ht_probe)
  define i where "i = (home ?es h + d) mod length ?es"
  have x': "x \<in># live_of ?es" "he_hash x = h" "lookup_hit h item cmp x"
    using x by (auto simp: lookup_hit_live ht_live_def lookup_hit_def)
  have ch: "chains ?es" using inv by (simp add: ht_inv_def)
  have h: "he_data (?es ! i) \<noteq> NULL" "lookup_hit h item cmp (?es ! i)"
    using ht_probe_hit [OF ch x' d] by (simp_all add: i_def)
  have "0 < length ?es" using d(1) by linarith
  then have il: "i < length ?es" by (simp add: i_def)
  then have "?es ! i \<in># hits t h item cmp"
    using h by (auto simp: lookup_hit_live ht_live_def is_live_def lookup_hit_def intro!: live_of_nth)
  moreover have "mzHashTableLookup t h item cmp doAdd mem = Some (he_data (?es ! i), t)" for doAdd mem
    using p h il item size_pos [OF inv] by (simp add: mzHashTableLookup_def i_def [symmetric] item_ok_def)
  ultimately show thesis using that [of d] d(1,3) by (auto simp: probe_slot_def i_def stops_def)
qed

lemma lookup_present:
  assumes "ht_inv t" and "item_ok item" and "x \<in># hits t h item cmp"
  shows "\<exists>y \<in># hits t h item cmp. mzHashTableLookup t h item cmp doAdd mem = Some (he_data y, t)"
  by (rule lookup_first [OF assms]) blast

text \<open>Where the walk of an absent item ends.\<close>

lemma lookup_absent_slot:
  assumes inv: "ht_inv t" and none: "hits t h item cmp = {#}"
  obtains d where "d < length (ht_entries t)"
    "he_data (ht_entries t ! ((home (ht_entries t) h + d) mod length (ht_entries t))) = NULL"
    "\<forall>e < d. he_data (ht_entries t ! ((home (ht_entries t) h + e) mod length (ht_entries t))) \<noteq> NULL"
    "probe (lookup_hit h item cmp) (ht_size t) (ht_entries t) (home_slot h (ht_size t))
       = Some ((home (ht_entries t) h + d) mod length (ht_entries t))"
proof -
  let ?es = "ht_entries t"
  obtain d where d: "d < length ?es" "stops (lookup_hit h item cmp) (?es ! ((home ?es h + d) mod length ?es))"
    "\<forall>e < d. \<not> stops (lookup_hit h item cmp) (?es ! ((home ?es h + e) mod length ?es))"
    and p: "probe (lookup_hit h item cmp) (ht_size t) ?es (home_slot h (ht_size t))
       = Some ((home ?es h + d) mod length ?es)"
    using inv by (rule ht_probe)
  have no: "he_data (?es ! i) = NULL" if "i < length ?es" "lookup_hit h item cmp (?es ! i)" for i
  proof (rule ccontr)
    assume "he_data (?es ! i) \<noteq> NULL"
    then have "?es ! i \<in># hits t h item cmp"
      using that by (auto simp: lookup_hit_live ht_live_def is_live_def lookup_hit_def intro!: live_of_nth)
    then show False using none by simp
  qed
  have "0 < length ?es" using d(1) by linarith
  then have "(home ?es h + d) mod length ?es < length ?es" by simp
  then have "he_data (?es ! ((home ?es h + d) mod length ?es)) = NULL"
    using d(2) no by (auto simp: stops_def)
  then show thesis using that d p by (auto simp: stops_def)
qed

lemma lookup_absent:
  assumes inv: "ht_inv t" and item: "item_ok item" and none: "hits t h item cmp = {#}"
  shows "mzHashTableLookup t h item cmp False mem = Some (NULL, t)"
proof -
  let ?es = "ht_entries t"
  obtain d where d: "d < length ?es" "he_data (?es ! ((home ?es h + d) mod length ?es)) = NULL"
    and p: "probe (lookup_hit h item cmp) (ht_size t) ?es (home_slot h (ht_size t))
       = Some ((home ?es h + d) mod length ?es)"
    using lookup_absent_slot [OF inv none] by metis
  have "0 < length ?es" using d(1) by linarith
  then have "(home ?es h + d) mod length ?es < length ?es" by simp
  then show ?thesis
    using p d(2) item size_pos [OF inv] by (simp add: mzHashTableLookup_def item_ok_def)
qed

lemma lookup_add:
  assumes inv: "ht_inv t" and item: "item_ok item" and none: "hits t h item cmp = {#}"
    and small: "ht_size t \<le> 2 ^ 28"
  shows "\<exists>t'. mzHashTableLookup t h item cmp True True = Some (item, t') \<and> ht_inv t'
     \<and> ht_live t' = add_mset \<lparr>he_hash = h, he_data = item\<rparr> (ht_live t)
     \<and> (ht_size t' = ht_size t \<or> ht_size t' = 2 * ht_size t) \<and> ht_free t' = ht_free t
     \<and> ((ht_num t + 1 + ht_dead t) * 8 \<le> ht_size t * 5 \<longrightarrow> ht_size t' = ht_size t \<and> ht_dead t' = ht_dead t)"
proof -
  let ?es = "ht_entries t" and ?e = "\<lparr>he_hash = h, he_data = item\<rparr> :: HashEntry"
  obtain d where d: "d < length ?es" "he_data (?es ! ((home ?es h + d) mod length ?es)) = NULL"
    "\<forall>e < d. he_data (?es ! ((home ?es h + e) mod length ?es)) \<noteq> NULL"
    and p: "probe (lookup_hit h item cmp) (ht_size t) ?es (home_slot h (ht_size t))
       = Some ((home ?es h + d) mod length ?es)"
    using inv none by (rule lookup_absent_slot)
  obtain k where k: "k \<le> 30" "ht_size t = 2 ^ k" "length ?es = 2 ^ k" and len: "ht_size t = int (length ?es)"
    using inv by (rule ht_invD) blast
  define i where "i = (home ?es h + d) mod length ?es"
  have il: "i < length ?es" using k(3) by (simp add: i_def)
  have ni: "\<not> is_live (?es ! i)" "\<not> is_tomb (?es ! i)" using d(2) by (simp_all add: i_def is_live_def is_tomb_def)
  have le: "is_live ?e" "\<not> is_tomb ?e" using item by (simp_all add: item_ok_def is_live_def is_tomb_def)
  define t1 where "t1 = t\<lparr>ht_entries := ?es[i := ?e], ht_num := ht_num t + 1\<rparr>"
  have live1: "live_of (?es[i := ?e]) = add_mset ?e (live_of ?es)"
    and tomb1: "tombs_of (?es[i := ?e]) = tombs_of ?es"
    using ni le il by (simp_all add: live_of_update tombs_of_update)
  have ch: "chains (?es[i := ?e])"
    using k(3) d(3) item inv
    by (intro chains_insert [OF _ _ d(1)]) (auto simp: i_def item_ok_def ht_inv_def)
  have counts: "ht_num t = int (size (live_of ?es))" "ht_dead t = int (size (tombs_of ?es))"
    "(ht_num t + ht_dead t) * 8 \<le> ht_size t * 5" using inv by (simp_all add: ht_inv_def)
  have look: "mzHashTableLookup t h item cmp True True =
     (case (if (ht_num t1 + ht_dead t1) * LOAD_DENOM > ht_size t1 * LOAD_NUMER
            then resizeHash t1 (ht_size t1 * 2) True else Some (True, t1)) of
        None \<Rightarrow> None
      | Some (ok, t) \<Rightarrow> if \<not> ok then None else if \<not> ht_num t < ht_size t then None else Some (item, t))"
    using p d(2) item size_pos [OF inv] il
    by (simp add: mzHashTableLookup_def item_ok_def i_def [symmetric] t1_def)
  have t1: "ht_size t1 = ht_size t" "ht_num t1 = ht_num t + 1" "ht_dead t1 = ht_dead t"
    "ht_entries t1 = ?es[i := ?e]" "ht_free t1 = ht_free t" by (simp_all add: t1_def)
  show ?thesis
  proof (cases "(ht_num t1 + ht_dead t1) * LOAD_DENOM > ht_size t1 * LOAD_NUMER")
    case False
    then have load: "(ht_num t1 + ht_dead t1) * 8 \<le> ht_size t1 * 5" by (simp add: LOAD_DENOM_def LOAD_NUMER_def)
    have "ht_inv t1"
      using k(1,2) len counts ch live1 tomb1 load by (auto simp: ht_inv_def t1)
    moreover have "0 < ht_size t1" using k(2) t1 by simp
    then have "ht_num t1 < ht_size t1" using load counts(2) t1(3) by presburger
    ultimately show ?thesis using look False live1 by (auto simp: t1 ht_live_def)
  next
    case True
    obtain es where r: "resizeHash t1 (ht_size t1 * 2) True
        = Some (True, t1\<lparr>ht_entries := es, ht_size := ht_size t1 * 2, ht_dead := 0\<rparr>)"
      and rf: "refill (Suc k) es (live_of (ht_entries t1))"
      using resizeHash_value [of k t1] k(1,2) len counts(2) tomb1 by (auto simp: t1)
    define t2 where "t2 = t1\<lparr>ht_entries := es, ht_size := ht_size t1 * 2, ht_dead := 0\<rparr>"
    have t2: "ht_size t2 = 2 ^ Suc k" "ht_num t2 = ht_num t + 1" "ht_dead t2 = 0" "ht_entries t2 = es"
      "ht_free t2 = ht_free t"
      using k(2) by (simp_all add: t2_def t1)
    have "(2 :: int) ^ k \<le> 2 ^ 28" using small k(2) by simp
    then have k28: "k \<le> 28" by (rule power_le_imp_le_exp [rotated]) simp
    have load: "(ht_num t2 + ht_dead t2) * 8 \<le> ht_size t2 * 5"
    proof -
      have "ht_num t * 8 \<le> ht_size t * 5" using counts by simp
      moreover have "1 \<le> ht_size t" using k(2) by simp
      ultimately have "ht_num t * 8 + 8 \<le> 10 * ht_size t" by presburger
      then show ?thesis using t2 k(2) by simp
    qed
    have es: "length es = 2 ^ Suc k" "chains es" "tombs_of es = {#}" "live_of es = live_of (?es[i := ?e])"
      using rf by (simp_all add: refill_def t1)
    have "int (length es) = ht_size t2" using es(1) t2(1) by simp
    moreover have "\<exists>k \<le> 30. ht_size t2 = 2 ^ k" using k28 t2(1) by (intro exI [of _ "Suc k"]) simp
    moreover have "ht_num t2 = int (size (live_of es))" using counts(1) live1 es(4) t2(2) by simp
    ultimately have "ht_inv t2" using es t2 load by (simp add: ht_inv_def)
    moreover have "ht_num t2 < ht_size t2"
    proof -
      have "0 < ht_size t2" using t2(1) by simp
      then show ?thesis using load t2(3) by presburger
    qed
    ultimately show ?thesis
      using look True r live1 es(4) k(2) t2
      by (intro exI [of _ t2]) (simp add: t2_def [symmetric] ht_live_def t1 LOAD_DENOM_def LOAD_NUMER_def)
  qed
qed

text \<open>The first slot on the walk that holds the item becomes a tombstone.\<close>

definition bury :: "HashTable \<Rightarrow> nat \<Rightarrow> HashTable" where
  "bury t i = t\<lparr>ht_entries := (ht_entries t)[i := (ht_entries t ! i)\<lparr>he_data := HASH_TOMBSTONE\<rparr>],
     ht_num := ht_num t - 1, ht_dead := ht_dead t + 1\<rparr>"

lemma bury_live:
  assumes inv: "ht_inv t" and i: "i < length (ht_entries t)" "is_live (ht_entries t ! i)"
  shows "ht_inv (bury t i)" and "ht_entries t ! i \<in># ht_live t" and "ht_live (bury t i) = ht_live t - {#ht_entries t ! i#}"
proof -
  let ?es = "ht_entries t" and ?e = "(ht_entries t ! i)\<lparr>he_data := HASH_TOMBSTONE\<rparr>"
  have ch: "chains ?es" using inv by (simp add: ht_inv_def)
  have e: "\<not> is_live ?e" "is_tomb ?e" "\<not> is_tomb (?es ! i)" using i(2) by (simp_all add: is_live_def is_tomb_def)
  have mem: "?es ! i \<in># live_of ?es" by (rule live_of_nth [OF i])
  have live1: "live_of (?es[i := ?e]) = live_of ?es - {#?es ! i#}"
    and tomb1: "tombs_of (?es[i := ?e]) = add_mset ?e (tombs_of ?es)"
    using i e by (simp_all add: live_of_update tombs_of_update)
  have "size (live_of ?es) > 0" using mem by (metis nonempty_has_size empty_not_add_mset multi_member_split)
  then have "int (size (live_of ?es - {#?es ! i#})) = int (size (live_of ?es)) - 1"
    using mem by (simp add: size_Diff_singleton of_nat_diff)
  then show "ht_inv (bury t i)" using inv live1 tomb1 chains_remove [OF ch, of i] by (auto simp: ht_inv_def bury_def)
  show "?es ! i \<in># ht_live t" using mem by (simp add: ht_live_def)
  show "ht_live (bury t i) = ht_live t - {#?es ! i#}" using live1 by (simp add: ht_live_def bury_def)
qed

lemma remove_first:
  assumes inv: "ht_inv t" and item: "item_ok item" and x: "\<lparr>he_hash = h, he_data = item\<rparr> \<in># ht_live t"
  obtains d where "d < length (ht_entries t)" "he_data (ht_entries t ! probe_slot t h d) = item"
    "\<forall>e < d. he_data (ht_entries t ! probe_slot t h e) \<noteq> item" "probe_slot t h d < length (ht_entries t)"
    "is_live (ht_entries t ! probe_slot t h d)" "mzHashTableRemove t h item = Some (True, bury t (probe_slot t h d))"
proof -
  let ?es = "ht_entries t" and ?hit = "\<lambda>e :: HashEntry. he_data e = item"
  obtain d where d: "d < length ?es" "stops ?hit (?es ! ((home ?es h + d) mod length ?es))"
    "\<forall>e < d. \<not> stops ?hit (?es ! ((home ?es h + e) mod length ?es))"
    and p: "probe ?hit (ht_size t) ?es (home_slot h (ht_size t)) = Some ((home ?es h + d) mod length ?es)"
    using inv by (rule ht_probe)
  define i where "i = probe_slot t h d"
  have ch: "chains ?es" using inv by (simp add: ht_inv_def)
  have hd: "he_data (?es ! i) \<noteq> NULL" "he_data (?es ! i) = item"
    using ht_probe_hit [OF ch x [unfolded ht_live_def] _ _ d] item by (simp_all add: i_def probe_slot_def item_ok_def)
  have "0 < length ?es" using d(1) by linarith
  then have il: "i < length ?es" by (simp add: i_def probe_slot_def)
  moreover have "is_live (?es ! i)" using hd item by (simp add: is_live_def item_ok_def)
  moreover have "mzHashTableRemove t h item = Some (True, bury t i)"
    using p il hd size_pos [OF inv] by (simp add: mzHashTableRemove_def bury_def i_def probe_slot_def)
  ultimately show thesis using that [of d] d(1,3) hd(2) by (auto simp: i_def probe_slot_def stops_def)
qed

lemma remove_present:
  assumes "ht_inv t" and "item_ok item" and "\<lparr>he_hash = h, he_data = item\<rparr> \<in># ht_live t"
  shows "\<exists>t' y. mzHashTableRemove t h item = Some (True, t') \<and> ht_inv t'
     \<and> y \<in># ht_live t \<and> he_data y = item \<and> ht_live t' = ht_live t - {#y#} \<and> ht_size t' = ht_size t"
proof -
  obtain d where d: "he_data (ht_entries t ! probe_slot t h d) = item" "probe_slot t h d < length (ht_entries t)"
    "is_live (ht_entries t ! probe_slot t h d)" "mzHashTableRemove t h item = Some (True, bury t (probe_slot t h d))"
    by (rule remove_first [OF assms])
  then show ?thesis using bury_live [OF assms(1) d(2,3)] by (auto simp: bury_def)
qed

lemma remove_absent:
  assumes inv: "ht_inv t" and item: "item_ok item" and x: "\<forall>y \<in># ht_live t. he_data y \<noteq> item"
  shows "mzHashTableRemove t h item = Some (False, t)"
proof -
  let ?es = "ht_entries t" and ?hit = "\<lambda>e :: HashEntry. he_data e = item"
  obtain d where d: "d < length ?es" "stops ?hit (?es ! ((home ?es h + d) mod length ?es))"
    and p: "probe ?hit (ht_size t) ?es (home_slot h (ht_size t)) = Some ((home ?es h + d) mod length ?es)"
    using inv by (rule ht_probe)
  have "0 < length ?es" using d(1) by linarith
  then have il: "(home ?es h + d) mod length ?es < length ?es" by simp
  have "he_data (?es ! ((home ?es h + d) mod length ?es)) \<noteq> item"
    using x live_of_nth [OF il] item by (auto simp: ht_live_def is_live_def item_ok_def)
  then have "he_data (?es ! ((home ?es h + d) mod length ?es)) = NULL" using d(2) by (simp add: stops_def)
  then show ?thesis using p size_pos [OF inv] by (simp add: mzHashTableRemove_def)
qed

subsection \<open>Creation, clearing, enumeration\<close>

lemma smear_step:
  fixes v w :: u32
  assumes "\<forall>n. bit v n \<longleftrightarrow> (\<exists>j < m. bit w (n + j))"
  shows "\<forall>n. bit (v OR drop_bit m v) n \<longleftrightarrow> (\<exists>j < 2 * m. bit w (n + j))"
proof
  fix n
  have "bit (v OR drop_bit m v) n \<longleftrightarrow> (\<exists>j < m. bit w (n + j)) \<or> (\<exists>j < m. bit w (m + n + j))"
    using assms by (simp add: bit_or_iff bit_drop_bit_eq)
  also have "\<dots> \<longleftrightarrow> (\<exists>j < 2 * m. bit w (n + j))"
  proof
    assume "(\<exists>j < m. bit w (n + j)) \<or> (\<exists>j < m. bit w (m + n + j))"
    then show "\<exists>j < 2 * m. bit w (n + j)"
    proof
      assume "\<exists>j < m. bit w (n + j)"
      then obtain j where "j < m" "bit w (n + j)" by blast
      then show ?thesis by (intro exI [of _ j]) simp
    next
      assume "\<exists>j < m. bit w (m + n + j)"
      then obtain j where "j < m" "bit w (m + n + j)" by blast
      then show ?thesis by (intro exI [of _ "m + j"]) (simp add: ac_simps)
    qed
  next
    assume "\<exists>j < 2 * m. bit w (n + j)"
    then obtain j where j: "j < 2 * m" "bit w (n + j)" by blast
    show "(\<exists>j < m. bit w (n + j)) \<or> (\<exists>j < m. bit w (m + n + j))"
    proof (cases "j < m")
      case True
      then show ?thesis using j by blast
    next
      case False
      then have "j - m < m" "m + n + (j - m) = n + j" using j by simp_all
      then show ?thesis using j(2) by metis
    qed
  qed
  finally show "bit (v OR drop_bit m v) n \<longleftrightarrow> (\<exists>j < 2 * m. bit w (n + j))" .
qed

lemma bits_below_top:
  fixes w :: u32
  shows "\<exists>l \<le> 32. (\<forall>n. (\<exists>j < 32. bit w (n + j)) \<longleftrightarrow> n < l) \<and> (l \<noteq> 0 \<longrightarrow> 2 ^ (l - 1) \<le> unat w) \<and> unat w < 2 ^ l"
proof -
  let ?P = "\<lambda>l. \<forall>n \<ge> l. \<not> bit w n"
  have P32: "?P 32" by (auto simp: impossible_bit)
  define l where "l = (LEAST l. ?P l)"
  have l: "?P l" "l \<le> 32" unfolding l_def using P32 by (rule LeastI, intro Least_le) (rule P32)
  have top: "bit w (l - 1)" if "l \<noteq> 0"
  proof (rule ccontr)
    assume nb: "\<not> bit w (l - 1)"
    have "\<not> bit w n" if "l - 1 \<le> n" for n
      using that nb l(1) by (cases "n = l - 1") auto
    then have "?P (l - 1)" by blast
    then have "l \<le> l - 1" unfolding l_def by (rule Least_le)
    then show False using \<open>l \<noteq> 0\<close> by simp
  qed
  have "(\<exists>j < 32. bit w (n + j)) \<longleftrightarrow> n < l" for n
  proof
    assume "\<exists>j < 32. bit w (n + j)"
    then obtain j where "bit w (n + j)" by blast
    then show "n < l" using l(1) by (metis le_add1 le_trans not_le)
  next
    assume n: "n < l"
    then have "bit w (n + (l - 1 - n))" using top by simp
    moreover have "l - 1 - n < 32" using l(2) n by simp
    ultimately show "\<exists>j < 32. bit w (n + j)" by blast
  qed
  moreover have "2 ^ (l - 1) \<le> unat w" if "l \<noteq> 0"
  proof -
    have "bit (unat w) (l - 1)" using top [OF that] by (simp add: bit_unsigned_iff)
    then have "odd (unat w div 2 ^ (l - 1))" by (simp add: bit_iff_odd)
    then have "unat w div 2 ^ (l - 1) \<noteq> 0" by (metis even_zero)
    then show ?thesis by (metis div_less not_le)
  qed
  moreover have "unat w < 2 ^ l"
  proof -
    have "take_bit l (unat w) = unat w"
      by (rule bit_eqI) (use l(1) in \<open>auto simp: bit_take_bit_iff bit_unsigned_iff not_le [symmetric]\<close>)
    then show ?thesis by (metis take_bit_nat_less_exp)
  qed
  ultimately show ?thesis using l(2) by blast
qed

lemma roundUpPower2_value:
  assumes "0 < v" "v \<le> 2 ^ 31"
  shows "\<exists>k \<le> 31. roundUpPower2 v = 2 ^ k \<and> unat v \<le> 2 ^ k \<and> 2 ^ k < 2 * unat v"
proof -
  define w where "w = v - 1"
  have uv: "0 < unat v" "unat v \<le> 2 ^ 31"
    using assms by (simp_all add: word_less_nat_alt word_le_nat_alt)
  have uw: "unat w = unat v - 1"
    unfolding w_def using assms(1) by (intro unat_minus_one) (simp add: word_gt_0)
  define a where "a = w OR drop_bit 1 w"
  define b where "b = a OR drop_bit 2 a"
  define c where "c = b OR drop_bit 4 b"
  define d where "d = c OR drop_bit 8 c"
  define e where "e = d OR drop_bit 16 d"
  have "\<forall>n. bit w n \<longleftrightarrow> (\<exists>j < 1. bit w (n + j))" by simp
  then have "\<forall>n. bit a n \<longleftrightarrow> (\<exists>j < 2 * 1. bit w (n + j))" unfolding a_def by (rule smear_step)
  then have "\<forall>n. bit b n \<longleftrightarrow> (\<exists>j < 2 * 2. bit w (n + j))"
    unfolding b_def by (intro smear_step) simp
  then have "\<forall>n. bit c n \<longleftrightarrow> (\<exists>j < 2 * 4. bit w (n + j))"
    unfolding c_def by (intro smear_step) simp
  then have "\<forall>n. bit d n \<longleftrightarrow> (\<exists>j < 2 * 8. bit w (n + j))"
    unfolding d_def by (intro smear_step) simp
  then have "\<forall>n. bit e n \<longleftrightarrow> (\<exists>j < 2 * 16. bit w (n + j))"
    unfolding e_def by (intro smear_step) simp
  then have e: "bit e n \<longleftrightarrow> (\<exists>j < 32. bit w (n + j))" for n by simp
  obtain l where l: "l \<le> 32" "\<forall>n. (\<exists>j < 32. bit w (n + j)) \<longleftrightarrow> n < l"
    "l \<noteq> 0 \<longrightarrow> 2 ^ (l - 1) \<le> unat w" "unat w < 2 ^ l" using bits_below_top [of w] by blast
  have "e = mask l" by (rule bit_word_eqI) (use e l(2) in \<open>simp add: bit_mask_iff\<close>)
  then have r: "roundUpPower2 v = 2 ^ l"
    unfolding roundUpPower2_def Let_def w_def [symmetric] a_def [symmetric] b_def [symmetric]
      c_def [symmetric] d_def [symmetric] e_def [symmetric]
    by (simp add: mask_eq_exp_minus_1)
  have "l \<le> 31"
  proof (rule ccontr)
    assume "\<not> l \<le> 31"
    then have "l = 32" using l(1) by simp
    then show False using l(3) uw uv by simp
  qed
  moreover have "unat v \<le> 2 ^ l" using l(4) uw uv by simp
  moreover have "2 ^ l < 2 * unat v"
  proof (cases "l = 0")
    case True
    then show ?thesis using uv by simp
  next
    case False
    then have "2 ^ l = 2 * (2 :: nat) ^ (l - 1)" by (cases l) simp_all
    then show ?thesis using l(3) False uw uv by simp
  qed
  ultimately show ?thesis using r by blast
qed

lemma create_value:
  assumes "0 < initialSize" "initialSize \<le> 2 ^ 30"
  shows "\<exists>t. mzHashTableCreate initialSize freeFunc True True = Some (Some t) \<and> ht_inv t \<and> ht_live t = {#}
     \<and> ht_free t = freeFunc \<and> ht_num t = 0 \<and> ht_dead t = 0
     \<and> int (unat initialSize) \<le> ht_size t \<and> ht_size t < 2 * int (unat initialSize)"
proof -
  define v where "v = (ucast initialSize :: u32)"
  have ui: "unat initialSize \<le> 2 ^ 30" "0 < unat initialSize"
    using assms by (simp_all add: word_le_nat_alt word_less_nat_alt)
  have uv: "unat v = unat initialSize"
    using ui unfolding v_def by (simp add: unsigned_ucast_eq take_bit_nat_eq_self)
  then have "0 < v" "v \<le> 2 ^ 31" using ui by (simp_all add: word_le_nat_alt word_less_nat_alt)
  then obtain k where k: "k \<le> 31" "roundUpPower2 v = 2 ^ k" "unat v \<le> 2 ^ k" "2 ^ k < 2 * unat v"
    using roundUpPower2_value by blast
  have "(2 :: nat) ^ k < 2 ^ 31" using k(4) ui uv by simp
  then have k30: "k \<le> 30" using power_less_imp_less_exp [of "2 :: nat" k 31] by simp
  have s: "sint (2 ^ k :: u32) = 2 ^ k"
  proof -
    have "(2 ^ k :: u32) = of_int (2 ^ k)" by simp
    moreover have "(2 :: int) ^ k \<le> 2 ^ 30" using k30 by (intro power_increasing) simp_all
    moreover have "signed_take_bit 31 ((2 :: int) ^ k) = 2 ^ k" if "(2 :: int) ^ k \<le> 2 ^ 30"
    proof (rule signed_take_bit_int_eq_self)
      have "0 \<le> (2 :: int) ^ k" by simp
      then show "- (2 ^ 31) \<le> (2 :: int) ^ k" by (rule order_trans [rotated]) simp
      show "(2 :: int) ^ k < 2 ^ 31" using that by simp
    qed
    ultimately show ?thesis by (simp only: signed_of_int) simp
  qed
  let ?t = "\<lparr>ht_size = 2 ^ k, ht_num = 0, ht_dead = 0, ht_entries = calloc_entries (2 ^ k), ht_free = freeFunc\<rparr>"
  have "refill k (calloc_entries (2 ^ k)) {#}" by (rule calloc_refill)
  then have "ht_inv ?t \<and> ht_live ?t = {#}" using k30 by (auto simp: refill_def ht_inv_def ht_live_def)
  moreover have "mzHashTableCreate initialSize freeFunc True True = Some (Some ?t)"
    using assms(1) s k(2) by (simp add: mzHashTableCreate_def v_def Let_def)
  moreover have "int (unat initialSize) \<le> 2 ^ k" "2 ^ k < 2 * int (unat initialSize)"
  proof -
    have "int (unat v) \<le> int (2 ^ k)" "int (2 ^ k) < int (2 * unat v)"
      using k(3,4) by (simp_all only: of_nat_le_iff of_nat_less_iff)
    then show "int (unat initialSize) \<le> 2 ^ k" "2 ^ k < 2 * int (unat initialSize)"
      by (simp_all only: uv of_nat_power of_nat_mult of_nat_numeral)
  qed
  ultimately show ?thesis by auto
qed

lemma clear_loop_value:
  "clear_loop f es = (map (\<lambda>e. e\<lparr>he_data := NULL\<rparr>) es,
     if f \<noteq> NULL then map he_data (filter is_live es) else [])"
proof (induction es)
  case Nil
  show ?case by simp
next
  case (Cons e es)
  have same: "e\<lparr>he_data := NULL\<rparr> = e" if "he_data e = NULL" using that by (cases e) simp
  show ?case
  proof (cases "he_data e = NULL")
    case True
    then show ?thesis using Cons same by (simp add: is_live_def)
  next
    case False
    then show ?thesis using Cons by (simp add: is_live_def)
  qed
qed

lemma clear_value:
  assumes "ht_inv t"
  shows "ht_inv (fst (mzHashTableClear t)) \<and> ht_live (fst (mzHashTableClear t)) = {#}
     \<and> ht_size (fst (mzHashTableClear t)) = ht_size t
     \<and> snd (mzHashTableClear t) = (if ht_free t \<noteq> NULL then map he_data (filter is_live (ht_entries t)) else [])"
proof -
  obtain k where k: "k \<le> 30" "ht_size t = 2 ^ k" "length (ht_entries t) = 2 ^ k" using assms by (rule ht_invD) blast
  let ?es = "map (\<lambda>e. e\<lparr>he_data := NULL\<rparr>) (ht_entries t)"
  have e: "live_of (map (\<lambda>e. e\<lparr>he_data := NULL\<rparr>) es) = {#}" "tombs_of (map (\<lambda>e. e\<lparr>he_data := NULL\<rparr>) es) = {#}" for es
    by (simp_all only: live_of_def tombs_of_def mset_filter [symmetric])
      (simp_all add: filter_empty_conv is_live_def is_tomb_def)
  have c: "mzHashTableClear t = (t\<lparr>ht_entries := ?es, ht_num := 0, ht_dead := 0\<rparr>,
      if ht_free t \<noteq> NULL then map he_data (filter is_live (ht_entries t)) else [])"
    by (simp add: mzHashTableClear_def clear_loop_value)
  have "chains ?es" by (simp add: chains_def is_live_def)
  then have "ht_inv (fst (mzHashTableClear t))"
    using k by (simp add: ht_inv_def c e)
  then show ?thesis by (simp add: c e ht_live_def)
qed

text \<open>The slots an iteration visits.\<close>

function iter_data :: "HashTable \<Rightarrow> int \<Rightarrow> ptr list" where
  "iter_data t it =
     (if mzHashIterDone t it then []
      else (case mzHashIterData t it of None \<Rightarrow> [] | Some d \<Rightarrow> d # iter_data t (mzHashIterNext t it)))"
  by pat_completeness auto
termination
proof (relation "measure (\<lambda>(t, it). nat (ht_size t - it))", goal_cases)
  case 1
  show ?case by simp
next
  case (2 t it)
  then show ?case
    using iter_from_ge [of "it + 1" t] by (auto simp: mzHashIterDone_def mzHashIterNext_def)
qed

declare iter_data.simps [simp del]

lemma iter_data_from:
  assumes "int (length (ht_entries t)) = ht_size t"
  shows "i \<le> length (ht_entries t) \<Longrightarrow>
     iter_data t (iter_from t (int i)) = map he_data (filter is_live (drop i (ht_entries t)))"
proof (induction "length (ht_entries t) - i" arbitrary: i)
  case 0
  then have "iter_from t (int i) = int i" using assms by (subst iter_from.simps) simp
  then show ?case using 0 assms by (subst iter_data.simps) (simp add: mzHashIterDone_def)
next
  case (Suc n)
  then have i: "i < length (ht_entries t)" by simp
  let ?e = "ht_entries t ! i"
  have dr: "drop i (ht_entries t) = ?e # drop (Suc i) (ht_entries t)" using i by (simp add: Cons_nth_drop_Suc)
  have IH: "iter_data t (iter_from t (int (Suc i))) = map he_data (filter is_live (drop (Suc i) (ht_entries t)))"
    using Suc i by (intro Suc.hyps(1)) simp_all
  show ?case
  proof (cases "is_live ?e")
    case True
    then have "iter_from t (int i) = int i" using i by (subst iter_from.simps) (simp add: is_live_def)
    then show ?thesis
      using IH True i assms dr
      by (subst iter_data.simps) (simp add: mzHashIterDone_def mzHashIterData_def mzHashIterNext_def ac_simps)
  next
    case False
    then have "iter_from t (int i) = iter_from t (int (Suc i))"
      using i assms by (subst iter_from.simps) (auto simp: is_live_def ac_simps)
    then show ?thesis using IH False dr by simp
  qed
qed

subsection \<open>The interface\<close>

text \<open>What a client of the table relies on: \<open>holds t h x\<close> says that item \<open>x\<close> was stored under
  hash \<open>h\<close>, \<open>same\<close> is the caller's comparison.\<close>

locale item_table =
  fixes inv :: "'t \<Rightarrow> bool"
    and valid :: "'i \<Rightarrow> bool"
    and room :: "'t \<Rightarrow> bool"
    and holds :: "'t \<Rightarrow> 'h \<Rightarrow> 'i \<Rightarrow> bool"
    and same :: "'i \<Rightarrow> 'i \<Rightarrow> bool"
    and null :: 'i
    and lookup :: "'t \<Rightarrow> 'h \<Rightarrow> 'i \<Rightarrow> bool \<Rightarrow> ('i \<times> 't) option"
    and remove :: "'t \<Rightarrow> 'h \<Rightarrow> 'i \<Rightarrow> (bool \<times> 't) option"
  assumes holds_valid: "inv t \<Longrightarrow> holds t h x \<Longrightarrow> valid x"
    and null_invalid: "\<not> valid null"
    and lookup_found: "\<lbrakk>inv t; valid x; holds t h y; same y x\<rbrakk>
      \<Longrightarrow> \<exists>z. holds t h z \<and> same z x \<and> lookup t h x a = Some (z, t)"
    and lookup_missing: "\<lbrakk>inv t; valid x; \<And>y. holds t h y \<Longrightarrow> \<not> same y x\<rbrakk>
      \<Longrightarrow> lookup t h x False = Some (null, t)"
    and lookup_adds: "\<lbrakk>inv t; valid x; room t; \<And>y. holds t h y \<Longrightarrow> \<not> same y x\<rbrakk>
      \<Longrightarrow> \<exists>t'. lookup t h x True = Some (x, t') \<and> inv t'
           \<and> (\<forall>h' y. holds t' h' y \<longleftrightarrow> holds t h' y \<or> h' = h \<and> y = x)"
    and remove_found: "\<lbrakk>inv t; valid x; holds t h x; \<And>h'. holds t h' x \<Longrightarrow> h' = h\<rbrakk>
      \<Longrightarrow> \<exists>t'. remove t h x = Some (True, t') \<and> inv t'
           \<and> (\<forall>h' y. y \<noteq> x \<longrightarrow> holds t' h' y \<longleftrightarrow> holds t h' y)"
begin

lemma lookup_null_iff:
  assumes "inv t" "valid x"
  obtains r where "lookup t h x False = Some (r, t)" "r = null \<longleftrightarrow> \<not> (\<exists>y. holds t h y \<and> same y x)"
proof (cases "\<exists>y. holds t h y \<and> same y x")
  case True
  then obtain z where "holds t h z" "lookup t h x False = Some (z, t)"
    using lookup_found [OF assms] by blast
  then show thesis using that True holds_valid null_invalid assms by blast
next
  case False
  then show thesis using that lookup_missing [OF assms] by blast
qed

text \<open>An item that was added is the one found from then on by everything the same.\<close>

lemma find_after_add:
  assumes "inv t" "valid x" "room t" "\<And>y. holds t h y \<Longrightarrow> \<not> same y x"
    and "valid k" "same x k" "\<And>y. holds t h y \<Longrightarrow> \<not> same y k"
  shows "\<exists>t'. lookup t h x True = Some (x, t') \<and> inv t' \<and> lookup t' h k a = Some (x, t')"
proof -
  obtain t' where t': "lookup t h x True = Some (x, t')" "inv t'"
    "\<forall>h' y. holds t' h' y \<longleftrightarrow> holds t h' y \<or> h' = h \<and> y = x"
    using lookup_adds [OF assms(1-4)] by blast
  have "holds t' h x" using t'(3) by blast
  then obtain z where z: "holds t' h z" "same z k" "lookup t' h k a = Some (z, t')"
    using lookup_found [OF t'(2) assms(5) _ assms(6)] by blast
  then have "z = x" using t'(3) assms(7) by blast
  then show ?thesis using t' z by blast
qed

text \<open>Adding a second item that compares equal returns the first and changes nothing.\<close>

lemma add_existing:
  assumes "inv t" "valid x" "holds t h y" "same y x" "\<And>z. holds t h z \<Longrightarrow> same z x \<Longrightarrow> z = y"
  shows "lookup t h x True = Some (y, t)"
  using lookup_found [OF assms(1-4)] assms(5) by blast

end

definition ht_holds :: "HashTable \<Rightarrow> u32 \<Rightarrow> ptr \<Rightarrow> bool" where
  "ht_holds t h x \<longleftrightarrow> \<lparr>he_hash = h, he_data = x\<rparr> \<in># ht_live t"

lemma hits_none: "(\<And>y. ht_holds t h y \<Longrightarrow> cmp y x \<noteq> 0) \<Longrightarrow> hits t h x cmp = {#}"
proof (rule ccontr)
  assume no: "\<And>y. ht_holds t h y \<Longrightarrow> cmp y x \<noteq> 0" and "hits t h x cmp \<noteq> {#}"
  then obtain e where "e \<in># hits t h x cmp" by blast
  then have e: "e \<in># ht_live t" "he_hash e = h" "cmp (he_data e) x = 0" by (auto simp: hits_def)
  have "e = \<lparr>he_hash = h, he_data = he_data e\<rparr>" using e(2) by (cases e) simp
  then have "ht_holds t h (he_data e)" using e(1) by (simp add: ht_holds_def)
  then show False using no e(3) by blast
qed

lemma hits_some: "e \<in># hits t h x cmp \<Longrightarrow> ht_holds t h (he_data e) \<and> cmp (he_data e) x = 0"
  by (cases e) (auto simp: hits_def ht_holds_def)

lemma mz_lookup_found:
  assumes "ht_inv t" "item_ok x" "ht_holds t h y" "cmp y x = 0"
  shows "\<exists>z. ht_holds t h z \<and> cmp z x = 0 \<and> mzHashTableLookup t h x cmp a True = Some (z, t)"
proof -
  have "\<lparr>he_hash = h, he_data = y\<rparr> \<in># hits t h x cmp" using assms(3,4) by (simp add: hits_def ht_holds_def)
  then obtain e where "e \<in># hits t h x cmp" "mzHashTableLookup t h x cmp a True = Some (he_data e, t)"
    using lookup_present [OF assms(1,2)] by blast
  then show ?thesis using hits_some by blast
qed

lemma mz_lookup_adds:
  assumes "ht_inv t" "item_ok x" "ht_size t \<le> 2 ^ 28" "\<And>y. ht_holds t h y \<Longrightarrow> cmp y x \<noteq> 0"
  shows "\<exists>t'. mzHashTableLookup t h x cmp True True = Some (x, t') \<and> ht_inv t'
     \<and> (\<forall>h' y. ht_holds t' h' y \<longleftrightarrow> ht_holds t h' y \<or> h' = h \<and> y = x)"
  using lookup_add [OF assms(1,2) hits_none [of t h cmp x] assms(3)] assms(4)
  by (auto simp: ht_holds_def)

lemma mz_remove_found:
  assumes "ht_inv t" "item_ok x" "ht_holds t h x" "\<And>h'. ht_holds t h' x \<Longrightarrow> h' = h"
  shows "\<exists>t'. mzHashTableRemove t h x = Some (True, t') \<and> ht_inv t'
     \<and> (\<forall>h' y. y \<noteq> x \<longrightarrow> ht_holds t' h' y \<longleftrightarrow> ht_holds t h' y)"
proof -
  obtain t' y where r: "mzHashTableRemove t h x = Some (True, t')" "ht_inv t'"
    and y: "y \<in># ht_live t" "he_data y = x" "ht_live t' = ht_live t - {#y#}"
    using remove_present [OF assms(1,2) assms(3) [unfolded ht_holds_def]] by blast
  have "\<lparr>he_hash = h', he_data = z\<rparr> \<noteq> y" if "z \<noteq> x" for h' z using y(2) that by auto
  then have "\<forall>h' z. z \<noteq> x \<longrightarrow> ht_holds t' h' z \<longleftrightarrow> ht_holds t h' z"
    by (simp add: ht_holds_def y(3) in_diff_count not_in_iff) (metis count_greater_zero_iff)
  then show ?thesis using r by blast
qed

interpretation mz: item_table ht_inv item_ok "\<lambda>t. ht_size t \<le> 2 ^ 28" ht_holds "\<lambda>y x. cmp y x = 0"
    NULL "\<lambda>t h x a. mzHashTableLookup t h x cmp a True" mzHashTableRemove
  for cmp :: "ptr \<Rightarrow> ptr \<Rightarrow> int"
proof (unfold_locales, goal_cases)
  case (1 t h x)
  then show ?case by (auto simp: ht_holds_def ht_live_def live_of_def is_live_def item_ok_def)
next
  case 2
  show ?case by (simp add: item_ok_def)
next
  case (3 t x h y a)
  then show ?case by (rule mz_lookup_found)
next
  case (4 t x h)
  then show ?case by (intro lookup_absent hits_none)
next
  case (5 t x h)
  then show ?case by (intro mz_lookup_adds)
next
  case (6 t x h)
  then show ?case by (intro mz_remove_found)
qed

subsection \<open>Properties\<close>

text \<open>(C22) Looking up without adding always returns and leaves the table as it is. When some stored item of that hash
  compares equal, the result is such an item: the one in the first slot of the walk from the hash's home slot that
  holds one. Otherwise the result is the null pointer.\<close>

theorem mz_lookup_spec:
  assumes "ht_inv t" and "item_ok x"
  shows "\<exists>r. mzHashTableLookup t h x cmp False True = Some (r, t)
     \<and> (if \<exists>y. ht_holds t h y \<and> cmp y x = 0
         then r \<noteq> NULL \<and> ht_holds t h r \<and> cmp r x = 0
           \<and> (\<exists>d < length (ht_entries t). ht_entries t ! probe_slot t h d = \<lparr>he_hash = h, he_data = r\<rparr>
                \<and> (\<forall>e < d. \<not> lookup_hit h x cmp (ht_entries t ! probe_slot t h e)))
         else r = NULL)"
proof (cases "\<exists>y. ht_holds t h y \<and> cmp y x = 0")
  case True
  then obtain y where "\<lparr>he_hash = h, he_data = y\<rparr> \<in># hits t h x cmp" by (auto simp: hits_def ht_holds_def)
  from lookup_first [OF assms this] obtain d where d: "d < length (ht_entries t)" "ht_entries t ! probe_slot t h d \<in># hits t h x cmp"
    "\<forall>e < d. \<not> lookup_hit h x cmp (ht_entries t ! probe_slot t h e)"
    "mzHashTableLookup t h x cmp False True = Some (he_data (ht_entries t ! probe_slot t h d), t)" by metis
  define e where "e = ht_entries t ! probe_slot t h d"
  have "ht_holds t h (he_data e)" "cmp (he_data e) x = 0" using hits_some d(2) unfolding e_def by blast+
  moreover have "e = \<lparr>he_hash = h, he_data = he_data e\<rparr>" using d(2) by (cases e) (auto simp: hits_def simp flip: e_def)
  moreover have "he_data e \<noteq> NULL" using d(2) by (auto simp: hits_def ht_live_def live_of_def is_live_def simp flip: e_def)
  ultimately show ?thesis using True d(1,3,4) unfolding e_def by auto
next
  case False
  then show ?thesis using mz.lookup_null_iff [OF assms, where cmp = cmp] by metis
qed

text \<open>A table of two slots for the witnesses: item \<open>5\<close> under hash \<open>3\<close>.\<close>

definition two_slots :: HashTable where
  "two_slots = \<lparr>ht_size = 2, ht_num = 1, ht_dead = 0,
     ht_entries = [\<lparr>he_hash = 0, he_data = 0\<rparr>, \<lparr>he_hash = 3, he_data = 5\<rparr>], ht_free = 0\<rparr>"

definition same_item :: "ptr \<Rightarrow> ptr \<Rightarrow> int" where
  "same_item a b = sint (a - b)"

lemma two_slots_inv: "ht_inv two_slots"
proof -
  let ?es = "ht_entries two_slots"
  have ex: "\<exists>k \<le> 30. (2 :: int) = 2 ^ k" by (intro exI [of _ 1]) simp
  have l: "length ?es = 2" by (simp add: two_slots_def)
  have h: "home ?es 3 = 1" by (simp only: home_def l) simp
  have s: "?es ! 0 = \<lparr>he_hash = 0, he_data = 0\<rparr>" "?es ! 1 = \<lparr>he_hash = 3, he_data = 5\<rparr>"
    by (simp_all add: two_slots_def)
  have "chains ?es"
    unfolding chains_def l
  proof (intro allI impI)
    fix j :: nat
    assume "j < 2" "is_live (?es ! j)"
    then have "j = 1" using s by (cases "j = 0") (auto simp: is_live_def)
    then show "\<exists>d < 2. j = (home ?es (he_hash (?es ! j)) + d) mod 2
        \<and> (\<forall>e < d. he_data (?es ! ((home ?es (he_hash (?es ! j)) + e) mod 2)) \<noteq> NULL)"
      using s h by (intro exI [of _ 0]) simp
  qed
  then show ?thesis
    using ex by (simp add: ht_inv_def) (simp add: two_slots_def live_of_def tombs_of_def is_live_def is_tomb_def HASH_TOMBSTONE_def)
qed

lemma two_slots_holds: "ht_holds two_slots h y \<longleftrightarrow> h = 3 \<and> y = 5"
  by (auto simp: ht_holds_def ht_live_def two_slots_def live_of_def is_live_def HASH_TOMBSTONE_def)

theorem mz_lookup_spec_witness:
  "mzHashTableLookup two_slots 3 5 same_item False True = Some (5, two_slots)
    \<and> mzHashTableLookup two_slots 3 9 same_item False True = Some (NULL, two_slots)"
proof -
  have i: "item_ok 5" "item_ok 9" by (simp_all add: item_ok_def HASH_TOMBSTONE_def)
  show ?thesis
    using mz_lookup_spec [OF two_slots_inv i(1), of 3 same_item] mz_lookup_spec [OF two_slots_inv i(2), of 3 same_item]
    by (auto simp: two_slots_holds same_item_def)
qed

text \<open>(C11) Adding an item with no equal in a table of at most \<open>2 ^ 28\<close> slots returns that item,
  keeps the table well formed (load at most five eighths, chains unbroken) through a possible
  resize, stores exactly one entry more, and at most doubles the size.\<close>

theorem mz_add_spec:
  assumes "ht_inv t" and "item_ok x" and "ht_size t \<le> 2 ^ 28"
    and "\<forall>y. ht_holds t h y \<longrightarrow> cmp y x \<noteq> 0"
  shows "\<exists>t'. mzHashTableLookup t h x cmp True True = Some (x, t') \<and> ht_inv t'
     \<and> ht_live t' = add_mset \<lparr>he_hash = h, he_data = x\<rparr> (ht_live t)
     \<and> (ht_size t' = ht_size t \<or> ht_size t' = 2 * ht_size t)"
  using lookup_add [OF assms(1,2) hits_none [of t h cmp x] assms(3)] assms(4) by blast

theorem mz_add_spec_witness:
  "\<exists>t'. mzHashTableLookup two_slots 7 9 same_item True True = Some (9, t') \<and> ht_inv t'
     \<and> ht_live t' = add_mset \<lparr>he_hash = 7, he_data = 9\<rparr> (ht_live two_slots)"
proof -
  have "item_ok 9" by (simp add: item_ok_def HASH_TOMBSTONE_def)
  moreover have "ht_size two_slots \<le> 2 ^ 28" by (simp add: two_slots_def)
  moreover have "\<forall>y. ht_holds two_slots 7 y \<longrightarrow> same_item y 9 \<noteq> 0" by (simp add: two_slots_holds)
  ultimately show ?thesis using mz_add_spec [OF two_slots_inv] by blast
qed

text \<open>(C21) Whatever is added is found: after an item was added, looking up anything that compares
  equal to it (and to nothing stored before) returns the item.\<close>

theorem mz_find_after_add:
  assumes "ht_inv t" and "item_ok x" and "ht_size t \<le> 2 ^ 28"
    and "\<And>y. ht_holds t h y \<Longrightarrow> cmp y x \<noteq> 0"
    and "item_ok k" and "cmp x k = 0" and "\<And>y. ht_holds t h y \<Longrightarrow> cmp y k \<noteq> 0"
  shows "\<exists>t'. mzHashTableLookup t h x cmp True True = Some (x, t') \<and> ht_inv t'
     \<and> mzHashTableLookup t' h k cmp doAdd True = Some (x, t')"
  using mz.find_after_add [where cmp = cmp, OF assms] .

theorem mz_find_after_add_witness:
  "\<exists>t'. mzHashTableLookup two_slots 7 9 same_item True True = Some (9, t') \<and> ht_inv t'
     \<and> mzHashTableLookup t' 7 9 same_item False True = Some (9, t')"
proof (rule mz_find_after_add [OF two_slots_inv])
  show "ht_size two_slots \<le> 2 ^ 28" by (simp add: two_slots_def)
qed (simp_all add: item_ok_def HASH_TOMBSTONE_def two_slots_holds same_item_def)

text \<open>(C23) Removing a stored item returns true. It turns the first slot of the walk from the hash's home slot that holds
  the item into a tombstone, which keeps the slot's hash value and counts as dead, and changes no other slot; the
  table stays well formed and holds exactly one entry less, the one that was in that slot.\<close>

theorem mz_remove_spec:
  assumes "ht_inv t" and "item_ok x" and "ht_holds t h x"
  shows "\<exists>t' d. mzHashTableRemove t h x = Some (True, t') \<and> ht_inv t'
     \<and> d < length (ht_entries t) \<and> he_data (ht_entries t ! probe_slot t h d) = x
     \<and> (\<forall>e < d. he_data (ht_entries t ! probe_slot t h e) \<noteq> x)
     \<and> ht_entries t' ! probe_slot t h d = \<lparr>he_hash = he_hash (ht_entries t ! probe_slot t h d), he_data = HASH_TOMBSTONE\<rparr>
     \<and> (\<forall>j. j \<noteq> probe_slot t h d \<longrightarrow> ht_entries t' ! j = ht_entries t ! j) \<and> length (ht_entries t') = length (ht_entries t)
     \<and> ht_live t' = ht_live t - {#ht_entries t ! probe_slot t h d#} \<and> ht_entries t ! probe_slot t h d \<in># ht_live t
     \<and> ht_num t' = ht_num t - 1 \<and> ht_dead t' = ht_dead t + 1 \<and> ht_size t' = ht_size t"
proof -
  obtain d where d: "d < length (ht_entries t)" "he_data (ht_entries t ! probe_slot t h d) = x"
    "\<forall>e < d. he_data (ht_entries t ! probe_slot t h e) \<noteq> x" "probe_slot t h d < length (ht_entries t)"
    "is_live (ht_entries t ! probe_slot t h d)" "mzHashTableRemove t h x = Some (True, bury t (probe_slot t h d))"
    by (rule remove_first [OF assms(1,2) assms(3) [unfolded ht_holds_def]])
  have "ht_entries (bury t (probe_slot t h d)) ! probe_slot t h d
      = \<lparr>he_hash = he_hash (ht_entries t ! probe_slot t h d), he_data = HASH_TOMBSTONE\<rparr>"
    using d(4) by (cases "ht_entries t ! probe_slot t h d") (simp add: bury_def)
  then show ?thesis
    using bury_live [OF assms(1) d(4,5)] d by (intro exI [of _ "bury t (probe_slot t h d)"] exI [of _ d]) (simp add: bury_def)
qed

theorem mz_remove_spec_witness:
  "\<exists>t'. mzHashTableRemove two_slots 3 5 = Some (True, t') \<and> ht_inv t' \<and> ht_live t' = {#} \<and> ht_dead t' = 1
    \<and> he_data (ht_entries t' ! 1) = HASH_TOMBSTONE"
proof -
  have i: "item_ok 5" "ht_holds two_slots 3 5"
    by (simp_all add: item_ok_def HASH_TOMBSTONE_def two_slots_holds)
  have l: "ht_live two_slots = {#\<lparr>he_hash = 3, he_data = 5\<rparr>#}"
    by (simp add: ht_live_def two_slots_def live_of_def is_live_def HASH_TOMBSTONE_def)
  obtain t' d where r: "mzHashTableRemove two_slots 3 5 = Some (True, t')" "ht_inv t'" "d < length (ht_entries two_slots)"
    "he_data (ht_entries two_slots ! probe_slot two_slots 3 d) = 5"
    "he_data (ht_entries t' ! probe_slot two_slots 3 d) = HASH_TOMBSTONE"
    "ht_live t' = ht_live two_slots - {#ht_entries two_slots ! probe_slot two_slots 3 d#}"
    "ht_entries two_slots ! probe_slot two_slots 3 d \<in># ht_live two_slots" "ht_dead t' = ht_dead two_slots + 1"
    using mz_remove_spec [OF two_slots_inv i] by auto
  have "probe_slot two_slots 3 d = 1"
  proof -
    have "0 < length (ht_entries two_slots)" by (simp add: two_slots_def)
    then have "probe_slot two_slots 3 d < length (ht_entries two_slots)" unfolding probe_slot_def by (rule mod_less_divisor)
    then have "probe_slot two_slots 3 d < 2" by (simp add: two_slots_def)
    moreover have "he_data (ht_entries two_slots ! 0) \<noteq> 5" by (simp add: two_slots_def)
    then have "probe_slot two_slots 3 d \<noteq> 0" using r(4) by metis
    ultimately show ?thesis by linarith
  qed
  then show ?thesis using r l by (auto simp: two_slots_def)
qed

text \<open>The client's loop: one table sized with \<^verbatim>\<open>mzHashSize\<close>, then one add per item.\<close>

fun add_all :: "HashTable \<Rightarrow> (u32 \<times> ptr) list \<Rightarrow> (ptr \<Rightarrow> ptr \<Rightarrow> int) \<Rightarrow> HashTable option" where
  "add_all t [] cmpFunc = Some t"
| "add_all t ((h, x) # xs) cmpFunc =
     (case mzHashTableLookup t h x cmpFunc True True of
        None \<Rightarrow> None
      | Some (r, t) \<Rightarrow> add_all t xs cmpFunc)"

lemma add_all_size:
  assumes "ht_inv t" "ht_dead t = 0" "ht_size t \<le> 2 ^ 28"
    and "(ht_num t + int (length xs)) * 8 \<le> ht_size t * 5"
    and "\<forall>(h, x) \<in> set xs. item_ok x" "distinct (map snd xs)"
    and "\<forall>a b. a \<noteq> b \<longrightarrow> cmp a b \<noteq> 0" "\<forall>e \<in># ht_live t. he_data e \<notin> snd ` set xs"
  shows "\<exists>t'. add_all t xs cmp = Some t' \<and> ht_inv t' \<and> ht_size t' = ht_size t
     \<and> ht_live t' = ht_live t + mset (map (\<lambda>(h, x). \<lparr>he_hash = h, he_data = x\<rparr>) xs)"
  using assms
proof (induction xs arbitrary: t)
  case Nil
  then show ?case by simp
next
  case (Cons p xs)
  obtain h x where p: "p = (h, x)" by (cases p)
  have ok: "item_ok x" using Cons.prems(5) p by simp
  have none: "hits t h x cmp = {#}"
    using Cons.prems(7,8) p by (intro hits_none) (fastforce simp: ht_holds_def)
  have fit: "(ht_num t + 1 + ht_dead t) * 8 \<le> ht_size t * 5" using Cons.prems(2,4) by simp
  obtain t1 where t1: "mzHashTableLookup t h x cmp True True = Some (x, t1)" "ht_inv t1"
    "ht_live t1 = add_mset \<lparr>he_hash = h, he_data = x\<rparr> (ht_live t)" "ht_size t1 = ht_size t" "ht_dead t1 = 0"
    using lookup_add [OF Cons.prems(1) ok none Cons.prems(3)] fit Cons.prems(2) by auto
  have num: "ht_num t1 = ht_num t + 1"
    using t1(2,3) Cons.prems(1) by (simp add: ht_inv_def ht_live_def)
  have "\<exists>t'. add_all t1 xs cmp = Some t' \<and> ht_inv t' \<and> ht_size t' = ht_size t1
     \<and> ht_live t' = ht_live t1 + mset (map (\<lambda>(h, x). \<lparr>he_hash = h, he_data = x\<rparr>) xs)"
    using Cons.prems p t1 num by (intro Cons.IH) auto
  then show ?case using t1 p by auto
qed

text \<open>(C24) What \<^verbatim>\<open>Hash.h\<close> promises for \<^verbatim>\<open>mzHashSize\<close>: a table created with the capacity it computes for
  \<open>n\<close> items takes \<open>n\<close> different items without ever being reallocated, and then holds
  exactly them.\<close>

theorem mzHashSize_no_resize:
  assumes "n \<le> 2 ^ 26" and "length xs = unat n"
    and "\<forall>(h, x) \<in> set xs. item_ok x" and "distinct (map snd xs)" and "\<forall>a b. a \<noteq> b \<longrightarrow> cmp a b \<noteq> 0"
  shows "\<exists>t t'. mzHashTableCreate (mzHashSize n) f True True = Some (Some t)
     \<and> add_all t xs cmp = Some t' \<and> ht_size t' = ht_size t
     \<and> ht_live t' = mset (map (\<lambda>(h, x). \<lparr>he_hash = h, he_data = x\<rparr>) xs)"
proof -
  have un: "unat n \<le> 2 ^ 26" using assms(1) by (simp add: word_le_nat_alt)
  have "unat (n * 8) = unat n * 8"
    using un by (simp add: unat_word_ariths)
  then have "unat ((n * 8) div 5) = unat n * 8 div 5" by (simp add: unat_div)
  then have us: "unat (mzHashSize n) = unat n * 8 div 5 + 1"
    using un by (simp add: mzHashSize_def unat_word_ariths)
  then have "unat (mzHashSize n) \<le> 2 ^ 27" using un by simp
  then have b: "0 < mzHashSize n" "mzHashSize n \<le> 2 ^ 30"
    using us by (simp_all add: word_less_nat_alt word_le_nat_alt)
  obtain t where t: "mzHashTableCreate (mzHashSize n) f True True = Some (Some t)" "ht_inv t" "ht_live t = {#}"
    "ht_num t = 0" "ht_dead t = 0" "int (unat (mzHashSize n)) \<le> ht_size t"
    "ht_size t < 2 * int (unat (mzHashSize n))"
    using create_value [OF b, of f] by blast
  have "unat n * 8 \<le> unat (mzHashSize n) * 5" unfolding us by presburger
  then have "int (unat n) * 8 \<le> int (unat (mzHashSize n)) * 5" by linarith
  then have load: "(ht_num t + int (length xs)) * 8 \<le> ht_size t * 5"
    unfolding t(4) assms(2) add_0 by (rule order_trans) (use t(6) in simp)
  have "ht_size t \<le> 2 ^ 28"
  proof -
    define m where "m = unat (mzHashSize n)"
    have "m \<le> 2 ^ 27" using \<open>unat (mzHashSize n) \<le> 2 ^ 27\<close> by (simp only: m_def)
    then show ?thesis using t(7) [folded m_def] by simp
  qed
  then show ?thesis
    using add_all_size [OF t(2,5) _ load assms(3-5)] t(1,3) by auto
qed

theorem mzHashSize_no_resize_witness:
  "\<exists>t t'. mzHashTableCreate (mzHashSize 3) 0 True True = Some (Some t)
     \<and> add_all t [(1, 10), (1, 20), (9, 30)] same_item = Some t' \<and> ht_size t' = ht_size t
     \<and> ht_live t' = {#\<lparr>he_hash = 1, he_data = 10\<rparr>, \<lparr>he_hash = 1, he_data = 20\<rparr>, \<lparr>he_hash = 9, he_data = 30\<rparr>#}"
proof -
  have "same_item a b \<noteq> 0" if "a \<noteq> b" for a b
  proof
    assume "same_item a b = 0"
    then have "sint (a - b) = sint (0 :: ptr)" by (simp add: same_item_def)
    then have "a - b = 0" by (rule signed_word_eqI)
    then show False using that by simp
  qed
  then show ?thesis
    using mzHashSize_no_resize [of 3 "[(1, 10), (1, 20), (9, 30)]" same_item 0]
    by (simp add: item_ok_def HASH_TOMBSTONE_def word_le_nat_alt)
qed

text \<open>The iterator visits the stored items exactly once, in the order of the slots, and clearing
  hands exactly those, in that order, to the free function and leaves an empty table.\<close>

theorem mz_iterate_clear:
  assumes "ht_inv t"
  shows "iter_data t (mzHashIterBegin t) = map he_data (filter is_live (ht_entries t))
     \<and> ht_inv (fst (mzHashTableClear t)) \<and> ht_live (fst (mzHashTableClear t)) = {#}
     \<and> snd (mzHashTableClear t) = (if ht_free t \<noteq> NULL then iter_data t (mzHashIterBegin t) else [])"
  using clear_value [OF assms] iter_data_from [of t 0] assms
  by (simp add: ht_inv_def mzHashIterBegin_def mzHashIterNext_def)

theorem mz_iterate_clear_witness:
  "iter_data two_slots (mzHashIterBegin two_slots) = [5] \<and> snd (mzHashTableClear (two_slots\<lparr>ht_free := 1\<rparr>)) = [5]"
proof -
  have "ht_inv (two_slots\<lparr>ht_free := 1\<rparr>)" using two_slots_inv by (simp add: ht_inv_def)
  then show ?thesis
    using mz_iterate_clear [OF two_slots_inv] mz_iterate_clear [of "two_slots\<lparr>ht_free := 1\<rparr>"]
    by (simp add: two_slots_def is_live_def HASH_TOMBSTONE_def)
qed

end
