(* ===== verification/Libtar_Strings.thy ===== *)
theory Libtar_Strings
  imports Prelude
begin

section \<open>libtar: C strings and the compatibility functions\<close>

text \<open>
  C strings as memory: a string in memory is its bytes followed by a NUL, and reading past the
  memory given is the result \<open>None\<close>. First the standard functions libtar calls, then the code of
  \<^verbatim>\<open>strlcpy.c\<close>, \<^verbatim>\<open>strlcat.c\<close>, \<^verbatim>\<open>strsep.c\<close>, \<^verbatim>\<open>basename.c\<close>, \<^verbatim>\<open>dirname.c\<close> and \<^verbatim>\<open>strmode.c\<close>.
\<close>

subsection \<open>Standard string functions\<close>

abbreviation slash :: byte where "slash \<equiv> 0x2f"

definition cstr :: "byte list \<Rightarrow> byte list option" where
  "cstr mem = (if 0 \<in> set mem then Some (takeWhile (\<lambda>c. c \<noteq> 0) mem) else None)"

text \<open>\<^verbatim>\<open>strnlen\<close>, and the bytes that \<^verbatim>\<open>%.ns\<close> prints.\<close>

definition strn :: "nat \<Rightarrow> byte list \<Rightarrow> byte list" where
  "strn n mem = takeWhile (\<lambda>c. c \<noteq> 0) (take n mem)"

definition overwrite :: "byte list \<Rightarrow> byte list \<Rightarrow> byte list" where
  "overwrite dst bs = bs @ drop (length bs) dst"

text \<open>\<^verbatim>\<open>strncpy(dst, s, n)\<close>: \<open>s\<close> cut or padded with NULs to \<open>n\<close> bytes.\<close>

definition strncpy :: "byte list \<Rightarrow> byte list \<Rightarrow> nat \<Rightarrow> byte list" where
  "strncpy dst s n = overwrite dst (take n (s @ replicate n 0))"

text \<open>\<^verbatim>\<open>snprintf(dst, n, "%s", s)\<close>: \<open>s\<close> cut to \<open>n - 1\<close> bytes and a NUL.\<close>

definition snprintf_s :: "byte list \<Rightarrow> nat \<Rightarrow> byte list \<Rightarrow> byte list" where
  "snprintf_s dst n s = (if n = 0 then dst else overwrite dst (take (n - 1) s @ [0]))"

definition strlcpy_s :: "byte list \<Rightarrow> byte list \<Rightarrow> nat \<Rightarrow> byte list" where
  "strlcpy_s dst s n = snprintf_s dst n s"

text \<open>\<^verbatim>\<open>strstr\<close> and \<^verbatim>\<open>strchr\<close>: the index of the first occurrence.\<close>

fun strstr_from :: "nat \<Rightarrow> byte list \<Rightarrow> byte list \<Rightarrow> nat option" where
  "strstr_from i pat [] = (if pat = [] then Some i else None)"
| "strstr_from i pat (c # s) =
     (if take (length pat) (c # s) = pat then Some i else strstr_from (Suc i) pat s)"

definition strstr :: "byte list \<Rightarrow> byte list \<Rightarrow> nat option" where
  "strstr s pat = strstr_from 0 pat s"

fun strchr_from :: "nat \<Rightarrow> byte \<Rightarrow> byte list \<Rightarrow> nat option" where
  "strchr_from i ch [] = None"
| "strchr_from i ch (c # s) = (if c = ch then Some i else strchr_from (Suc i) ch s)"

definition strchr :: "byte list \<Rightarrow> byte \<Rightarrow> nat option" where
  "strchr s ch = strchr_from 0 ch s"

lemma takeWhile_nz: "0 \<notin> set s \<Longrightarrow> takeWhile (\<lambda>c. c \<noteq> (0 :: byte)) (s @ 0 # junk) = s"
  by (induction s) auto

lemma cstr_append [c_simps]: "0 \<notin> set s \<Longrightarrow> cstr (s @ 0 # junk) = Some s"
  by (simp add: cstr_def takeWhile_nz)

lemma length_overwrite [c_simps, simp]: "length bs \<le> length dst \<Longrightarrow> length (overwrite dst bs) = length dst"
  by (simp add: overwrite_def)

lemma length_strncpy [c_simps, simp]: "n \<le> length dst \<Longrightarrow> length (strncpy dst s n) = length dst"
  by (simp add: strncpy_def)

lemma length_snprintf_s [c_simps, simp]: "n \<le> length dst \<Longrightarrow> length (snprintf_s dst n s) = length dst"
  by (simp add: snprintf_s_def)

lemma strn_cut: "0 \<notin> set s \<Longrightarrow> length s < n \<Longrightarrow> strn n (s @ 0 # junk) = s"
proof -
  assume s: "0 \<notin> set s" "length s < n"
  then have "take n (s @ 0 # junk) = s @ 0 # take (n - length s - 1) junk"
    by (cases "n - length s") simp_all
  then show ?thesis using s by (simp add: strn_def takeWhile_nz)
qed

lemma strn_full: "0 \<notin> set s \<Longrightarrow> length s = n \<Longrightarrow> strn n (s @ junk) = s"
  by (simp add: strn_def takeWhile_eq_all_conv) (metis takeWhile_eq_all_conv)

lemma strchr_from_spec:
  "ch \<notin> set s \<Longrightarrow> strchr_from i ch (s @ ch # r) = Some (i + length s)"
  by (induction s arbitrary: i) auto

lemma strchr_first: "ch \<notin> set s \<Longrightarrow> strchr (s @ ch # r) ch = Some (length s)"
  by (simp add: strchr_def strchr_from_spec)

lemma strchr_from_none: "strchr_from i ch s = None \<longleftrightarrow> ch \<notin> set s"
  by (induction s arbitrary: i) auto

lemma strchr_none: "strchr s ch = None \<longleftrightarrow> ch \<notin> set s"
  by (simp add: strchr_def strchr_from_none)

lemma strchr_from_some:
  "strchr_from i ch s = Some j \<Longrightarrow> i \<le> j \<and> j - i < length s \<and> s ! (j - i) = ch \<and> ch \<notin> set (take (j - i) s)"
proof (induction s arbitrary: i)
  case Nil
  then show ?case by simp
next
  case (Cons c s)
  show ?case
  proof (cases "c = ch")
    case True
    then show ?thesis using Cons.prems by auto
  next
    case False
    then have IH: "Suc i \<le> j \<and> j - Suc i < length s \<and> s ! (j - Suc i) = ch \<and> ch \<notin> set (take (j - Suc i) s)"
      using Cons by simp
    then have "j - i = Suc (j - Suc i)" by (simp add: Suc_diff_Suc Suc_le_eq)
    then show ?thesis using IH False by simp
  qed
qed

lemma strchr_some:
  "strchr s ch = Some j \<Longrightarrow> j < length s \<and> s ! j = ch \<and> ch \<notin> set (take j s)"
  using strchr_from_some [of 0 ch s j] by (simp add: strchr_def)

subsection \<open>strlcpy and strlcat\<close>

text \<open>The copy loop of \<^verbatim>\<open>strlcpy\<close>; its state is the destination, the write position, the rest of
  the source and the room left.\<close>

fun strlcpy_loop :: "byte list \<Rightarrow> nat \<Rightarrow> byte list \<Rightarrow> nat \<Rightarrow> (byte list \<times> nat \<times> byte list \<times> nat) option" where
  "strlcpy_loop dst d [] n = None"
| "strlcpy_loop dst d (c # s) n =
     (if \<not> d < length dst then None
      else
        let dst = dst[d := c]
        in if c = 0 then Some (dst, d + 1, s, n)
           else if n - 1 \<noteq> 0 then strlcpy_loop dst (d + 1) s (n - 1)
           else Some (dst, d + 1, s, n - 1))"

fun skip_string :: "byte list \<Rightarrow> byte list option" where
  "skip_string [] = None"
| "skip_string (c # s) = (if c \<noteq> 0 then skip_string s else Some s)"

definition strlcpy :: "byte list \<Rightarrow> byte list \<Rightarrow> nat \<Rightarrow> (byte list \<times> nat) option" where
  "strlcpy dst src siz =
     (case (if siz \<noteq> 0 \<and> siz - 1 \<noteq> 0 then strlcpy_loop dst 0 src (siz - 1)
            else Some (dst, 0, src, siz - 1)) of
        None \<Rightarrow> None
      | Some (dst, d, s, n) \<Rightarrow>
          if n = 0 then
            (if siz \<noteq> 0 \<and> \<not> d < length dst then None
             else
               let dst = (if siz \<noteq> 0 then dst[d := 0] else dst)
               in case skip_string s of
                    None \<Rightarrow> None
                  | Some s \<Rightarrow> Some (dst, length src - length s - 1))
          else Some (dst, length src - length s - 1))"

text \<open>\<^verbatim>\<open>strlcat\<close>: find the end of \<open>dst\<close> within \<open>siz\<close>, then copy while there is room.\<close>

fun strlcat_end :: "byte list \<Rightarrow> nat \<Rightarrow> nat \<Rightarrow> nat option" where
  "strlcat_end dst d 0 = Some d"
| "strlcat_end dst d (Suc n) =
     (if \<not> d < length dst then None
      else if dst ! d \<noteq> 0 then strlcat_end dst (d + 1) n else Some d)"

fun strlcat_loop :: "byte list \<Rightarrow> nat \<Rightarrow> byte list \<Rightarrow> nat \<Rightarrow> nat \<Rightarrow> (byte list \<times> nat) option" where
  "strlcat_loop dst d [] n k = None"
| "strlcat_loop dst d (c # s) n k =
     (if c \<noteq> 0 then
        (if n \<noteq> 1 then
           (if \<not> d < length dst then None
            else strlcat_loop (dst[d := c]) (d + 1) s (n - 1) (k + 1))
         else strlcat_loop dst d s n (k + 1))
      else if \<not> d < length dst then None
      else Some (dst[d := 0], k))"

definition strlcat :: "byte list \<Rightarrow> byte list \<Rightarrow> nat \<Rightarrow> (byte list \<times> nat) option" where
  "strlcat dst src siz =
     (case strlcat_end dst 0 siz of
        None \<Rightarrow> None
      | Some dlen \<Rightarrow>
          let n = siz - dlen
          in if n = 0 then
               (case cstr src of None \<Rightarrow> None | Some s \<Rightarrow> Some (dst, dlen + length s))
             else
               (case strlcat_loop dst dlen src n 0 of
                  None \<Rightarrow> None
                | Some (dst, k) \<Rightarrow> Some (dst, dlen + k)))"

lemma overwrite_snoc: "length p < length dst \<Longrightarrow> (overwrite dst p)[length p := c] = overwrite dst (p @ [c])"
  by (auto simp: overwrite_def list_update_append Cons_nth_drop_Suc [symmetric])

lemma overwrite_Nil [simp]: "overwrite dst [] = dst"
  by (simp add: overwrite_def)

lemma strlcpy_loop_value:
  assumes "0 \<notin> set s" "0 < n" "length p + n < length dst"
  shows "strlcpy_loop (overwrite dst p) (length p) (s @ 0 # r) n =
    (if length s < n then Some (overwrite dst (p @ s @ [0]), length p + length s + 1, r, n - length s)
     else Some (overwrite dst (p @ take n s), length p + n, drop n s @ 0 # r, 0))"
  using assms
proof (induction s arbitrary: p n)
  case Nil
  then show ?case by (simp add: overwrite_snoc)
next
  case (Cons c s)
  have c: "c \<noteq> 0" "0 \<notin> set s" using Cons.prems(1) by auto
  show ?case
  proof (cases "n - 1 = 0")
    case True
    then have "n = 1" using Cons.prems(2) by simp
    then show ?thesis using c Cons.prems(3) by (simp add: overwrite_snoc)
  next
    case False
    have "strlcpy_loop (overwrite dst (p @ [c])) (length (p @ [c])) (s @ 0 # r) (n - 1) =
      (if length s < n - 1
       then Some (overwrite dst ((p @ [c]) @ s @ [0]), length (p @ [c]) + length s + 1, r, n - 1 - length s)
       else Some (overwrite dst ((p @ [c]) @ take (n - 1) s), length (p @ [c]) + (n - 1), drop (n - 1) s @ 0 # r, 0))"
      using False Cons.prems c(2) by (intro Cons.IH) auto
    moreover have "strlcpy_loop (overwrite dst p) (length p) ((c # s) @ 0 # r) n
      = strlcpy_loop (overwrite dst (p @ [c])) (length (p @ [c])) (s @ 0 # r) (n - 1)"
      using False c Cons.prems(3) by (simp add: overwrite_snoc)
    moreover have "take n (c # s) = c # take (n - 1) s" "drop n (c # s) = drop (n - 1) s"
      using False by (cases n; simp)+
    ultimately show ?thesis using False by (auto simp: less_diff_conv)
  qed
qed

lemma skip_string_value: "0 \<notin> set s \<Longrightarrow> skip_string (s @ 0 # r) = Some r"
  by (induction s) auto

lemma strlcpy_value:
  assumes s: "0 \<notin> set s" and room: "siz \<le> length dst"
  shows "strlcpy dst (s @ 0 # r) siz = Some (snprintf_s dst siz s, length s)"
proof -
  consider "siz = 0" | "siz = 1" | "1 < siz" by linarith
  then show ?thesis
  proof cases
    case 1
    then show ?thesis using s by (simp add: strlcpy_def skip_string_value snprintf_s_def)
  next
    case 2
    then have "dst \<noteq> []" using room by auto
    then have "dst[0 := 0] = overwrite dst [0]" by (cases dst) (simp_all add: overwrite_def)
    then show ?thesis using 2 s \<open>dst \<noteq> []\<close> by (simp add: strlcpy_def skip_string_value snprintf_s_def)
  next
    case 3
    have L: "strlcpy_loop dst 0 (s @ 0 # r) (siz - 1) =
      (if length s < siz - 1 then Some (overwrite dst (s @ [0]), length s + 1, r, siz - 1 - length s)
       else Some (overwrite dst (take (siz - 1) s), siz - 1, drop (siz - 1) s @ 0 # r, 0))"
      using strlcpy_loop_value [of s "siz - 1" "[]" dst r] s 3 room by simp
    show ?thesis
    proof (cases "length s < siz - 1")
      case True
      then have "\<not> siz \<le> Suc (length s)" by simp
      then show ?thesis using L 3 True by (simp add: strlcpy_def snprintf_s_def)
    next
      case False
      then have len: "length (take (siz - 1) s) = siz - 1" by simp
      have "0 \<notin> set (drop (siz - 1) s)" using s by (meson in_set_dropD)
      then have sk: "skip_string (drop (siz - 1) s @ 0 # r) = Some r" by (rule skip_string_value)
      have "(overwrite dst (take (siz - 1) s))[siz - 1 := 0] = overwrite dst (take (siz - 1) s @ [0])"
        using overwrite_snoc [of "take (siz - 1) s" dst 0] len room 3 by simp
      then show ?thesis using L False 3 sk room len by (simp add: strlcpy_def snprintf_s_def)
    qed
  qed
qed

lemma strlcat_end_value:
  "0 \<notin> set p \<Longrightarrow> strlcat_end (q @ p @ 0 # r) (length q) n = Some (length q + min n (length p))"
proof (induction p arbitrary: q n)
  case Nil
  then show ?case by (cases n) simp_all
next
  case (Cons c p)
  show ?case
  proof (cases n)
    case 0
    then show ?thesis by simp
  next
    case (Suc m)
    have "strlcat_end ((q @ [c]) @ p @ 0 # r) (length (q @ [c])) m = Some (length (q @ [c]) + min m (length p))"
      using Cons by (intro Cons.IH) auto
    then show ?thesis using Cons.prems Suc by simp
  qed
qed

lemma strlcat_loop_value:
  assumes "0 \<notin> set s" "0 < n" "length p + n \<le> length dst"
  shows "strlcat_loop (overwrite dst p) (length p) (s @ 0 # r) n k
    = Some (overwrite dst (p @ take (n - 1) s @ [0]), k + length s)"
  using assms
proof (induction s arbitrary: p n k)
  case Nil
  then show ?case by (simp add: overwrite_snoc)
next
  case (Cons c s)
  have c: "c \<noteq> 0" "0 \<notin> set s" using Cons.prems(1) by auto
  show ?case
  proof (cases "n = 1")
    case True
    have "strlcat_loop (overwrite dst p) (length p) (s @ 0 # r) 1 (k + 1)
        = Some (overwrite dst (p @ take (1 - 1) s @ [0]), k + 1 + length s)"
      using c Cons.prems True by (intro Cons.IH) auto
    then show ?thesis using True c by simp
  next
    case False
    have "strlcat_loop (overwrite dst (p @ [c])) (length (p @ [c])) (s @ 0 # r) (n - 1) (k + 1)
        = Some (overwrite dst ((p @ [c]) @ take (n - 1 - 1) s @ [0]), k + 1 + length s)"
      using c Cons.prems False by (intro Cons.IH) auto
    moreover have "take (n - 1) (c # s) = c # take (n - 1 - 1) s"
      using False Cons.prems(2) by (cases "n - 1") simp_all
    ultimately show ?thesis using False c Cons.prems(2,3) by (simp add: overwrite_snoc)
  qed
qed

lemma strlcat_value:
  assumes p: "0 \<notin> set p" and s: "0 \<notin> set s" and dst: "dst = p @ 0 # q" and room: "length p < siz" "siz \<le> length dst"
  shows "strlcat dst (s @ 0 # r) siz
    = Some (overwrite dst (p @ take (siz - length p - 1) s @ [0]), length p + length s)"
proof -
  have e: "strlcat_end dst 0 siz = Some (length p)"
    using strlcat_end_value [OF p, of "[]" q siz] room dst by (simp add: min_def)
  have o: "overwrite dst p = dst" by (simp add: dst overwrite_def)
  have "strlcat_loop (overwrite dst p) (length p) (s @ 0 # r) (siz - length p) 0
    = Some (overwrite dst (p @ take (siz - length p - 1) s @ [0]), 0 + length s)"
    using room by (intro strlcat_loop_value [OF s]) simp_all
  then show ?thesis using e o room by (simp add: strlcat_def)
qed

subsection \<open>strsep\<close>

text \<open>The string is the memory, \<^verbatim>\<open>*stringp\<close> an index into it or the null pointer; the result is the
  token's index, the new \<^verbatim>\<open>*stringp\<close> and the memory, in which the delimiter was overwritten. The
  inner loop accepts a delimiter or the NUL that ends the list of them.\<close>

function strsep_scan :: "byte list \<Rightarrow> byte list \<Rightarrow> nat \<Rightarrow> (nat option \<times> byte list) option" where
  "strsep_scan mem delim s =
     (if \<not> s < length mem then None
      else
        let c = mem ! s
        in if c \<in> set delim \<or> c = 0 then
             (if c = 0 then Some (None, mem) else Some (Some (s + 1), mem[s := 0]))
           else strsep_scan mem delim (s + 1))"
  by pat_completeness auto
termination by (relation "measure (\<lambda>(mem, delim, s). length mem - s)") auto

declare strsep_scan.simps [simp del]

definition strsep :: "byte list \<Rightarrow> nat option \<Rightarrow> byte list \<Rightarrow> (nat option \<times> nat option \<times> byte list) option" where
  "strsep mem stringp delim =
     (case stringp of
        None \<Rightarrow> Some (None, None, mem)
      | Some s \<Rightarrow>
          (case strsep_scan mem delim s of
             None \<Rightarrow> None
           | Some (s', mem') \<Rightarrow> Some (Some s, s', mem')))"

lemma strsep_scan_value:
  assumes "0 \<notin> set w" "set w \<inter> set delim = {}" "c = 0 \<or> c \<in> set delim"
  shows "strsep_scan (q @ w @ c # r) delim (length q) =
     Some (if c = 0 then None else Some (length q + length w + 1), q @ w @ 0 # r)"
  using assms(1,2)
proof (induction w arbitrary: q)
  case Nil
  then show ?case using assms(3) by (subst strsep_scan.simps) (auto simp: Let_def nth_append)
next
  case (Cons x w)
  have "strsep_scan ((q @ [x]) @ w @ c # r) delim (length (q @ [x])) =
     Some (if c = 0 then None else Some (length (q @ [x]) + length w + 1), (q @ [x]) @ w @ 0 # r)"
    using Cons by (intro Cons.IH) auto
  then show ?case using Cons.prems by (subst strsep_scan.simps) (auto simp: nth_append)
qed

subsection \<open>basename and dirname\<close>

definition MAXPATHLEN :: nat where "MAXPATHLEN = 4096"

text \<open>The backward loops over a path, as indices into it.\<close>

fun back_slashes :: "byte list \<Rightarrow> nat \<Rightarrow> nat" where
  "back_slashes path 0 = 0"
| "back_slashes path (Suc i) = (if path ! Suc i = slash then back_slashes path i else Suc i)"

fun back_name :: "byte list \<Rightarrow> nat \<Rightarrow> nat" where
  "back_name path 0 = 0"
| "back_name path (Suc i) = (if path ! i \<noteq> slash then back_name path i else Suc i)"

fun back_to_slash :: "byte list \<Rightarrow> nat \<Rightarrow> nat" where
  "back_to_slash path 0 = 0"
| "back_to_slash path (Suc i) = (if path ! Suc i \<noteq> slash then back_to_slash path i else Suc i)"

text \<open>The path is a string or the null pointer. \<open>Some None\<close> is the null pointer returned with
  \<^verbatim>\<open>ENAMETOOLONG\<close>; \<open>None\<close> the write of the NUL one past \<^verbatim>\<open>bname\<close>.\<close>

definition copy_bname :: "byte list \<Rightarrow> nat \<Rightarrow> nat \<Rightarrow> byte list option option" where
  "copy_bname path start n =
     (if n > MAXPATHLEN then Some None
      else if \<not> n < MAXPATHLEN then None
      else Some (Some (take n (drop start path))))"

definition openbsd_basename :: "byte list option \<Rightarrow> byte list option option" where
  "openbsd_basename p =
     (case p of
        None \<Rightarrow> Some (Some (str ''.''))
      | Some path \<Rightarrow>
          if path = [] then Some (Some (str ''.''))
          else
            let endp = back_slashes path (length path - 1)
            in if endp = 0 \<and> path ! endp = slash then Some (Some (str ''/''))
               else
                 let startp = back_name path endp
                 in copy_bname path startp (endp - startp + 1))"

definition openbsd_dirname :: "byte list option \<Rightarrow> byte list option option" where
  "openbsd_dirname p =
     (case p of
        None \<Rightarrow> Some (Some (str ''.''))
      | Some path \<Rightarrow>
          if path = [] then Some (Some (str ''.''))
          else
            let endp = back_slashes path (length path - 1);
                endp = back_to_slash path endp
            in if endp = 0 then Some (Some (if path ! endp = slash then str ''/'' else str ''.''))
               else
                 let endp = back_slashes path (endp - 1)
                 in copy_bname path 0 (endp + 1))"

lemma back_slashes_at:
  "\<lbrakk>i \<le> j; i = 0 \<or> path ! i \<noteq> slash; \<forall>k. i < k \<and> k \<le> j \<longrightarrow> path ! k = slash\<rbrakk>
     \<Longrightarrow> back_slashes path j = i"
  by (induction j) (auto simp: le_Suc_eq)

lemma back_name_at:
  "\<lbrakk>i \<le> j; i = 0 \<or> path ! (i - 1) = slash; \<forall>k. i \<le> k \<and> k < j \<longrightarrow> path ! k \<noteq> slash\<rbrakk>
     \<Longrightarrow> back_name path j = i"
  by (induction j) (auto simp: le_Suc_eq)

lemma back_to_slash_at:
  "\<lbrakk>i \<le> j; i = 0 \<or> path ! i = slash; \<forall>k. i < k \<and> k \<le> j \<longrightarrow> path ! k \<noteq> slash\<rbrakk>
     \<Longrightarrow> back_to_slash path j = i"
  by (induction j) (auto simp: le_Suc_eq)

text \<open>A path as its directory part, the last component and trailing slashes.\<close>

definition last_component :: "byte list \<Rightarrow> byte list \<Rightarrow> nat \<Rightarrow> byte list" where
  "last_component d b k = d @ b @ replicate k slash"

definition component_ok :: "byte list \<Rightarrow> byte list \<Rightarrow> bool" where
  "component_ok d b \<longleftrightarrow> b \<noteq> [] \<and> slash \<notin> set b \<and> (d = [] \<or> last d = slash)"

lemma last_component_nth:
  assumes "component_ok d b"
  shows "last_component d b k ! (length d + length b - 1) \<noteq> slash"
    "length d + length b - 1 < i \<and> i \<le> length (last_component d b k) - 1 \<longrightarrow> last_component d b k ! i = slash"
    "length d \<le> i \<and> i < length d + length b \<longrightarrow> last_component d b k ! i \<noteq> slash"
    "d \<noteq> [] \<longrightarrow> last_component d b k ! (length d - 1) = slash"
proof -
  have b: "b \<noteq> []" "slash \<notin> set b" "d = [] \<or> last d = slash" using assms by (simp_all add: component_ok_def)
  have in_b: "last_component d b k ! i \<noteq> slash" if "length d \<le> i" "i < length d + length b" for i
  proof -
    have "last_component d b k ! i = b ! (i - length d)"
    proof -
      have "i - length d < length b" using that by linarith
      then show ?thesis using that by (simp add: last_component_def nth_append)
    qed
    moreover have "b ! (i - length d) \<in> set b" using that by (intro nth_mem) simp
    ultimately show ?thesis using b(2) by metis
  qed
  then show "length d \<le> i \<and> i < length d + length b \<longrightarrow> last_component d b k ! i \<noteq> slash" by blast
  show "last_component d b k ! (length d + length b - 1) \<noteq> slash"
    using b(1) by (intro in_b) (cases b; simp)+
  show "length d + length b - 1 < i \<and> i \<le> length (last_component d b k) - 1 \<longrightarrow> last_component d b k ! i = slash"
    using b(1) by (cases b) (auto simp: last_component_def nth_append)
  show "d \<noteq> [] \<longrightarrow> last_component d b k ! (length d - 1) = slash"
    using b(3) by (auto simp: last_component_def nth_append last_conv_nth)
qed

lemma back_slashes_component:
  assumes "component_ok d b"
  shows "back_slashes (last_component d b k) (length (last_component d b k) - 1) = length d + length b - 1"
  by (rule back_slashes_at) (use last_component_nth [OF assms] in \<open>auto simp: last_component_def\<close>)

lemma basename_value:
  assumes "component_ok d b"
  shows "openbsd_basename (Some (last_component d b k)) =
    (if length b > 4096 then Some None else if length b = 4096 then None else Some (Some b))"
proof -
  let ?p = "last_component d b k" and ?e = "length d + length b - 1"
  have b: "b \<noteq> []" using assms by (simp add: component_ok_def)
  then have l: "0 < length b" by simp
  have "back_name ?p ?e = length d"
  proof (rule back_name_at)
    show "length d \<le> ?e" using l by linarith
    show "length d = 0 \<or> ?p ! (length d - 1) = slash" using last_component_nth(4) [OF assms, of k] by auto
    show "\<forall>i. length d \<le> i \<and> i < ?e \<longrightarrow> ?p ! i \<noteq> slash"
      using last_component_nth(3) [OF assms, of _ k] by auto
  qed
  moreover have "?e - length d + 1 = length b" using l by simp
  moreover have "take (length b) (drop (length d) ?p) = b" by (simp add: last_component_def)
  moreover have "?p \<noteq> []" using b by (simp add: last_component_def)
  ultimately show ?thesis
    using back_slashes_component [OF assms, of k] last_component_nth(1) [OF assms, of k]
    by (simp add: openbsd_basename_def Let_def copy_bname_def MAXPATHLEN_def)
qed

text \<open>The directory of \<open>x\<close>, slashes, and a last component.\<close>

lemma dirname_value:
  assumes b: "b \<noteq> []" "slash \<notin> set b" and x: "x \<noteq> []" "last x \<noteq> slash"
  shows "openbsd_dirname (Some (last_component (x @ replicate (Suc m) slash) b k)) =
    (if length x > 4096 then Some None else if length x = 4096 then None else Some (Some x))"
proof -
  let ?d = "x @ replicate (Suc m) slash"
  let ?p = "last_component ?d b k" and ?e = "length ?d + length b - 1"
  have ok: "component_ok ?d b" using b by (simp add: component_ok_def)
  note n = last_component_nth [OF ok]
  have l: "0 < length b" "0 < length x" using b x by simp_all
  have "back_to_slash ?p ?e = length ?d - 1"
  proof (rule back_to_slash_at)
    show "length ?d - 1 \<le> ?e" using l by linarith
    show "length ?d - 1 = 0 \<or> ?p ! (length ?d - 1) = slash" using n(4) [of k] by simp
    show "\<forall>i. length ?d - 1 < i \<and> i \<le> ?e \<longrightarrow> ?p ! i \<noteq> slash"
    proof (intro allI impI)
      fix i assume "length ?d - 1 < i \<and> i \<le> ?e"
      then have "length ?d \<le> i \<and> i < length ?d + length b" using l by linarith
      then show "?p ! i \<noteq> slash" using n(3) by blast
    qed
  qed
  moreover have "back_slashes ?p (length ?d - 1 - 1) = length x - 1"
  proof (rule back_slashes_at)
    have "?p ! (length x - 1) = last x" using x(1) by (simp add: last_component_def nth_append last_conv_nth)
    then show "length x - 1 = 0 \<or> ?p ! (length x - 1) \<noteq> slash" using x(2) by simp
    show "\<forall>i. length x - 1 < i \<and> i \<le> length ?d - 1 - 1 \<longrightarrow> ?p ! i = slash"
    proof (intro allI impI)
      fix i assume i: "length x - 1 < i \<and> i \<le> length ?d - 1 - 1"
      have "length ?d = length x + Suc m" by simp
      then have il: "length x \<le> i" "i < length ?d" using i l(2) by linarith+
      then have "?p ! i = ?d ! i" by (simp only: last_component_def nth_append) simp
      also have "\<dots> = replicate (Suc m) slash ! (i - length x)" using il by (simp only: nth_append) simp
      also have "\<dots> = slash" using il by (intro nth_replicate) simp
      finally show "?p ! i = slash" .
    qed
  qed simp
  moreover have "length ?d - 1 \<noteq> 0" "length x - 1 + 1 = length x" using l by simp_all
  moreover have "?p \<noteq> []" using x by (simp add: last_component_def)
  moreover have "take (length x) (drop 0 ?p) = x" by (simp add: last_component_def)
  ultimately show ?thesis
    using back_slashes_component [OF ok, of k]
    by (simp only: openbsd_dirname_def option.case Let_def copy_bname_def MAXPATHLEN_def if_False not_less)
      (simp add: not_le)
qed

subsection \<open>strmode\<close>

definition S_IFMT :: u32 where "S_IFMT = 0xF000"
definition S_IFSOCK :: u32 where "S_IFSOCK = 0xC000"
definition S_IFLNK :: u32 where "S_IFLNK = 0xA000"
definition S_IFREG :: u32 where "S_IFREG = 0x8000"
definition S_IFBLK :: u32 where "S_IFBLK = 0x6000"
definition S_IFDIR :: u32 where "S_IFDIR = 0x4000"
definition S_IFCHR :: u32 where "S_IFCHR = 0x2000"
definition S_IFIFO :: u32 where "S_IFIFO = 0x1000"

lemmas S_IF_defs = S_IFMT_def S_IFSOCK_def S_IFLNK_def S_IFREG_def S_IFBLK_def S_IFDIR_def
  S_IFCHR_def S_IFIFO_def

text \<open>The type letter; \<^verbatim>\<open>S_IFWHT\<close> is not defined on Linux.\<close>

definition mode_letter :: "u32 \<Rightarrow> byte list" where
  "mode_letter mode =
     (let f = mode AND S_IFMT
      in if f = S_IFDIR then str ''d''
         else if f = S_IFCHR then str ''c''
         else if f = S_IFBLK then str ''b''
         else if f = S_IFREG then str ''-''
         else if f = S_IFLNK then str ''l''
         else if f = S_IFSOCK then str ''s''
         else if f = S_IFIFO then str ''p''
         else str ''?'')"

text \<open>One class of permissions: read, write, and the execute bit combined with a special bit.\<close>

definition mode_class :: "u32 \<Rightarrow> u32 \<Rightarrow> u32 \<Rightarrow> u32 \<Rightarrow> u32 \<Rightarrow> string \<Rightarrow> string \<Rightarrow> byte list" where
  "mode_class mode r w x special upper lower =
     (if mode AND r \<noteq> 0 then str ''r'' else str ''-'')
     @ (if mode AND w \<noteq> 0 then str ''w'' else str ''-'')
     @ (let f = mode AND (x OR special)
        in if f = 0 then str ''-''
           else if f = x then str ''x''
           else if f = special then str upper
           else if f = x OR special then str lower
           else [])"

definition strmode :: "u32 \<Rightarrow> byte list" where
  "strmode mode =
     mode_letter mode
     @ mode_class mode 0x100 0x80 0x40 0x800 ''S'' ''s''
     @ mode_class mode 0x20 0x10 0x8 0x400 ''S'' ''s''
     @ mode_class mode 0x4 0x2 0x1 0x200 ''T'' ''t''
     @ str '' '' @ [0]"

lemma and_single: "(mode AND 2 ^ i :: u32) \<noteq> 0 \<longleftrightarrow> i < 32 \<and> bit mode i"
  by (auto simp: bit_eq_iff [of "_ :: u32"] bit_simps)

lemma and_pair:
  assumes "i < 32" "j < 32"
  shows "(mode AND (2 ^ i OR 2 ^ j) :: u32) = (if bit mode i then 2 ^ i else 0) OR (if bit mode j then 2 ^ j else 0)"
  by (rule bit_word_eqI) (use assms in \<open>auto simp: bit_simps\<close>)

lemma pair_distinct:
  assumes "i < 32" "j < 32" "i \<noteq> j"
  shows "(2 ^ i :: u32) \<noteq> 0" "(2 ^ i OR 2 ^ j :: u32) \<noteq> 0" "(2 ^ i :: u32) \<noteq> 2 ^ j"
    "(2 ^ i OR 2 ^ j :: u32) \<noteq> 2 ^ i" "(2 ^ i OR 2 ^ j :: u32) \<noteq> 2 ^ j"
  using assms by (auto simp: bit_eq_iff [of "_ :: u32"] bit_simps)

lemma mode_class_bits:
  assumes "i < 32" "j < 32" "k < 32" "l < 32" "k \<noteq> l"
  shows "mode_class mode (2 ^ i) (2 ^ j) (2 ^ k) (2 ^ l) up low =
    (if bit mode i then str ''r'' else str ''-'') @ (if bit mode j then str ''w'' else str ''-'')
    @ (if bit mode k then (if bit mode l then str low else str ''x'')
       else (if bit mode l then str up else str ''-''))"
  using assms pair_distinct [of k l] pair_distinct [of l k]
  by (simp add: mode_class_def Let_def and_single and_pair)

lemma strmode_eq:
  "strmode mode = mode_letter mode
     @ mode_class mode (2 ^ 8) (2 ^ 7) (2 ^ 6) (2 ^ 11) ''S'' ''s''
     @ mode_class mode (2 ^ 5) (2 ^ 4) (2 ^ 3) (2 ^ 10) ''S'' ''s''
     @ mode_class mode (2 ^ 2) (2 ^ 1) (2 ^ 0) (2 ^ 9) ''T'' ''t''
     @ str '' '' @ [0]"
  by (simp add: strmode_def)

lemma mode_letter_length: "\<exists>c. mode_letter mode = [c]"
  by (auto simp: mode_letter_def Let_def str_def)

subsection \<open>Properties\<close>

text \<open>\<^verbatim>\<open>strlcpy\<close> and \<^verbatim>\<open>strlcat\<close> never write past \<open>siz\<close> bytes, always leave a terminated string
  when there is room for one, and return the length the full result would have had.\<close>

theorem strl_functions:
  assumes "0 \<notin> set p" and "0 \<notin> set s" and "dst = p @ 0 # q" and "length p < siz" and "siz \<le> length dst"
  shows "strlcpy dst (s @ 0 # r) siz = Some (take (siz - 1) s @ [0] @ drop (length (take (siz - 1) s) + 1) dst, length s)
    \<and> strlcat dst (s @ 0 # r) siz
      = Some (p @ take (siz - length p - 1) s @ [0] @ drop (length (p @ take (siz - length p - 1) s) + 1) dst,
              length p + length s)"
proof -
  have "siz \<noteq> 0" using assms(4) by simp
  then show ?thesis
    using strlcpy_value [OF assms(2,5), of r] strlcat_value [OF assms(1,2,3,4,5), of r]
    by (simp add: snprintf_s_def overwrite_def)
qed

theorem strl_functions_witness:
  "strlcat [1, 2, 0, 9, 9, 9] [3, 4, 5, 0] 5 = Some ([1, 2, 3, 4, 0, 9], 5)"
proof -
  have "strlcat [1, 2, 0, 9, 9, 9] ([3, 4, 5] @ 0 # []) 5
      = Some ([1, 2] @ take (5 - length [1, 2 :: byte] - 1) [3, 4, 5] @ [0]
          @ drop (length ([1, 2 :: byte] @ take (5 - length [1, 2 :: byte] - 1) [3, 4, 5 :: byte]) + 1) [1, 2, 0, 9, 9, 9],
          length [1, 2 :: byte] + length [3, 4, 5 :: byte])"
    using strl_functions [of "[1, 2]" "[3, 4, 5]" "[1, 2, 0, 9, 9, 9]" "[9, 9, 9]" 5 "[]"] by simp
  then show ?thesis by simp
qed

text \<open>\<^verbatim>\<open>openbsd_basename\<close> returns the last component of any path, trailing slashes or not, when it
  is shorter than \<^verbatim>\<open>MAXPATHLEN\<close>; \<^verbatim>\<open>openbsd_dirname\<close> returns what stands before it. Longer
  components give the null pointer, except one of exactly \<^verbatim>\<open>MAXPATHLEN\<close> bytes, whose NUL is
  written one past the static buffer.\<close>

theorem base_dir_name:
  assumes "b \<noteq> []" and "slash \<notin> set b" and "x \<noteq> []" and "last x \<noteq> slash"
  shows "openbsd_basename (Some (x @ replicate (Suc m) slash @ b @ replicate k slash)) =
      (if length b > 4096 then Some None else if length b = 4096 then None else Some (Some b))
    \<and> openbsd_dirname (Some (x @ replicate (Suc m) slash @ b @ replicate k slash)) =
      (if length x > 4096 then Some None else if length x = 4096 then None else Some (Some x))"
proof -
  have "component_ok (x @ replicate (Suc m) slash) b" using assms by (simp add: component_ok_def)
  from basename_value [OF this, of k] dirname_value [OF assms, of m k] show ?thesis
    by (simp add: last_component_def)
qed

theorem base_dir_name_witness:
  "openbsd_basename (Some (str ''/data//app/'')) = Some (Some (str ''app''))
   \<and> openbsd_dirname (Some (str ''/data//app/'')) = Some (Some (str ''/data''))"
  using base_dir_name [of "str ''app''" "str ''/data''" 1 1] by (simp add: str_def)

text \<open>The listing of a mode shows every permission and special bit in its place.\<close>

theorem strmode_bits:
  "length (strmode m) = 12
   \<and> (strmode m ! 1 = 0x72 \<longleftrightarrow> bit m 8) \<and> (strmode m ! 2 = 0x77 \<longleftrightarrow> bit m 7)
   \<and> (strmode m ! 3 \<in> set (str ''xs'') \<longleftrightarrow> bit m 6) \<and> (strmode m ! 3 \<in> set (str ''sS'') \<longleftrightarrow> bit m 11)
   \<and> (strmode m ! 4 = 0x72 \<longleftrightarrow> bit m 5) \<and> (strmode m ! 5 = 0x77 \<longleftrightarrow> bit m 4)
   \<and> (strmode m ! 6 \<in> set (str ''xs'') \<longleftrightarrow> bit m 3) \<and> (strmode m ! 6 \<in> set (str ''sS'') \<longleftrightarrow> bit m 10)
   \<and> (strmode m ! 7 = 0x72 \<longleftrightarrow> bit m 2) \<and> (strmode m ! 8 = 0x77 \<longleftrightarrow> bit m 1)
   \<and> (strmode m ! 9 \<in> set (str ''xt'') \<longleftrightarrow> bit m 0) \<and> (strmode m ! 9 \<in> set (str ''tT'') \<longleftrightarrow> bit m 9)"
proof -
  obtain c where c: "mode_letter m = [c]" using mode_letter_length by blast
  have u: "mode_class m (2 ^ 8) (2 ^ 7) (2 ^ 6) (2 ^ 11) ''S'' ''s'' =
      [if bit m 8 then 0x72 else 0x2d, if bit m 7 then 0x77 else 0x2d,
       if bit m 6 then (if bit m 11 then 0x73 else 0x78) else (if bit m 11 then 0x53 else 0x2d)]"
    by (subst mode_class_bits) (simp_all add: str_def)
  have g: "mode_class m (2 ^ 5) (2 ^ 4) (2 ^ 3) (2 ^ 10) ''S'' ''s'' =
      [if bit m 5 then 0x72 else 0x2d, if bit m 4 then 0x77 else 0x2d,
       if bit m 3 then (if bit m 10 then 0x73 else 0x78) else (if bit m 10 then 0x53 else 0x2d)]"
    by (subst mode_class_bits) (simp_all add: str_def)
  have o: "mode_class m (2 ^ 2) (2 ^ 1) (2 ^ 0) (2 ^ 9) ''T'' ''t'' =
      [if bit m 2 then 0x72 else 0x2d, if bit m 1 then 0x77 else 0x2d,
       if bit m 0 then (if bit m 9 then 0x74 else 0x78) else (if bit m 9 then 0x54 else 0x2d)]"
    by (subst mode_class_bits) (simp_all add: str_def)
  show ?thesis
    unfolding strmode_eq c u g o by (simp add: str_def)
qed

end
