(* ===== verification/Libtar_Header.thy ===== *)
theory Libtar_Header
  imports Libtar_Strings
begin

section \<open>libtar: the tar header, encoding and decoding\<close>

text \<open>
  \<^verbatim>\<open>libtar/libtar.h\<close>, \<^verbatim>\<open>tar.h\<close>, the number and checksum routines of \<^verbatim>\<open>util.c\<close>, \<^verbatim>\<open>encode.c\<close> and
  \<^verbatim>\<open>decode.c\<close>, as built without \<^verbatim>\<open>USE_FSCRYPT\<close>. A header is the record of its fields; the code
  also reads and writes it as the 512 bytes of its block (\<open>block_of\<close>, \<open>load_block\<close>). Strings
  the header points to are the memory they occupy.
\<close>

subsection \<open>The header\<close>

definition T_BLOCKSIZE :: nat where "T_BLOCKSIZE = 512"
definition T_NAMELEN :: nat where "T_NAMELEN = 100"

record tar_header =
  th_name :: "byte list"
  th_mode :: "byte list"
  th_uid :: "byte list"
  th_gid :: "byte list"
  th_size :: "byte list"
  th_mtime :: "byte list"
  th_chksum :: "byte list"
  th_typeflag :: byte
  th_linkname :: "byte list"
  th_magic :: "byte list"
  th_version :: "byte list"
  th_uname :: "byte list"
  th_gname :: "byte list"
  th_devmajor :: "byte list"
  th_devminor :: "byte list"
  th_prefix :: "byte list"
  th_padding :: "byte list"
  gnu_longname :: "byte list option"
  gnu_longlink :: "byte list option"
  selinux_context :: "byte list option"
  has_cap_data :: bool
  cap_data :: "byte list"
  has_user_default :: bool
  has_user_cache :: bool
  has_user_code_cache :: bool

text \<open>The handle, less its function table, which is a parameter of what uses it.\<close>

record TAR =
  tar_pathname :: "byte list"
  tar_fd :: int
  tar_oflags :: int
  tar_options :: u32
  th_buf :: tar_header
  th_pathname :: "byte list option"

definition TAR_GNU :: u32 where "TAR_GNU = 1"
definition TAR_VERBOSE :: u32 where "TAR_VERBOSE = 2"
definition TAR_NOOVERWRITE :: u32 where "TAR_NOOVERWRITE = 4"
definition TAR_IGNORE_EOT :: u32 where "TAR_IGNORE_EOT = 8"
definition TAR_CHECK_MAGIC :: u32 where "TAR_CHECK_MAGIC = 16"
definition TAR_CHECK_VERSION :: u32 where "TAR_CHECK_VERSION = 32"
definition TAR_IGNORE_CRC :: u32 where "TAR_IGNORE_CRC = 64"
definition TAR_STORE_SELINUX :: u32 where "TAR_STORE_SELINUX = 128"
definition TAR_USE_NUMERIC_ID :: u32 where "TAR_USE_NUMERIC_ID = 256"
definition TAR_STORE_POSIX_CAP :: u32 where "TAR_STORE_POSIX_CAP = 1024"
definition TAR_STORE_ANDROID_USER_XATTR :: u32 where "TAR_STORE_ANDROID_USER_XATTR = 2048"

definition opt :: "TAR \<Rightarrow> u32 \<Rightarrow> bool" where
  "opt t flag \<longleftrightarrow> tar_options t AND flag \<noteq> 0"

definition REGTYPE :: byte where "REGTYPE = 0x30"
definition AREGTYPE :: byte where "AREGTYPE = 0"
definition LNKTYPE :: byte where "LNKTYPE = 0x31"
definition SYMTYPE :: byte where "SYMTYPE = 0x32"
definition CHRTYPE :: byte where "CHRTYPE = 0x33"
definition BLKTYPE :: byte where "BLKTYPE = 0x34"
definition DIRTYPE :: byte where "DIRTYPE = 0x35"
definition FIFOTYPE :: byte where "FIFOTYPE = 0x36"
definition CONTTYPE :: byte where "CONTTYPE = 0x37"
definition GNU_LONGNAME_TYPE :: byte where "GNU_LONGNAME_TYPE = 0x4C"
definition GNU_LONGLINK_TYPE :: byte where "GNU_LONGLINK_TYPE = 0x4B"
definition TH_EXT_TYPE :: byte where "TH_EXT_TYPE = 0x78"
definition TH_POL_TYPE_DO_NOT_USE :: byte where "TH_POL_TYPE_DO_NOT_USE = 0x70"

lemmas typeflag_defs = REGTYPE_def AREGTYPE_def LNKTYPE_def SYMTYPE_def CHRTYPE_def BLKTYPE_def
  DIRTYPE_def FIFOTYPE_def CONTTYPE_def GNU_LONGNAME_TYPE_def GNU_LONGLINK_TYPE_def TH_EXT_TYPE_def
  TH_POL_TYPE_DO_NOT_USE_def

text \<open>The block of a header: its first 512 bytes.\<close>

definition block_of :: "tar_header \<Rightarrow> byte list" where
  "block_of h = th_name h @ th_mode h @ th_uid h @ th_gid h @ th_size h @ th_mtime h @ th_chksum h
     @ [th_typeflag h] @ th_linkname h @ th_magic h @ th_version h @ th_uname h @ th_gname h
     @ th_devmajor h @ th_devminor h @ th_prefix h @ th_padding h"

definition load_block :: "byte list \<Rightarrow> tar_header \<Rightarrow> tar_header" where
  "load_block b h = h\<lparr>
     th_name := take 100 b, th_mode := take 8 (drop 100 b), th_uid := take 8 (drop 108 b),
     th_gid := take 8 (drop 116 b), th_size := take 12 (drop 124 b), th_mtime := take 12 (drop 136 b),
     th_chksum := take 8 (drop 148 b), th_typeflag := b ! 156, th_linkname := take 100 (drop 157 b),
     th_magic := take 6 (drop 257 b), th_version := take 2 (drop 263 b), th_uname := take 32 (drop 265 b),
     th_gname := take 32 (drop 297 b), th_devmajor := take 8 (drop 329 b), th_devminor := take 8 (drop 337 b),
     th_prefix := take 155 (drop 345 b), th_padding := take 12 (drop 500 b)\<rparr>"

definition th_wf :: "tar_header \<Rightarrow> bool" where
  "th_wf h \<longleftrightarrow> length (th_name h) = 100 \<and> length (th_mode h) = 8 \<and> length (th_uid h) = 8
     \<and> length (th_gid h) = 8 \<and> length (th_size h) = 12 \<and> length (th_mtime h) = 12
     \<and> length (th_chksum h) = 8 \<and> length (th_linkname h) = 100 \<and> length (th_magic h) = 6
     \<and> length (th_version h) = 2 \<and> length (th_uname h) = 32 \<and> length (th_gname h) = 32
     \<and> length (th_devmajor h) = 8 \<and> length (th_devminor h) = 8 \<and> length (th_prefix h) = 155
     \<and> length (th_padding h) = 12"

lemma th_wf_block: "th_wf h \<Longrightarrow> length (block_of h) = 512"
  by (simp add: th_wf_def block_of_def)

lemma load_block_wf: "length b = 512 \<Longrightarrow> th_wf (load_block b h)"
  by (simp add: th_wf_def load_block_def)

lemma load_block_of:
  assumes "th_wf h"
  shows "load_block (block_of h) g = h\<lparr>gnu_longname := gnu_longname g, gnu_longlink := gnu_longlink g,
     selinux_context := selinux_context g, has_cap_data := has_cap_data g, cap_data := cap_data g,
     has_user_default := has_user_default g, has_user_cache := has_user_cache g,
     has_user_code_cache := has_user_code_cache g\<rparr>"
  using assms by (simp add: load_block_def block_of_def th_wf_def nth_append)

lemma block_of_load:
  assumes "length b = 512"
  shows "block_of (load_block b h) = b"
proof -
  have step: "take n (drop k b) @ drop (k + n) b = drop k b" for n k
    by (metis append_take_drop_id drop_drop add.commute)
  have one: "b ! 156 # drop 157 b = drop 156 b"
    using assms Cons_nth_drop_Suc [of 156 b] by simp
  have "take 12 (drop 500 b) = drop 500 b" using assms by simp
  then have "block_of (load_block b h) = take 100 b @ take 8 (drop 100 b) @ take 8 (drop 108 b)
     @ take 8 (drop 116 b) @ take 12 (drop 124 b) @ take 12 (drop 136 b) @ take 8 (drop 148 b)
     @ b ! 156 # take 100 (drop 157 b) @ take 6 (drop 257 b) @ take 2 (drop 263 b) @ take 32 (drop 265 b)
     @ take 32 (drop 297 b) @ take 8 (drop 329 b) @ take 8 (drop 337 b) @ take 155 (drop 345 b) @ drop 500 b"
    by (simp add: block_of_def load_block_def)
  also have "\<dots> = b"
    using step [of 155 345] step [of 8 337] step [of 8 329] step [of 32 297] step [of 32 265] step [of 2 263]
      step [of 6 257] step [of 100 157] one step [of 8 148] step [of 12 136] step [of 12 124] step [of 8 116]
      step [of 8 108] step [of 8 100] append_take_drop_id [of 100 b]
    by simp
  finally show ?thesis .
qed

text \<open>\<^verbatim>\<open>memset(&th_buf, 0, sizeof(struct tar_header))\<close>\<close>

definition zero_header :: tar_header where
  "zero_header = \<lparr>th_name = replicate 100 0, th_mode = replicate 8 0, th_uid = replicate 8 0, th_gid = replicate 8 0,
     th_size = replicate 12 0, th_mtime = replicate 12 0, th_chksum = replicate 8 0, th_typeflag = 0,
     th_linkname = replicate 100 0, th_magic = replicate 6 0, th_version = replicate 2 0, th_uname = replicate 32 0,
     th_gname = replicate 32 0, th_devmajor = replicate 8 0, th_devminor = replicate 8 0, th_prefix = replicate 155 0,
     th_padding = replicate 12 0, gnu_longname = None, gnu_longlink = None, selinux_context = None,
     has_cap_data = False, cap_data = replicate 20 0, has_user_default = False, has_user_cache = False,
     has_user_code_cache = False\<rparr>"

lemma zero_header_wf [simp]: "th_wf zero_header"
  by (simp add: th_wf_def zero_header_def)

subsection \<open>Numbers\<close>

text \<open>\<^verbatim>\<open>sprintf("%0*llo", width, n)\<close>.\<close>

fun octal :: "nat \<Rightarrow> byte list" where
  "octal n = (if n < 8 then [0x30 + of_nat n] else octal (n div 8) @ [0x30 + of_nat (n mod 8)])"

declare octal.simps [simp del]

definition sprintf_0llo :: "nat \<Rightarrow> u64 \<Rightarrow> byte list" where
  "sprintf_0llo width n = (let s = octal (unat n) in replicate (width - length s) 0x30 @ s)"

definition int_to_oct :: "u64 \<Rightarrow> nat \<Rightarrow> byte list" where
  "int_to_oct num octlen =
     (let tmp = sprintf_0llo octlen num;
          olen = length tmp
      in take octlen (drop (olen - octlen + 1) (tmp @ [0])))"

text \<open>The loop that stores the eight bytes of \<open>num\<close> from the end of the field.\<close>

definition int_to_oct_ex :: "u64 \<Rightarrow> nat \<Rightarrow> byte list" where
  "int_to_oct_ex num octlen =
     (if sint num < 0 \<or> sint num \<ge> 2 ^ ((octlen - 1) * 3) then
        (let oct = replicate octlen 0;
             (oct, num) = foldl (\<lambda>(oct, num) i. (oct[octlen - 1 - i := ucast (num AND 0xff)], signed_drop_bit 8 num))
                            (oct, num) [0..<8];
             oct = (if sint num < 0 then foldl (\<lambda>oct i. oct[octlen - 1 - i := 0xff]) oct [8..<octlen] else oct)
         in oct[0 := oct ! 0 OR 0x80])
      else int_to_oct num octlen)"

text \<open>\<^verbatim>\<open>sscanf(s, "%llo", &val)\<close>: white space, a sign, octal digits; \<open>None\<close> when there is no digit. A number
  out of range is \<^verbatim>\<open>ULLONG_MAX\<close>, whatever its sign.
  The code hands it the field's address, so it reads on into what follows the field.\<close>

definition c_isspace :: "byte \<Rightarrow> bool" where
  "c_isspace c \<longleftrightarrow> c = 0x20 \<or> 9 \<le> c \<and> c \<le> 13"

definition is_oct :: "byte \<Rightarrow> bool" where
  "is_oct c \<longleftrightarrow> 0x30 \<le> c \<and> c \<le> 0x37"

definition oct_val :: "byte list \<Rightarrow> nat" where
  "oct_val ds = foldl (\<lambda>v d. 8 * v + (unat d - 0x30)) 0 ds"

definition sscanf_llo :: "byte list \<Rightarrow> u64 option" where
  "sscanf_llo mem =
     (let s = dropWhile c_isspace mem;
          neg = (s \<noteq> [] \<and> hd s = 0x2d);
          s = (if s \<noteq> [] \<and> (hd s = 0x2d \<or> hd s = 0x2b) then tl s else s);
          ds = takeWhile is_oct s
      in if ds = [] then None
         else
           let n = oct_val ds
           in Some (if n \<ge> 2 ^ 64 then - 1 else if neg then - of_nat n else of_nat n))"

definition oct_to_int :: "byte list \<Rightarrow> u64" where
  "oct_to_int mem = (case sscanf_llo mem of Some val \<Rightarrow> val | None \<Rightarrow> 0)"

definition oct_to_int_ex :: "byte list \<Rightarrow> nat \<Rightarrow> u64" where
  "oct_to_int_ex mem octlen =
     (if mem ! 0 AND 0x80 \<noteq> 0 then
        (let tmp = (take octlen mem)[0 := mem ! 0 AND 0x7f]
         in foldl (\<lambda>val b. push_bit 8 val OR ucast b) 0 (take 8 (drop (octlen - 8) tmp)))
      else oct_to_int mem)"

text \<open>What the numeric fields are followed by in memory.\<close>

definition field_mem :: "nat \<Rightarrow> tar_header \<Rightarrow> byte list" where
  "field_mem off h = drop off (block_of h)"

definition th_get_crc :: "tar_header \<Rightarrow> u64" where "th_get_crc h = oct_to_int (field_mem 148 h)"
definition th_get_size :: "tar_header \<Rightarrow> u64" where "th_get_size h = oct_to_int_ex (field_mem 124 h) 12"
definition th_get_mtime :: "tar_header \<Rightarrow> u64" where "th_get_mtime h = oct_to_int_ex (field_mem 136 h) 12"
definition th_get_devmajor :: "tar_header \<Rightarrow> u64" where "th_get_devmajor h = oct_to_int (field_mem 329 h)"
definition th_get_devminor :: "tar_header \<Rightarrow> u64" where "th_get_devminor h = oct_to_int (field_mem 337 h)"

definition th_crc_calc :: "tar_header \<Rightarrow> int" where
  "th_crc_calc h =
     (let sum = foldl (\<lambda>sum i. sum + uint (block_of h ! i)) 0 [0..<512]
      in foldl (\<lambda>sum i. sum + (32 - uint (th_chksum h ! i))) sum [0..<8])"

definition th_signed_crc_calc :: "tar_header \<Rightarrow> int" where
  "th_signed_crc_calc h =
     (let sum = foldl (\<lambda>sum i. sum + sint (block_of h ! i)) 0 [0..<512]
      in foldl (\<lambda>sum i. sum + (32 - sint (th_chksum h ! i))) sum [0..<8])"

definition th_crc_ok :: "tar_header \<Rightarrow> bool" where
  "th_crc_ok h \<longleftrightarrow> sint (th_get_crc h) = th_crc_calc h \<or> sint (th_get_crc h) = th_signed_crc_calc h"

subsection \<open>Types of members\<close>

definition S_ISLNK :: "u32 \<Rightarrow> bool" where "S_ISLNK m \<longleftrightarrow> m AND S_IFMT = S_IFLNK"
definition S_ISREG :: "u32 \<Rightarrow> bool" where "S_ISREG m \<longleftrightarrow> m AND S_IFMT = S_IFREG"
definition S_ISDIR :: "u32 \<Rightarrow> bool" where "S_ISDIR m \<longleftrightarrow> m AND S_IFMT = S_IFDIR"
definition S_ISCHR :: "u32 \<Rightarrow> bool" where "S_ISCHR m \<longleftrightarrow> m AND S_IFMT = S_IFCHR"
definition S_ISBLK :: "u32 \<Rightarrow> bool" where "S_ISBLK m \<longleftrightarrow> m AND S_IFMT = S_IFBLK"
definition S_ISFIFO :: "u32 \<Rightarrow> bool" where "S_ISFIFO m \<longleftrightarrow> m AND S_IFMT = S_IFIFO"
definition S_ISSOCK :: "u32 \<Rightarrow> bool" where "S_ISSOCK m \<longleftrightarrow> m AND S_IFMT = S_IFSOCK"

lemmas S_IS_defs = S_ISLNK_def S_ISREG_def S_ISDIR_def S_ISCHR_def S_ISBLK_def S_ISFIFO_def S_ISSOCK_def

definition th_mode_field :: "tar_header \<Rightarrow> u32" where
  "th_mode_field h = ucast (oct_to_int (field_mem 100 h))"

definition TH_ISREG :: "tar_header \<Rightarrow> bool" where
  "TH_ISREG h \<longleftrightarrow> th_typeflag h = REGTYPE \<or> th_typeflag h = AREGTYPE \<or> th_typeflag h = CONTTYPE
     \<or> S_ISREG (th_mode_field h) \<and> th_typeflag h \<noteq> LNKTYPE"

definition TH_ISLNK :: "tar_header \<Rightarrow> bool" where "TH_ISLNK h \<longleftrightarrow> th_typeflag h = LNKTYPE"
definition TH_ISSYM :: "tar_header \<Rightarrow> bool" where
  "TH_ISSYM h \<longleftrightarrow> th_typeflag h = SYMTYPE \<or> S_ISLNK (th_mode_field h)"
definition TH_ISCHR :: "tar_header \<Rightarrow> bool" where
  "TH_ISCHR h \<longleftrightarrow> th_typeflag h = CHRTYPE \<or> S_ISCHR (th_mode_field h)"
definition TH_ISBLK :: "tar_header \<Rightarrow> bool" where
  "TH_ISBLK h \<longleftrightarrow> th_typeflag h = BLKTYPE \<or> S_ISBLK (th_mode_field h)"

definition TH_ISDIR :: "tar_header \<Rightarrow> bool" where
  "TH_ISDIR h \<longleftrightarrow> th_typeflag h = DIRTYPE \<or> S_ISDIR (th_mode_field h)
     \<or> th_typeflag h = AREGTYPE \<and> length (strn T_NAMELEN (th_name h)) \<noteq> 0
        \<and> th_name h ! (length (strn T_NAMELEN (th_name h)) - 1) = slash"

definition TH_ISFIFO :: "tar_header \<Rightarrow> bool" where
  "TH_ISFIFO h \<longleftrightarrow> th_typeflag h = FIFOTYPE \<or> S_ISFIFO (th_mode_field h)"
definition TH_ISLONGNAME :: "tar_header \<Rightarrow> bool" where "TH_ISLONGNAME h \<longleftrightarrow> th_typeflag h = GNU_LONGNAME_TYPE"
definition TH_ISLONGLINK :: "tar_header \<Rightarrow> bool" where "TH_ISLONGLINK h \<longleftrightarrow> th_typeflag h = GNU_LONGLINK_TYPE"
definition TH_ISEXTHEADER :: "tar_header \<Rightarrow> bool" where "TH_ISEXTHEADER h \<longleftrightarrow> th_typeflag h = TH_EXT_TYPE"
definition TH_ISPOLHEADER :: "tar_header \<Rightarrow> bool" where
  "TH_ISPOLHEADER h \<longleftrightarrow> th_typeflag h = TH_POL_TYPE_DO_NOT_USE"

subsection \<open>encode.c\<close>

definition th_set_mtime :: "tar_header \<Rightarrow> u64 \<Rightarrow> tar_header" where
  "th_set_mtime h fmtime = h\<lparr>th_mtime := int_to_oct_ex fmtime 12\<rparr>"

definition th_set_size :: "tar_header \<Rightarrow> u64 \<Rightarrow> tar_header" where
  "th_set_size h fsize = h\<lparr>th_size := int_to_oct_ex fsize 12\<rparr>"

definition th_finish :: "TAR \<Rightarrow> TAR" where
  "th_finish t =
     (let h = th_buf t;
          h = (if opt t TAR_GNU then
                 h\<lparr>th_magic := strncpy (th_magic h) (str ''ustar '') 6,
                   th_version := strncpy (th_version h) (str '' '') 2\<rparr>
               else
                 h\<lparr>th_version := strncpy (th_version h) (str ''00'') 2,
                   th_magic := strncpy (th_magic h) (str ''ustar'') 6\<rparr>)
      in t\<lparr>th_buf := h\<lparr>th_chksum := int_to_oct (of_int (th_crc_calc h)) 8\<rparr>\<rparr>)"

definition th_set_type :: "tar_header \<Rightarrow> u32 \<Rightarrow> tar_header" where
  "th_set_type h mode =
     (let h = (if S_ISLNK mode then h\<lparr>th_typeflag := SYMTYPE\<rparr> else h);
          h = (if S_ISREG mode then h\<lparr>th_typeflag := REGTYPE\<rparr> else h);
          h = (if S_ISDIR mode then h\<lparr>th_typeflag := DIRTYPE\<rparr> else h);
          h = (if S_ISCHR mode then h\<lparr>th_typeflag := CHRTYPE\<rparr> else h);
          h = (if S_ISBLK mode then h\<lparr>th_typeflag := BLKTYPE\<rparr> else h);
          h = (if S_ISFIFO mode \<or> S_ISSOCK mode then h\<lparr>th_typeflag := FIFOTYPE\<rparr> else h)
      in h)"

text \<open>\<open>None\<close>: the empty path, for which the code reads \<^verbatim>\<open>pathname[-1]\<close>. The early return on a path
  that cannot be split leaves the name as it was.\<close>

definition th_set_path :: "TAR \<Rightarrow> byte list \<Rightarrow> TAR option" where
  "th_set_path t pathname =
     (if pathname = [] then None
      else
        let h = (th_buf t)\<lparr>gnu_longname := None\<rparr>;
            suffix = (if last pathname \<noteq> slash \<and> TH_ISDIR h then [slash] else []);
            n = length pathname
        in Some (t\<lparr>th_buf :=
          (if n \<ge> T_NAMELEN \<and> opt t TAR_GNU then
             h\<lparr>gnu_longname := Some (pathname @ [0]),
               th_name := strncpy (th_name h) pathname T_NAMELEN\<rparr>
           else if n \<ge> T_NAMELEN then
             (case strchr (drop (n - T_NAMELEN) pathname) slash of
                None \<Rightarrow> h
              | Some i \<Rightarrow>
                  let p = n - T_NAMELEN + i;
                      tail_path = take T_NAMELEN (drop (p + 1) pathname @ suffix);
                      h = h\<lparr>th_name := strncpy (th_name h) tail_path T_NAMELEN\<rparr>
                  in if p \<ge> 155 then h\<lparr>th_prefix := strncpy (th_prefix h) pathname 155\<rparr>
                     else h\<lparr>th_prefix := snprintf_s (th_prefix h) (p + 1) pathname\<rparr>)
           else h\<lparr>th_name := snprintf_s (th_name h) T_NAMELEN (pathname @ suffix)\<rparr>)\<rparr>))"

definition th_set_link :: "TAR \<Rightarrow> byte list \<Rightarrow> TAR" where
  "th_set_link t linkname =
     (let h = th_buf t
      in t\<lparr>th_buf :=
        (if length linkname \<ge> T_NAMELEN \<and> opt t TAR_GNU then
           h\<lparr>gnu_longlink := Some (linkname @ [0]),
             th_linkname := overwrite (th_linkname h) (str ''././@LongLink'' @ [0])\<rparr>
         else if length linkname \<ge> T_NAMELEN then
           h\<lparr>th_linkname := strncpy (th_linkname h) linkname T_NAMELEN, gnu_longlink := None\<rparr>
         else
           h\<lparr>th_linkname := snprintf_s (th_linkname h) T_NAMELEN linkname, gnu_longlink := None\<rparr>)\<rparr>)"

text \<open>\<^verbatim>\<open>major\<close> and \<^verbatim>\<open>minor\<close> of \<^verbatim>\<open>sys/sysmacros.h\<close>.\<close>

definition dev_major :: "u64 \<Rightarrow> u32" where
  "dev_major d = ucast ((drop_bit 32 d AND 0xfffff000) OR (drop_bit 8 d AND 0xfff))"

definition dev_minor :: "u64 \<Rightarrow> u32" where
  "dev_minor d = ucast ((drop_bit 12 d AND 0xffffff00) OR (d AND 0xff))"

definition th_set_device :: "tar_header \<Rightarrow> u64 \<Rightarrow> tar_header" where
  "th_set_device h device =
     h\<lparr>th_devmajor := int_to_oct (ucast (dev_major device)) 8,
       th_devminor := int_to_oct (ucast (dev_minor device)) 8\<rparr>"

text \<open>The user database is a parameter: what \<^verbatim>\<open>getpwuid\<close> finds for a user id.\<close>

definition th_set_user :: "(u32 \<Rightarrow> byte list option) \<Rightarrow> TAR \<Rightarrow> u32 \<Rightarrow> TAR" where
  "th_set_user getpwuid t uid =
     (let h = th_buf t;
          h = (if \<not> opt t TAR_USE_NUMERIC_ID then
                 (case getpwuid uid of
                    None \<Rightarrow> h
                  | Some pw_name \<Rightarrow> h\<lparr>th_uname := strlcpy_s (th_uname h) pw_name 32\<rparr>)
               else h)
      in t\<lparr>th_buf := h\<lparr>th_uid := int_to_oct (ucast uid) 8\<rparr>\<rparr>)"

definition th_set_group :: "(u32 \<Rightarrow> byte list option) \<Rightarrow> TAR \<Rightarrow> u32 \<Rightarrow> TAR" where
  "th_set_group getgrgid t gid =
     (let h = th_buf t;
          h = (if \<not> opt t TAR_USE_NUMERIC_ID then
                 (case getgrgid gid of
                    None \<Rightarrow> h
                  | Some gr_name \<Rightarrow> h\<lparr>th_gname := strlcpy_s (th_gname h) gr_name 32\<rparr>)
               else h)
      in t\<lparr>th_buf := h\<lparr>th_gid := int_to_oct (ucast gid) 8\<rparr>\<rparr>)"

definition th_set_mode :: "tar_header \<Rightarrow> u32 \<Rightarrow> tar_header" where
  "th_set_mode h fmode =
     (let fmode = (if S_ISSOCK fmode then (fmode AND NOT S_IFSOCK) OR S_IFIFO else fmode)
      in h\<lparr>th_mode := int_to_oct (ucast fmode) 8\<rparr>)"

record stat =
  st_dev :: u64
  st_ino :: u64
  st_mode :: u32
  st_rdev :: u64
  st_uid :: u32
  st_gid :: u32
  st_mtime :: u64
  st_size :: u64

definition th_set_from_stat :: "(u32 \<Rightarrow> byte list option) \<Rightarrow> (u32 \<Rightarrow> byte list option) \<Rightarrow> TAR \<Rightarrow> stat \<Rightarrow> TAR" where
  "th_set_from_stat getpwuid getgrgid t s =
     (let t = t\<lparr>th_buf := th_set_type (th_buf t) (st_mode s)\<rparr>;
          t = (if S_ISCHR (st_mode s) \<or> S_ISBLK (st_mode s)
               then t\<lparr>th_buf := th_set_device (th_buf t) (st_rdev s)\<rparr> else t);
          t = th_set_user getpwuid t (st_uid s);
          t = th_set_group getgrgid t (st_gid s);
          t = t\<lparr>th_buf := th_set_mode (th_buf t) (st_mode s)\<rparr>;
          t = t\<lparr>th_buf := th_set_mtime (th_buf t) (st_mtime s)\<rparr>
      in if S_ISREG (st_mode s) then t\<lparr>th_buf := th_set_size (th_buf t) (st_size s)\<rparr>
         else t\<lparr>th_buf := th_set_size (th_buf t) 0\<rparr>)"

subsection \<open>decode.c\<close>

text \<open>The path of a member, as memory; \<open>mem\<close> says whether \<^verbatim>\<open>malloc\<close> succeeds, \<open>junk\<close> is what the
  new buffer holds. The result \<open>None\<close> is the null pointer.\<close>

definition th_get_pathname :: "bool \<Rightarrow> byte list \<Rightarrow> TAR \<Rightarrow> byte list option \<times> TAR" where
  "th_get_pathname mem junk t =
     (case gnu_longname (th_buf t) of
        Some n \<Rightarrow> (Some n, t)
      | None \<Rightarrow>
          if th_pathname t = None \<and> \<not> mem then (None, t)
          else
            let buf = (case th_pathname t of None \<Rightarrow> junk | Some b \<Rightarrow> b);
                h = th_buf t;
                buf = (if th_prefix h ! 0 = 0
                       then snprintf_s buf MAXPATHLEN (strn 100 (th_name h))
                       else snprintf_s buf MAXPATHLEN (strn 155 (th_prefix h) @ [slash] @ strn 100 (th_name h)))
            in (Some buf, t\<lparr>th_pathname := Some buf\<rparr>))"

definition th_get_linkname :: "tar_header \<Rightarrow> byte list" where
  "th_get_linkname h = (case gnu_longlink h of Some l \<Rightarrow> l | None \<Rightarrow> field_mem 157 h)"

text \<open>User and group ids; \<open>None\<close> is the uninitialised variable returned when the field holds no
  number.\<close>

definition th_get_uid :: "(byte list \<Rightarrow> u32 option) \<Rightarrow> TAR \<Rightarrow> u32 option" where
  "th_get_uid getpwnam t =
     (let named = (if \<not> opt t TAR_USE_NUMERIC_ID then getpwnam (strn 32 (th_uname (th_buf t))) else None)
      in case named of
           Some uid \<Rightarrow> Some uid
         | None \<Rightarrow> map_option ucast (sscanf_llo (field_mem 108 (th_buf t))))"

definition th_get_gid :: "(byte list \<Rightarrow> u32 option) \<Rightarrow> TAR \<Rightarrow> u32 option" where
  "th_get_gid getgrnam t =
     (let named = (if \<not> opt t TAR_USE_NUMERIC_ID then getgrnam (strn 32 (th_gname (th_buf t))) else None)
      in case named of
           Some gid \<Rightarrow> Some gid
         | None \<Rightarrow> map_option ucast (sscanf_llo (field_mem 116 (th_buf t))))"

text \<open>\<open>None\<close>: an old-style member with an empty name, for which the code reads \<^verbatim>\<open>name[-1]\<close>.\<close>

definition th_get_mode :: "tar_header \<Rightarrow> u32 option" where
  "th_get_mode h =
     (let mode = th_mode_field h; tf = th_typeflag h
      in if mode AND S_IFMT \<noteq> 0 then Some mode
         else if tf = SYMTYPE then Some (mode OR S_IFLNK)
         else if tf = CHRTYPE then Some (mode OR S_IFCHR)
         else if tf = BLKTYPE then Some (mode OR S_IFBLK)
         else if tf = DIRTYPE then Some (mode OR S_IFDIR)
         else if tf = FIFOTYPE then Some (mode OR S_IFIFO)
         else if tf = AREGTYPE \<and> strn T_NAMELEN (th_name h) = [] then None
         else if tf = AREGTYPE \<and> th_name h ! (length (strn T_NAMELEN (th_name h)) - 1) = slash
              then Some (mode OR S_IFDIR)
         else Some (mode OR S_IFREG))"

subsection \<open>path_hashfunc and the device and inode hashes\<close>

text \<open>The first character of the last component; \<^verbatim>\<open>char\<close> is unsigned on the ARM targets.
  \<open>None\<close>: the path does not fit the buffer, its last component does not, or the modulus is 0.\<close>

definition path_hashfunc :: "byte list \<Rightarrow> int \<Rightarrow> int option" where
  "path_hashfunc key numbuckets =
     (if \<not> length key < MAXPATHLEN \<or> numbuckets = 0 then None
      else case openbsd_basename (Some key) of
             Some (Some p) \<Rightarrow>
               Some (sint ((ucast (if p = [] then 0 else hd p) :: u32) mod (of_int numbuckets :: u32)))
           | _ \<Rightarrow> None)"

definition dev_match :: "u64 \<Rightarrow> u64 \<Rightarrow> bool" where "dev_match dev1 dev2 \<longleftrightarrow> dev1 = dev2"
definition ino_match :: "u64 \<Rightarrow> u64 \<Rightarrow> bool" where "ino_match ino1 ino2 \<longleftrightarrow> ino1 = ino2"
definition dev_hash :: "u64 \<Rightarrow> nat" where "dev_hash dev = unat (dev mod 16)"
definition ino_hash :: "u64 \<Rightarrow> nat" where "ino_hash inode = unat (inode mod 256)"

subsection \<open>Octal numbers\<close>

fun low_oct :: "nat \<Rightarrow> nat \<Rightarrow> byte list" where
  "low_oct 0 n = []"
| "low_oct (Suc k) n = low_oct k (n div 8) @ [0x30 + of_nat (n mod 8)]"

lemma length_low_oct [simp]: "length (low_oct k n) = k"
  by (induction k arbitrary: n) simp_all

lemma low_oct_0: "low_oct k 0 = replicate k 0x30"
  by (induction k) (simp_all add: replicate_append_same)

lemma octal_low_oct: "\<exists>k. k \<noteq> 0 \<and> octal n = low_oct k n \<and> n < 8 ^ k"
proof (induction n rule: octal.induct)
  case (1 n)
  show ?case
  proof (cases "n < 8")
    case True
    then show ?thesis by (intro exI [of _ 1]) (simp add: octal.simps)
  next
    case False
    then obtain k where "k \<noteq> 0" "octal (n div 8) = low_oct k (n div 8)" "n div 8 < 8 ^ k" using 1 by blast
    then show ?thesis using False by (intro exI [of _ "Suc k"]) (simp add: octal.simps [of n])
  qed
qed

lemma low_oct_split: "low_oct (j + k) n = low_oct j (n div 8 ^ k) @ low_oct k n"
  by (induction k arbitrary: n) (simp_all add: div_mult2_eq)

lemma int_to_oct_low: "int_to_oct num (Suc k) = low_oct k (unat num) @ [0]"
proof -
  obtain m where m: "m \<noteq> 0" "octal (unat num) = low_oct m (unat num)" "unat num < 8 ^ m"
    using octal_low_oct by blast
  have sp: "sprintf_0llo (Suc k) num = low_oct ((Suc k - m) + m) (unat num)"
    using m by (simp only: sprintf_0llo_def Let_def low_oct_split length_low_oct) (simp add: low_oct_0)
  define j where "j = (Suc k - m) + m - k"
  have j: "(Suc k - m) + m = j + k" "j \<noteq> 0" unfolding j_def using m(1) by linarith+
  have len: "length (sprintf_0llo (Suc k) num) - Suc k + 1 = j" unfolding sp length_low_oct j(1) using j(2) by simp
  have "int_to_oct num (Suc k) = take (Suc k) (drop j (low_oct j (unat num div 8 ^ k) @ low_oct k (unat num) @ [0]))"
    unfolding int_to_oct_def Let_def len unfolding sp j(1) low_oct_split by simp
  also have "\<dots> = low_oct k (unat num) @ [0]" by simp
  finally show ?thesis .
qed

lemma oct_digit:
  assumes "d < 8"
  shows "unat (0x30 + of_nat d :: byte) = 0x30 + d" "is_oct (0x30 + of_nat d)"
proof -
  have "unat (0x30 + of_nat d :: byte) = (unat (0x30 :: byte) + unat (of_nat d :: byte)) mod 256"
    by (simp add: unat_word_ariths)
  moreover have "unat (of_nat d :: byte) = d"
    using assms by (simp add: unsigned_of_nat take_bit_nat_eq_self)
  ultimately show u: "unat (0x30 + of_nat d :: byte) = 0x30 + d" using assms by simp
  then show "is_oct (0x30 + of_nat d)" using assms by (simp add: is_oct_def word_le_nat_alt)
qed

lemma oct_val_snoc: "oct_val (ds @ [d]) = 8 * oct_val ds + (unat d - 0x30)"
  by (simp add: oct_val_def)

lemma oct_val_low: "oct_val (low_oct k n) = n mod 8 ^ k"
proof (induction k arbitrary: n)
  case 0
  show ?case by (simp add: oct_val_def)
next
  case (Suc k)
  have "oct_val (low_oct (Suc k) n) = 8 * (n div 8 mod 8 ^ k) + n mod 8"
    using Suc oct_digit(1) [of "n mod 8"] by (simp add: oct_val_snoc)
  also have "\<dots> = n mod 8 ^ Suc k" by (simp add: mod_mult2_eq)
  finally show ?case .
qed

lemma low_oct_is_oct: "\<forall>c \<in> set (low_oct k n). is_oct c"
  by (induction k arbitrary: n) (auto simp: oct_digit(2))

lemma is_oct_not: "is_oct c \<Longrightarrow> \<not> c_isspace c \<and> c \<noteq> 0x2d \<and> c \<noteq> 0x2b \<and> c \<noteq> 0"
  by (auto simp: is_oct_def c_isspace_def word_le_nat_alt)

lemma sscanf_digits:
  assumes "ds \<noteq> []" "\<forall>c \<in> set ds. is_oct c" "\<not> is_oct e"
  shows "sscanf_llo (ds @ e # rest) = Some (if oct_val ds \<ge> 2 ^ 64 then - 1 else of_nat (oct_val ds))"
proof -
  obtain c cs where ds: "ds = c # cs" using assms(1) by (cases ds) auto
  have c: "\<not> c_isspace c" "c \<noteq> 0x2d" "c \<noteq> 0x2b" using assms(2) is_oct_not [of c] by (auto simp: ds)
  have "dropWhile c_isspace (ds @ e # rest) = ds @ e # rest" using c by (simp add: ds)
  moreover have "takeWhile is_oct (ds @ e # rest) = ds"
    using assms(2,3) by (simp add: takeWhile_append2)
  ultimately show ?thesis using c assms(1) by (simp add: sscanf_llo_def Let_def) (simp add: ds)
qed

lemma oct_to_int_low:
  assumes "0 < k" "k \<le> 21" "\<not> is_oct e"
  shows "oct_to_int (low_oct k n @ e # rest) = of_nat (n mod 8 ^ k)"
proof -
  have "(8 :: nat) ^ k \<le> 8 ^ 21" using assms(2) by (intro power_increasing) simp_all
  moreover have "n mod 8 ^ k < 8 ^ k" by simp
  ultimately have "n mod 8 ^ k < 8 ^ 21" by linarith
  then have "\<not> n mod 8 ^ k \<ge> 2 ^ 64" by simp
  moreover have "low_oct k n \<noteq> []" using assms(1) by (metis length_low_oct list.size(3) neq0_conv)
  ultimately show ?thesis
    using sscanf_digits [OF _ low_oct_is_oct assms(3), of k n rest] by (simp add: oct_to_int_def oct_val_low)
qed

lemma not_oct_0 [simp]: "\<not> is_oct 0"
  by (simp add: is_oct_def)

lemma oct_round_trip:
  assumes "0 < k" "k \<le> 21" "unat num < 8 ^ k"
  shows "oct_to_int (int_to_oct num (Suc k) @ rest) = num"
  using assms by (simp add: int_to_oct_low oct_to_int_low)

lemma oct_round_trip_mod:
  assumes "0 < k" "k \<le> 21"
  shows "oct_to_int (int_to_oct num (Suc k) @ rest) = of_nat (unat num mod 8 ^ k)"
  using assms by (simp add: int_to_oct_low oct_to_int_low)

lemma length_int_to_oct [simp]: "length (int_to_oct num (Suc k)) = Suc k"
  by (simp add: int_to_oct_low)

subsection \<open>Sizes and times beyond the octal range\<close>

text \<open>Byte \<open>i\<close> of a 64-bit number, least significant first.\<close>

definition byte_at :: "u64 \<Rightarrow> nat \<Rightarrow> byte" where
  "byte_at num i = ucast (drop_bit (8 * i) num)"

lemma byte_at_shifted:
  assumes "i < 8"
  shows "(ucast (signed_drop_bit (8 * i) num AND 0xff) :: byte) = byte_at num i"
proof (rule bit_word_eqI)
  fix n
  assume "n < LENGTH(8)"
  then have n: "n < 8" by simp
  have "signed_drop_bit (8 * i) num AND 0xff = take_bit 8 (signed_drop_bit (8 * i) num)"
    by (simp add: take_bit_eq_mask mask_eq_exp_minus_1)
  then show "bit (ucast (signed_drop_bit (8 * i) num AND 0xff) :: byte) n = bit (byte_at num i) n"
    using n assms by (auto simp: byte_at_def bit_simps)
qed

lemma binary_bytes:
  "foldl (\<lambda>(oct, num) i. (oct[12 - 1 - i := ucast (num AND 0xff)], signed_drop_bit 8 num))
     (replicate 12 0, num :: u64) [0..<8]
   = ([0, 0, 0, 0, byte_at num 7, byte_at num 6, byte_at num 5, byte_at num 4, byte_at num 3,
       byte_at num 2, byte_at num 1, byte_at num 0], signed_drop_bit 64 num)"
proof -
  have step: "foldl (\<lambda>(oct, num) i. (oct[12 - 1 - i := ucast (num AND 0xff)], signed_drop_bit 8 num))
     (replicate 12 0, num :: u64) [0..<k] = (foldl (\<lambda>oct i. oct[12 - 1 - i := byte_at num i]) (replicate 12 0) [0..<k],
       signed_drop_bit (8 * k) num)" if "k \<le> 8" for k
    using that
  proof (induction k)
    case 0
    show ?case by simp
  next
    case (Suc k)
    have "signed_drop_bit 8 (signed_drop_bit (8 * k) num) = signed_drop_bit (8 * Suc k) num"
      by (rule bit_word_eqI) (auto simp: bit_simps ac_simps)
    then show ?case using Suc by (simp add: byte_at_shifted)
  qed
  show ?thesis using step [of 8] by (simp add: numeral_eq_Suc)
qed

lemma high_bit: "(x OR 0x80) AND (0x80 :: byte) \<noteq> 0"
proof -
  have "bit ((x OR 0x80) AND (0x80 :: byte)) 7" by (simp add: bit_simps)
  then show ?thesis by auto
qed

lemma int_to_oct_ex_binary:
  assumes "sint num < 0 \<or> sint num \<ge> 2 ^ 33"
  shows "\<exists>x y z w. int_to_oct_ex num 12 = [x OR 0x80, y, z, w, byte_at num 7, byte_at num 6, byte_at num 5,
     byte_at num 4, byte_at num 3, byte_at num 2, byte_at num 1, byte_at num 0]"
proof -
  let ?l = "[0, 0, 0, 0, byte_at num 7, byte_at num 6, byte_at num 5, byte_at num 4, byte_at num 3,
       byte_at num 2, byte_at num 1, byte_at num 0]"
  have r: "int_to_oct_ex num 12 =
     (let oct = (if sint (signed_drop_bit 64 num) < 0 then foldl (\<lambda>oct i. oct[12 - 1 - i := 0xff]) ?l [8..<12] else ?l)
      in oct[0 := oct ! 0 OR 0x80])"
    unfolding int_to_oct_ex_def Let_def binary_bytes using assms by (simp del: upt_rec_numeral)
  have "[8..<12] = [8, 9, 10, 11 :: nat]" by (simp add: upt_rec)
  then have "foldl (\<lambda>oct i. oct[12 - 1 - i := 0xff]) ?l [8..<12]
     = [0xff, 0xff, 0xff, 0xff, byte_at num 7, byte_at num 6, byte_at num 5, byte_at num 4, byte_at num 3,
       byte_at num 2, byte_at num 1, byte_at num 0]" by (simp add: numeral_eq_Suc)
  then show ?thesis unfolding r Let_def by (cases "sint (signed_drop_bit 64 num) < 0") (simp only: if_True if_False nth_Cons_0 list_update.simps nat.case, blast)+
qed

lemma bytes_value:
  "foldl (\<lambda>val b. push_bit 8 val OR ucast b) 0 [byte_at num 7, byte_at num 6, byte_at num 5, byte_at num 4,
     byte_at num 3, byte_at num 2, byte_at num 1, byte_at num 0] = (num :: u64)"
proof -
  have top: "foldl (\<lambda>val b. push_bit 8 val OR ucast b) (drop_bit (8 * Suc k) num) [byte_at num k] = drop_bit (8 * k) num"
    if "k < 8" for k
  proof (rule bit_word_eqI)
    fix n
    assume n: "n < LENGTH(64)"
    show "bit (foldl (\<lambda>val b. push_bit 8 val OR ucast b) (drop_bit (8 * Suc k) num) [byte_at num k]) n
        = bit (drop_bit (8 * k) num) n"
      using n by (cases "n < 8") (auto simp: byte_at_def bit_simps ac_simps dest: bit_imp_le_length)
  qed
  have z: "drop_bit (8 * Suc 7) num = 0" by (rule bit_word_eqI) (auto simp: bit_simps dest: bit_imp_le_length)
  show ?thesis
    using top [of 7] top [of 6] top [of 5] top [of 4] top [of 3] top [of 2] top [of 1] top [of 0] z
    by (simp add: numeral_eq_Suc)
qed

lemma oct_ex_round_trip:
  "oct_to_int_ex (int_to_oct_ex num 12 @ rest) 12 = num"
proof (cases "sint num < 0 \<or> sint num \<ge> 2 ^ 33")
  case True
  obtain x y z w where e: "int_to_oct_ex num 12 = [x OR 0x80, y, z, w, byte_at num 7, byte_at num 6, byte_at num 5,
     byte_at num 4, byte_at num 3, byte_at num 2, byte_at num 1, byte_at num 0]"
    using int_to_oct_ex_binary [OF True] by blast
  show ?thesis
    unfolding e oct_to_int_ex_def using high_bit [of x] bytes_value [of num] by (simp add: numeral_eq_Suc)
next
  case False
  have s: "0 \<le> sint num" "sint num < 2 ^ 33" using False by simp_all
  then have u: "unat num < 8 ^ 11"
  proof -
    have "uint num = take_bit 64 (sint num)" using uint_sint [of num] by simp
    also have "\<dots> = sint num" using s by (intro take_bit_int_eq_self) simp_all
    finally have "uint num < 2 ^ 33" using s by simp
    then show ?thesis by (simp add: nat_less_iff flip: nat_uint_eq)
  qed
  have d: "int_to_oct_ex num 12 = int_to_oct num (Suc 11)"
    using False by (simp add: int_to_oct_ex_def)
  have f: "is_oct (low_oct 11 (unat num) ! 0)"
    using low_oct_is_oct [of 11 "unat num"] by (metis length_low_oct nth_mem zero_less_numeral)
  have b: "c AND 0x80 = 0" if "is_oct c" for c :: byte
  proof -
    have "unat c < 2 ^ 7" using that by (simp add: is_oct_def word_le_nat_alt)
    then have "take_bit 7 (unat c) = unat c" by (simp add: take_bit_nat_eq_self)
    then have "\<not> bit (unat c) 7" by (metis bit_take_bit_iff less_irrefl)
    then have "\<not> bit c 7" by (simp add: bit_unsigned_iff)
    moreover have "(0x80 :: byte) = 2 ^ 7" by simp
    ultimately have "\<not> bit (c AND 0x80) n" for n by (auto simp only: bit_and_iff bit_exp_iff)
    then show ?thesis by (intro bit_word_eqI) simp
  qed
  have "(int_to_oct_ex num 12 @ rest) ! 0 = low_oct 11 (unat num) ! 0"
    by (simp only: d int_to_oct_low) (simp add: nth_append)
  then have "(int_to_oct_ex num 12 @ rest) ! 0 AND 0x80 = 0" using b [OF f] by simp
  then have "oct_to_int_ex (int_to_oct_ex num 12 @ rest) 12 = oct_to_int (int_to_oct_ex num 12 @ rest)"
    by (simp add: oct_to_int_ex_def)
  also have "\<dots> = num" unfolding d by (rule oct_round_trip) (use u in simp_all)
  finally show ?thesis .
qed

subsection \<open>Fields in their block\<close>

lemma field_mems [c_simps]:
  assumes "th_wf h"
  shows "field_mem 100 h = th_mode h @ field_mem 108 h" "field_mem 108 h = th_uid h @ field_mem 116 h"
    "field_mem 116 h = th_gid h @ field_mem 124 h" "field_mem 124 h = th_size h @ field_mem 136 h"
    "field_mem 136 h = th_mtime h @ field_mem 148 h" "field_mem 148 h = th_chksum h @ field_mem 156 h"
    "field_mem 157 h = th_linkname h @ field_mem 257 h" "field_mem 329 h = th_devmajor h @ field_mem 337 h"
    "field_mem 337 h = th_devminor h @ field_mem 345 h"
  using assms by (simp_all add: th_wf_def field_mem_def block_of_def)

lemma length_int_to_oct_ex [simp]: "length (int_to_oct_ex num 12) = 12"
proof (cases "sint num < 0 \<or> sint num \<ge> 2 ^ 33")
  case True
  then show ?thesis using int_to_oct_ex_binary [OF True] by auto
next
  case False
  then have "int_to_oct_ex num 12 = int_to_oct num (Suc 11)" by (simp add: int_to_oct_ex_def)
  then show ?thesis by (simp only: length_int_to_oct)
qed

lemma length_int_to_oct_8 [simp]: "length (int_to_oct num 8) = 8"
  using length_int_to_oct [of num 7] by (simp del: length_int_to_oct)

lemma wf_set [intro]:
  assumes "th_wf h"
  shows "th_wf (h\<lparr>th_chksum := int_to_oct c 8\<rparr>)" "th_wf (th_set_size h n)" "th_wf (th_set_mtime h n)"
    "th_wf (h\<lparr>th_typeflag := tf\<rparr>)" "th_wf (th_set_type h m)" "th_wf (th_set_mode h m)" "th_wf (th_set_device h d)"
  using assms by (auto simp: th_wf_def th_set_size_def th_set_mtime_def th_set_type_def th_set_mode_def
      th_set_device_def Let_def)

lemma th_get_set_size: "th_wf h \<Longrightarrow> th_get_size (th_set_size h n) = n"
  using field_mems(4) [of "th_set_size h n"] wf_set(2) [of h n]
  by (simp add: th_get_size_def th_set_size_def oct_ex_round_trip)

lemma th_get_set_mtime: "th_wf h \<Longrightarrow> th_get_mtime (th_set_mtime h n) = n"
  using field_mems(5) [of "th_set_mtime h n"] wf_set(3) [of h n]
  by (simp add: th_get_mtime_def th_set_mtime_def oct_ex_round_trip)

subsection \<open>The checksum\<close>

lemma foldl_sum_nth:
  fixes f :: "'a \<Rightarrow> int"
  shows "n \<le> length xs \<Longrightarrow> foldl (\<lambda>s i. s + f (xs ! i)) a [0..<n] = a + sum_list (map f (take n xs))"
  by (induction n) (simp_all add: take_Suc_conv_app_nth)

text \<open>The fields before and after the checksum.\<close>

definition before_chksum :: "tar_header \<Rightarrow> byte list" where
  "before_chksum h = th_name h @ th_mode h @ th_uid h @ th_gid h @ th_size h @ th_mtime h"

definition after_chksum :: "tar_header \<Rightarrow> byte list" where
  "after_chksum h = [th_typeflag h] @ th_linkname h @ th_magic h @ th_version h @ th_uname h @ th_gname h
     @ th_devmajor h @ th_devminor h @ th_prefix h @ th_padding h"

lemma block_of_split: "block_of h = before_chksum h @ th_chksum h @ after_chksum h"
  by (simp add: block_of_def before_chksum_def after_chksum_def)

lemma sum_spaces:
  fixes f :: "byte \<Rightarrow> int"
  assumes "length c = 8"
  shows "foldl (\<lambda>s i. s + (32 - f (c ! i))) a [0..<8] = a + 256 - sum_list (map f c)"
proof -
  have "foldl (\<lambda>s i. s + (32 - f (c ! i))) a [0..<8] = a + sum_list (map (\<lambda>x. 32 - f x) (take 8 c))"
    using foldl_sum_nth [of 8 c "\<lambda>x. 32 - f x" a] assms by (simp del: upt_rec_numeral)
  moreover have "sum_list (map (\<lambda>x. 32 - f x) c) = 32 * int (length c) - sum_list (map f c)"
    by (induction c) auto
  ultimately show ?thesis using assms by simp
qed

lemma th_crc_calc_value:
  assumes "th_wf h"
  shows "th_crc_calc h = sum_list (map uint (before_chksum h)) + sum_list (map uint (after_chksum h)) + 256"
proof -
  have "length (block_of h) = 512" by (rule th_wf_block [OF assms])
  then have "foldl (\<lambda>sum i. sum + uint (block_of h ! i)) 0 [0..<512] = sum_list (map uint (block_of h))"
    using foldl_sum_nth [of 512 "block_of h" uint 0] by (simp del: upt_rec_numeral)
  moreover have "length (th_chksum h) = 8" using assms by (simp add: th_wf_def)
  ultimately have "th_crc_calc h = sum_list (map uint (block_of h)) + 256 - sum_list (map uint (th_chksum h))"
    unfolding th_crc_calc_def Let_def by (simp only: sum_spaces)
  then show ?thesis by (simp add: block_of_split)
qed

lemma sum_bytes_bounds: "0 \<le> sum_list (map uint bs) \<and> sum_list (map uint bs) \<le> 255 * int (length (bs :: byte list))"
proof (induction bs)
  case Nil
  show ?case by simp
next
  case (Cons b bs)
  have "uint b < 2 ^ 8" using uint_lt2p [of b] by simp
  then show ?case using Cons by simp
qed

lemma th_crc_calc_bounds: "th_wf h \<Longrightarrow> 0 \<le> th_crc_calc h \<and> th_crc_calc h < 8 ^ 7"
proof -
  assume wf: "th_wf h"
  have "length (before_chksum h) = 148" "length (after_chksum h) = 356"
    using wf by (simp_all add: th_wf_def before_chksum_def after_chksum_def)
  then show ?thesis
    using sum_bytes_bounds [of "before_chksum h"] sum_bytes_bounds [of "after_chksum h"]
    by (simp add: th_crc_calc_value [OF wf])
qed

lemma th_crc_calc_indep:
  assumes "th_wf h" "length c = 8"
  shows "th_crc_calc (h\<lparr>th_chksum := c\<rparr>) = th_crc_calc h"
proof -
  have "th_wf (h\<lparr>th_chksum := c\<rparr>)" using assms by (simp add: th_wf_def)
  then show ?thesis using assms(1) by (simp add: th_crc_calc_value before_chksum_def after_chksum_def)
qed

lemma crc_ok_written:
  assumes wf: "th_wf h"
  shows "th_crc_ok (h\<lparr>th_chksum := int_to_oct (of_int (th_crc_calc h)) 8\<rparr>)"
proof -
  let ?c = "th_crc_calc h"
  let ?h = "h\<lparr>th_chksum := int_to_oct (of_int ?c) 8\<rparr>"
  have wf': "th_wf ?h" using wf by blast
  have b: "0 \<le> ?c" "?c < 8 ^ 7" using th_crc_calc_bounds [OF wf] by simp_all
  have u: "uint (of_int ?c :: u64) = ?c"
    using b by (simp add: uint_word_of_int_eq take_bit_int_eq_self)
  have "unat (of_int ?c :: u64) < 8 ^ 7"
    using u b by (simp add: nat_less_iff flip: nat_uint_eq)
  then have "oct_to_int (int_to_oct (of_int ?c) (Suc 7) @ field_mem 156 ?h) = of_int ?c"
    by (intro oct_round_trip) simp_all
  then have "th_get_crc ?h = of_int ?c"
    using field_mems(6) [OF wf'] by (simp add: th_get_crc_def)
  moreover have "sint (of_int ?c :: u64) = ?c"
    using b by (simp add: signed_of_int signed_take_bit_int_eq_self)
  moreover have "th_crc_calc ?h = ?c" by (rule th_crc_calc_indep [OF wf]) simp
  ultimately show ?thesis by (simp add: th_crc_ok_def)
qed

lemma th_finish_crc:
  assumes "th_wf (th_buf t)"
  shows "th_wf (th_buf (th_finish t)) \<and> th_crc_ok (th_buf (th_finish t))"
proof -
  define h where "h = (if opt t TAR_GNU then
      (th_buf t)\<lparr>th_magic := strncpy (th_magic (th_buf t)) (str ''ustar '') 6,
        th_version := strncpy (th_version (th_buf t)) (str '' '') 2\<rparr>
    else (th_buf t)\<lparr>th_version := strncpy (th_version (th_buf t)) (str ''00'') 2,
        th_magic := strncpy (th_magic (th_buf t)) (str ''ustar'') 6\<rparr>)"
  have "th_wf h" using assms by (simp add: th_wf_def h_def)
  moreover have "th_buf (th_finish t) = h\<lparr>th_chksum := int_to_oct (of_int (th_crc_calc h)) 8\<rparr>"
    by (simp add: th_finish_def Let_def h_def)
  ultimately show ?thesis using crc_ok_written by auto
qed

subsection \<open>Paths\<close>

lemma strn_snprintf:
  assumes "0 \<notin> set s" "0 < n" "n \<le> m"
  shows "strn m (snprintf_s d n s) = take (n - 1) s"
proof -
  have "0 \<notin> set (take (n - 1) s)" using assms(1) by (meson in_set_takeD)
  then show ?thesis
    using assms(2,3) strn_cut [of "take (n - 1) s" m] by (simp add: snprintf_s_def overwrite_def)
qed

lemma strn_strncpy:
  assumes "0 \<notin> set s" "n \<le> m" "m = length d" "n = m"
  shows "strn m (strncpy d s n) = take n s"
proof (cases "length s < n")
  case True
  then obtain k where "n - length s = Suc k" by (cases "n - length s") auto
  then have "n - length s = Suc k" "Suc (length s + k) = n" using True by linarith+
  then have "strncpy d s n = s @ 0 # replicate k 0 @ drop n d"
    using True by (simp add: strncpy_def overwrite_def)
  then show ?thesis using strn_cut [OF assms(1)] True assms(2) by simp
next
  case False
  then have "strncpy d s n = take n s @ drop n d" by (simp add: strncpy_def overwrite_def)
  moreover have "0 \<notin> set (take n s)" "length (take n s) = m"
    using assms False by (auto dest: in_set_takeD)
  ultimately show ?thesis using strn_full by metis
qed

lemma cstr_snprintf: "0 \<notin> set s \<Longrightarrow> 0 < n \<Longrightarrow> cstr (snprintf_s d n s) = Some (take (n - 1) s)"
  using cstr_append [of "take (n - 1) s"] by (auto simp: snprintf_s_def overwrite_def dest: in_set_takeD)

lemma strn_no_nul: "0 \<notin> set (strn n mem)"
  by (auto simp: strn_def dest: set_takeWhileD)

lemma length_strn: "length (strn n mem) \<le> n"
  by (metis strn_def length_takeWhile_le length_take min.bounded_iff order_trans)

text \<open>What the decoder makes of the two name fields.\<close>

lemma th_get_pathname_value:
  assumes "gnu_longname (th_buf t) = None"
  shows "\<exists>buf t'. th_get_pathname True junk t = (Some buf, t')
    \<and> cstr buf = Some (if th_prefix (th_buf t) ! 0 = 0 then strn 100 (th_name (th_buf t))
        else strn 155 (th_prefix (th_buf t)) @ [slash] @ strn 100 (th_name (th_buf t)))"
proof -
  let ?a = "strn 100 (th_name (th_buf t))" and ?b = "strn 155 (th_prefix (th_buf t))"
  let ?buf = "case th_pathname t of None \<Rightarrow> junk | Some b \<Rightarrow> b"
  have la: "length ?a \<le> 100" "length ?b \<le> 155" by (rule length_strn)+
  have na: "0 \<notin> set ?a" "0 \<notin> set (?b @ [slash] @ ?a)" using strn_no_nul by auto
  have c: "cstr (snprintf_s ?buf MAXPATHLEN ?a) = Some ?a"
    "cstr (snprintf_s ?buf MAXPATHLEN (?b @ [slash] @ ?a)) = Some (?b @ [slash] @ ?a)"
    using cstr_snprintf [OF na(1), of MAXPATHLEN ?buf] cstr_snprintf [OF na(2), of MAXPATHLEN ?buf] la
    by (simp_all add: MAXPATHLEN_def)
  show ?thesis using assms c by (simp add: th_get_pathname_def Let_def)
qed

definition dir_suffix :: "TAR \<Rightarrow> byte list \<Rightarrow> byte list" where
  "dir_suffix t pathname =
     (if last pathname \<noteq> slash \<and> TH_ISDIR ((th_buf t)\<lparr>gnu_longname := None\<rparr>) then [slash] else [])"

lemma path_short:
  assumes wf: "th_wf (th_buf t)" and p: "p \<noteq> []" "0 \<notin> set p" "length p < 100" and pre: "th_prefix (th_buf t) ! 0 = 0"
    and s: "th_set_path t p = Some t'"
  shows "\<exists>buf t''. th_get_pathname True junk t' = (Some buf, t'') \<and> cstr buf = Some (take 99 (p @ dir_suffix t p))"
proof -
  have t': "th_buf t' = (th_buf t)\<lparr>gnu_longname := None,
      th_name := snprintf_s (th_name (th_buf t)) 100 (p @ dir_suffix t p)\<rparr>"
    using s p by (auto simp: th_set_path_def Let_def T_NAMELEN_def dir_suffix_def)
  have z: "0 \<notin> set (p @ dir_suffix t p)" using p(2) by (simp add: dir_suffix_def)
  have "strn 100 (th_name (th_buf t')) = take 99 (p @ dir_suffix t p)"
    using strn_snprintf [OF z, of 100 100] by (simp add: t')
  then show ?thesis using th_get_pathname_value [of t' junk] pre by (simp add: t')
qed

lemma path_gnu:
  assumes "p \<noteq> []" "0 \<notin> set p" "100 \<le> length p" "opt t TAR_GNU" and s: "th_set_path t p = Some t'"
  shows "\<exists>buf t''. th_get_pathname mem junk t' = (Some buf, t'') \<and> cstr buf = Some p"
proof -
  have "gnu_longname (th_buf t') = Some (p @ [0])"
    using s assms by (auto simp: th_set_path_def Let_def T_NAMELEN_def)
  then show ?thesis using cstr_append [OF assms(2), of "[]"] by (simp add: th_get_pathname_def)
qed

lemma path_posix:
  assumes wf: "th_wf (th_buf t)" and p: "0 \<notin> set (d @ slash # f)" "100 \<le> length (d @ slash # f)"
    and d: "d \<noteq> []" "length d \<le> 155" and f: "length f < 100"
    and first: "slash \<notin> set (drop (length d + length f + 1 - 100) d)"
    and ng: "\<not> opt t TAR_GNU" and s: "th_set_path t (d @ slash # f) = Some t'"
  shows "\<exists>buf t''. th_get_pathname True junk t' = (Some buf, t'')
     \<and> cstr buf = Some (d @ slash # f @ dir_suffix t (d @ slash # f))"
proof -
  define p where "p = d @ slash # f"
  define sx where "sx = dir_suffix t p"
  have n: "length p - 100 \<le> length d" using f by (simp add: p_def)
  then have dr: "drop (length p - 100) p = drop (length p - 100) d @ slash # f" by (simp add: p_def)
  have fi: "slash \<notin> set (drop (length p - 100) d)" using first by (simp add: p_def)
  have ch: "strchr (drop (length p - 100) p) slash = Some (length d - (length p - 100))"
    unfolding dr using strchr_first [OF fi] by simp
  have pos: "length p - 100 + (length d - (length p - 100)) = length d" using n by simp
  have sx: "length sx \<le> 1" "0 \<notin> set sx" by (simp_all add: sx_def dir_suffix_def)
  have sf: "(if last p \<noteq> slash \<and> TH_ISDIR ((th_buf t)\<lparr>gnu_longname := None\<rparr>) then [slash] else []) = sx"
    by (simp add: sx_def dir_suffix_def)
  have "drop (length d + 1) p = f" by (simp add: p_def)
  then have tl: "take 100 (drop (length d + 1) p @ sx) = f @ sx" using f sx by simp
  have ne: "p \<noteq> []" "100 \<le> length p" using p(2) by (simp_all add: p_def)
  have t': "th_buf t' = (let h = (th_buf t)\<lparr>gnu_longname := None, th_name := strncpy (th_name (th_buf t)) (f @ sx) 100\<rparr>
      in if length d \<ge> 155 then h\<lparr>th_prefix := strncpy (th_prefix (th_buf t)) p 155\<rparr>
         else h\<lparr>th_prefix := snprintf_s (th_prefix (th_buf t)) (length d + 1) p\<rparr>)"
  proof -
    have "th_set_path t p = Some (t\<lparr>th_buf := (let h = (th_buf t)\<lparr>gnu_longname := None\<rparr>;
          h = h\<lparr>th_name := strncpy (th_name h) (f @ sx) 100\<rparr>
        in if length d \<ge> 155 then h\<lparr>th_prefix := strncpy (th_prefix h) p 155\<rparr>
           else h\<lparr>th_prefix := snprintf_s (th_prefix h) (length d + 1) p\<rparr>)\<rparr>)"
      by (simp only: th_set_path_def Let_def T_NAMELEN_def sf ne ng ch pos tl option.case simp_thms if_True if_False)
    then show ?thesis using s [folded p_def] by (simp add: Let_def)
  qed
  have nz: "0 \<notin> set p" "0 \<notin> set (f @ sx)" using p(1) sx by (auto simp: p_def)
  have ln: "length (th_name (th_buf t)) = 100" "length (th_prefix (th_buf t)) = 155"
    using wf by (simp_all add: th_wf_def)
  have nm: "th_name (th_buf t') = strncpy (th_name (th_buf t)) (f @ sx) 100" by (simp add: t' Let_def)
  have px: "th_prefix (th_buf t') = (if length d \<ge> 155 then strncpy (th_prefix (th_buf t)) p 155
      else snprintf_s (th_prefix (th_buf t)) (length d + 1) p)" by (simp add: t' Let_def)
  have gn: "gnu_longname (th_buf t') = None" by (simp add: t' Let_def)
  have name: "strn 100 (th_name (th_buf t')) = f @ sx"
  proof -
    have "take 100 (f @ sx) = f @ sx" using f sx(1) by simp
    then show ?thesis unfolding nm by (simp only: strn_strncpy [OF nz(2) order_refl ln(1) [symmetric] refl])
  qed
  have td: "take (length d) p = d" by (simp add: p_def)
  have prefix: "strn 155 (th_prefix (th_buf t')) = d"
  proof (cases "length d \<ge> 155")
    case True
    then have "length d = 155" using d(2) by simp
    then have "take 155 p = d" using td by simp
    then show ?thesis
      unfolding px by (simp only: strn_strncpy [OF nz(1) order_refl ln(2) [symmetric] refl] True if_True)
  next
    case False
    then show ?thesis
      unfolding px using strn_snprintf [OF nz(1), of "length d + 1" 155 "th_prefix (th_buf t)"] td by simp
  qed
  have "th_prefix (th_buf t') ! 0 \<noteq> 0"
  proof
    assume z: "th_prefix (th_buf t') ! 0 = 0"
    have "strn 155 (th_prefix (th_buf t')) = []"
      using z by (cases "th_prefix (th_buf t')") (simp_all add: strn_def)
    then show False using prefix d(1) by simp
  qed
  then show ?thesis
    using th_get_pathname_value [OF gn, of junk] name prefix by (simp add: sx_def p_def)
qed

subsection \<open>Properties\<close>

text \<open>Sizes and times survive the header for every 64-bit value, negative ones and those above 8 GiB
  included, which go through the base-256 form.\<close>

theorem size_mtime_round_trip:
  assumes "th_wf h"
  shows "th_get_size (th_set_size h n) = n \<and> th_get_mtime (th_set_mtime h m) = m
    \<and> oct_to_int_ex (int_to_oct_ex n 12 @ rest) 12 = n"
  using th_get_set_size [OF assms] th_get_set_mtime [OF assms] oct_ex_round_trip by blast

definition blank_tar :: "u32 \<Rightarrow> TAR" where
  "blank_tar options = \<lparr>tar_pathname = str ''backup.tar'', tar_fd = 3, tar_oflags = 0, tar_options = options,
     th_buf = zero_header, th_pathname = None\<rparr>"

theorem size_mtime_round_trip_witness:
  "th_get_size (th_set_size zero_header 9000000000) = 9000000000
   \<and> th_get_mtime (th_set_mtime zero_header (- 5)) = - 5"
  using size_mtime_round_trip [OF zero_header_wf, of 9000000000 "- 5"] by blast

text \<open>(C26) A finished header carries a checksum that the reader accepts, and stays well formed.\<close>

theorem finished_checksum:
  assumes "th_wf (th_buf t)"
  shows "th_crc_ok (th_buf (th_finish t)) \<and> th_wf (th_buf (th_finish t))
    \<and> 0 \<le> th_crc_calc (th_buf (th_finish t)) \<and> th_crc_calc (th_buf (th_finish t)) < 8 ^ 7"
  using th_finish_crc [OF assms] th_crc_calc_bounds by blast

theorem finished_checksum_witness: "th_crc_ok (th_buf (th_finish (blank_tar TAR_GNU)))"
  using finished_checksum [of "blank_tar TAR_GNU"] by (simp add: blank_tar_def)

text \<open>(C15) The path of a member survives encoding and decoding: any path of less than 100 bytes (cut to
  99 with the slash the encoder appends to directories), and with GNU extensions any path at
  all.\<close>

theorem path_round_trip:
  assumes "th_wf (th_buf t)" and "p \<noteq> []" and "0 \<notin> set p"
    and "length p < 100 \<or> opt t TAR_GNU" and "th_prefix (th_buf t) ! 0 = 0"
  shows "\<exists>t' buf t''. th_set_path t p = Some t' \<and> th_get_pathname True junk t' = (Some buf, t'')
     \<and> cstr buf = Some (if length p < 100 then take 99 (p @ dir_suffix t p) else p)"
proof -
  obtain t' where t': "th_set_path t p = Some t'" using assms(2) by (simp add: th_set_path_def Let_def)
  show ?thesis
  proof (cases "length p < 100")
    case True
    then show ?thesis using path_short [OF assms(1-3) _ assms(5) t'] t' by auto
  next
    case False
    then show ?thesis using path_gnu [OF assms(2,3) _ _ t'] t' assms(4) by auto
  qed
qed

theorem path_round_trip_witness:
  "\<exists>t' buf t''. th_set_path (blank_tar TAR_GNU) (str ''/data/app'') = Some t'
     \<and> th_get_pathname True (replicate 4096 1) t' = (Some buf, t'') \<and> cstr buf = Some (str ''/data/app'')"
proof -
  have "\<not> TH_ISDIR zero_header" by (simp add: TH_ISDIR_def zero_header_def typeflag_defs th_mode_field_def
        field_mem_def block_of_def oct_to_int_def sscanf_llo_def is_oct_def S_ISDIR_def S_IFDIR_def strn_def c_isspace_def)
  then have "dir_suffix (blank_tar TAR_GNU) (str ''/data/app'') = []"
    by (simp add: dir_suffix_def blank_tar_def zero_header_def)
  then show ?thesis
    using path_round_trip [of "blank_tar TAR_GNU" "str ''/data/app''" "replicate 4096 1"]
    by (simp add: blank_tar_def str_def) (simp add: zero_header_def)
qed

text \<open>Without GNU extensions a longer path is split at the first slash in its last 100 bytes and
  put together again by the decoder, when the part before that slash has 1 to 155 bytes.\<close>

theorem path_split_round_trip:
  assumes "th_wf (th_buf t)" and "\<not> opt t TAR_GNU"
    and "0 \<notin> set (d @ slash # f)" and "100 \<le> length (d @ slash # f)"
    and "d \<noteq> []" and "length d \<le> 155" and "length f < 100"
    and "slash \<notin> set (drop (length d + length f + 1 - 100) d)"
  shows "\<exists>t' buf t''. th_set_path t (d @ slash # f) = Some t'
     \<and> th_get_pathname True junk t' = (Some buf, t'')
     \<and> cstr buf = Some (d @ slash # f @ dir_suffix t (d @ slash # f))"
proof -
  obtain t' where "th_set_path t (d @ slash # f) = Some t'" by (simp add: th_set_path_def Let_def)
  then show ?thesis using path_posix [OF assms(1,3,4,5,6,7,8,2)] by blast
qed

theorem path_split_round_trip_witness:
  "\<exists>t' buf t''. th_set_path (blank_tar 0) (replicate 60 0x61 @ slash # replicate 70 0x62) = Some t'
     \<and> th_get_pathname True [] t' = (Some buf, t'')
     \<and> cstr buf = Some (replicate 60 0x61 @ slash # replicate 70 0x62
         @ dir_suffix (blank_tar 0) (replicate 60 0x61 @ slash # replicate 70 0x62))"
  by (rule path_split_round_trip) (simp_all add: blank_tar_def opt_def)

end
