(* ===== verification/Libtar_Block.thy ===== *)
theory Libtar_Block
  imports Libtar_Header
begin

section \<open>libtar: reading and writing header blocks\<close>

text \<open>
  \<^verbatim>\<open>libtar/block.c\<close>, as built without \<^verbatim>\<open>USE_FSCRYPT\<close>. The read and write functions of the handle
  are the parameters \<open>rd\<close> and \<open>wr\<close>, on a world of their own: \<open>rd fd n w\<close> is the count returned,
  the bytes delivered and the world after it, \<open>wr fd b w\<close> the count returned and the world. An
  operation returns \<open>None\<close> where the C code never returns or reads outside an array.
\<close>

type_synonym 'w reader = "int \<Rightarrow> nat \<Rightarrow> 'w \<Rightarrow> int \<times> byte list \<times> 'w"
type_synonym 'w writer = "int \<Rightarrow> byte list \<Rightarrow> 'w \<Rightarrow> int \<times> 'w"

text \<open>What a failing operation leaves in \<^verbatim>\<open>errno\<close>: the values the code sets or tests for; \<open>Unchanged\<close>
  stands for any other that the system has left there.\<close>

datatype errno = EINVAL | E2BIG | ENOSPC | ENAMETOOLONG | EEXIST | ENOENT | EOPNOTSUPP | Unchanged

definition io_errno :: "int \<Rightarrow> errno" where
  "io_errno i = (if i \<noteq> - 1 then EINVAL else Unchanged)"

subsection \<open>Reading\<close>

definition tar_block_read :: "'w reader \<Rightarrow> TAR \<Rightarrow> byte list \<Rightarrow> 'w \<Rightarrow> int \<times> byte list \<times> 'w" where
  "tar_block_read rd t buf w =
     (let (i, data, w) = rd (tar_fd t) 512 w in (i, overwrite buf data, w))"

partial_function (option) read_internal_loop :: "'w reader \<Rightarrow> TAR \<Rightarrow> int \<Rightarrow> 'w \<Rightarrow> (int \<times> TAR \<times> 'w) option" where
  "read_internal_loop rd t num_zero_blocks w =
     (let (i, blk, w) = tar_block_read rd t (block_of (th_buf t)) w;
          t = t\<lparr>th_buf := load_block blk (th_buf t)\<rparr>
      in if i \<noteq> 512 then Some (i, t, w)
         else if th_name (th_buf t) ! 0 = 0 then
           (let num_zero_blocks = num_zero_blocks + 1
            in if \<not> opt t TAR_IGNORE_EOT \<and> num_zero_blocks \<ge> 2 then Some (0, t, w)
               else read_internal_loop rd t num_zero_blocks w)
         else if opt t TAR_CHECK_MAGIC \<and> take 5 (th_magic (th_buf t)) \<noteq> str ''ustar'' then Some (- 2, t, w)
         else if opt t TAR_CHECK_VERSION \<and> th_version (th_buf t) \<noteq> str ''00'' then Some (- 2, t, w)
         else if \<not> opt t TAR_IGNORE_CRC \<and> \<not> th_crc_ok (th_buf t) then Some (- 2, t, w)
         else Some (i, t, w))"

definition th_read_internal :: "'w reader \<Rightarrow> TAR \<Rightarrow> 'w \<Rightarrow> (int \<times> TAR \<times> 'w) option" where
  "th_read_internal rd t w = read_internal_loop rd t 0 w"

text \<open>The blocks of a long name: what was read, and the count of the read that failed if one did.\<close>

fun read_blocks :: "'w reader \<Rightarrow> TAR \<Rightarrow> nat \<Rightarrow> byte list \<Rightarrow> 'w \<Rightarrow> int option \<times> byte list \<times> 'w" where
  "read_blocks rd t 0 acc w = (None, acc, w)"
| "read_blocks rd t (Suc j) acc w =
     (let (i, blk, w) = tar_block_read rd t [] w
      in if i \<noteq> 512 then (Some i, acc @ blk, w) else read_blocks rd t j (acc @ blk) w)"

definition name_blocks :: "u64 \<Rightarrow> nat" where
  "name_blocks sz = unat (sz div 512) + (if sz mod 512 \<noteq> 0 then 1 else 0)"

text \<open>The results of \<^verbatim>\<open>th_read\<close>: 0, 1 at the end of the archive, or -1.\<close>

datatype read_result = ReadOk | ReadEof | ReadError errno

text \<open>A long link or long name member and the header that follows it; \<open>store\<close> puts the string into
  the header, \<open>mem\<close> says which sizes \<^verbatim>\<open>malloc\<close> grants.\<close>

definition read_long :: "(nat \<Rightarrow> bool) \<Rightarrow> 'w reader \<Rightarrow> (byte list \<Rightarrow> tar_header \<Rightarrow> tar_header) \<Rightarrow> TAR \<Rightarrow> 'w
    \<Rightarrow> (errno option \<times> TAR \<times> 'w) option" where
  "read_long mem rd store t w =
     (let sz = th_get_size (th_buf t); blocks = name_blocks sz
      in if blocks > (2 ^ 64 - 1) div 512 then Some (Some E2BIG, t, w)
         else if \<not> mem (blocks * 512) then Some (Some Unchanged, t, w)
         else
           let (failed, name, w) = read_blocks rd t blocks [] w;
               t = t\<lparr>th_buf := store name (th_buf t)\<rparr>
           in case failed of
                Some i \<Rightarrow> Some (Some (io_errno i), t, w)
              | None \<Rightarrow>
                  (case th_read_internal rd t w of
                     None \<Rightarrow> None
                   | Some (i, t, w) \<Rightarrow> Some (if i \<noteq> 512 then Some (io_errno i) else None, t, w)))"

definition SELINUX_TAG :: "byte list" where "SELINUX_TAG = str ''RHT.security.selinux=''"
definition CAPABILITIES_TAG :: "byte list" where "CAPABILITIES_TAG = str ''SCHILY.xattr.security.capability=''"
definition ANDROID_USER_DEFAULT_TAG :: "byte list" where "ANDROID_USER_DEFAULT_TAG = str ''ANDROID.user.default''"
definition ANDROID_USER_CACHE_TAG :: "byte list" where "ANDROID_USER_CACHE_TAG = str ''ANDROID.user.inode_cache''"
definition ANDROID_USER_CODE_CACHE_TAG :: "byte list" where
  "ANDROID_USER_CODE_CACHE_TAG = str ''ANDROID.user.inode_code_cache''"

lemmas tag_defs = SELINUX_TAG_def CAPABILITIES_TAG_def ANDROID_USER_DEFAULT_TAG_def
  ANDROID_USER_CACHE_TAG_def ANDROID_USER_CODE_CACHE_TAG_def

text \<open>The tags of an extended header's data block \<open>buf\<close> (512 bytes, the last of them 0). \<open>None\<close>: the
  capability data would be copied from beyond the buffer.\<close>

definition parse_extended :: "byte list \<Rightarrow> tar_header \<Rightarrow> tar_header option" where
  "parse_extended buf h =
     (let s = takeWhile (\<lambda>c. c \<noteq> 0) buf;
          cap = (case strstr s CAPABILITIES_TAG of
                   None \<Rightarrow> Some h
                 | Some start \<Rightarrow>
                     if start + length CAPABILITIES_TAG < length s then
                       let start = start + length CAPABILITIES_TAG
                       in if start + 20 > 512 then None
                          else Some (h\<lparr>cap_data := take 20 (drop start buf), has_cap_data := True\<rparr>)
                     else Some h)
      in case cap of
           None \<Rightarrow> None
         | Some h \<Rightarrow>
             let h = (case strstr s SELINUX_TAG of
                        None \<Rightarrow> h
                      | Some start \<Rightarrow>
                          if start + length SELINUX_TAG < length s then
                            let start = start + length SELINUX_TAG
                            in case strchr (drop start s) 0x0a of
                                 None \<Rightarrow> h
                               | Some n \<Rightarrow> h\<lparr>selinux_context := Some (take n (drop start s) @ [0])\<rparr>
                          else h);
                 h = (if strstr s ANDROID_USER_DEFAULT_TAG \<noteq> None then h\<lparr>has_user_default := True\<rparr> else h);
                 h = (if strstr s ANDROID_USER_CACHE_TAG \<noteq> None then h\<lparr>has_user_cache := True\<rparr> else h);
                 h = (if strstr s ANDROID_USER_CODE_CACHE_TAG \<noteq> None then h\<lparr>has_user_code_cache := True\<rparr> else h)
             in Some h)"

partial_function (option) read_extended :: "'w reader \<Rightarrow> TAR \<Rightarrow> 'w \<Rightarrow> (read_result \<times> TAR \<times> 'w) option" where
  "read_extended rd t w =
     (if TH_ISEXTHEADER (th_buf t) \<or> TH_ISPOLHEADER (th_buf t) then
        (let sz = th_get_size (th_buf t);
             step = (if sz \<ge> 512 then Some (None, t, w)
                     else
                       let (i, buf, w) = tar_block_read rd t (replicate 512 0) w
                       in if i \<noteq> 512 then Some (Some (io_errno i), t, w)
                          else case parse_extended (buf[511 := 0]) (th_buf t) of
                                 None \<Rightarrow> None
                               | Some h \<Rightarrow> Some (None, t\<lparr>th_buf := h\<rparr>, w))
         in case step of
              None \<Rightarrow> None
            | Some (failed, t, w) \<Rightarrow>
                (case failed of
                   Some e \<Rightarrow> Some (ReadError e, t, w)
                 | None \<Rightarrow>
                     (case th_read_internal rd t w of
                        None \<Rightarrow> None
                      | Some (i, t, w) \<Rightarrow>
                          if i \<noteq> 512 then Some (ReadError (io_errno i), t, w)
                          else read_extended rd t w)))
      else Some (ReadOk, t, w))"

definition th_read :: "(nat \<Rightarrow> bool) \<Rightarrow> 'w reader \<Rightarrow> TAR \<Rightarrow> 'w \<Rightarrow> (read_result \<times> TAR \<times> 'w) option" where
  "th_read mem rd t w =
     (let t = t\<lparr>th_buf := zero_header\<rparr>
      in case th_read_internal rd t w of
           None \<Rightarrow> None
         | Some (i, t, w) \<Rightarrow>
             if i = 0 then Some (ReadEof, t, w)
             else if i \<noteq> 512 then Some (ReadError (io_errno i), t, w)
             else
               (case (if TH_ISLONGLINK (th_buf t)
                      then read_long mem rd (\<lambda>n h. h\<lparr>gnu_longlink := Some n\<rparr>) t w else Some (None, t, w)) of
                  None \<Rightarrow> None
                | Some (Some e, t, w) \<Rightarrow> Some (ReadError e, t, w)
                | Some (None, t, w) \<Rightarrow>
                    (case (if TH_ISLONGNAME (th_buf t)
                           then read_long mem rd (\<lambda>n h. h\<lparr>gnu_longname := Some n\<rparr>) t w else Some (None, t, w)) of
                       None \<Rightarrow> None
                     | Some (Some e, t, w) \<Rightarrow> Some (ReadError e, t, w)
                     | Some (None, t, w) \<Rightarrow> read_extended rd t w)))"

subsection \<open>Writing\<close>

definition tar_block_write :: "'w writer \<Rightarrow> TAR \<Rightarrow> byte list \<Rightarrow> 'w \<Rightarrow> errno option \<times> 'w" where
  "tar_block_write wr t b w =
     (let (i, w) = wr (tar_fd t) b w in (if i \<noteq> 512 then Some (io_errno i) else None, w))"

text \<open>The header of the next member under another type and size.\<close>

definition fake_header :: "TAR \<Rightarrow> byte \<Rightarrow> u64 \<Rightarrow> TAR" where
  "fake_header t ty sz = th_finish (t\<lparr>th_buf := th_set_size ((th_buf t)\<lparr>th_typeflag := ty\<rparr>) sz\<rparr>)"

definition restore_header :: "TAR \<Rightarrow> byte \<Rightarrow> u64 \<Rightarrow> TAR" where
  "restore_header t type2 sz2 = t\<lparr>th_buf := th_set_size ((th_buf t)\<lparr>th_typeflag := type2\<rparr>) sz2\<rparr>"

definition th_write_extended :: "'w writer \<Rightarrow> TAR \<Rightarrow> byte list \<Rightarrow> u64 \<Rightarrow> 'w \<Rightarrow> errno option \<times> TAR \<times> byte list \<times> 'w" where
  "th_write_extended wr t buf sz w =
     (let type2 = th_typeflag (th_buf t);
          sz2 = th_get_size (th_buf t)
      in if sz \<ge> 512 then (Some EINVAL, t\<lparr>th_buf := (th_buf t)\<lparr>th_typeflag := TH_EXT_TYPE\<rparr>\<rparr>, buf, w)
         else
           let t = fake_header t TH_EXT_TYPE sz;
               (failed, w) = tar_block_write wr t (block_of (th_buf t)) w
           in if failed \<noteq> None then (failed, t, buf, w)
              else
                let (failed, w) = tar_block_write wr t buf w
                in if failed \<noteq> None then (failed, t, buf, w)
                   else (None, restore_header t type2 sz2, replicate 512 0, w))"

text \<open>The counter of the loop is an \<^verbatim>\<open>int\<close>, set from a 64-bit number.\<close>

definition int_of_u64 :: "u64 \<Rightarrow> int" where
  "int_of_u64 n = sint (ucast n :: u32)"

function write_name_blocks :: "'w writer \<Rightarrow> TAR \<Rightarrow> int \<Rightarrow> byte list \<Rightarrow> 'w \<Rightarrow> errno option \<times> byte list \<times> 'w" where
  "write_name_blocks wr t j ptr w =
     (if j > 1 then
        (let (failed, w) = tar_block_write wr t (take 512 ptr) w
         in if failed \<noteq> None then (failed, ptr, w) else write_name_blocks wr t (j - 1) (drop 512 ptr) w)
      else (None, ptr, w))"
  by pat_completeness auto
termination by (relation "measure (\<lambda>(wr, t, j, ptr, w). nat j)") auto

declare write_name_blocks.simps [simp del]

text \<open>A long name: a header of type \<open>ty\<close>, the full blocks of the string, and a last block padded
  with NULs. The string is the memory \<open>name\<close>; without a NUL in it its length is undefined.\<close>

definition write_long :: "'w writer \<Rightarrow> TAR \<Rightarrow> byte \<Rightarrow> byte list \<Rightarrow> 'w \<Rightarrow> (errno option \<times> TAR \<times> 'w) option" where
  "write_long wr t ty name w =
     (case cstr name of
        None \<Rightarrow> None
      | Some s \<Rightarrow>
          let type2 = th_typeflag (th_buf t);
              sz2 = th_get_size (th_buf t);
              sz = of_nat (length s);
              t = fake_header t ty sz;
              (failed, w) = tar_block_write wr t (block_of (th_buf t)) w
          in if failed \<noteq> None then Some (failed, t, w)
             else
               let (failed, ptr, w) = write_name_blocks wr t (int_of_u64 (of_nat (name_blocks sz))) s w
               in if failed \<noteq> None then Some (failed, t, w)
                  else
                    let (failed, w) = tar_block_write wr t (strncpy (replicate 512 0) ptr 512) w
                    in if failed \<noteq> None then Some (failed, t, w)
                       else Some (None, restore_header t type2 sz2, w))"

text \<open>A store at \<^verbatim>\<open>ptr\<close>, an index into the block.\<close>

definition put :: "byte list \<Rightarrow> nat \<Rightarrow> byte list \<Rightarrow> byte list" where
  "put buf ptr bs = take ptr buf @ bs @ drop (ptr + length bs) buf"

text \<open>The room check before an entry of \<open>sz\<close> bytes: flush the block when it would not fit. The
  state is the block, the position \<open>ptr\<close> (which is always \<open>total_sz\<close>) and the handle.\<close>

definition make_room :: "'w writer \<Rightarrow> nat \<Rightarrow> TAR \<times> byte list \<times> nat \<times> 'w
    \<Rightarrow> errno option \<times> TAR \<times> byte list \<times> nat \<times> 'w" where
  "make_room wr sz = (\<lambda>(t, buf, total_sz, w).
     if total_sz + sz \<ge> 512 then
       (let (failed, t, buf, w) = th_write_extended wr t buf (of_nat total_sz) w
        in (failed, t, buf, if failed = None then 0 else total_sz, w))
     else (None, t, buf, total_sz, w))"

definition put_capability :: "'w writer \<Rightarrow> TAR \<times> byte list \<times> nat \<times> 'w
    \<Rightarrow> errno option \<times> TAR \<times> byte list \<times> nat \<times> 'w" where
  "put_capability wr st =
     (let sz = length CAPABILITIES_TAG + 20 + 3 + 1;
          sz = (if sz \<ge> 100 then sz + 1 else sz);
          (failed, t, buf, ptr, w) = make_room wr sz st
      in if failed \<noteq> None then (failed, t, buf, ptr, w)
         else
           let buf = put buf ptr (decimal sz @ str '' '' @ CAPABILITIES_TAG @ [0]);
               buf = put buf (ptr + length CAPABILITIES_TAG + 3) (cap_data (th_buf t));
               buf = put buf (ptr + sz - 1) [0x0a]
           in (None, t, buf, ptr + sz, w))"

definition put_user_xattr :: "'w writer \<Rightarrow> byte list \<Rightarrow> TAR \<times> byte list \<times> nat \<times> 'w
    \<Rightarrow> errno option \<times> TAR \<times> byte list \<times> nat \<times> 'w" where
  "put_user_xattr wr tag st =
     (let sz = length tag + 3 + 1;
          (failed, t, buf, ptr, w) = make_room wr sz st
      in if failed \<noteq> None then (failed, t, buf, ptr, w)
         else
           let buf = put buf ptr (decimal sz @ str '' '' @ tag @ [0]);
               buf = put buf (ptr + sz - 1) [0x0a]
           in (None, t, buf, ptr + sz, w))"

text \<open>One step after another, stopping at the first failure.\<close>

definition and_then :: "(errno option \<times> 'a) \<Rightarrow> ('a \<Rightarrow> errno option \<times> 'a) \<Rightarrow> errno option \<times> 'a" where
  "and_then r f = (case r of (None, st) \<Rightarrow> f st | (Some e, st) \<Rightarrow> (Some e, st))"

definition selinux_entry :: "byte list \<Rightarrow> nat \<times> byte list" where
  "selinux_entry context =
     (let sz = length SELINUX_TAG + length context + 3 + 1;
          sz = (if sz \<ge> 100 then sz + 1 else sz)
      in (sz, decimal sz @ str '' '' @ SELINUX_TAG @ context @ [0x0a]))"

text \<open>The extended entries of \<^verbatim>\<open>th_write\<close>, in order.\<close>

definition write_entries :: "'w writer \<Rightarrow> TAR \<Rightarrow> byte list option \<Rightarrow> 'w
    \<Rightarrow> errno option \<times> TAR \<times> byte list \<times> nat \<times> 'w" where
  "write_entries wr t context w =
     (let buf = replicate 512 0;
          (buf, total_sz) =
            (case context of
               Some c \<Rightarrow> (let (sz, e) = selinux_entry c in (snprintf_s buf 512 e, sz))
             | None \<Rightarrow> (buf, 0));
          h = th_buf t;
          user = opt t TAR_STORE_ANDROID_USER_XATTR;
          r = (None, t, buf, total_sz, w);
          r = (if opt t TAR_STORE_POSIX_CAP \<and> has_cap_data h then and_then r (put_capability wr) else r);
          r = (if user \<and> has_user_default h then and_then r (put_user_xattr wr ANDROID_USER_DEFAULT_TAG) else r);
          r = (if user \<and> has_user_cache h then and_then r (put_user_xattr wr ANDROID_USER_CACHE_TAG) else r)
      in if user \<and> has_user_code_cache h then and_then r (put_user_xattr wr ANDROID_USER_CODE_CACHE_TAG) else r)"

definition th_write :: "'w writer \<Rightarrow> TAR \<Rightarrow> 'w \<Rightarrow> (errno option \<times> TAR \<times> 'w) option" where
  "th_write wr t w =
     (case (case gnu_longlink (th_buf t) of
              Some l \<Rightarrow> if opt t TAR_GNU then write_long wr t GNU_LONGLINK_TYPE l w else Some (None, t, w)
            | None \<Rightarrow> Some (None, t, w)) of
        None \<Rightarrow> None
      | Some (Some e, t, w) \<Rightarrow> Some (Some e, t, w)
      | Some (None, t, w) \<Rightarrow>
          (case (case gnu_longname (th_buf t) of
                   Some n \<Rightarrow> if opt t TAR_GNU then write_long wr t GNU_LONGNAME_TYPE n w else Some (None, t, w)
                 | None \<Rightarrow> Some (None, t, w)) of
             None \<Rightarrow> None
           | Some (Some e, t, w) \<Rightarrow> Some (Some e, t, w)
           | Some (None, t, w) \<Rightarrow>
               (case (if opt t TAR_STORE_SELINUX then
                        (case selinux_context (th_buf t) of
                           None \<Rightarrow> Some None
                         | Some c \<Rightarrow> map_option Some (cstr c))
                      else Some None) of
                  None \<Rightarrow> None
                | Some context \<Rightarrow>
                    let (failed, t, buf, total_sz, w) = write_entries wr t context w
                    in if failed \<noteq> None then Some (failed, t, w)
                       else
                         let (failed, t, buf, w) =
                           (if total_sz > 0 then th_write_extended wr t buf (of_nat total_sz) w
                            else (None, t, buf, w))
                         in if failed \<noteq> None then Some (failed, t, w)
                            else
                              let t = th_finish t;
                                  (failed, w) = tar_block_write wr t (block_of (th_buf t)) w
                              in Some (failed, t, w))))"

subsection \<open>The medium\<close>

text \<open>What the header code requires of the functions it is given: a write of a block appends it to
  the output, a read of a block takes it from the input.\<close>

locale tar_sink =
  fixes wr :: "'w writer" and fd :: int and good :: "'w \<Rightarrow> bool" and out :: "'w \<Rightarrow> byte list"
  assumes write_block: "\<lbrakk>good w; length b = 512\<rbrakk>
    \<Longrightarrow> \<exists>w'. wr fd b w = (512, w') \<and> good w' \<and> out w' = out w @ b"

locale tar_source =
  fixes rd :: "'r reader" and fd :: int and inp :: "'r \<Rightarrow> byte list"
  assumes read_block: "\<lbrakk>inp r = b @ rest; length b = 512\<rbrakk>
    \<Longrightarrow> \<exists>r'. rd fd 512 r = (512, b, r') \<and> inp r' = rest"

subsection \<open>Long names\<close>

definition pad512 :: "byte list \<Rightarrow> byte list" where
  "pad512 s = s @ replicate ((512 - length s mod 512) mod 512) 0"

lemma name_blocks_of_nat:
  assumes "n < 2 ^ 64"
  shows "name_blocks (of_nat n) = n div 512 + (if n mod 512 \<noteq> 0 then 1 else 0)"
proof -
  have u: "unat (of_nat n :: u64) = n" using assms by (simp add: unsigned_of_nat take_bit_nat_eq_self)
  have "unat (of_nat n div 512 :: u64) = n div 512" by (simp add: unat_div u)
  moreover have "(of_nat n mod 512 :: u64) = 0 \<longleftrightarrow> n mod 512 = 0"
    by (simp add: word_unat_eq_iff unat_mod u)
  ultimately show ?thesis by (simp add: name_blocks_def)
qed

lemma int_of_small: "n < 2 ^ 31 \<Longrightarrow> int_of_u64 (of_nat n) = int n"
  by (simp add: int_of_u64_def sint_uint unsigned_ucast_eq unsigned_of_nat take_bit_nat_eq_self signed_take_bit_int_eq_self flip: of_nat_take_bit)

lemma blocks_bounds:
  assumes "0 < n"
  shows "n \<le> 512 * (n div 512 + (if n mod 512 \<noteq> 0 then 1 else 0))
    \<and> 512 * ((n div 512 + (if n mod 512 \<noteq> 0 then 1 else 0)) - 1) < n
    \<and> 0 < n div 512 + (if n mod 512 \<noteq> 0 then 1 else (0 :: nat))"
proof -
  define q where "q = n div 512"
  define m where "m = n mod 512"
  have n: "n = 512 * q + m" "m < 512" unfolding q_def m_def by simp_all
  show ?thesis
  proof (cases "m = 0")
    case True
    then have "0 < q" using n assms by simp
    then show ?thesis unfolding q_def [symmetric] m_def [symmetric] using n True by simp
  next
    case False
    then show ?thesis unfolding q_def [symmetric] m_def [symmetric] using n by simp
  qed
qed

lemma pad512_length: "length (pad512 s) = 512 * (length s div 512 + (if length s mod 512 \<noteq> 0 then 1 else 0))"
proof -
  define q where "q = length s div 512"
  define m where "m = length s mod 512"
  have n: "length s = 512 * q + m" "m < 512" unfolding q_def m_def by simp_all
  show ?thesis
    unfolding pad512_def q_def [symmetric] m_def [symmetric] length_append length_replicate
    using n by (cases "m = 0") simp_all
qed

lemma pad512_last:
  assumes "512 * k < length s" "length s \<le> 512 * Suc k"
  shows "pad512 s = take (512 * k) s @ strncpy (replicate 512 0) (drop (512 * k) s) 512"
proof -
  let ?r = "drop (512 * k) s"
  have lr: "0 < length ?r" "length ?r \<le> 512" using assms by simp_all
  have "(512 - length s mod 512) mod 512 = 512 - length ?r"
  proof (cases "length ?r = 512")
    case True
    then have "length s = 512 * Suc k" using assms by simp
    then show ?thesis using True by simp
  next
    case False
    then have "length s = length ?r + 512 * k" "length ?r < 512" using assms lr by simp_all
    then have "length s mod 512 = length ?r" by (metis mod_less mod_mult_self2)
    then show ?thesis using lr False by simp
  qed
  then have "pad512 s = (take (512 * k) s @ ?r) @ replicate (512 - length ?r) 0"
    by (simp only: pad512_def append_take_drop_id)
  moreover have "strncpy (replicate 512 0) ?r 512 = ?r @ replicate (512 - length ?r) 0"
    using lr by (simp add: strncpy_def overwrite_def min_def)
  ultimately show ?thesis by simp
qed

lemma pad512_Nil [simp]: "pad512 [] = []"
  by (simp add: pad512_def)

lemma pad512_step: "512 \<le> length s \<Longrightarrow> pad512 s = take 512 s @ pad512 (drop 512 s)"
proof -
  assume "512 \<le> length s"
  then have "length s = length (drop 512 s) + 512" by simp
  then have "length s mod 512 = length (drop 512 s) mod 512" by (metis mod_add_self2)
  then have "pad512 (drop 512 s) = drop 512 s @ replicate ((512 - length s mod 512) mod 512) 0" by (simp only: pad512_def)
  then show ?thesis by (simp only: pad512_def append_assoc [symmetric] append_take_drop_id)
qed

lemma pad512_single: "s \<noteq> [] \<Longrightarrow> length s \<le> 512 \<Longrightarrow> pad512 s = s @ replicate (512 - length s) 0"
proof -
  assume "s \<noteq> []" "length s \<le> 512"
  then have "0 < length s" "length s = 512 \<or> length s < 512" by auto
  then show ?thesis by (auto simp: pad512_def)
qed

lemma cstr_pad512:
  assumes "0 \<notin> set s" "length s mod 512 \<noteq> 0"
  shows "cstr (pad512 s) = Some s"
proof -
  have "0 < (512 - length s mod 512) mod 512" using assms(2) by simp
  then obtain k where "(512 - length s mod 512) mod 512 = Suc k" by (metis gr0_implies_Suc)
  then show ?thesis using cstr_append [OF assms(1), of "replicate k 0"] by (simp add: pad512_def)
qed

context tar_sink
begin

lemma block_written:
  assumes "tar_fd t = fd" "good w" "length b = 512"
  obtains w' where "tar_block_write wr t b w = (None, w')" "good w'" "out w' = out w @ b"
  using write_block [OF assms(2,3)] assms(1) by (auto simp: tar_block_write_def)

lemma name_blocks_written:
  assumes fd: "tar_fd t = fd" and "good w" "512 * (j - 1) < length s" "0 < j"
  shows "\<exists>w'. write_name_blocks wr t (int j) s w = (None, drop (512 * (j - 1)) s, w') \<and> good w'
     \<and> out w' = out w @ take (512 * (j - 1)) s"
  using assms(2-)
proof (induction j arbitrary: s w)
  case 0
  then show ?case by simp
next
  case (Suc j)
  show ?case
  proof (cases "j = 0")
    case True
    then show ?thesis using Suc.prems by (subst write_name_blocks.simps) simp
  next
    case False
    then have l: "512 \<le> length s" "512 * (j - 1) < length (drop 512 s)" using Suc.prems by (cases j; simp)+
    obtain w1 where w1: "tar_block_write wr t (take 512 s) w = (None, w1)" "good w1" "out w1 = out w @ take 512 s"
      using block_written [OF fd Suc.prems(1), of "take 512 s"] l by auto
    obtain w' where w': "write_name_blocks wr t (int j) (drop 512 s) w1 = (None, drop (512 * (j - 1)) (drop 512 s), w')"
      "good w'" "out w' = out w1 @ take (512 * (j - 1)) (drop 512 s)"
      using Suc.IH [OF w1(2) l(2)] False by blast
    have e: "512 * (j - 1) + 512 = 512 * j" using False by (cases j) simp_all
    have "take (512 * j) s = take 512 s @ take (512 * (j - 1)) (drop 512 s)"
      using e by (metis add.commute take_add)
    then show ?thesis
      using w1 w' False e by (subst write_name_blocks.simps) simp
  qed
qed

lemma long_written:
  assumes fd: "tar_fd t = fd" and g: "good w" and wf: "th_wf (th_buf t)" and s: "s \<noteq> []" "0 \<notin> set s" "length s < 2 ^ 40 - 512"
  shows "\<exists>w'. write_long wr t ty (s @ [0]) w = Some (None,
      restore_header (fake_header t ty (of_nat (length s))) (th_typeflag (th_buf t)) (th_get_size (th_buf t)), w')
    \<and> good w' \<and> out w' = out w @ block_of (th_buf (fake_header t ty (of_nat (length s)))) @ pad512 s"
proof -
  let ?f = "fake_header t ty (of_nat (length s))" and ?n = "length s"
  define j where "j = ?n div 512 + (if ?n mod 512 \<noteq> 0 then 1 else 0)"
  have c: "cstr (s @ [0]) = Some s" using cstr_append [OF s(2), of "[]"] by simp
  have n0: "0 < ?n" using s(1) by simp
  have b: "?n \<le> 512 * j" "512 * (j - 1) < ?n" "0 < j" using blocks_bounds [OF n0, folded j_def] by blast+
  have j: "name_blocks (of_nat ?n) = j" unfolding j_def by (rule name_blocks_of_nat) (use s(3) in simp)
  have "j < 2 ^ 31" using b(2) s(3) by simp
  then have i: "int_of_u64 (of_nat j) = int j" by (rule int_of_small)
  have fdf: "tar_fd ?f = fd" using fd by (simp add: fake_header_def th_finish_def Let_def)
  have "th_wf (th_buf ?f)"
    unfolding fake_header_def using wf by (intro conjunct1 [OF th_finish_crc]) auto
  then have "length (block_of (th_buf ?f)) = 512" by (rule th_wf_block)
  then obtain w1 where w1: "tar_block_write wr ?f (block_of (th_buf ?f)) w = (None, w1)" "good w1"
    "out w1 = out w @ block_of (th_buf ?f)" using block_written [OF fdf g] by blast
  obtain w2 where w2: "write_name_blocks wr ?f (int j) s w1 = (None, drop (512 * (j - 1)) s, w2)" "good w2"
    "out w2 = out w1 @ take (512 * (j - 1)) s"
    using name_blocks_written [OF fdf w1(2) b(2,3)] by blast
  have "length (strncpy (replicate 512 0) (drop (512 * (j - 1)) s) 512) = 512" by simp
  then obtain w3 where w3: "tar_block_write wr ?f (strncpy (replicate 512 0) (drop (512 * (j - 1)) s) 512) w2 = (None, w3)"
    "good w3" "out w3 = out w2 @ strncpy (replicate 512 0) (drop (512 * (j - 1)) s) 512"
    using block_written [OF fdf w2(2)] by blast
  have sj: "Suc (j - 1) = j" using b(3) by simp
  have "pad512 s = take (512 * (j - 1)) s @ strncpy (replicate 512 0) (drop (512 * (j - 1)) s) 512"
    by (rule pad512_last) (use b sj in simp_all)
  then have o: "out w3 = out w @ block_of (th_buf ?f) @ pad512 s"
    using w1(3) w2(3) w3(3) by simp
  have "write_long wr t ty (s @ [0]) w
      = Some (None, restore_header ?f (th_typeflag (th_buf t)) (th_get_size (th_buf t)), w3)"
    unfolding write_long_def c option.case Let_def j i
    by (simp only: w1(1) w2(1) w3(1) prod.case simp_thms if_False)
  then show ?thesis using w3(2) o by blast
qed

end

subsection \<open>Reading back\<close>

text \<open>A header block read over a header: its block fields, and what the old one pointed to.\<close>

definition carry :: "tar_header \<Rightarrow> tar_header \<Rightarrow> tar_header" where
  "carry h g = h\<lparr>gnu_longname := gnu_longname g, gnu_longlink := gnu_longlink g,
     selinux_context := selinux_context g, has_cap_data := has_cap_data g, cap_data := cap_data g,
     has_user_default := has_user_default g, has_user_cache := has_user_cache g,
     has_user_code_cache := has_user_code_cache g\<rparr>"

lemma block_of_carry [simp]: "block_of (carry h g) = block_of h"
  by (simp add: block_of_def carry_def)

lemma carry_fields [simp]:
  "th_name (carry h g) = th_name h" "th_magic (carry h g) = th_magic h" "th_version (carry h g) = th_version h"
  "th_typeflag (carry h g) = th_typeflag h" "th_chksum (carry h g) = th_chksum h" "th_wf (carry h g) = th_wf h"
  by (simp_all add: carry_def th_wf_def)

lemma th_crc_ok_carry [simp]: "th_crc_ok (carry h g) = th_crc_ok h"
  by (simp add: th_crc_ok_def th_get_crc_def field_mem_def th_crc_calc_def th_signed_crc_calc_def)

lemma th_get_size_carry [simp]: "th_get_size (carry h g) = th_get_size h"
  by (simp add: th_get_size_def field_mem_def)

text \<open>The headers a handle with these options takes.\<close>

definition accepts :: "TAR \<Rightarrow> tar_header \<Rightarrow> bool" where
  "accepts t h \<longleftrightarrow> th_wf h \<and> th_name h ! 0 \<noteq> 0
     \<and> (opt t TAR_CHECK_MAGIC \<longrightarrow> take 5 (th_magic h) = str ''ustar'')
     \<and> (opt t TAR_CHECK_VERSION \<longrightarrow> th_version h = str ''00'')
     \<and> (opt t TAR_IGNORE_CRC \<or> th_crc_ok h)"

lemma opt_th_buf [simp]: "opt (t\<lparr>th_buf := h\<rparr>) flag = opt t flag"
  by (simp add: opt_def)

lemma accepts_th_buf [simp]: "accepts (t\<lparr>th_buf := h\<rparr>) = accepts t"
  by (simp add: accepts_def fun_eq_iff)

context tar_source
begin

lemma block_read:
  assumes "tar_fd t = fd" "inp r = b @ rest" "length b = 512" "length old \<le> 512"
  obtains r' where "tar_block_read rd t old r = (512, b, r')" "inp r' = rest"
  using read_block [OF assms(2,3)] assms(1,3,4) by (auto simp: tar_block_read_def overwrite_def)

lemma header_read:
  assumes fd: "tar_fd t = fd" and inp: "inp r = block_of h @ rest" and a: "accepts t h" and wf: "th_wf (th_buf t)"
  obtains r' where "th_read_internal rd t r = Some (512, t\<lparr>th_buf := carry h (th_buf t)\<rparr>, r')" "inp r' = rest"
proof -
  have wh: "th_wf h" using a by (simp add: accepts_def)
  obtain r' where r': "tar_block_read rd t (block_of (th_buf t)) r = (512, block_of h, r')" "inp r' = rest"
    using block_read [OF fd inp th_wf_block [OF wh]] th_wf_block [OF wf] by (metis order_refl)
  have "load_block (block_of h) (th_buf t) = carry h (th_buf t)"
    using load_block_of [OF wh] by (simp add: carry_def)
  then have "read_internal_loop rd t 0 r = Some (512, t\<lparr>th_buf := carry h (th_buf t)\<rparr>, r')"
    using a r'(1) by (subst read_internal_loop.simps) (auto simp: Let_def accepts_def)
  then show thesis using that r'(2) by (simp add: th_read_internal_def)
qed

lemma blocks_read:
  assumes fd: "tar_fd t = fd" and "inp r = b @ rest" "length b = 512 * j"
  shows "\<exists>r'. read_blocks rd t j acc r = (None, acc @ b, r') \<and> inp r' = rest"
  using assms(2-)
proof (induction j arbitrary: b acc r)
  case 0
  then show ?case by simp
next
  case (Suc j)
  have i: "inp r = take 512 b @ (drop 512 b @ rest)" using Suc.prems(1) by simp
  have l: "length (take 512 b) = 512" "length (drop 512 b) = 512 * j" using Suc.prems(2) by simp_all
  obtain r1 where r1: "tar_block_read rd t [] r = (512, take 512 b, r1)" "inp r1 = drop 512 b @ rest"
    using block_read [OF fd i l(1)] by (metis list.size(3) zero_le)
  obtain r' where "read_blocks rd t j (acc @ take 512 b) r1 = (None, (acc @ take 512 b) @ drop 512 b, r')" "inp r' = rest"
    using Suc.IH [OF r1(2) l(2)] by blast
  then show ?case using r1(1) by simp
qed

lemma long_read:
  assumes fd: "tar_fd t = fd" and sz: "th_get_size (th_buf t) = of_nat (length s)" "length s < 2 ^ 62" and mem: "\<forall>n. mem n"
    and store: "\<And>n h. th_wf (store n h) = th_wf h" and wf: "th_wf (th_buf t)"
    and inp: "inp r = pad512 s @ block_of h @ rest" and a: "accepts t h"
  shows "\<exists>r'. read_long mem rd store t r = Some (None, t\<lparr>th_buf := carry h (store (pad512 s) (th_buf t))\<rparr>, r')
     \<and> inp r' = rest"
proof -
  define j where "j = length s div 512 + (if length s mod 512 \<noteq> 0 then 1 else 0)"
  have j: "name_blocks (of_nat (length s)) = j"
    unfolding j_def using sz(2) by (intro name_blocks_of_nat) simp
  have "length s div 512 < 2 ^ 53" using sz(2) by (simp add: div_less_iff_less_mult)
  then have "j \<le> 2 ^ 53" by (simp add: j_def)
  then have small: "\<not> j > (2 ^ 64 - 1) div 512" by simp
  obtain r1 where r1: "read_blocks rd t j [] r = (None, pad512 s, r1)" "inp r1 = block_of h @ rest"
    using blocks_read [OF fd inp, of j "[]"] pad512_length [of s] by (auto simp: j_def)
  let ?t = "t\<lparr>th_buf := store (pad512 s) (th_buf t)\<rparr>"
  have "accepts ?t h" "th_wf (th_buf ?t)" using a wf store by simp_all
  then obtain r' where "th_read_internal rd ?t r1 = Some (512, ?t\<lparr>th_buf := carry h (th_buf ?t)\<rparr>, r')" "inp r' = rest"
    using header_read [OF _ r1(2), of ?t] fd by auto
  then show ?thesis
    using r1(1) small mem unfolding read_long_def Let_def sz(1) j by simp
qed

lemma extended_done:
  "\<not> TH_ISEXTHEADER (th_buf t) \<Longrightarrow> \<not> TH_ISPOLHEADER (th_buf t) \<Longrightarrow> read_extended rd t r = Some (ReadOk, t, r)"
  by (subst read_extended.simps) simp

lemma extended_read:
  assumes fd: "tar_fd t = fd" and x: "TH_ISEXTHEADER (th_buf t)" and sz: "th_get_size (th_buf t) = of_nat n" "n < 512"
    and buf: "length buf = 512" "buf ! 511 = 0" and p: "parse_extended buf (th_buf t) = Some g"
    and wf: "th_wf (th_buf t)" "th_wf g" and inp: "inp r = buf @ block_of h @ rest" and a: "accepts t h"
    and last: "\<not> TH_ISEXTHEADER h" "\<not> TH_ISPOLHEADER h"
  shows "\<exists>r'. read_extended rd t r = Some (ReadOk, t\<lparr>th_buf := carry h g\<rparr>, r') \<and> inp r' = rest"
proof -
  have "\<not> (of_nat n :: u64) \<ge> 512"
    using sz(2) by (simp add: word_le_nat_alt unsigned_of_nat take_bit_nat_eq_self)
  then have small: "\<not> th_get_size (th_buf t) \<ge> 512" by (simp add: sz(1))
  obtain r1 where r1: "tar_block_read rd t (replicate 512 0) r = (512, buf, r1)" "inp r1 = block_of h @ rest"
    using block_read [OF fd inp buf(1)] by (metis length_replicate order_refl)
  have "buf[511 := 0] = buf" using buf(2) by (metis list_update_id)
  then have p': "parse_extended (buf[511 := 0]) (th_buf t) = Some g" using p by simp
  let ?t = "t\<lparr>th_buf := g\<rparr>"
  obtain r' where r': "th_read_internal rd ?t r1 = Some (512, ?t\<lparr>th_buf := carry h (th_buf ?t)\<rparr>, r')" "inp r' = rest"
    using header_read [OF _ r1(2), of ?t] fd a wf(2) by auto
  have "read_extended rd (t\<lparr>th_buf := carry h g\<rparr>) r' = Some (ReadOk, t\<lparr>th_buf := carry h g\<rparr>, r')"
    by (rule extended_done) (use last in \<open>simp_all add: TH_ISEXTHEADER_def TH_ISPOLHEADER_def\<close>)
  then show ?thesis
    using x small r1(1) p' r' by (subst read_extended.simps) (simp add: Let_def)
qed

end

subsection \<open>The entries of an extended header\<close>

lemma put_end:
  "length bs \<le> m \<Longrightarrow> put (c @ replicate m 0) (length c) bs = (c @ bs) @ replicate (m - length bs) 0"
  by (simp add: put_def)

lemma put_end_nul:
  assumes "length bs < m"
  shows "put (c @ replicate m 0) (length c) (bs @ [0]) = (c @ bs) @ replicate (m - length bs) 0"
proof -
  have "m - length bs = Suc (m - length bs - 1)" using assms by simp
  then have "[0] @ replicate (m - length bs - 1) 0 = replicate (m - length bs) (0 :: byte)" by simp
  then show ?thesis using put_end [of "bs @ [0]" m c] assms by simp
qed

text \<open>A block filled with \<open>c\<close>.\<close>

definition fill :: "byte list \<Rightarrow> byte list" where
  "fill c = c @ replicate (512 - length c) 0"

lemma length_fill [simp]: "length c \<le> 512 \<Longrightarrow> length (fill c) = 512"
  by (simp add: fill_def)

lemma put_fill: "length c + length bs \<le> 512 \<Longrightarrow> put (fill c) (length c) bs = fill (c @ bs)"
  using put_end [of bs "512 - length c" c] by (simp add: fill_def)

lemma put_fill_nul: "length c + length bs < 512 \<Longrightarrow> put (fill c) (length c) (bs @ [0]) = fill (c @ bs)"
  using put_end_nul [of bs "512 - length c" c] by (simp add: fill_def)

lemma decimal_2: "10 \<le> n \<Longrightarrow> n < 100 \<Longrightarrow> length (decimal n) = 2"
  by (simp add: decimal.simps [of n] decimal.simps [of "n div 10"] div_less_iff_less_mult)

lemma decimal_3: "100 \<le> n \<Longrightarrow> n < 1000 \<Longrightarrow> length (decimal n) = 3"
proof -
  assume n: "100 \<le> n" "n < 1000"
  then have "10 \<le> n div 10" "n div 10 < 100" by (simp_all add: div_less_iff_less_mult less_eq_div_iff_mult_less_eq)
  then show ?thesis using n decimal_2 [of "n div 10"] by (simp add: decimal.simps [of n])
qed

lemma decimal_digits: "c \<in> set (decimal n) \<Longrightarrow> 0x30 \<le> c \<and> c \<le> 0x39"
proof (induction n rule: decimal.induct)
  case (1 n)
  have d: "0x30 \<le> (0x30 + of_nat d :: byte) \<and> (0x30 + of_nat d :: byte) \<le> 0x39" if "d < 10" for d :: nat
  proof -
    have "unat (of_nat d :: byte) = d" using that by (simp add: unsigned_of_nat take_bit_nat_eq_self)
    then have "unat (0x30 + of_nat d :: byte) = 0x30 + d" using that by (simp add: unat_word_ariths)
    then show ?thesis using that by (simp add: word_le_nat_alt)
  qed
  show ?case
  proof (cases "n < 10")
    case True
    then show ?thesis using 1 d [of n] by (simp add: decimal.simps [of n])
  next
    case False
    then show ?thesis using 1 d [of "n mod 10"] by (auto simp: decimal.simps [of n])
  qed
qed

definition entry :: "nat \<Rightarrow> byte list \<Rightarrow> byte list" where
  "entry sz text = decimal sz @ [0x20] @ text @ [0x0a]"

definition selinux_text :: "byte list option \<Rightarrow> byte list" where
  "selinux_text context = (case context of None \<Rightarrow> [] | Some c \<Rightarrow> snd (selinux_entry c))"

definition cap_text :: "tar_header \<Rightarrow> byte list" where
  "cap_text h = entry 57 (CAPABILITIES_TAG @ cap_data h)"

definition user_text :: "byte list \<Rightarrow> byte list" where
  "user_text tag = entry (length tag + 4) tag"

lemma tag_lengths [simp]: "length SELINUX_TAG = 21" "length CAPABILITIES_TAG = 33"
  "length ANDROID_USER_DEFAULT_TAG = 20" "length ANDROID_USER_CACHE_TAG = 24" "length ANDROID_USER_CODE_CACHE_TAG = 29"
  by (simp_all add: tag_defs)

lemma selinux_entry_length:
  assumes "length c \<le> 300"
  shows "fst (selinux_entry c) = length (snd (selinux_entry c))" "length (snd (selinux_entry c)) \<le> 326"
proof -
  show "fst (selinux_entry c) = length (snd (selinux_entry c))"
  proof (cases "length c + 25 \<ge> 100")
    case True
    then show ?thesis using assms decimal_3 [of "26 + length c"] by (simp add: selinux_entry_def Let_def add.commute)
  next
    case False
    then show ?thesis using assms decimal_2 [of "25 + length c"] by (simp add: selinux_entry_def Let_def add.commute)
  qed
  moreover have "fst (selinux_entry c) \<le> 326" using assms by (simp add: selinux_entry_def Let_def)
  ultimately show "length (snd (selinux_entry c)) \<le> 326" by simp
qed

lemma put_capability_fits:
  assumes "length c + 57 < 512" "length (cap_data (th_buf t)) = 20"
  shows "put_capability wr (t, fill c, length c, w) = (None, t, fill (c @ cap_text (th_buf t)), length (c @ cap_text (th_buf t)), w)"
proof -
  have d: "length (decimal 57) = 2" by (rule decimal_2) simp_all
  let ?e = "decimal 57 @ [0x20] @ CAPABILITIES_TAG" and ?d = "cap_data (th_buf t)"
  have 1: "put (fill c) (length c) (?e @ [0]) = fill (c @ ?e)" using assms d by (intro put_fill_nul) simp
  have 2: "put (fill (c @ ?e)) (length c + 33 + 3) ?d = fill (c @ ?e @ ?d)"
    using put_fill [of "c @ ?e" ?d] assms d by (simp add: add.commute add.left_commute)
  have 3: "put (fill (c @ ?e @ ?d)) (length c + 57 - 1) [0x0a] = fill (c @ ?e @ ?d @ [0x0a])"
    using put_fill [of "c @ ?e @ ?d" "[0x0a]"] assms d by (simp add: add.commute add.left_commute)
  have l: "length (cap_text (th_buf t)) = 57" using assms d by (simp add: cap_text_def entry_def)
  show ?thesis
    using assms 1 2 3 l
    by (simp add: put_capability_def make_room_def Let_def cap_text_def entry_def)
       (simp add: str_def)
qed

lemma put_user_fits:
  assumes "length c + length tag + 4 < 512" "10 \<le> length tag + 4" "length tag + 4 < 100"
  shows "put_user_xattr wr tag (t, fill c, length c, w) = (None, t, fill (c @ user_text tag), length (c @ user_text tag), w)"
proof -
  have d: "length (decimal (length tag + 4)) = 2" using assms(2,3) by (rule decimal_2)
  let ?e = "decimal (length tag + 4) @ [0x20] @ tag"
  have 1: "put (fill c) (length c) (?e @ [0]) = fill (c @ ?e)" using assms d by (intro put_fill_nul) simp
  have e: "length (c @ ?e) = length c + (length tag + 4) - 1" using d by simp
  have 2: "put (fill (c @ ?e)) (length c + (length tag + 4) - 1) [0x0a] = fill (c @ ?e @ [0x0a])"
    using put_fill [of "c @ ?e" "[0x0a]"] assms unfolding e by simp
  have l: "length (user_text tag) = length tag + 4" using assms d by (simp add: user_text_def entry_def)
  show ?thesis
    using assms 1 2 l
    by (simp add: put_user_xattr_def make_room_def Let_def user_text_def entry_def add.commute add.left_commute)
       (simp add: str_def)
qed

end
