(* ===== verification/Libtar_Member.thy ===== *)
theory Libtar_Member
  imports Libtar_Block
begin

section \<open>libtar: the header blocks of a member, written and read back\<close>

text \<open>
  What \<^verbatim>\<open>th_write\<close> of \<^verbatim>\<open>block.c\<close> puts on the medium for a member (\<open>member_blocks\<close>: long link, long name,
  extended header, header) and what \<^verbatim>\<open>th_read\<close> makes of these blocks. The two are proved against the
  interfaces \<open>tar_sink\<close> and \<open>tar_source\<close>, so they hold for every medium that is shown to provide
  them.
\<close>

subsection \<open>Searching\<close>

definition occurs :: "byte list \<Rightarrow> byte list \<Rightarrow> bool" where
  "occurs pat s \<longleftrightarrow> (\<exists>a b. s = a @ pat @ b)"

lemma strstr_from_none: "strstr_from i pat s = None \<longleftrightarrow> \<not> occurs pat s"
proof (induction s arbitrary: i)
  case Nil
  then show ?case by (auto simp: occurs_def)
next
  case (Cons c s)
  have "occurs pat (c # s) \<longleftrightarrow> take (length pat) (c # s) = pat \<or> occurs pat s"
  proof
    assume "occurs pat (c # s)"
    then obtain a b where ab: "c # s = a @ pat @ b" by (auto simp: occurs_def)
    show "take (length pat) (c # s) = pat \<or> occurs pat s"
    proof (cases a)
      case Nil
      then show ?thesis using ab by (metis append_Nil append_eq_conv_conj)
    next
      case (Cons x a')
      then show ?thesis using ab by (auto simp: occurs_def)
    qed
  next
    assume "take (length pat) (c # s) = pat \<or> occurs pat s"
    then show "occurs pat (c # s)"
    proof
      assume "take (length pat) (c # s) = pat"
      then have "c # s = [] @ pat @ drop (length pat) (c # s)" by (metis append_Nil append_take_drop_id)
      then show ?thesis unfolding occurs_def by blast
    next
      assume "occurs pat s"
      then obtain a b where "s = a @ pat @ b" by (auto simp: occurs_def)
      then have "c # s = (c # a) @ pat @ b" by simp
      then show ?thesis unfolding occurs_def by blast
    qed
  qed
  then show ?case using Cons by simp
qed

lemma strstr_none: "strstr s pat = None \<longleftrightarrow> \<not> occurs pat s"
  by (simp add: strstr_def strstr_from_none)

lemma strstr_from_skip:
  "pat \<noteq> [] \<Longrightarrow> hd pat \<notin> set p \<Longrightarrow> strstr_from i pat (p @ pat @ r) = Some (i + length p)"
proof (induction p arbitrary: i)
  case Nil
  then obtain c pat' where "pat = c # pat'" by (cases pat) auto
  then show ?case by simp
next
  case (Cons c p)
  have "take (length pat) (c # p @ pat @ r) \<noteq> pat"
  proof
    assume "take (length pat) (c # p @ pat @ r) = pat"
    then have "hd (take (length pat) (c # p @ pat @ r)) = hd pat" by simp
    then show False using Cons.prems by (cases pat) auto
  qed
  then show ?case using Cons by simp
qed

lemma strstr_first: "pat \<noteq> [] \<Longrightarrow> hd pat \<notin> set p \<Longrightarrow> strstr (p @ pat @ r) pat = Some (length p)"
  by (simp add: strstr_def strstr_from_skip)

lemma occurs_char: "occurs pat s \<Longrightarrow> set pat \<subseteq> set s"
  by (auto simp: occurs_def)

lemma occurs_length: "occurs pat s \<Longrightarrow> length pat \<le> length s"
  by (auto simp: occurs_def)

lemma occurs_refl [simp]: "occurs s s"
  unfolding occurs_def by (metis append_Nil append_Nil2)

lemma occurs_appendI: "occurs pat a \<Longrightarrow> occurs pat (a @ b)" "occurs pat b \<Longrightarrow> occurs pat (a @ b)"
  unfolding occurs_def by (metis append.assoc)+

text \<open>A pattern without the separator lies on one side of it.\<close>

lemma occurs_split:
  assumes "x \<notin> set pat"
  shows "occurs pat (a @ x # b) \<longleftrightarrow> occurs pat a \<or> occurs pat b"
proof
  assume "occurs pat (a @ x # b)"
  then obtain u v where uv: "a @ x # b = u @ pat @ v" by (auto simp: occurs_def)
  show "occurs pat a \<or> occurs pat b"
  proof (cases "length u + length pat \<le> length a")
    case True
    have "take (length u + length pat) (a @ x # b) = u @ pat" by (simp add: uv)
    then have "take (length u + length pat) a = u @ pat" using True by simp
    then have "a = u @ pat @ drop (length u + length pat) a" by (metis append.assoc append_take_drop_id)
    then show ?thesis unfolding occurs_def by blast
  next
    case False
    have "\<not> length u \<le> length a"
    proof
      assume l: "length u \<le> length a"
      have lt: "length a - length u < length pat" using l False by linarith
      have "(u @ pat @ v) ! length a = x" by (simp flip: uv)
      then have "pat ! (length a - length u) = x" using l lt by (simp add: nth_append)
      moreover note lt
      ultimately show False using assms by (metis nth_mem)
    qed
    then have l: "length a < length u" by simp
    have "drop (Suc (length a)) (a @ x # b) = drop (Suc (length a)) u @ pat @ v"
      using l by (simp add: uv)
    then have "b = drop (Suc (length a)) u @ pat @ v" by simp
    then show ?thesis unfolding occurs_def by blast
  qed
next
  assume "occurs pat a \<or> occurs pat b"
  then show "occurs pat (a @ x # b)"
    using occurs_appendI(1) [of pat a "x # b"] occurs_appendI(2) [of pat b "a @ [x]"] by auto
qed

text \<open>What precedes the first character of the pattern does not matter.\<close>

lemma occurs_skip:
  assumes "pat \<noteq> []" "hd pat \<notin> set p"
  shows "occurs pat (p @ s) \<longleftrightarrow> occurs pat s"
  using assms
proof (induction p)
  case Nil
  then show ?case by simp
next
  case (Cons c p)
  have "occurs pat (c # p @ s) \<longleftrightarrow> occurs pat (p @ s)"
  proof
    assume "occurs pat (c # p @ s)"
    then obtain a b where ab: "c # p @ s = a @ pat @ b" by (auto simp: occurs_def)
    have "a \<noteq> []"
    proof
      assume "a = []"
      then have "hd (c # p @ s) = hd (pat @ b)" using ab by simp
      then have "c = hd pat" using Cons.prems(1) by simp
      then show False using Cons.prems(2) by simp
    qed
    then obtain y a' where "a = y # a'" by (cases a) auto
    then show "occurs pat (p @ s)" using ab by (auto simp: occurs_def)
  next
    assume "occurs pat (p @ s)"
    then show "occurs pat (c # p @ s)" using occurs_appendI(2) [of pat "p @ s" "[c]"] by simp
  qed
  then show ?case using Cons by simp
qed

subsection \<open>The entries that fit into one block\<close>

definition stores_caps :: "TAR \<Rightarrow> bool" where
  "stores_caps t \<longleftrightarrow> opt t TAR_STORE_POSIX_CAP \<and> has_cap_data (th_buf t)"

definition users :: "bool \<Rightarrow> bool \<Rightarrow> bool \<Rightarrow> byte list" where
  "users f1 f2 f3 = (if f1 then user_text ANDROID_USER_DEFAULT_TAG else [])
     @ (if f2 then user_text ANDROID_USER_CACHE_TAG else []) @ (if f3 then user_text ANDROID_USER_CODE_CACHE_TAG else [])"

definition stored_users :: "TAR \<Rightarrow> byte list" where
  "stored_users t = (let h = th_buf t; u = opt t TAR_STORE_ANDROID_USER_XATTR
     in users (u \<and> has_user_default h) (u \<and> has_user_cache h) (u \<and> has_user_code_cache h))"

definition ext_text :: "TAR \<Rightarrow> byte list option \<Rightarrow> byte list" where
  "ext_text t context = selinux_text context @ (if stores_caps t then cap_text (th_buf t) else []) @ stored_users t"

lemma fill_replicate: "length e \<le> 511 \<Longrightarrow> snprintf_s (replicate 512 0) 512 e = fill e"
proof -
  assume "length e \<le> 511"
  then have "512 - length e = Suc (511 - length e)" by simp
  then have "replicate (512 - length e) (0 :: byte) = [0] @ replicate (511 - length e) 0" by simp
  then show ?thesis using \<open>length e \<le> 511\<close> by (simp add: snprintf_s_def overwrite_def fill_def)
qed

lemma entry_length [simp]: "length (entry sz text) = length (decimal sz) + length text + 2"
  by (simp add: entry_def)

lemma user_text_length:
  "length (user_text ANDROID_USER_DEFAULT_TAG) = 24" "length (user_text ANDROID_USER_CACHE_TAG) = 28"
  "length (user_text ANDROID_USER_CODE_CACHE_TAG) = 33"
  by (simp_all add: user_text_def decimal_2)

lemma selinux_text_length: "(\<forall>c. context = Some c \<longrightarrow> length c \<le> 300) \<Longrightarrow> length (selinux_text context) \<le> 326"
  using selinux_entry_length by (auto simp: selinux_text_def split: option.split)

lemma cap_text_length: "length (cap_data h) = 20 \<Longrightarrow> length (cap_text h) = 57"
  by (simp add: cap_text_def decimal_2)

lemma users_length: "length (users f1 f2 f3) \<le> 85"
  by (simp add: users_def user_text_length)

lemma ext_text_length:
  assumes "\<forall>c. context = Some c \<longrightarrow> length c \<le> 300" "length (cap_data (th_buf t)) = 20"
  shows "length (ext_text t context) \<le> 468"
proof -
  have "length (stored_users t) \<le> 85" by (simp add: stored_users_def Let_def users_length)
  then show ?thesis
    using selinux_text_length [OF assms(1)] cap_text_length [OF assms(2)] by (simp add: ext_text_def)
qed

lemma and_then_ok [simp]: "and_then (None, st) f = f st"
  by (simp add: and_then_def)

lemma step_user:
  assumes "length c \<le> 450" "length tag = n" "10 \<le> n + 4" "n \<le> 30"
  shows "(if b then and_then (None, t, fill c, length c, w) (put_user_xattr wr tag) else (None, t, fill c, length c, w))
    = (None, t, fill (c @ (if b then user_text tag else [])), length (c @ (if b then user_text tag else [])), w)"
  using put_user_fits [of c tag wr t w] assms by auto

lemma write_entries_fits:
  assumes "\<forall>c. context = Some c \<longrightarrow> length c \<le> 300" "length (cap_data (th_buf t)) = 20"
  shows "write_entries wr t context w = (None, t, fill (ext_text t context), length (ext_text t context), w)"
proof -
  let ?h = "th_buf t" and ?u = "opt t TAR_STORE_ANDROID_USER_XATTR" and ?s = "selinux_text context"
  have ls: "length ?s \<le> 326" by (rule selinux_text_length [OF assms(1)])
  have start: "(case context of Some c \<Rightarrow> let (sz, e) = selinux_entry c in (snprintf_s (replicate 512 0) 512 e, sz)
      | None \<Rightarrow> (replicate 512 0, 0)) = (fill ?s, length ?s)"
  proof (cases "context")
    case None
    then show ?thesis by (simp add: selinux_text_def fill_def)
  next
    case (Some c)
    then have "length c \<le> 300" using assms(1) by simp
    then show ?thesis
      using Some ls selinux_entry_length(1) [of c] by (simp add: selinux_text_def fill_replicate split_def Let_def)
  qed
  define c1 where "c1 = ?s @ (if stores_caps t then cap_text ?h else [])"
  have l1: "length c1 \<le> 383" using ls cap_text_length [OF assms(2)] by (simp add: c1_def)
  have caps: "(if opt t TAR_STORE_POSIX_CAP \<and> has_cap_data ?h
      then and_then (None, t, fill ?s, length ?s, w) (put_capability wr) else (None, t, fill ?s, length ?s, w))
    = (None, t, fill c1, length c1, w)"
    using put_capability_fits [of ?s t wr w] ls assms(2) by (simp add: c1_def stores_caps_def)
  define c2 where "c2 = c1 @ (if ?u \<and> has_user_default ?h then user_text ANDROID_USER_DEFAULT_TAG else [])"
  have l2: "length c2 \<le> 407" using l1 by (simp add: c2_def user_text_length)
  define c3 where "c3 = c2 @ (if ?u \<and> has_user_cache ?h then user_text ANDROID_USER_CACHE_TAG else [])"
  have l3: "length c3 \<le> 435" using l2 by (simp add: c3_def user_text_length)
  have u1: "(if ?u \<and> has_user_default ?h then and_then (None, t, fill c1, length c1, w) (put_user_xattr wr ANDROID_USER_DEFAULT_TAG)
      else (None, t, fill c1, length c1, w)) = (None, t, fill c2, length c2, w)"
    unfolding c2_def by (rule step_user [where n = 20]) (use l1 in simp_all)
  have u2: "(if ?u \<and> has_user_cache ?h then and_then (None, t, fill c2, length c2, w) (put_user_xattr wr ANDROID_USER_CACHE_TAG)
      else (None, t, fill c2, length c2, w)) = (None, t, fill c3, length c3, w)"
    unfolding c3_def by (rule step_user [where n = 24]) (use l2 in simp_all)
  let ?c4 = "c3 @ (if ?u \<and> has_user_code_cache ?h then user_text ANDROID_USER_CODE_CACHE_TAG else [])"
  have u3: "(if ?u \<and> has_user_code_cache ?h then and_then (None, t, fill c3, length c3, w) (put_user_xattr wr ANDROID_USER_CODE_CACHE_TAG)
      else (None, t, fill c3, length c3, w)) = (None, t, fill ?c4, length ?c4, w)"
    by (rule step_user [where n = 29]) (use l3 in simp_all)
  have "ext_text t context = ?c4"
    by (simp add: ext_text_def c3_def c2_def c1_def stored_users_def users_def Let_def)
  then show ?thesis
    unfolding write_entries_def Let_def start [unfolded Let_def] prod.case caps u1 u2 u3 by (simp only:)
qed

subsection \<open>Finding the entries again\<close>

lemma occurs_entry:
  assumes "pat \<noteq> []" "0x0a \<notin> set pat" "0x39 < hd pat"
  shows "occurs pat (entry sz text @ r) \<longleftrightarrow> occurs pat text \<or> occurs pat r"
proof -
  have "hd pat \<notin> set (decimal sz @ [0x20])"
    using assms(3) decimal_digits [of "hd pat" sz] by (auto simp: word_less_nat_alt word_le_nat_alt)
  then have "occurs pat ((decimal sz @ [0x20]) @ text) = occurs pat text" by (rule occurs_skip [OF assms(1)])
  then have t: "occurs pat (decimal sz @ 0x20 # text) = occurs pat text" by simp
  have "entry sz text @ r = (decimal sz @ 0x20 # text) @ 0x0a # r" by (simp add: entry_def)
  then show ?thesis using occurs_split [OF assms(2), of "decimal sz @ 0x20 # text" r] t by simp
qed

lemma tag_facts [simp]:
  "SELINUX_TAG \<noteq> []" "CAPABILITIES_TAG \<noteq> []" "ANDROID_USER_DEFAULT_TAG \<noteq> []" "ANDROID_USER_CACHE_TAG \<noteq> []"
  "ANDROID_USER_CODE_CACHE_TAG \<noteq> []" "0x0a \<notin> set SELINUX_TAG" "0x0a \<notin> set CAPABILITIES_TAG"
  "0x0a \<notin> set ANDROID_USER_DEFAULT_TAG" "0x0a \<notin> set ANDROID_USER_CACHE_TAG" "0x0a \<notin> set ANDROID_USER_CODE_CACHE_TAG"
  "0x39 < hd SELINUX_TAG" "0x39 < hd CAPABILITIES_TAG" "0x39 < hd ANDROID_USER_DEFAULT_TAG"
  "0x39 < hd ANDROID_USER_CACHE_TAG" "0x39 < hd ANDROID_USER_CODE_CACHE_TAG"
  by (simp_all add: tag_defs str_def)

lemma tag_nul [simp]: "0 \<notin> set SELINUX_TAG" "0 \<notin> set CAPABILITIES_TAG" "0 \<notin> set ANDROID_USER_DEFAULT_TAG"
  "0 \<notin> set ANDROID_USER_CACHE_TAG" "0 \<notin> set ANDROID_USER_CODE_CACHE_TAG"
  by (simp_all add: tag_defs str_def)

lemma tag_heads: "hd SELINUX_TAG = 0x52" "hd CAPABILITIES_TAG = 0x53" "hd ANDROID_USER_DEFAULT_TAG = 0x41"
  "hd ANDROID_USER_CACHE_TAG = 0x41" "hd ANDROID_USER_CODE_CACHE_TAG = 0x41"
  by (simp_all add: tag_defs str_def)

lemma occurs_Nil [simp]: "occurs pat [] \<longleftrightarrow> pat = []"
  by (auto simp: occurs_def)

lemma occurs_tags:
  "\<not> occurs ANDROID_USER_DEFAULT_TAG ANDROID_USER_CACHE_TAG" "\<not> occurs ANDROID_USER_DEFAULT_TAG ANDROID_USER_CODE_CACHE_TAG"
  "\<not> occurs ANDROID_USER_CACHE_TAG ANDROID_USER_DEFAULT_TAG" "\<not> occurs ANDROID_USER_CACHE_TAG ANDROID_USER_CODE_CACHE_TAG"
  "\<not> occurs ANDROID_USER_CODE_CACHE_TAG ANDROID_USER_DEFAULT_TAG" "\<not> occurs ANDROID_USER_CODE_CACHE_TAG ANDROID_USER_CACHE_TAG"
  "\<not> occurs SELINUX_TAG ANDROID_USER_DEFAULT_TAG" "\<not> occurs SELINUX_TAG ANDROID_USER_CACHE_TAG"
  "\<not> occurs SELINUX_TAG ANDROID_USER_CODE_CACHE_TAG" "\<not> occurs CAPABILITIES_TAG ANDROID_USER_DEFAULT_TAG"
  "\<not> occurs CAPABILITIES_TAG ANDROID_USER_CACHE_TAG" "\<not> occurs CAPABILITIES_TAG ANDROID_USER_CODE_CACHE_TAG"
  unfolding strstr_none [symmetric] by (simp_all add: strstr_def tag_defs str_def)

lemma occurs_users:
  "occurs ANDROID_USER_DEFAULT_TAG (users f1 f2 f3) = f1" "occurs ANDROID_USER_CACHE_TAG (users f1 f2 f3) = f2"
  "occurs ANDROID_USER_CODE_CACHE_TAG (users f1 f2 f3) = f3" "\<not> occurs SELINUX_TAG (users f1 f2 f3)"
  "\<not> occurs CAPABILITIES_TAG (users f1 f2 f3)"
  using occurs_entry [of _ _ _ "[]"]
  by (auto simp: users_def user_text_def occurs_entry occurs_tags)

text \<open>The contexts that are stored: short, without the separators of the format and without the capital
  letters that start the other tags.\<close>

definition plain_context :: "byte list \<Rightarrow> bool" where
  "plain_context c \<longleftrightarrow> length c \<le> 300 \<and> set c \<inter> {0, 0x0a, 0x41, 0x53} = {}"

lemma selinux_text_entry: "\<exists>sz. selinux_text (Some c) = entry sz (SELINUX_TAG @ c)"
  by (auto simp: selinux_text_def selinux_entry_def Let_def entry_def str_def)

lemma occurs_context:
  assumes "plain_context c"
  shows "\<not> occurs CAPABILITIES_TAG (SELINUX_TAG @ c)" "\<not> occurs ANDROID_USER_DEFAULT_TAG (SELINUX_TAG @ c)"
    "\<not> occurs ANDROID_USER_CACHE_TAG (SELINUX_TAG @ c)" "\<not> occurs ANDROID_USER_CODE_CACHE_TAG (SELINUX_TAG @ c)"
proof -
  have s: "set SELINUX_TAG \<inter> {0x41, 0x53} = {}" by (simp add: tag_defs str_def)
  have *: "\<not> occurs pat (SELINUX_TAG @ c)" if "pat \<noteq> []" "hd pat \<in> {0x41, 0x53}" for pat
  proof
    assume "occurs pat (SELINUX_TAG @ c)"
    then have "set pat \<subseteq> set SELINUX_TAG \<union> set c" using occurs_char by fastforce
    then have "hd pat \<in> set SELINUX_TAG \<union> set c" using that(1) by (meson hd_in_set subsetD)
    then show False using that(2) s assms unfolding plain_context_def by blast
  qed
  show "\<not> occurs CAPABILITIES_TAG (SELINUX_TAG @ c)" "\<not> occurs ANDROID_USER_DEFAULT_TAG (SELINUX_TAG @ c)"
    "\<not> occurs ANDROID_USER_CACHE_TAG (SELINUX_TAG @ c)" "\<not> occurs ANDROID_USER_CODE_CACHE_TAG (SELINUX_TAG @ c)"
    by (rule *; simp add: tag_heads)+
qed

text \<open>A context entry in front hides nothing.\<close>

lemma occurs_selinux_text:
  assumes "\<forall>c. context = Some c \<longrightarrow> plain_context c"
  shows "occurs CAPABILITIES_TAG (selinux_text context @ r) = occurs CAPABILITIES_TAG r"
    "occurs ANDROID_USER_DEFAULT_TAG (selinux_text context @ r) = occurs ANDROID_USER_DEFAULT_TAG r"
    "occurs ANDROID_USER_CACHE_TAG (selinux_text context @ r) = occurs ANDROID_USER_CACHE_TAG r"
    "occurs ANDROID_USER_CODE_CACHE_TAG (selinux_text context @ r) = occurs ANDROID_USER_CODE_CACHE_TAG r"
proof -
  have *: "occurs pat (selinux_text context @ r) = occurs pat r"
    if "pat \<noteq> []" "0x0a \<notin> set pat" "0x39 < hd pat" "\<And>c. plain_context c \<Longrightarrow> \<not> occurs pat (SELINUX_TAG @ c)" for pat
  proof (cases "context")
    case None
    then show ?thesis by (simp add: selinux_text_def)
  next
    case (Some c)
    then obtain sz where "selinux_text context = entry sz (SELINUX_TAG @ c)" using selinux_text_entry by blast
    then show ?thesis using occurs_entry [OF that(1-3)] that(4) Some assms by simp
  qed
  show "occurs CAPABILITIES_TAG (selinux_text context @ r) = occurs CAPABILITIES_TAG r"
    "occurs ANDROID_USER_DEFAULT_TAG (selinux_text context @ r) = occurs ANDROID_USER_DEFAULT_TAG r"
    "occurs ANDROID_USER_CACHE_TAG (selinux_text context @ r) = occurs ANDROID_USER_CACHE_TAG r"
    "occurs ANDROID_USER_CODE_CACHE_TAG (selinux_text context @ r) = occurs ANDROID_USER_CODE_CACHE_TAG r"
    by (rule *; simp add: occurs_context)+
qed

text \<open>What the reader's header \<open>g\<close> learns from the entries of \<open>t\<close>. Capabilities hide the user attributes,
  because the string the tags are searched in ends at the first NUL of the capability data; and
  data starting with a NUL is not seen at all.\<close>

definition absorb :: "TAR \<Rightarrow> byte list option \<Rightarrow> tar_header \<Rightarrow> tar_header" where
  "absorb t context g =
     (let h = th_buf t; k = stores_caps t \<and> cap_data h ! 0 \<noteq> 0;
          u = opt t TAR_STORE_ANDROID_USER_XATTR \<and> \<not> stores_caps t
      in g\<lparr>selinux_context := (case context of None \<Rightarrow> selinux_context g | Some c \<Rightarrow> Some (c @ [0])),
           has_cap_data := has_cap_data g \<or> k, cap_data := (if k then cap_data h else cap_data g),
           has_user_default := has_user_default g \<or> u \<and> has_user_default h,
           has_user_cache := has_user_cache g \<or> u \<and> has_user_cache h,
           has_user_code_cache := has_user_code_cache g \<or> u \<and> has_user_code_cache h\<rparr>)"

definition ext_ok :: "TAR \<Rightarrow> byte list option \<Rightarrow> bool" where
  "ext_ok t context \<longleftrightarrow> (\<forall>c. context = Some c \<longrightarrow> plain_context c) \<and> length (cap_data (th_buf t)) = 20
     \<and> (stores_caps t \<longrightarrow> 0 \<in> set (cap_data (th_buf t)))"

text \<open>The part of the block that the tags are searched in: what follows the context.\<close>

definition seen :: "TAR \<Rightarrow> byte list" where
  "seen t = (if stores_caps t then (decimal 57 @ 0x20 # CAPABILITIES_TAG) @ takeWhile (\<lambda>c. c \<noteq> 0) (cap_data (th_buf t))
     else stored_users t)"

lemma decimal_no [simp]: "c \<notin> {0x30 .. 0x39} \<Longrightarrow> c \<notin> set (decimal n)"
  using decimal_digits by auto

lemma prefix_shorter: "0 \<in> set xs \<Longrightarrow> length (takeWhile (\<lambda>c. c \<noteq> (0 :: byte)) xs) < length xs"
  by (induction xs) auto

lemma nz_append: "0 \<notin> set xs \<Longrightarrow> takeWhile (\<lambda>c. c \<noteq> (0 :: byte)) (xs @ ys) = xs @ takeWhile (\<lambda>c. c \<noteq> 0) ys"
  by (induction xs) auto

lemma users_nul: "0 \<notin> set (users f1 f2 f3)"
  by (auto simp: users_def user_text_def entry_def)

lemma selinux_text_chars:
  assumes "\<forall>c. context = Some c \<longrightarrow> plain_context c"
  shows "0 \<notin> set (selinux_text context)" "0x53 \<notin> set (selinux_text context)"
proof -
  have "set SELINUX_TAG \<inter> {0, 0x53} = {}" by (simp add: tag_defs str_def)
  then have "x \<notin> set (selinux_text context)" if "x \<in> {0, 0x53}" for x
  proof (cases "context")
    case None
    then show ?thesis by (simp add: selinux_text_def)
  next
    case (Some c)
    then obtain sz where e: "selinux_text context = entry sz (SELINUX_TAG @ c)" using selinux_text_entry by blast
    have "set c \<inter> {0, 0x0a, 0x41, 0x53} = {}" using assms Some by (simp add: plain_context_def)
    then show ?thesis
      using that \<open>set SELINUX_TAG \<inter> {0, 0x53} = {}\<close> unfolding e entry_def by (auto simp: disjoint_iff)
  qed
  then show "0 \<notin> set (selinux_text context)" "0x53 \<notin> set (selinux_text context)" by blast+
qed

lemma searched_string:
  assumes "ext_ok t context"
  shows "takeWhile (\<lambda>c. c \<noteq> 0) (fill (ext_text t context)) = selinux_text context @ seen t"
proof -
  have pc: "\<forall>c. context = Some c \<longrightarrow> plain_context c" and lc: "length (cap_data (th_buf t)) = 20"
    using assms by (auto simp: ext_ok_def)
  have l: "length (ext_text t context) \<le> 468"
    by (rule ext_text_length) (use pc lc in \<open>auto simp: plain_context_def\<close>)
  let ?nz = "\<lambda>c :: byte. c \<noteq> 0" and ?d = "cap_data (th_buf t)"
  have s0: "\<forall>x \<in> set (selinux_text context). x \<noteq> 0" using selinux_text_chars(1) [OF pc] by auto
  show ?thesis
  proof (cases "stores_caps t")
    case True
    then have "0 \<in> set ?d" using assms by (simp add: ext_ok_def)
    then have d: "takeWhile ?nz (?d @ r) = takeWhile ?nz ?d" for r
      using takeWhile_append1 [of 0 ?d ?nz r] by simp
    have "fill (ext_text t context) = selinux_text context @ (decimal 57 @ 0x20 # CAPABILITIES_TAG)
        @ ?d @ [0x0a] @ stored_users t @ replicate (512 - length (ext_text t context)) 0"
      using True by (simp add: fill_def ext_text_def cap_text_def entry_def)
    moreover have "0 \<notin> set (decimal 57 @ 0x20 # CAPABILITIES_TAG)" by simp
    ultimately show ?thesis
      using selinux_text_chars(1) [OF pc] d True by (simp only: nz_append seen_def if_True not_False_eq_True)
  next
    case False
    have n: "\<forall>x \<in> set (ext_text t context). x \<noteq> 0"
      using s0 users_nul False by (auto simp: ext_text_def stored_users_def Let_def)
    have "0 < 512 - length (ext_text t context)" using l by simp
    then obtain k where "512 - length (ext_text t context) = Suc k" by (metis gr0_implies_Suc)
    then have "takeWhile ?nz (fill (ext_text t context)) = ext_text t context"
      using takeWhile_nz [of "ext_text t context" "replicate k 0"] n by (auto simp: fill_def)
    then show ?thesis using False by (simp add: ext_text_def seen_def)
  qed
qed

lemma seen_occurs:
  assumes "ext_ok t context"
  shows "\<not> occurs SELINUX_TAG (seen t)"
    "occurs ANDROID_USER_DEFAULT_TAG (seen t) = (opt t TAR_STORE_ANDROID_USER_XATTR \<and> \<not> stores_caps t \<and> has_user_default (th_buf t))"
    "occurs ANDROID_USER_CACHE_TAG (seen t) = (opt t TAR_STORE_ANDROID_USER_XATTR \<and> \<not> stores_caps t \<and> has_user_cache (th_buf t))"
    "occurs ANDROID_USER_CODE_CACHE_TAG (seen t) = (opt t TAR_STORE_ANDROID_USER_XATTR \<and> \<not> stores_caps t \<and> has_user_code_cache (th_buf t))"
proof -
  let ?d = "takeWhile (\<lambda>c. c \<noteq> 0) (cap_data (th_buf t))"
  have hidden: "\<not> occurs pat (seen t)" if "stores_caps t" "pat \<noteq> []" "hd pat \<in> {0x41, 0x52}" "20 \<le> length pat" for pat
  proof -
    have "0 \<in> set (cap_data (th_buf t))" "length (cap_data (th_buf t)) = 20" using assms that(1) by (simp_all add: ext_ok_def)
    then have "length ?d < 20" using prefix_shorter [of "cap_data (th_buf t)"] by simp
    then have "\<not> occurs pat ?d" using occurs_length [of pat ?d] that(4) by linarith
    moreover have "set CAPABILITIES_TAG \<inter> {0x41, 0x52} = {}" by (simp add: tag_defs str_def)
    then have "hd pat \<notin> set (decimal 57 @ 0x20 # CAPABILITIES_TAG)" using that(3) by auto
    then have "occurs pat ((decimal 57 @ 0x20 # CAPABILITIES_TAG) @ ?d) = occurs pat ?d" by (rule occurs_skip [OF that(2)])
    ultimately show ?thesis using that(1) by (simp only: seen_def if_True) simp
  qed
  have open_: "seen t = stored_users t" if "\<not> stores_caps t" using that by (simp add: seen_def)
  note heads = tag_heads tag_lengths
  show "\<not> occurs SELINUX_TAG (seen t)"
    using hidden [of SELINUX_TAG] open_ occurs_users(4) by (cases "stores_caps t") (simp_all add: heads stored_users_def Let_def)
  show "occurs ANDROID_USER_DEFAULT_TAG (seen t) = (opt t TAR_STORE_ANDROID_USER_XATTR \<and> \<not> stores_caps t \<and> has_user_default (th_buf t))"
    using hidden [of ANDROID_USER_DEFAULT_TAG] open_ by (cases "stores_caps t") (simp_all add: heads stored_users_def Let_def occurs_users)
  show "occurs ANDROID_USER_CACHE_TAG (seen t) = (opt t TAR_STORE_ANDROID_USER_XATTR \<and> \<not> stores_caps t \<and> has_user_cache (th_buf t))"
    using hidden [of ANDROID_USER_CACHE_TAG] open_ by (cases "stores_caps t") (simp_all add: heads stored_users_def Let_def occurs_users)
  show "occurs ANDROID_USER_CODE_CACHE_TAG (seen t) = (opt t TAR_STORE_ANDROID_USER_XATTR \<and> \<not> stores_caps t \<and> has_user_code_cache (th_buf t))"
    using hidden [of ANDROID_USER_CODE_CACHE_TAG] open_ by (cases "stores_caps t") (simp_all add: heads stored_users_def Let_def occurs_users)
qed

lemma seen_caps:
  assumes "ext_ok t context"
  shows "strstr (selinux_text context @ seen t) CAPABILITIES_TAG
    = (if stores_caps t then Some (length (selinux_text context) + 3) else None)"
proof (cases "stores_caps t")
  case True
  have pc: "\<forall>c. context = Some c \<longrightarrow> plain_context c" using assms by (auto simp: ext_ok_def)
  let ?p = "selinux_text context @ decimal 57 @ [0x20]" and ?d = "takeWhile (\<lambda>c. c \<noteq> 0) (cap_data (th_buf t))"
  have "hd CAPABILITIES_TAG \<notin> set ?p" using selinux_text_chars(2) [OF pc] by (simp add: tag_heads)
  then have "strstr (?p @ CAPABILITIES_TAG @ ?d) CAPABILITIES_TAG = Some (length ?p)" by (intro strstr_first) simp_all
  moreover have "length (decimal 57) = 2" by (rule decimal_2) simp_all
  ultimately show ?thesis using True by (simp add: seen_def)
next
  case False
  have "\<not> occurs CAPABILITIES_TAG (seen t)" using False occurs_users(5) by (simp add: seen_def stored_users_def Let_def)
  then show ?thesis
    using occurs_selinux_text(1) [of "context" "seen t"] assms False by (auto simp: strstr_none ext_ok_def)
qed

lemma seen_selinux:
  assumes "ext_ok t context"
  shows "context = None \<Longrightarrow> strstr (selinux_text context @ seen t) SELINUX_TAG = None"
    "context = Some c \<Longrightarrow> \<exists>i. strstr (selinux_text context @ seen t) SELINUX_TAG = Some i
       \<and> drop (i + 21) (selinux_text context @ seen t) = c @ 0x0a # seen t
       \<and> i + 21 < length (selinux_text context @ seen t)"
proof -
  show "strstr (selinux_text context @ seen t) SELINUX_TAG = None" if "context = None"
    using that seen_occurs(1) [OF assms] by (simp add: strstr_none selinux_text_def)
  assume c: "context = Some c"
  then obtain sz where e: "selinux_text context = entry sz (SELINUX_TAG @ c)" using selinux_text_entry by blast
  let ?p = "decimal sz @ [0x20]"
  have "hd SELINUX_TAG \<notin> set ?p" by (simp add: tag_heads)
  then have "strstr (?p @ SELINUX_TAG @ c @ 0x0a # seen t) SELINUX_TAG = Some (length ?p)" by (intro strstr_first) simp_all
  moreover have s: "selinux_text context @ seen t = ?p @ SELINUX_TAG @ c @ 0x0a # seen t" by (simp add: e entry_def)
  moreover have "drop (length ?p + 21) (?p @ SELINUX_TAG @ c @ 0x0a # seen t) = c @ 0x0a # seen t"
    using drop_append [of "21" SELINUX_TAG] by simp
  ultimately show "\<exists>i. strstr (selinux_text context @ seen t) SELINUX_TAG = Some i
       \<and> drop (i + 21) (selinux_text context @ seen t) = c @ 0x0a # seen t
       \<and> i + 21 < length (selinux_text context @ seen t)"
    unfolding s by (intro exI [of _ "length ?p"]) simp
qed

text \<open>The steps of the parser, one per tag.\<close>

lemma cap_step:
  assumes "ext_ok t context"
  shows "(case strstr (selinux_text context @ seen t) CAPABILITIES_TAG of
       None \<Rightarrow> Some g
     | Some start \<Rightarrow>
         if start + length CAPABILITIES_TAG < length (selinux_text context @ seen t) then
           let start = start + length CAPABILITIES_TAG
           in if start + 20 > 512 then None
              else Some (g\<lparr>cap_data := take 20 (drop start (fill (ext_text t context))), has_cap_data := True\<rparr>)
         else Some g)
    = Some (if stores_caps t \<and> cap_data (th_buf t) ! 0 \<noteq> 0
            then g\<lparr>cap_data := cap_data (th_buf t), has_cap_data := True\<rparr> else g)"
proof (cases "stores_caps t")
  case False
  then show ?thesis by (simp add: seen_caps [OF assms])
next
  case True
  let ?s = "selinux_text context" and ?d = "cap_data (th_buf t)"
  have pc: "\<forall>c. context = Some c \<longrightarrow> plain_context c" and l: "length ?d = 20" using assms by (auto simp: ext_ok_def)
  have ls: "length ?s \<le> 326" by (rule selinux_text_length) (use pc in \<open>auto simp: plain_context_def\<close>)
  have d2: "length (decimal 57) = 2" by (rule decimal_2) simp_all
  have len: "length (?s @ seen t) = length ?s + 36 + length (takeWhile (\<lambda>c. c \<noteq> 0) ?d)" using True d2 by (simp add: seen_def)
  have "?d \<noteq> []" using l by auto
  then have nz: "length (takeWhile (\<lambda>c. c \<noteq> 0) ?d) > 0 \<longleftrightarrow> ?d ! 0 \<noteq> 0" by (cases ?d) auto
  have "fill (ext_text t context) = (?s @ decimal 57 @ [0x20] @ CAPABILITIES_TAG)
      @ ?d @ [0x0a] @ stored_users t @ replicate (512 - length (ext_text t context)) 0"
    using True by (simp add: fill_def ext_text_def cap_text_def entry_def)
  moreover have "length (?s @ decimal 57 @ [0x20] @ CAPABILITIES_TAG) = length ?s + 36" using d2 by simp
  ultimately have cut: "take 20 (drop (length ?s + 36) (fill (ext_text t context))) = ?d"
    using l by (metis append_eq_conv_conj)
  show ?thesis
    using True nz ls cut unfolding seen_caps [OF assms] len by (auto simp: Let_def add.commute)
qed

lemma selinux_step:
  assumes "ext_ok t context"
  shows "(case strstr (selinux_text context @ seen t) SELINUX_TAG of
       None \<Rightarrow> g
     | Some start \<Rightarrow>
         if start + length SELINUX_TAG < length (selinux_text context @ seen t) then
           let start = start + length SELINUX_TAG
           in case strchr (drop start (selinux_text context @ seen t)) 0x0a of
                None \<Rightarrow> g
              | Some n \<Rightarrow> g\<lparr>selinux_context := Some (take n (drop start (selinux_text context @ seen t)) @ [0])\<rparr>
         else g)
    = g\<lparr>selinux_context := (case context of None \<Rightarrow> selinux_context g | Some c \<Rightarrow> Some (c @ [0]))\<rparr>"
proof (cases "context")
  case None
  then show ?thesis using seen_selinux(1) [OF assms] by simp
next
  case (Some c)
  obtain i where i: "strstr (selinux_text context @ seen t) SELINUX_TAG = Some i"
    "drop (i + 21) (selinux_text context @ seen t) = c @ 0x0a # seen t"
    "i + 21 < length (selinux_text context @ seen t)"
    using seen_selinux(2) [OF assms Some] by blast
  have "plain_context c" using assms Some by (simp add: ext_ok_def)
  then have "strchr (c @ 0x0a # seen t) 0x0a = Some (length c)"
    by (intro strchr_first) (auto simp: plain_context_def)
  then show ?thesis unfolding i(1) option.case Let_def tag_lengths i(2) using i(3) Some by simp
qed

lemma flag_updates:
  "(let h = g\<lparr>selinux_context := s\<rparr>; h = (if b1 then h\<lparr>has_user_default := True\<rparr> else h);
        h = (if b2 then h\<lparr>has_user_cache := True\<rparr> else h); h = (if b3 then h\<lparr>has_user_code_cache := True\<rparr> else h)
    in Some h)
   = Some (g\<lparr>selinux_context := s, has_user_default := has_user_default g \<or> b1,
      has_user_cache := has_user_cache g \<or> b2, has_user_code_cache := has_user_code_cache g \<or> b3\<rparr>)"
  by (cases g; cases b1; cases b2; cases b3) (simp_all only: Let_def if_True if_False tar_header.simps simp_thms)

lemma cap_update:
  "Some ((if k then g\<lparr>cap_data := d, has_cap_data := True\<rparr> else g)
      \<lparr>selinux_context := (case c of None \<Rightarrow> selinux_context (if k then g\<lparr>cap_data := d, has_cap_data := True\<rparr> else g) | Some c \<Rightarrow> Some (c @ [0])),
       has_user_default := has_user_default (if k then g\<lparr>cap_data := d, has_cap_data := True\<rparr> else g) \<or> u \<and> v \<and> b1,
       has_user_cache := has_user_cache (if k then g\<lparr>cap_data := d, has_cap_data := True\<rparr> else g) \<or> u \<and> v \<and> b2,
       has_user_code_cache := has_user_code_cache (if k then g\<lparr>cap_data := d, has_cap_data := True\<rparr> else g) \<or> u \<and> v \<and> b3\<rparr>)
   = Some (g\<lparr>selinux_context := (case c of None \<Rightarrow> selinux_context g | Some c \<Rightarrow> Some (c @ [0])),
      has_cap_data := has_cap_data g \<or> k, cap_data := (if k then d else cap_data g),
      has_user_default := has_user_default g \<or> (u \<and> v) \<and> b1, has_user_cache := has_user_cache g \<or> (u \<and> v) \<and> b2,
      has_user_code_cache := has_user_code_cache g \<or> (u \<and> v) \<and> b3\<rparr>)"
  by (cases g; cases k) (simp_all only: if_True if_False tar_header.simps simp_thms conj_assoc)

lemma parse_fill:
  assumes "ext_ok t context"
  shows "parse_extended (fill (ext_text t context)) g = Some (absorb t context g)"
proof -
  have pc: "\<forall>c. context = Some c \<longrightarrow> plain_context c" using assms by (auto simp: ext_ok_def)
  have u: "(strstr (selinux_text context @ seen t) ANDROID_USER_DEFAULT_TAG \<noteq> None)
      = (opt t TAR_STORE_ANDROID_USER_XATTR \<and> \<not> stores_caps t \<and> has_user_default (th_buf t))"
    "(strstr (selinux_text context @ seen t) ANDROID_USER_CACHE_TAG \<noteq> None)
      = (opt t TAR_STORE_ANDROID_USER_XATTR \<and> \<not> stores_caps t \<and> has_user_cache (th_buf t))"
    "(strstr (selinux_text context @ seen t) ANDROID_USER_CODE_CACHE_TAG \<noteq> None)
      = (opt t TAR_STORE_ANDROID_USER_XATTR \<and> \<not> stores_caps t \<and> has_user_code_cache (th_buf t))"
    using occurs_selinux_text(2-4) [OF pc, of "seen t"] seen_occurs(2-4) [OF assms] by (simp_all only: strstr_none not_not)
  let ?k = "if stores_caps t \<and> cap_data (th_buf t) ! 0 \<noteq> 0
      then g\<lparr>cap_data := cap_data (th_buf t), has_cap_data := True\<rparr> else g"
  have "parse_extended (fill (ext_text t context)) g =
    (let h = ?k\<lparr>selinux_context := (case context of None \<Rightarrow> selinux_context ?k | Some c \<Rightarrow> Some (c @ [0]))\<rparr>;
         h = (if opt t TAR_STORE_ANDROID_USER_XATTR \<and> \<not> stores_caps t \<and> has_user_default (th_buf t)
              then h\<lparr>has_user_default := True\<rparr> else h);
         h = (if opt t TAR_STORE_ANDROID_USER_XATTR \<and> \<not> stores_caps t \<and> has_user_cache (th_buf t)
              then h\<lparr>has_user_cache := True\<rparr> else h);
         h = (if opt t TAR_STORE_ANDROID_USER_XATTR \<and> \<not> stores_caps t \<and> has_user_code_cache (th_buf t)
              then h\<lparr>has_user_code_cache := True\<rparr> else h)
     in Some h)"
    unfolding parse_extended_def searched_string [OF assms] Let_def [of "selinux_text context @ seen t"]
      Let_def [of "_ :: tar_header option"] cap_step [OF assms] option.case selinux_step [OF assms] u
    by (rule refl)
  also note flag_updates
  also note cap_update
  finally show ?thesis by (simp only: absorb_def Let_def)
qed

subsection \<open>Writing a member\<close>

text \<open>Finishing a header sets three fields, and their old values do not matter. The size field of a
  header to be written holds an encoded number.\<close>

definition refinished :: "TAR \<Rightarrow> TAR \<Rightarrow> bool" where
  "refinished t t' \<longleftrightarrow> (\<exists>m v c. length m = 6 \<and> length v = 2 \<and> length c = 8
     \<and> t' = t\<lparr>th_buf := (th_buf t)\<lparr>th_magic := m, th_version := v, th_chksum := c\<rparr>\<rparr>)"

definition sized :: "TAR \<Rightarrow> bool" where
  "sized t \<longleftrightarrow> (\<exists>n. th_size (th_buf t) = int_to_oct_ex n 12)"

lemma refinished_self: "th_wf (th_buf t) \<Longrightarrow> refinished t t"
  unfolding refinished_def
  by (rule exI [of _ "th_magic (th_buf t)"], rule exI [of _ "th_version (th_buf t)"],
      rule exI [of _ "th_chksum (th_buf t)"]) (simp add: th_wf_def)

lemma refinished_trans: "refinished t t' \<Longrightarrow> refinished t' t'' \<Longrightarrow> refinished t t''"
  unfolding refinished_def by fastforce

lemma refinished_keeps:
  assumes "refinished t t'"
  shows "th_wf (th_buf t) \<Longrightarrow> th_wf (th_buf t')" "sized t' = sized t" "opt t' = opt t"
    "gnu_longname (th_buf t') = gnu_longname (th_buf t)" "gnu_longlink (th_buf t') = gnu_longlink (th_buf t)"
    "selinux_context (th_buf t') = selinux_context (th_buf t)" "ext_text t' c = ext_text t c"
    "cap_data (th_buf t') = cap_data (th_buf t)" "tar_fd t' = tar_fd t"
proof -
  obtain m v c' where l: "length m = 6" "length v = 2" "length c' = 8"
    and t': "t' = t\<lparr>th_buf := (th_buf t)\<lparr>th_magic := m, th_version := v, th_chksum := c'\<rparr>\<rparr>"
    using assms unfolding refinished_def by blast
  show "opt t' = opt t" by (simp add: fun_eq_iff t')
  show "ext_text t' c = ext_text t c"
    by (simp add: t' ext_text_def stores_caps_def stored_users_def cap_text_def Let_def)
  show "sized t' = sized t" "gnu_longname (th_buf t') = gnu_longname (th_buf t)"
    "gnu_longlink (th_buf t') = gnu_longlink (th_buf t)"
    "selinux_context (th_buf t') = selinux_context (th_buf t)" "cap_data (th_buf t') = cap_data (th_buf t)"
    "tar_fd t' = tar_fd t" by (simp_all add: t' sized_def)
  show "th_wf (th_buf t')" if "th_wf (th_buf t)"
    unfolding t' using l that by (simp add: th_wf_def)
qed

lemma th_buf_updates: "th_buf (t\<lparr>th_buf := h\<rparr>) = h" "t\<lparr>th_buf := h, th_buf := h'\<rparr> = t\<lparr>th_buf := h'\<rparr>"
  by simp_all

lemma version_magic: "(h :: tar_header)\<lparr>th_version := v, th_magic := m\<rparr> = h\<lparr>th_magic := m, th_version := v\<rparr>"
  by (cases h) (simp only: tar_header.simps)

lemma strncpy_full: "length d = n \<Longrightarrow> strncpy d s n = take n (s @ replicate n 0)"
  by (simp add: strncpy_def overwrite_def)

lemma th_finish_form:
  assumes "th_wf (th_buf t)"
  shows "th_finish t = (let m = take 6 (str (if opt t TAR_GNU then ''ustar '' else ''ustar'') @ replicate 6 0);
      v = take 2 (str (if opt t TAR_GNU then '' '' else ''00'') @ replicate 2 0);
      h = (th_buf t)\<lparr>th_magic := m, th_version := v\<rparr>
    in t\<lparr>th_buf := h\<lparr>th_chksum := int_to_oct (of_int (th_crc_calc h)) 8\<rparr>\<rparr>)"
proof -
  have "length (th_magic (th_buf t)) = 6" "length (th_version (th_buf t)) = 2" using assms by (simp_all add: th_wf_def)
  note full = this [THEN strncpy_full]
  show ?thesis
    unfolding th_finish_def Let_def full version_magic
    by (cases "opt t TAR_GNU") (simp_all only: if_True if_False)
qed

lemma refinished_finish: "th_wf (th_buf t) \<Longrightarrow> refinished t (th_finish t)"
  unfolding refinished_def th_finish_form Let_def
  by (rule exI, rule exI, rule exI, rule conjI [rotated], rule conjI [rotated], rule conjI [rotated], rule refl) simp_all

lemma finish_refinished:
  assumes wf: "th_wf (th_buf t)" and r: "refinished t t'"
  shows "th_finish t' = th_finish t"
proof -
  obtain m v c where l: "length c = 8" and t': "t' = t\<lparr>th_buf := (th_buf t)\<lparr>th_magic := m, th_version := v, th_chksum := c\<rparr>\<rparr>"
    using r unfolding refinished_def by blast
  let ?m = "take 6 (str (if opt t TAR_GNU then ''ustar '' else ''ustar'') @ replicate 6 0)"
  let ?v = "take 2 (str (if opt t TAR_GNU then '' '' else ''00'') @ replicate 2 0)"
  let ?h = "(th_buf t)\<lparr>th_magic := ?m, th_version := ?v\<rparr>"
  have wf': "th_wf (th_buf t')" by (rule refinished_keeps(1) [OF r wf])
  have h: "(th_buf t')\<lparr>th_magic := ?m, th_version := ?v\<rparr> = ?h\<lparr>th_chksum := c\<rparr>"
    unfolding t' by (cases "th_buf t") (simp only: th_buf_updates tar_header.simps)
  have "th_wf ?h" using wf by (simp add: th_wf_def)
  then have "th_crc_calc (?h\<lparr>th_chksum := c\<rparr>) = th_crc_calc ?h" by (rule th_crc_calc_indep [OF _ l])
  then show ?thesis
    unfolding th_finish_form [OF wf] th_finish_form [OF wf'] Let_def refinished_keeps(3) [OF r] h
    by (simp add: t')
qed

lemma fake_refinished:
  assumes wf: "th_wf (th_buf t)" and r: "refinished t t'"
  shows "fake_header t' ty sz = fake_header t ty sz"
proof -
  obtain m v c where l: "length m = 6" "length v = 2" "length c = 8"
    and t': "t' = t\<lparr>th_buf := (th_buf t)\<lparr>th_magic := m, th_version := v, th_chksum := c\<rparr>\<rparr>"
    using r unfolding refinished_def by blast
  let ?f = "t\<lparr>th_buf := th_set_size ((th_buf t)\<lparr>th_typeflag := ty\<rparr>) sz\<rparr>"
  have "t'\<lparr>th_buf := th_set_size ((th_buf t')\<lparr>th_typeflag := ty\<rparr>) sz\<rparr>
      = ?f\<lparr>th_buf := (th_buf ?f)\<lparr>th_magic := m, th_version := v, th_chksum := c\<rparr>\<rparr>"
    unfolding t' th_set_size_def by (cases "th_buf t") (simp only: th_buf_updates tar_header.simps)
  then have "refinished ?f (t'\<lparr>th_buf := th_set_size ((th_buf t')\<lparr>th_typeflag := ty\<rparr>) sz\<rparr>)"
    unfolding refinished_def using l by blast
  moreover have "th_wf (th_buf ?f)" using wf by (simp add: wf_set)
  ultimately show ?thesis unfolding fake_header_def by (rule finish_refinished [rotated])
qed

lemma restore_form:
  "(h :: tar_header)\<lparr>th_typeflag := ty, th_size := s, th_magic := m, th_version := v, th_chksum := c,
      th_typeflag := th_typeflag h, th_size := th_size h\<rparr> = h\<lparr>th_magic := m, th_version := v, th_chksum := c\<rparr>"
  by (cases h) (simp only: tar_header.simps)

lemma restore_fake:
  assumes wf: "th_wf (th_buf t)" and s: "sized t"
  shows "refinished t (restore_header (fake_header t ty sz) (th_typeflag (th_buf t)) (th_get_size (th_buf t)))"
proof -
  obtain n where n: "th_size (th_buf t) = int_to_oct_ex n 12" using s by (auto simp: sized_def)
  then have "th_set_size (th_buf t) n = th_buf t" by (simp add: th_set_size_def)
  then have g: "th_get_size (th_buf t) = n" using th_get_set_size [OF wf, of n] by simp
  let ?f = "t\<lparr>th_buf := th_set_size ((th_buf t)\<lparr>th_typeflag := ty\<rparr>) sz\<rparr>"
  have "th_wf (th_buf ?f)" using wf by (simp add: wf_set)
  then obtain m v c where l: "length m = 6" "length v = 2" "length c = 8"
    and f: "th_finish ?f = ?f\<lparr>th_buf := (th_buf ?f)\<lparr>th_magic := m, th_version := v, th_chksum := c\<rparr>\<rparr>"
    using refinished_finish unfolding refinished_def by blast
  have "restore_header (fake_header t ty sz) (th_typeflag (th_buf t)) (th_get_size (th_buf t))
      = t\<lparr>th_buf := (th_buf t)\<lparr>th_magic := m, th_version := v, th_chksum := c\<rparr>\<rparr>"
    unfolding restore_header_def fake_header_def f unfolding g th_set_size_def n [symmetric] th_buf_updates restore_form ..
  then show ?thesis unfolding refinished_def using l by blast
qed

definition long_blocks :: "TAR \<Rightarrow> byte \<Rightarrow> byte list option \<Rightarrow> byte list" where
  "long_blocks t ty name = (case name of None \<Rightarrow> []
     | Some s \<Rightarrow> block_of (th_buf (fake_header t ty (of_nat (length s)))) @ pad512 s)"

definition ext_blocks :: "TAR \<Rightarrow> byte list option \<Rightarrow> byte list" where
  "ext_blocks t context = (if ext_text t context = [] then []
     else block_of (th_buf (fake_header t TH_EXT_TYPE (of_nat (length (ext_text t context)))))
       @ fill (ext_text t context))"

definition member_blocks :: "TAR \<Rightarrow> byte list option \<Rightarrow> byte list option \<Rightarrow> byte list option \<Rightarrow> byte list" where
  "member_blocks t link name context =
     long_blocks t GNU_LONGLINK_TYPE link @ long_blocks t GNU_LONGNAME_TYPE name @ ext_blocks t context
     @ block_of (th_buf (th_finish t))"

text \<open>A handle set up for a member: \<open>link\<close>, \<open>name\<close> and \<open>context\<close> are the strings its header points to
  that its options make \<^verbatim>\<open>th_write\<close> store.\<close>

definition long_ok :: "byte list option \<Rightarrow> bool" where
  "long_ok name \<longleftrightarrow> (\<forall>s. name = Some s \<longrightarrow> s \<noteq> [] \<and> 0 \<notin> set s \<and> length s < 2 ^ 39)"

definition text_mem :: "byte list option \<Rightarrow> byte list option" where
  "text_mem = map_option (\<lambda>s. s @ [0])"

definition member_ok :: "TAR \<Rightarrow> byte list option \<Rightarrow> byte list option \<Rightarrow> byte list option \<Rightarrow> bool" where
  "member_ok t link name context \<longleftrightarrow> th_wf (th_buf t) \<and> sized t \<and> ext_ok t context
     \<and> long_ok link \<and> long_ok name
     \<and> (if opt t TAR_GNU then gnu_longlink (th_buf t) = text_mem link \<and> gnu_longname (th_buf t) = text_mem name
        else link = None \<and> name = None)
     \<and> (if opt t TAR_STORE_SELINUX then selinux_context (th_buf t) = text_mem context else context = None)"

lemma ext_ok_length: "ext_ok t context \<Longrightarrow> length (ext_text t context) \<le> 468"
  by (rule ext_text_length) (auto simp: ext_ok_def plain_context_def)

lemma fake_wf: "th_wf (th_buf t) \<Longrightarrow> th_wf (th_buf (fake_header t ty sz))"
  unfolding fake_header_def by (intro conjunct1 [OF th_finish_crc]) (simp add: wf_set)

context tar_sink
begin

lemma long_step:
  assumes fd: "tar_fd t = fd" and g: "good w" and wf: "th_wf (th_buf t)" and s: "sized t" and n: "long_ok name"
  obtains t' w' where "(case text_mem name of Some l \<Rightarrow> write_long wr t ty l w | None \<Rightarrow> Some (None, t, w)) = Some (None, t', w')"
    "refinished t t'" "good w'" "out w' = out w @ long_blocks t ty name"
proof (cases name)
  case None
  then show thesis using that [of t w] refinished_self [OF wf] g by (simp add: text_mem_def long_blocks_def)
next
  case (Some l)
  then have "l \<noteq> []" "0 \<notin> set l" "length l < 2 ^ 40 - 512" using n by (simp_all add: long_ok_def)
  then obtain w' where "write_long wr t ty (l @ [0]) w = Some (None,
      restore_header (fake_header t ty (of_nat (length l))) (th_typeflag (th_buf t)) (th_get_size (th_buf t)), w')"
    "good w'" "out w' = out w @ block_of (th_buf (fake_header t ty (of_nat (length l)))) @ pad512 l"
    using long_written [OF fd g wf] by blast
  then show thesis using that restore_fake [OF wf s] Some by (simp add: text_mem_def long_blocks_def)
qed

lemma extended_written:
  assumes fd: "tar_fd t = fd" and g: "good w" and wf: "th_wf (th_buf t)" and s: "sized t" and b: "length buf = 512" "n < 512"
  obtains t' w' where "th_write_extended wr t buf (of_nat n) w = (None, t', replicate 512 0, w')"
    "refinished t t'" "good w'" "out w' = out w @ block_of (th_buf (fake_header t TH_EXT_TYPE (of_nat n))) @ buf"
proof -
  let ?f = "fake_header t TH_EXT_TYPE (of_nat n)"
  have fdf: "tar_fd ?f = fd" using fd by (simp add: fake_header_def th_finish_def Let_def)
  have "length (block_of (th_buf ?f)) = 512" by (rule th_wf_block [OF fake_wf [OF wf]])
  then obtain w1 where w1: "tar_block_write wr ?f (block_of (th_buf ?f)) w = (None, w1)" "good w1"
    "out w1 = out w @ block_of (th_buf ?f)" using block_written [OF fdf g] by blast
  obtain w2 where w2: "tar_block_write wr ?f buf w1 = (None, w2)" "good w2" "out w2 = out w1 @ buf"
    using block_written [OF fdf w1(2) b(1)] by blast
  have "\<not> (of_nat n :: u64) \<ge> 512"
    using b(2) by (simp add: word_le_nat_alt unsigned_of_nat take_bit_nat_eq_self)
  then have "th_write_extended wr t buf (of_nat n) w
      = (None, restore_header ?f (th_typeflag (th_buf t)) (th_get_size (th_buf t)), replicate 512 0, w2)"
    unfolding th_write_extended_def Let_def by (simp only: w1(1) w2(1) prod.case simp_thms if_False)
  then show thesis using that restore_fake [OF wf s] w1(3) w2 by simp
qed

lemma ext_step:
  assumes fd: "tar_fd t = fd" and g: "good w" and wf: "th_wf (th_buf t)" and s: "sized t" and x: "ext_ok t context"
  obtains t' w' buf' where "(if length (ext_text t context) > 0
      then th_write_extended wr t (fill (ext_text t context)) (of_nat (length (ext_text t context))) w
      else (None, t, fill (ext_text t context), w)) = (None, t', buf', w')"
    "refinished t t'" "good w'" "out w' = out w @ ext_blocks t context"
proof (cases "ext_text t context = []")
  case True
  then show thesis using that [of t "fill []" w] refinished_self [OF wf] g by (simp add: ext_blocks_def)
next
  case False
  have "length (ext_text t context) \<le> 468" by (rule ext_ok_length [OF x])
  then obtain t' w' where "th_write_extended wr t (fill (ext_text t context)) (of_nat (length (ext_text t context))) w
      = (None, t', replicate 512 0, w')" "refinished t t'" "good w'"
    "out w' = out w @ block_of (th_buf (fake_header t TH_EXT_TYPE (of_nat (length (ext_text t context))))) @ fill (ext_text t context)"
    using extended_written [OF fd g wf s, of "fill (ext_text t context)" "length (ext_text t context)"] by auto
  then show thesis using that False by (simp add: ext_blocks_def)
qed

end

lemma blocks_refinished:
  assumes "th_wf (th_buf t)" "refinished t t'"
  shows "long_blocks t' ty name = long_blocks t ty name" "ext_blocks t' context = ext_blocks t context"
    "ext_ok t' context = ext_ok t context"
proof -
  show "long_blocks t' ty name = long_blocks t ty name"
    by (cases name) (simp_all add: long_blocks_def fake_refinished [OF assms])
  show "ext_blocks t' context = ext_blocks t context"
    by (simp add: ext_blocks_def fake_refinished [OF assms] refinished_keeps(7) [OF assms(2)])
  have "stores_caps t' = stores_caps t" using assms(2) by (auto simp: refinished_def stores_caps_def)
  then show "ext_ok t' context = ext_ok t context"
    by (simp add: ext_ok_def refinished_keeps(8) [OF assms(2)])
qed

context tar_sink
begin

lemma th_write_blocks:
  assumes fd: "tar_fd t = fd" and g: "good w" and ok: "member_ok t link name context"
  shows "\<exists>w'. th_write wr t w = Some (None, th_finish t, w') \<and> good w'
     \<and> out w' = out w @ member_blocks t link name context"
proof -
  have wf: "th_wf (th_buf t)" and s: "sized t" and x: "ext_ok t context" and l: "long_ok link" "long_ok name"
    using ok by (simp_all add: member_ok_def)
  obtain t1 w1 where 1: "(case text_mem link of Some l \<Rightarrow> write_long wr t GNU_LONGLINK_TYPE l w | None \<Rightarrow> Some (None, t, w)) = Some (None, t1, w1)"
    "refinished t t1" "good w1" "out w1 = out w @ long_blocks t GNU_LONGLINK_TYPE link"
    using long_step [OF fd g wf s l(1)] by blast
  note k1 = refinished_keeps [OF 1(2)]
  have wf1: "th_wf (th_buf t1)" and s1: "sized t1" and fd1: "tar_fd t1 = fd" using k1 wf s fd by simp_all
  obtain t2 w2 where 2: "(case text_mem name of Some l \<Rightarrow> write_long wr t1 GNU_LONGNAME_TYPE l w1 | None \<Rightarrow> Some (None, t1, w1)) = Some (None, t2, w2)"
    "refinished t1 t2" "good w2" "out w2 = out w1 @ long_blocks t1 GNU_LONGNAME_TYPE name"
    using long_step [OF fd1 1(3) wf1 s1 l(2)] by blast
  note k2 = refinished_keeps [OF 2(2)]
  have r2: "refinished t t2" by (rule refinished_trans [OF 1(2) 2(2)])
  note k = refinished_keeps [OF r2]
  have wf2: "th_wf (th_buf t2)" and s2: "sized t2" and fd2: "tar_fd t2 = fd" using k wf s fd by simp_all
  have x2: "ext_ok t2 context" using blocks_refinished(3) [OF wf r2] x by simp
  obtain t3 w3 buf' where 3: "(if length (ext_text t2 context) > 0
      then th_write_extended wr t2 (fill (ext_text t2 context)) (of_nat (length (ext_text t2 context))) w2
      else (None, t2, fill (ext_text t2 context), w2)) = (None, t3, buf', w3)"
    "refinished t2 t3" "good w3" "out w3 = out w2 @ ext_blocks t2 context"
    using ext_step [OF fd2 2(3) wf2 s2 x2] by metis
  have r3: "refinished t t3" by (rule refinished_trans [OF r2 3(2)])
  have f: "th_finish t3 = th_finish t" by (rule finish_refinished [OF wf r3])
  have fdf: "tar_fd (th_finish t) = fd" using fd by (simp add: th_finish_def Let_def)
  have "th_wf (th_buf (th_finish t))" using th_finish_crc [OF wf] by simp
  then have "length (block_of (th_buf (th_finish t))) = 512" by (rule th_wf_block)
  then obtain w4 where 4: "tar_block_write wr (th_finish t) (block_of (th_buf (th_finish t))) w3 = (None, w4)"
    "good w4" "out w4 = out w3 @ block_of (th_buf (th_finish t))" using block_written [OF fdf 3(3)] by blast
  have o: "out w4 = out w @ member_blocks t link name context"
    using 1(4) 2(4) 3(4) 4(3) blocks_refinished [OF wf 1(2)] blocks_refinished [OF wf r2]
    by (simp add: member_blocks_def)
  have e1: "(case gnu_longlink (th_buf t) of Some l \<Rightarrow> if opt t TAR_GNU then write_long wr t GNU_LONGLINK_TYPE l w else Some (None, t, w)
      | None \<Rightarrow> Some (None, t, w)) = Some (None, t1, w1)"
    using 1(1) ok by (auto simp: member_ok_def text_mem_def split: if_splits option.splits)
  have e2: "(case gnu_longname (th_buf t1) of Some l \<Rightarrow> if opt t1 TAR_GNU then write_long wr t1 GNU_LONGNAME_TYPE l w1 else Some (None, t1, w1)
      | None \<Rightarrow> Some (None, t1, w1)) = Some (None, t2, w2)"
    using 2(1) ok k1(3,4) by (auto simp: member_ok_def text_mem_def split: if_splits option.splits)
  have c: "cstr (s @ [0]) = Some s" if "context = Some s" for s
    using that x cstr_append [of s "[]"] by (simp add: ext_ok_def plain_context_def)
  have e3: "(if opt t2 TAR_STORE_SELINUX then (case selinux_context (th_buf t2) of None \<Rightarrow> Some None | Some c \<Rightarrow> map_option Some (cstr c))
      else Some None) = Some context"
    using ok k(3,6) c by (cases "context") (auto simp: member_ok_def text_mem_def)
  have e4: "write_entries wr t2 context w2 = (None, t2, fill (ext_text t2 context), length (ext_text t2 context), w2)"
    by (rule write_entries_fits) (use x2 in \<open>auto simp: ext_ok_def plain_context_def\<close>)
  have "th_write wr t w = Some (None, th_finish t, w4)"
    unfolding th_write_def e1 option.case prod.case e2 e3 e4 Let_def 3(1) f 4(1) by simp
  then show ?thesis using 4(2) o by blast
qed

end

subsection \<open>Reading a member\<close>

text \<open>The headers in the order they come, and what a reader must accept.\<close>

definition head_ext :: "TAR \<Rightarrow> byte list option \<Rightarrow> tar_header" where
  "head_ext t context = (if ext_text t context = [] then th_buf (th_finish t)
     else th_buf (fake_header t TH_EXT_TYPE (of_nat (length (ext_text t context)))))"

definition head_long :: "TAR \<Rightarrow> byte \<Rightarrow> byte list option \<Rightarrow> tar_header \<Rightarrow> tar_header" where
  "head_long t ty name next = (case name of None \<Rightarrow> next | Some s \<Rightarrow> th_buf (fake_header t ty (of_nat (length s))))"

definition tail_long :: "byte list option \<Rightarrow> tar_header \<Rightarrow> byte list" where
  "tail_long name next = (case name of None \<Rightarrow> [] | Some s \<Rightarrow> pad512 s @ block_of next)"

definition readable :: "TAR \<Rightarrow> TAR \<Rightarrow> bool" where
  "readable r t \<longleftrightarrow> th_name (th_buf t) ! 0 \<noteq> 0 \<and> (opt r TAR_CHECK_VERSION \<longrightarrow> \<not> opt t TAR_GNU)
     \<and> th_typeflag (th_buf t) \<notin> {GNU_LONGNAME_TYPE, GNU_LONGLINK_TYPE, TH_EXT_TYPE, TH_POL_TYPE_DO_NOT_USE}"

definition read_back :: "TAR \<Rightarrow> byte list option \<Rightarrow> byte list option \<Rightarrow> byte list option \<Rightarrow> tar_header" where
  "read_back t link name context =
     (let h = th_buf t; k = stores_caps t \<and> cap_data h ! 0 \<noteq> 0;
          u = opt t TAR_STORE_ANDROID_USER_XATTR \<and> \<not> stores_caps t
      in (th_buf (th_finish t))\<lparr>gnu_longlink := map_option pad512 link, gnu_longname := map_option pad512 name,
           selinux_context := text_mem context, has_cap_data := k, cap_data := (if k then cap_data h else replicate 20 0),
           has_user_default := u \<and> has_user_default h, has_user_cache := u \<and> has_user_cache h,
           has_user_code_cache := u \<and> has_user_code_cache h\<rparr>)"

lemma member_blocks_heads:
  "member_blocks t link name context =
     block_of (head_long t GNU_LONGLINK_TYPE link (head_long t GNU_LONGNAME_TYPE name (head_ext t context)))
     @ tail_long link (head_long t GNU_LONGNAME_TYPE name (head_ext t context))
     @ tail_long name (head_ext t context)
     @ (if ext_text t context = [] then [] else fill (ext_text t context) @ block_of (th_buf (th_finish t)))"
  by (cases link; cases name) (simp_all add: member_blocks_def long_blocks_def ext_blocks_def head_ext_def head_long_def tail_long_def)

lemma finish_fields:
  assumes "th_wf (th_buf t)"
  shows "th_name (th_buf (th_finish t)) = th_name (th_buf t)" "th_typeflag (th_buf (th_finish t)) = th_typeflag (th_buf t)"
    "th_size (th_buf (th_finish t)) = th_size (th_buf t)" "opt (th_finish t) = opt t"
    "take 5 (th_magic (th_buf (th_finish t))) = str ''ustar''"
    "\<not> opt t TAR_GNU \<Longrightarrow> th_version (th_buf (th_finish t)) = str ''00''"
  unfolding th_finish_form [OF assms] Let_def by (simp_all add: fun_eq_iff str_def)

lemma finish_accepts:
  assumes wf: "th_wf (th_buf t)" and n: "th_name (th_buf t) ! 0 \<noteq> 0" and v: "opt r TAR_CHECK_VERSION \<longrightarrow> \<not> opt t TAR_GNU"
  shows "accepts r (th_buf (th_finish t))"
  using th_finish_crc [OF wf] finish_fields [OF wf] n v by (auto simp: accepts_def)

lemma fake_facts:
  assumes wf: "th_wf (th_buf t)"
  shows "th_typeflag (th_buf (fake_header t ty sz)) = ty" "th_get_size (th_buf (fake_header t ty sz)) = sz"
    "readable r t \<Longrightarrow> accepts r (th_buf (fake_header t ty sz))"
proof -
  let ?f = "t\<lparr>th_buf := th_set_size ((th_buf t)\<lparr>th_typeflag := ty\<rparr>) sz\<rparr>"
  have wff: "th_wf (th_buf ?f)" using wf by (simp add: wf_set)
  note f = finish_fields [OF wff]
  show "th_typeflag (th_buf (fake_header t ty sz)) = ty" unfolding fake_header_def f(2) by (simp add: th_set_size_def)
  have "th_size (th_buf (fake_header t ty sz)) = int_to_oct_ex sz 12" unfolding fake_header_def f(3) by (simp add: th_set_size_def)
  then have "th_set_size (th_buf (fake_header t ty sz)) sz = th_buf (fake_header t ty sz)" by (simp add: th_set_size_def)
  then show "th_get_size (th_buf (fake_header t ty sz)) = sz" using th_get_set_size [OF fake_wf [OF wf]] by metis
  show "accepts r (th_buf (fake_header t ty sz))" if "readable r t"
    unfolding fake_header_def
    by (rule finish_accepts [OF wff]) (use that in \<open>simp_all add: readable_def th_set_size_def\<close>)
qed

lemma heads_accepted:
  assumes wf: "th_wf (th_buf t)" and r: "readable r t"
  shows "accepts r (head_ext t context)" "accepts r next \<Longrightarrow> accepts r (head_long t ty name next)"
  using finish_accepts [OF wf, of r] fake_facts(3) [OF wf r] r
  by (auto simp: head_ext_def head_long_def readable_def split: option.split)

lemma carry_carry [simp]: "carry h (carry h' g) = carry h g"
  by (cases h; cases h'; cases g) (simp only: carry_def tar_header.simps)

lemma carry_absorb: "carry h (absorb t c (carry h' g)) = carry h (absorb t c g)"
  by (cases h; cases h'; cases g) (simp only: carry_def absorb_def Let_def tar_header.simps)

lemma absorb_nothing:
  assumes "ext_text t context = []"
  shows "absorb t context g = g"
proof -
  have "selinux_text (Some c) \<noteq> []" for c
  proof -
    obtain sz where "selinux_text (Some c) = entry sz (SELINUX_TAG @ c)" using selinux_text_entry by blast
    then show ?thesis by (simp add: entry_def)
  qed
  then have "context = None" using assms by (cases "context") (auto simp: ext_text_def)
  moreover have "\<not> stores_caps t" using assms by (auto simp: ext_text_def cap_text_def entry_def)
  moreover have "stored_users t = []" using assms by (simp add: ext_text_def)
  then have "\<not> (opt t TAR_STORE_ANDROID_USER_XATTR \<and> has_user_default (th_buf t))"
    "\<not> (opt t TAR_STORE_ANDROID_USER_XATTR \<and> has_user_cache (th_buf t))"
    "\<not> (opt t TAR_STORE_ANDROID_USER_XATTR \<and> has_user_code_cache (th_buf t))"
    by (auto simp: stored_users_def users_def user_text_def entry_def Let_def)
  ultimately show ?thesis by (cases g) (auto simp: absorb_def Let_def)
qed

lemma absorb_wf: "th_wf (absorb t context g) = th_wf g"
  by (simp add: absorb_def th_wf_def Let_def)

context tar_source
begin

lemma ext_tail_read:
  assumes fd: "tar_fd s = fd" and wf: "th_wf (th_buf t)" and x: "ext_ok t context" and r: "readable s t" and g: "th_wf g"
    and inp: "inp r = (if ext_text t context = [] then [] else fill (ext_text t context) @ block_of (th_buf (th_finish t))) @ rest"
  shows "\<exists>r'. read_extended rd (s\<lparr>th_buf := carry (head_ext t context) g\<rparr>) r
      = Some (ReadOk, s\<lparr>th_buf := carry (th_buf (th_finish t)) (absorb t context g)\<rparr>, r') \<and> inp r' = rest"
proof (cases "ext_text t context = []")
  case True
  have "read_extended rd (s\<lparr>th_buf := carry (head_ext t context) g\<rparr>) r = Some (ReadOk, s\<lparr>th_buf := carry (head_ext t context) g\<rparr>, r)"
    by (rule extended_done) (use r True in \<open>auto simp: readable_def head_ext_def finish_fields [OF wf] TH_ISEXTHEADER_def TH_ISPOLHEADER_def\<close>)
  then show ?thesis using True inp absorb_nothing [OF True] by (simp add: head_ext_def)
next
  case False
  let ?n = "length (ext_text t context)" and ?b = "fill (ext_text t context)" and ?h = "head_ext t context"
  let ?s = "s\<lparr>th_buf := carry ?h g\<rparr>" and ?F = "th_buf (th_finish t)"
  have n: "?n \<le> 468" by (rule ext_ok_length [OF x])
  have h: "?h = th_buf (fake_header t TH_EXT_TYPE (of_nat ?n))" using False by (simp add: head_ext_def)
  have wh: "th_wf ?h" unfolding h by (rule fake_wf [OF wf])
  have "?b ! 511 = 0" using n by (simp add: fill_def nth_append)
  moreover have "parse_extended ?b (th_buf ?s) = Some (absorb t context (carry ?h g))" using parse_fill [OF x] by simp
  moreover have "th_wf (carry ?h g)" using wh by simp
  moreover have "accepts ?s ?F" using finish_accepts [OF wf] r by (simp add: readable_def)
  ultimately have "\<exists>r'. read_extended rd ?s r
      = Some (ReadOk, ?s\<lparr>th_buf := carry ?F (absorb t context (carry ?h g))\<rparr>, r') \<and> inp r' = rest"
    using n inp False r finish_fields(2) [OF wf]
    by (intro extended_read [where n = ?n and buf = ?b])
       (simp_all add: fd h fake_facts [OF wf] TH_ISEXTHEADER_def TH_ISPOLHEADER_def absorb_wf readable_def fake_wf [OF wf])
  then show ?thesis by (simp add: carry_absorb)
qed

text \<open>A long link or name: \<open>ty\<close> is its type, \<open>next\<close> the header after it.\<close>

lemma long_stage:
  assumes fd: "tar_fd s = fd" and wf: "th_wf (th_buf t)" and n: "long_ok name" and mem: "\<forall>n. mem n" and g: "th_wf g"
    and ty: "th_typeflag next \<noteq> ty" and a: "accepts s next"
    and store: "\<And>n h h'. carry h (store n (carry h' g)) = carry h (store n g)" "\<And>n h. th_wf (store n h) = th_wf h"
    and inp: "inp r = tail_long name next @ rest"
  shows "\<exists>r'. (if th_typeflag (head_long t ty name next) = ty
      then read_long mem rd store (s\<lparr>th_buf := carry (head_long t ty name next) g\<rparr>) r
      else Some (None, s\<lparr>th_buf := carry (head_long t ty name next) g\<rparr>, r))
    = Some (None, s\<lparr>th_buf := carry next (case name of None \<Rightarrow> g | Some x \<Rightarrow> store (pad512 x) g)\<rparr>, r') \<and> inp r' = rest"
proof (cases name)
  case None
  then show ?thesis using ty inp by (simp add: head_long_def tail_long_def)
next
  case (Some x)
  let ?f = "th_buf (fake_header t ty (of_nat (length x)))"
  let ?s = "s\<lparr>th_buf := carry ?f g\<rparr>"
  have "th_wf ?f" by (rule fake_wf [OF wf])
  then have "\<exists>r'. read_long mem rd store ?s r = Some (None, ?s\<lparr>th_buf := carry next (store (pad512 x) (th_buf ?s))\<rparr>, r') \<and> inp r' = rest"
    using Some n mem a inp fake_facts(2) [OF wf, of ty]
    by (intro long_read) (simp_all add: fd long_ok_def tail_long_def store(2))
  then show ?thesis using Some fake_facts(1) [OF wf, of ty] store(1) by (simp add: head_long_def)
qed

lemma th_read_blocks:
  assumes fd: "tar_fd s = fd" and wf: "th_wf (th_buf t)" and x: "ext_ok t context" and l: "long_ok link" "long_ok name"
    and r: "readable s t" and mem: "\<forall>n. mem n" and inp: "inp r = member_blocks t link name context @ rest"
  shows "\<exists>r'. th_read mem rd s r = Some (ReadOk, s\<lparr>th_buf := read_back t link name context\<rparr>, r') \<and> inp r' = rest"
proof -
  let ?he = "head_ext t context"
  let ?hn = "head_long t GNU_LONGNAME_TYPE name ?he"
  let ?hl = "head_long t GNU_LONGLINK_TYPE link ?hn"
  let ?e = "if ext_text t context = [] then [] else fill (ext_text t context) @ block_of (th_buf (th_finish t))"
  let ?s0 = "s\<lparr>th_buf := zero_header\<rparr>"
  let ?g1 = "case link of None \<Rightarrow> zero_header | Some x \<Rightarrow> zero_header\<lparr>gnu_longlink := Some (pad512 x)\<rparr>"
  let ?g2 = "case name of None \<Rightarrow> ?g1 | Some x \<Rightarrow> ?g1\<lparr>gnu_longname := Some (pad512 x)\<rparr>"
  have a: "accepts s ?he" "accepts s ?hn" "accepts s ?hl" using heads_accepted [OF wf r] by simp_all
  have tf: "th_typeflag ?he \<notin> {GNU_LONGNAME_TYPE, GNU_LONGLINK_TYPE}"
    using r fake_facts(1) [OF wf] finish_fields(2) [OF wf] by (auto simp: head_ext_def readable_def typeflag_defs)
  then have tn: "th_typeflag ?hn \<noteq> GNU_LONGLINK_TYPE"
    using fake_facts(1) [OF wf] by (auto simp: head_long_def typeflag_defs split: option.split)
  have i0: "inp r = block_of ?hl @ (tail_long link ?hn @ tail_long name ?he @ ?e @ rest)"
    using inp by (simp add: member_blocks_heads)
  obtain r1 where 1: "th_read_internal rd ?s0 r = Some (512, s\<lparr>th_buf := carry ?hl zero_header\<rparr>, r1)"
    "inp r1 = tail_long link ?hn @ (tail_long name ?he @ ?e @ rest)"
    using header_read [OF _ i0, of ?s0] fd a(3) by auto
  have g1: "th_wf ?g1" using zero_header_wf by (auto simp: th_wf_def split: option.split)
  have g2: "th_wf ?g2" using g1 by (auto simp: th_wf_def split: option.splits)
  obtain r2 where 2: "(if TH_ISLONGLINK (carry ?hl zero_header)
      then read_long mem rd (\<lambda>n h. h\<lparr>gnu_longlink := Some n\<rparr>) (s\<lparr>th_buf := carry ?hl zero_header\<rparr>) r1
      else Some (None, s\<lparr>th_buf := carry ?hl zero_header\<rparr>, r1)) = Some (None, s\<lparr>th_buf := carry ?hn ?g1\<rparr>, r2)"
    "inp r2 = tail_long name ?he @ (?e @ rest)"
    using long_stage [OF fd wf l(1) mem zero_header_wf tn a(2), of "\<lambda>n h. h\<lparr>gnu_longlink := Some n\<rparr>" r1] 1(2)
    by (auto simp: TH_ISLONGLINK_def carry_def th_wf_def)
  obtain r3 where 3: "(if TH_ISLONGNAME (carry ?hn ?g1)
      then read_long mem rd (\<lambda>n h. h\<lparr>gnu_longname := Some n\<rparr>) (s\<lparr>th_buf := carry ?hn ?g1\<rparr>) r2
      else Some (None, s\<lparr>th_buf := carry ?hn ?g1\<rparr>, r2)) = Some (None, s\<lparr>th_buf := carry ?he ?g2\<rparr>, r3)"
    "inp r3 = ?e @ rest"
    using long_stage [OF fd wf l(2) mem g1 _ a(1), of GNU_LONGNAME_TYPE "\<lambda>n h. h\<lparr>gnu_longname := Some n\<rparr>" r2] 2(2) tf
    by (auto simp: TH_ISLONGNAME_def carry_def th_wf_def)
  obtain r4 where 4: "read_extended rd (s\<lparr>th_buf := carry ?he ?g2\<rparr>) r3
      = Some (ReadOk, s\<lparr>th_buf := carry (th_buf (th_finish t)) (absorb t context ?g2)\<rparr>, r4)" "inp r4 = rest"
    using ext_tail_read [OF fd wf x r g2 3(2)] by blast
  have "carry (th_buf (th_finish t)) (absorb t context ?g2) = read_back t link name context"
    by (cases link; cases name; cases "context"; cases "th_buf (th_finish t)")
       (simp_all only: carry_def absorb_def Let_def read_back_def zero_header_def tar_header.simps option.case
         option.map text_mem_def simp_thms)
  then show ?thesis
    using 1(1) 2(1) 3(1) 4 by (auto simp: th_read_def Let_def)
qed

end

end
