(* ===== verification/Libtar_List.thy ===== *)
theory Libtar_List
  imports Libtar_Strings "HOL-Library.Monad_Syntax" "HOL-Library.Multiset"
begin

section \<open>libtar: doubly linked lists\<close>

text \<open>
  \<^verbatim>\<open>libtar_list.c\<close> on an explicit store of nodes: \<open>'d nodes\<close> maps addresses to nodes, \<open>'d\<close> is what a
  node's data pointer stands for. Using the null pointer or a freed node is the result \<open>None\<close>, as is a
  loop over a cyclic list. \<open>malloc\<close> gives the address of the next node, null when it fails. The lists
  are proved to be the abstract lists of their elements (\<open>list_rep\<close>).
\<close>

subsection \<open>Nodes\<close>

record 'd libtar_node =
  ln_data :: 'd
  ln_next :: ptr
  ln_prev :: ptr

type_synonym 'd nodes = "ptr \<Rightarrow> 'd libtar_node option"

record 'd libtar_list =
  ll_first :: ptr
  ll_last :: ptr
  ll_cmpfunc :: "'d \<Rightarrow> 'd \<Rightarrow> int"
  ll_flags :: int
  ll_nents :: u32

definition LIST_USERFUNC :: int where "LIST_USERFUNC = 0"
definition LIST_STACK :: int where "LIST_STACK = 1"
definition LIST_QUEUE :: int where "LIST_QUEUE = 2"

lemmas list_flags = LIST_USERFUNC_def LIST_STACK_def LIST_QUEUE_def

definition deref :: "'d nodes \<Rightarrow> ptr \<Rightarrow> 'd libtar_node option" where
  "deref h p = (if p = NULL then None else h p)"

definition set_next :: "'d nodes \<Rightarrow> ptr \<Rightarrow> ptr \<Rightarrow> 'd nodes option" where
  "set_next h p v = do { n \<leftarrow> deref h p; Some (h(p \<mapsto> n\<lparr>ln_next := v\<rparr>)) }"

definition set_prev :: "'d nodes \<Rightarrow> ptr \<Rightarrow> ptr \<Rightarrow> 'd nodes option" where
  "set_prev h p v = do { n \<leftarrow> deref h p; Some (h(p \<mapsto> n\<lparr>ln_prev := v\<rparr>)) }"

definition free_node :: "'d nodes \<Rightarrow> ptr \<Rightarrow> 'd nodes" where
  "free_node h p = h(p := None)"

subsection \<open>The operations\<close>

definition libtar_listptr_reset :: "ptr \<Rightarrow> ptr" where
  "libtar_listptr_reset lp = NULL"

definition libtar_listptr_data :: "'d nodes \<Rightarrow> ptr \<Rightarrow> 'd option" where
  "libtar_listptr_data h lp = map_option ln_data (deref h lp)"

text \<open>The outer option: with invalid flags the null pointer is returned; \<open>strcmp\<close> is the comparison a
  null function stands for.\<close>

definition libtar_list_new :: "('d \<Rightarrow> 'd \<Rightarrow> int) \<Rightarrow> int \<Rightarrow> ('d \<Rightarrow> 'd \<Rightarrow> int) option \<Rightarrow> 'd libtar_list option" where
  "libtar_list_new strcmp flags cmpfunc =
     (if flags \<noteq> LIST_USERFUNC \<and> flags \<noteq> LIST_STACK \<and> flags \<noteq> LIST_QUEUE then None
      else Some \<lparr>ll_first = NULL, ll_last = NULL,
        ll_cmpfunc = (case cmpfunc of Some f \<Rightarrow> f | None \<Rightarrow> strcmp), ll_flags = flags, ll_nents = 0\<rparr>)"

partial_function (option) iterate_loop :: "('d \<Rightarrow> 's \<Rightarrow> int \<times> 's) \<Rightarrow> 'd nodes \<Rightarrow> ptr \<Rightarrow> 's \<Rightarrow> (int \<times> 's) option" where
  "iterate_loop plugin h n s =
     (if n = NULL then Some (0, s)
      else do {
        nd \<leftarrow> deref h n;
        (let (r, s) = plugin (ln_data nd) s
         in if r = - 1 then Some (- 1, s) else iterate_loop plugin h (ln_next nd) s)
      })"

definition libtar_list_iterate :: "'d libtar_list option \<Rightarrow> ('d \<Rightarrow> 's \<Rightarrow> int \<times> 's) \<Rightarrow> 'd nodes \<Rightarrow> 's \<Rightarrow> (int \<times> 's) option" where
  "libtar_list_iterate lp plugin h s =
     (case lp of None \<Rightarrow> Some (- 1, s) | Some l \<Rightarrow> iterate_loop plugin h (ll_first l) s)"

text \<open>The data handed to \<^verbatim>\<open>freefunc\<close> (if there is one) is collected in the order of the calls.\<close>

partial_function (option) empty_loop :: "bool \<Rightarrow> 'd libtar_list \<Rightarrow> 'd nodes \<Rightarrow> 'd list \<Rightarrow> ('d libtar_list \<times> 'd nodes \<times> 'd list) option" where
  "empty_loop freefunc l h freed =
     (let n = ll_first l
      in if n = NULL then Some (l, h, freed)
         else do {
           nd \<leftarrow> deref h n;
           empty_loop freefunc (l\<lparr>ll_first := ln_next nd\<rparr>) (free_node h n) (if freefunc then freed @ [ln_data nd] else freed)
         })"

definition libtar_list_empty :: "bool \<Rightarrow> 'd libtar_list \<Rightarrow> 'd nodes \<Rightarrow> ('d libtar_list \<times> 'd nodes \<times> 'd list) option" where
  "libtar_list_empty freefunc l h = do {
     (l, h, freed) \<leftarrow> empty_loop freefunc l h [];
     Some (l\<lparr>ll_nents := 0\<rparr>, h, freed)
   }"

definition libtar_list_free :: "bool \<Rightarrow> 'd libtar_list \<Rightarrow> 'd nodes \<Rightarrow> ('d nodes \<times> 'd list) option" where
  "libtar_list_free freefunc l h = do {
     (l, h, freed) \<leftarrow> libtar_list_empty freefunc l h;
     Some (h, freed)
   }"

definition libtar_list_nents :: "'d libtar_list \<Rightarrow> u32" where
  "libtar_list_nents l = ll_nents l"

text \<open>The search for the place of the new node \<open>n\<close> in an ordered list.\<close>

partial_function (option) insert_loop :: "ptr \<Rightarrow> 'd \<Rightarrow> 'd libtar_list \<Rightarrow> 'd nodes \<Rightarrow> ptr \<Rightarrow> ('d libtar_list \<times> 'd nodes) option" where
  "insert_loop n data l h m =
     (if m = NULL then do {
        h \<leftarrow> set_next h (ll_last l) n;
        h \<leftarrow> set_prev h n (ll_last l);
        h \<leftarrow> set_next h n NULL;
        Some (l\<lparr>ll_last := n\<rparr>, h)
      }
      else do {
        md \<leftarrow> deref h m;
        (if ll_cmpfunc l data (ln_data md) < 0 then
           (if m = ll_first l then do {
              h \<leftarrow> set_prev h n NULL;
              h \<leftarrow> set_prev h m n;
              h \<leftarrow> set_next h n m;
              Some (l\<lparr>ll_first := n\<rparr>, h)
            }
            else do {
              h \<leftarrow> set_next h (ln_prev md) n;
              md \<leftarrow> deref h m;
              h \<leftarrow> set_prev h n (ln_prev md);
              h \<leftarrow> set_prev h m n;
              h \<leftarrow> set_next h n m;
              Some (l, h)
            })
         else insert_loop n data l h (ln_next md))
      })"

definition libtar_list_add :: "('d nodes \<Rightarrow> ptr) \<Rightarrow> 'd libtar_list \<Rightarrow> 'd \<Rightarrow> 'd nodes \<Rightarrow> (int \<times> 'd libtar_list \<times> 'd nodes) option" where
  "libtar_list_add malloc l data h =
     (let n = malloc h
      in if n = NULL then Some (- 1, l, h)
         else
           let h = h(n \<mapsto> \<lparr>ln_data = data, ln_next = NULL, ln_prev = NULL\<rparr>);
               l = l\<lparr>ll_nents := ll_nents l + 1\<rparr>
           in if ll_first l = NULL then Some (0, l\<lparr>ll_first := n, ll_last := n\<rparr>, h)
              else if ll_flags l = LIST_STACK then do {
                h \<leftarrow> set_prev h n NULL;
                h \<leftarrow> set_next h n (ll_first l);
                h \<leftarrow> set_prev h (ll_first l) n;
                Some (0, l\<lparr>ll_first := n\<rparr>, h)
              }
              else if ll_flags l = LIST_QUEUE then do {
                h \<leftarrow> set_prev h n (ll_last l);
                h \<leftarrow> set_next h n NULL;
                h \<leftarrow> (if ll_last l \<noteq> NULL then set_next h (ll_last l) n else Some h);
                Some (0, l\<lparr>ll_last := n\<rparr>, h)
              }
              else do {
                (l, h) \<leftarrow> insert_loop n data l h (ll_first l);
                Some (0, l, h)
              })"

definition libtar_list_del :: "'d libtar_list \<Rightarrow> ptr \<Rightarrow> 'd nodes \<Rightarrow> ('d libtar_list \<times> ptr \<times> 'd nodes) option" where
  "libtar_list_del l n h = do {
     nd \<leftarrow> deref h n;
     let l = l\<lparr>ll_nents := ll_nents l - 1\<rparr>;
     let m = ln_next nd;
     (l, h) \<leftarrow> (if ln_prev nd \<noteq> NULL then map_option (Pair l) (set_next h (ln_prev nd) (ln_next nd))
       else Some (l\<lparr>ll_first := ln_next nd\<rparr>, h));
     nd \<leftarrow> deref h n;
     (l, h) \<leftarrow> (if ln_next nd \<noteq> NULL then map_option (Pair l) (set_prev h (ln_next nd) (ln_prev nd))
       else Some (l\<lparr>ll_last := ln_prev nd\<rparr>, h));
     Some (l, m, free_node h n)
   }"

definition libtar_list_next :: "'d libtar_list \<Rightarrow> ptr \<Rightarrow> 'd nodes \<Rightarrow> (int \<times> ptr) option" where
  "libtar_list_next l n h = do {
     n \<leftarrow> (if n = NULL then Some (ll_first l) else map_option ln_next (deref h n));
     Some (if n \<noteq> NULL then 1 else 0, n)
   }"

definition libtar_list_prev :: "'d libtar_list \<Rightarrow> ptr \<Rightarrow> 'd nodes \<Rightarrow> (int \<times> ptr) option" where
  "libtar_list_prev l n h = do {
     n \<leftarrow> (if n = NULL then Some (ll_last l) else map_option ln_prev (deref h n));
     Some (if n \<noteq> NULL then 1 else 0, n)
   }"

definition libtar_str_match :: "byte list \<Rightarrow> byte list \<Rightarrow> int option" where
  "libtar_str_match check data = do {
     a \<leftarrow> cstr check;
     b \<leftarrow> cstr data;
     Some (if a = b then 1 else 0)
   }"

partial_function (option) search_loop :: "('d \<Rightarrow> bool) \<Rightarrow> 'd nodes \<Rightarrow> ptr \<Rightarrow> (int \<times> ptr) option" where
  "search_loop matches h n =
     (if n = NULL then Some (0, n)
      else do {
        nd \<leftarrow> deref h n;
        (if matches (ln_data nd) then Some (1, n) else search_loop matches h (ln_next nd))
      })"

text \<open>\<open>matches\<close> is the match function applied to the data looked for.\<close>

definition libtar_list_search :: "'d libtar_list \<Rightarrow> ptr \<Rightarrow> ('d \<Rightarrow> bool) \<Rightarrow> 'd nodes \<Rightarrow> (int \<times> ptr) option" where
  "libtar_list_search l n matches h = do {
     n \<leftarrow> (if n = NULL then Some (ll_first l) else map_option ln_next (deref h n));
     search_loop matches h n
   }"

text \<open>Copies: the adds' results are ignored.\<close>

partial_function (option) copy_loop :: "('d nodes \<Rightarrow> ptr) \<Rightarrow> 'd libtar_list \<Rightarrow> ptr \<Rightarrow> 'd nodes \<Rightarrow> ('d libtar_list \<times> 'd nodes) option" where
  "copy_loop malloc new n h =
     (if n = NULL then Some (new, h)
      else do {
        nd \<leftarrow> deref h n;
        (ignored, new, h) \<leftarrow> libtar_list_add malloc new (ln_data nd) h;
        nd \<leftarrow> deref h n;
        copy_loop malloc new (ln_next nd) h
      })"

definition libtar_list_dup :: "('d \<Rightarrow> 'd \<Rightarrow> int) \<Rightarrow> ('d nodes \<Rightarrow> ptr) \<Rightarrow> 'd libtar_list \<Rightarrow> 'd nodes \<Rightarrow> ('d libtar_list \<times> 'd nodes) option" where
  "libtar_list_dup strcmp malloc l h = do {
     new \<leftarrow> libtar_list_new strcmp (ll_flags l) (Some (ll_cmpfunc l));
     copy_loop malloc new (ll_first l) h
   }"

partial_function (option) merge_loop :: "('d nodes \<Rightarrow> ptr) \<Rightarrow> 'd libtar_list \<Rightarrow> 'd libtar_list \<Rightarrow> ptr \<Rightarrow> 'd nodes
    \<Rightarrow> ('d libtar_list \<times> 'd nodes) option" where
  "merge_loop malloc l new n h = do {
     (more, n) \<leftarrow> libtar_list_next l n h;
     (if more = 0 then Some (new, h)
      else do {
        nd \<leftarrow> deref h n;
        (ignored, new, h) \<leftarrow> libtar_list_add malloc new (ln_data nd) h;
        merge_loop malloc l new n h
      })
   }"

definition libtar_list_merge :: "('d \<Rightarrow> 'd \<Rightarrow> int) \<Rightarrow> ('d nodes \<Rightarrow> ptr) \<Rightarrow> ('d \<Rightarrow> 'd \<Rightarrow> int) option \<Rightarrow> int
    \<Rightarrow> 'd libtar_list \<Rightarrow> 'd libtar_list \<Rightarrow> 'd nodes \<Rightarrow> ('d libtar_list \<times> 'd nodes) option" where
  "libtar_list_merge strcmp malloc cmpfunc flags list1 list2 h = do {
     new \<leftarrow> libtar_list_new strcmp flags cmpfunc;
     (new, h) \<leftarrow> merge_loop malloc list1 new NULL h;
     merge_loop malloc list2 new NULL h
   }"

text \<open>\<^verbatim>\<open>libtar_list_add_str\<close> on a list of strings; the buffer on the stack is \<open>tmp\<close>.\<close>

partial_function (option) add_str_loop :: "(byte list nodes \<Rightarrow> ptr) \<Rightarrow> byte list \<Rightarrow> byte list libtar_list \<Rightarrow> byte list \<Rightarrow> nat option
    \<Rightarrow> byte list nodes \<Rightarrow> (int \<times> byte list libtar_list \<times> byte list nodes) option" where
  "add_str_loop malloc delim l tmp nextp h = do {
     (tokp, nextp, tmp) \<leftarrow> strsep tmp nextp delim;
     (case tokp of
        None \<Rightarrow> Some (0, l, h)
      | Some i \<Rightarrow> do {
          tok \<leftarrow> cstr (drop i tmp);
          (if tok = [] then add_str_loop malloc delim l tmp nextp h
           else do {
             (r, l, h) \<leftarrow> libtar_list_add malloc l tok h;
             (if r \<noteq> 0 then Some (- 1, l, h) else add_str_loop malloc delim l tmp nextp h)
           })
        })
   }"

definition libtar_list_add_str :: "(byte list nodes \<Rightarrow> ptr) \<Rightarrow> byte list libtar_list \<Rightarrow> byte list \<Rightarrow> byte list \<Rightarrow> byte list
    \<Rightarrow> byte list nodes \<Rightarrow> (int \<times> byte list libtar_list \<times> byte list nodes) option" where
  "libtar_list_add_str malloc l s delim junk h = do {
     (tmp, len) \<leftarrow> strlcpy (take 10240 (junk @ replicate 10240 0)) s 10240;
     add_str_loop malloc delim l tmp (Some 0) h
   }"

subsection \<open>Lists in the store\<close>

text \<open>The address at which a list of nodes starts (\<open>e\<close> when it is empty) and the one at which it ends
  (\<open>q\<close> when it is empty).\<close>

definition start_of :: "(ptr \<times> 'd) list \<Rightarrow> ptr \<Rightarrow> ptr" where
  "start_of xs e = (case xs of [] \<Rightarrow> e | x # _ \<Rightarrow> fst x)"

definition end_of :: "(ptr \<times> 'd) list \<Rightarrow> ptr \<Rightarrow> ptr" where
  "end_of xs q = (if xs = [] then q else fst (last xs))"

lemma start_of_simps [simp]: "start_of [] e = e" "start_of (x # xs) e = fst x"
  "start_of (xs @ ys) e = start_of xs (start_of ys e)"
  by (cases xs; simp add: start_of_def)+

lemma end_of_simps [simp]: "end_of [] q = q" "end_of (x # xs) q = end_of xs (fst x)" "end_of (xs @ [x]) q = fst x"
  "end_of (xs @ ys) q = end_of ys (end_of xs q)"
  by (simp_all add: end_of_def)

definition addrs :: "(ptr \<times> 'd) list \<Rightarrow> ptr set" where
  "addrs xs = fst ` set xs"

lemma addrs_simps [simp]: "addrs [] = {}" "addrs (x # xs) = insert (fst x) (addrs xs)"
  "addrs (xs @ ys) = addrs xs \<union> addrs ys" "fst ` set xs = addrs xs"
  by (simp_all add: addrs_def image_Un)

fun seg :: "'d nodes \<Rightarrow> ptr \<Rightarrow> (ptr \<times> 'd) list \<Rightarrow> ptr \<Rightarrow> bool" where
  "seg h q [] e = True"
| "seg h q ((a, d) # xs) e =
     (a \<noteq> NULL \<and> h a = Some \<lparr>ln_data = d, ln_next = start_of xs e, ln_prev = q\<rparr> \<and> seg h a xs e)"

definition list_rep :: "'d nodes \<Rightarrow> 'd libtar_list \<Rightarrow> (ptr \<times> 'd) list \<Rightarrow> bool" where
  "list_rep h l xs \<longleftrightarrow> seg h NULL xs NULL \<and> distinct (map fst xs) \<and> ll_first l = start_of xs NULL
     \<and> (xs \<noteq> [] \<longrightarrow> ll_last l = end_of xs NULL) \<and> ll_nents l = of_nat (length xs)"

lemma seg_append: "seg h q (xs @ ys) e \<longleftrightarrow> seg h q xs (start_of ys e) \<and> seg h (end_of xs q) ys e"
  by (induction xs arbitrary: q) (auto simp: end_of_def)

lemma seg_other: "a \<notin> addrs xs \<Longrightarrow> seg (h(a := v)) q xs e = seg h q xs e"
  by (induction xs arbitrary: q) auto

lemma seg_cong: "(\<And>a. a \<in> addrs xs \<Longrightarrow> h' a = h a) \<Longrightarrow> seg h' q xs e = seg h q xs e"
  by (induction xs arbitrary: q) auto

lemma seg_in: "seg h q xs e \<Longrightarrow> a \<in> addrs xs \<Longrightarrow> a \<noteq> NULL \<and> h a \<noteq> None"
proof (induction xs arbitrary: q)
  case (Cons x xs)
  then show ?case by (cases x; cases "a = fst x") auto
qed simp

lemma seg_null: "seg h q xs e \<Longrightarrow> NULL \<notin> addrs xs"
  using seg_in by blast

lemma seg_alloc: "seg h q xs e \<Longrightarrow> a \<in> addrs xs \<Longrightarrow> h a \<noteq> None"
  using seg_in by blast

lemma start_of_null: "seg h q xs e \<Longrightarrow> xs \<noteq> [] \<Longrightarrow> start_of xs e' \<noteq> NULL \<and> start_of xs e' \<in> addrs xs"
  by (cases xs) auto

lemma end_of_in: "xs \<noteq> [] \<Longrightarrow> end_of xs q \<in> addrs xs"
  by (simp add: end_of_def addrs_def del: addrs_simps(4))

text \<open>Redirecting the ends of a segment.\<close>

lemma seg_set_next:
  assumes "seg h q xs e" "xs \<noteq> []" "distinct (map fst xs)"
  shows "\<exists>h'. set_next h (end_of xs q) e' = Some h' \<and> seg h' q xs e'
    \<and> (\<forall>a. a \<notin> addrs xs \<longrightarrow> h' a = h a)"
proof -
  obtain ys a d where xs: "xs = ys @ [(a, d)]" using assms(2) by (metis prod.exhaust rev_exhaust)
  have s: "seg h q ys a" and a: "a \<noteq> NULL" "h a = Some \<lparr>ln_data = d, ln_next = e, ln_prev = end_of ys q\<rparr>" "a \<notin> addrs ys"
    using assms(1,3) by (auto simp: xs seg_append)
  let ?h = "h(a \<mapsto> \<lparr>ln_data = d, ln_next = e', ln_prev = end_of ys q\<rparr>)"
  have "set_next h (end_of xs q) e' = Some ?h" using a by (simp add: xs set_next_def deref_def)
  moreover have "seg ?h q xs e'" using s a by (simp add: xs seg_append seg_other)
  ultimately show ?thesis by (auto simp: xs)
qed

lemma seg_set_prev:
  assumes "seg h q xs e" "xs \<noteq> []" "distinct (map fst xs)"
  shows "\<exists>h'. set_prev h (start_of xs e) q' = Some h' \<and> seg h' q' xs e
    \<and> (\<forall>a. a \<notin> addrs xs \<longrightarrow> h' a = h a)"
proof -
  obtain a d ys where xs: "xs = (a, d) # ys" using assms(2) by (cases xs) auto
  let ?h = "h(a \<mapsto> \<lparr>ln_data = d, ln_next = start_of ys e, ln_prev = q'\<rparr>)"
  have "set_prev h (start_of xs e) q' = Some ?h" using assms by (simp add: xs set_prev_def deref_def)
  moreover have "a \<notin> addrs ys" using assms(3) by (simp add: xs)
  then have "seg ?h q' xs e" using assms by (simp add: xs seg_other)
  ultimately show ?thesis by (auto simp: xs)
qed

subsection \<open>Adding\<close>

text \<open>The abstract list after an add: in front, at the end, or before the first greater element.\<close>

definition place :: "'d libtar_list \<Rightarrow> 'd \<Rightarrow> ptr \<Rightarrow> (ptr \<times> 'd) list \<Rightarrow> (ptr \<times> 'd) list" where
  "place l d n xs =
     (if ll_flags l = LIST_STACK then (n, d) # xs
      else if ll_flags l = LIST_QUEUE then xs @ [(n, d)]
      else takeWhile (\<lambda>x. \<not> ll_cmpfunc l d (snd x) < 0) xs @ (n, d) # dropWhile (\<lambda>x. \<not> ll_cmpfunc l d (snd x) < 0) xs)"

lemma set_self:
  assumes "n \<noteq> NULL" "h n = Some nd"
  shows "set_next h n v = Some (h(n \<mapsto> nd\<lparr>ln_next := v\<rparr>))" "set_prev h n v = Some (h(n \<mapsto> nd\<lparr>ln_prev := v\<rparr>))"
    "deref h n = Some nd"
  using assms by (simp_all add: set_next_def set_prev_def deref_def)

lemma insert_here:
  assumes "n \<noteq> NULL" "h n = Some \<lparr>ln_data = d, ln_next = start_of ys e, ln_prev = end_of xs q\<rparr>"
    "seg h q xs n" "seg h n ys e"
  shows "seg h q (xs @ (n, d) # ys) e"
  using assms by (simp add: seg_append)

lemma first_iff: "seg h NULL (xs @ (m, d) # ys) e \<Longrightarrow> distinct (map fst (xs @ (m, d) # ys)) \<Longrightarrow>
    m = start_of (xs @ (m, d) # ys) e' \<longleftrightarrow> xs = []"
  by (cases xs) auto

lemma insert_loop_value:
  assumes "seg h NULL (xs @ ys) NULL" "distinct (map fst (xs @ ys))" "n \<notin> addrs (xs @ ys)" "n \<noteq> NULL"
    and "h n = Some \<lparr>ln_data = d, ln_next = u, ln_prev = v\<rparr>" "xs @ ys \<noteq> []"
    and "ll_first l = start_of (xs @ ys) NULL" "ll_last l = end_of (xs @ ys) NULL"
  shows "\<exists>l' h'. insert_loop n d l h (start_of ys NULL) = Some (l', h')
    \<and> (let zs = xs @ takeWhile (\<lambda>x. \<not> ll_cmpfunc l d (snd x) < 0) ys @ (n, d) # dropWhile (\<lambda>x. \<not> ll_cmpfunc l d (snd x) < 0) ys
       in seg h' NULL zs NULL \<and> l' = l\<lparr>ll_first := start_of zs NULL, ll_last := end_of zs NULL\<rparr>)
    \<and> (\<forall>a. a \<notin> addrs (xs @ ys) \<longrightarrow> a \<noteq> n \<longrightarrow> h' a = h a)"
  using assms
proof (induction ys arbitrary: xs)
  case Nil
  let ?nd = "\<lparr>ln_data = d, ln_next = NULL, ln_prev = end_of xs NULL\<rparr>"
  have xs: "xs \<noteq> []" "seg h NULL xs NULL" "distinct (map fst xs)" "n \<notin> addrs xs" using Nil.prems by simp_all
  obtain h1 where h1: "set_next h (end_of xs NULL) n = Some h1" "seg h1 NULL xs n" "\<forall>a. a \<notin> addrs xs \<longrightarrow> h1 a = h a"
    using seg_set_next [OF xs(2,1,3)] by blast
  have n1: "h1 n = Some \<lparr>ln_data = d, ln_next = u, ln_prev = v\<rparr>" using h1(3) xs(4) Nil.prems(5) by simp
  have "insert_loop n d l h NULL = Some (l\<lparr>ll_last := n\<rparr>, h1(n \<mapsto> ?nd))"
    using h1(1) n1 Nil.prems(4,8) by (subst insert_loop.simps) (simp add: set_self)
  moreover have "seg (h1(n \<mapsto> ?nd)) NULL (xs @ [(n, d)]) NULL"
    by (rule insert_here) (use h1(2) xs(4) Nil.prems(4) in \<open>simp_all add: seg_other\<close>)
  moreover have "l\<lparr>ll_last := n\<rparr> = l\<lparr>ll_first := start_of (xs @ [(n, d)]) NULL, ll_last := n\<rparr>"
    using Nil.prems(7) xs(1) by (cases l; cases xs) auto
  ultimately show ?case using h1(3) by simp
next
  case (Cons y ys)
  obtain m md where y: "y = (m, md)" by (cases y)
  let ?yy = "(m, md) # ys" and ?P = "\<lambda>x. \<not> ll_cmpfunc l d (snd x) < 0"
  have sx: "seg h NULL xs m" "seg h (end_of xs NULL) ?yy NULL" using Cons.prems(1) by (auto simp: y seg_append)
  have hm: "m \<noteq> NULL" "h m = Some \<lparr>ln_data = md, ln_next = start_of ys NULL, ln_prev = end_of xs NULL\<rparr>" using sx(2) by auto
  have dis: "m \<notin> addrs xs" "m \<noteq> n" "distinct (map fst xs)" "distinct (map fst ?yy)" "n \<notin> addrs xs" "n \<notin> addrs ?yy"
    "addrs xs \<inter> addrs ?yy = {}"
    using Cons.prems(2,3) by (auto simp: y)
  show ?case
  proof (cases "ll_cmpfunc l d md < 0")
    case False
    have e: "(xs @ [y]) @ ys = xs @ y # ys" by simp
    have "\<exists>l' h'. insert_loop n d l h (start_of ys NULL) = Some (l', h')
      \<and> (let zs = (xs @ [y]) @ takeWhile ?P ys @ (n, d) # dropWhile ?P ys
         in seg h' NULL zs NULL \<and> l' = l\<lparr>ll_first := start_of zs NULL, ll_last := end_of zs NULL\<rparr>)
      \<and> (\<forall>a. a \<notin> addrs ((xs @ [y]) @ ys) \<longrightarrow> a \<noteq> n \<longrightarrow> h' a = h a)"
      using Cons.IH [of "xs @ [y]", unfolded e] Cons.prems unfolding e by blast
    moreover have "insert_loop n d l h m = insert_loop n d l h (start_of ys NULL)"
      using hm False by (subst insert_loop.simps) (simp add: deref_def)
    ultimately show ?thesis using False by (simp add: y)
  next
    case True
    let ?nd = "\<lparr>ln_data = d, ln_next = m, ln_prev = end_of xs NULL\<rparr>"
    have fin: "\<exists>l' h'. insert_loop n d l h m = Some (l', h') \<and> seg h' NULL (xs @ (n, d) # ?yy) NULL
        \<and> l' = l\<lparr>ll_first := start_of (xs @ (n, d) # ?yy) NULL, ll_last := end_of (xs @ (n, d) # ?yy) NULL\<rparr>
        \<and> (\<forall>a. a \<notin> addrs (xs @ ?yy) \<longrightarrow> a \<noteq> n \<longrightarrow> h' a = h a)"
    proof (cases "xs = []")
      case nil: True
      let ?h1 = "h(n \<mapsto> \<lparr>ln_data = d, ln_next = u, ln_prev = NULL\<rparr>)"
      have "seg ?h1 NULL ?yy NULL" using seg_other [OF dis(6)] sx(2) nil by simp
      then obtain h2 where h2: "set_prev ?h1 m n = Some h2" "seg h2 n ?yy NULL" "\<forall>a. a \<notin> addrs ?yy \<longrightarrow> h2 a = ?h1 a"
        using seg_set_prev [of ?h1 NULL ?yy NULL n] dis(4) by auto
      have n2: "h2 n = Some \<lparr>ln_data = d, ln_next = u, ln_prev = NULL\<rparr>" using h2(3) dis(6) by simp
      have first: "ll_first l = m" using Cons.prems(7) by (simp add: y nil)
      have "insert_loop n d l h m = Some (l\<lparr>ll_first := n\<rparr>, h2(n \<mapsto> ?nd))"
        using hm True Cons.prems(4,5) h2(1) n2 first nil by (subst insert_loop.simps) (simp add: deref_def set_self)
      moreover have "seg (h2(n \<mapsto> ?nd)) NULL (xs @ (n, d) # ?yy) NULL"
        by (rule insert_here) (use h2(2) dis(2) dis(6) Cons.prems(4) nil in \<open>simp_all add: seg_other\<close>)
      moreover have "l\<lparr>ll_first := n\<rparr> = l\<lparr>ll_first := n, ll_last := end_of ys m\<rparr>"
        using Cons.prems(8) by (cases l) (simp add: y nil)
      ultimately show ?thesis using h2(3) nil by simp
    next
      case False
      obtain h1 where h1: "set_next h (end_of xs NULL) n = Some h1" "seg h1 NULL xs n" "\<forall>a. a \<notin> addrs xs \<longrightarrow> h1 a = h a"
        using seg_set_next [OF sx(1) False dis(3)] by blast
      let ?h2 = "h1(n \<mapsto> \<lparr>ln_data = d, ln_next = u, ln_prev = end_of xs NULL\<rparr>)"
      have n1: "h1 n = Some \<lparr>ln_data = d, ln_next = u, ln_prev = v\<rparr>" "h1 m = h m" using h1(3) dis Cons.prems(5) by simp_all
      have "seg h1 (end_of xs NULL) ?yy NULL"
        using seg_cong [of ?yy h1 h] h1(3) dis(7) sx(2) by blast
      then have "seg ?h2 (end_of xs NULL) ?yy NULL" using seg_other [OF dis(6)] by blast
      then obtain h3 where h3: "set_prev ?h2 m n = Some h3" "seg h3 n ?yy NULL" "\<forall>a. a \<notin> addrs ?yy \<longrightarrow> h3 a = ?h2 a"
        using seg_set_prev [of ?h2 "end_of xs NULL" ?yy NULL n] dis(4) by auto
      have n3: "h3 n = Some \<lparr>ln_data = d, ln_next = u, ln_prev = end_of xs NULL\<rparr>" using h3(3) dis(6) by simp
      have "seg ?h2 NULL xs n" using h1(2) dis(5) by (simp add: seg_other)
      then have s3: "seg h3 NULL xs n" using seg_cong [of xs h3 ?h2] h3(3) dis(7) by blast
      have nf: "m \<noteq> ll_first l" using first_iff [of h xs m md ys NULL NULL] Cons.prems(1,2,7) False by (simp add: y)
      have "insert_loop n d l h m = Some (l, h3(n \<mapsto> ?nd))"
        using hm True Cons.prems(4) h1(1) n1 h3(1) n3 nf by (subst insert_loop.simps) (simp add: deref_def set_self)
      moreover have "seg (h3(n \<mapsto> ?nd)) NULL (xs @ (n, d) # ?yy) NULL"
        by (rule insert_here) (use s3 h3(2) dis Cons.prems(4) in \<open>simp_all add: seg_other\<close>)
      moreover have "l = l\<lparr>ll_first := start_of (xs @ (n, d) # ?yy) NULL, ll_last := end_of (xs @ (n, d) # ?yy) NULL\<rparr>"
        using Cons.prems(7,8) False by (cases l; cases xs) (auto simp: y)
      moreover have "\<forall>a. a \<notin> addrs (xs @ ?yy) \<longrightarrow> a \<noteq> n \<longrightarrow> (h3(n \<mapsto> ?nd)) a = h a"
        using h1(3) h3(3) by (simp add: image_Un)
      ultimately show ?thesis by blast
    qed
    then show ?thesis using True by (auto simp: y Let_def)
  qed
qed

lemma takeWhile_place: "mset (map snd (place l d n xs)) = add_mset d (mset (map snd xs))"
proof -
  have "mset (takeWhile P xs) + mset (dropWhile P xs) = mset xs" for P
    by (simp flip: mset_append)
  then have "image_mset snd (mset (takeWhile P xs)) + image_mset snd (mset (dropWhile P xs)) = image_mset snd (mset xs)" for P
    by (simp flip: image_mset_union)
  then show ?thesis by (simp add: place_def)
qed

lemma place_keys:
  assumes "n \<notin> addrs xs" "distinct (map fst xs)"
  shows "distinct (map fst (place l d n xs))" "addrs (place l d n xs) = insert n (addrs xs)"
    "length (place l d n xs) = Suc (length xs)" "place l d n xs \<noteq> []"
proof -
  let ?P = "\<lambda>x. \<not> ll_cmpfunc l d (snd x) < 0"
  have x: "takeWhile ?P xs @ dropWhile ?P xs = xs" by simp
  have u: "addrs xs = addrs (takeWhile ?P xs) \<union> addrs (dropWhile ?P xs)" by (metis x addrs_simps(3))
  have n: "n \<notin> addrs (takeWhile ?P xs)" "n \<notin> addrs (dropWhile ?P xs)" using assms(1) unfolding u by blast+
  have d: "distinct (map fst (takeWhile ?P xs) @ map fst (dropWhile ?P xs))"
    using assms(2) x by (metis map_append)
  then have "distinct (map fst (takeWhile ?P xs) @ n # map fst (dropWhile ?P xs))"
    using n by (simp add: distinct_append)
  then show "distinct (map fst (place l d n xs))" using assms by (simp add: place_def)
  show "addrs (place l d n xs) = insert n (addrs xs)" using u by (simp add: place_def)
  have "length xs = length (takeWhile ?P xs) + length (dropWhile ?P xs)" by (metis x length_append)
  then show "length (place l d n xs) = Suc (length xs)" by (simp add: place_def)
  then show "place l d n xs \<noteq> []" by auto
qed

lemma list_add_value:
  assumes r: "list_rep h l xs" and n: "malloc h = n" "n \<noteq> NULL" "h n = None"
  shows "\<exists>l' h'. libtar_list_add malloc l d h = Some (0, l', h') \<and> list_rep h' l' (place l d n xs)
    \<and> ll_cmpfunc l' = ll_cmpfunc l \<and> ll_flags l' = ll_flags l
    \<and> (\<forall>a. a \<notin> addrs xs \<longrightarrow> a \<noteq> n \<longrightarrow> h' a = h a)"
proof -
  have s: "seg h NULL xs NULL" and dis: "distinct (map fst xs)" and f: "ll_first l = start_of xs NULL"
    and la: "xs \<noteq> [] \<longrightarrow> ll_last l = end_of xs NULL" and c: "ll_nents l = of_nat (length xs)"
    using r by (simp_all add: list_rep_def)
  have nx: "n \<notin> addrs xs" using seg_alloc [OF s, of n] n(3) by blast
  let ?nd = "\<lparr>ln_data = d, ln_next = NULL, ln_prev = NULL\<rparr>"
  let ?h = "h(n \<mapsto> ?nd)" and ?l = "l\<lparr>ll_nents := ll_nents l + 1\<rparr>"
  have s1: "seg ?h NULL xs NULL" using seg_other [OF nx] s by blast
  note keys = place_keys [OF nx dis, of l d]
  have "\<exists>l' h'. libtar_list_add malloc l d h = Some (0, l', h')
      \<and> seg h' NULL (place l d n xs) NULL
      \<and> l' = ?l\<lparr>ll_first := start_of (place l d n xs) NULL, ll_last := end_of (place l d n xs) NULL\<rparr>
      \<and> (\<forall>a. a \<notin> addrs xs \<longrightarrow> a \<noteq> n \<longrightarrow> h' a = h a)"
  proof (cases "xs = []")
    case True
    then have "place l d n xs = [(n, d)]" by (simp add: place_def)
    then show ?thesis using True f n by (simp add: libtar_list_add_def Let_def)
  next
    case False
    have fn: "start_of xs NULL \<noteq> NULL" "start_of xs NULL \<noteq> n" using start_of_null [OF s False] nx by auto
    have ln: "end_of xs NULL \<noteq> NULL" "end_of xs NULL \<noteq> n" using end_of_in [OF False] seg_null [OF s] nx by metis+
    consider "ll_flags l = LIST_STACK" | "ll_flags l \<noteq> LIST_STACK" "ll_flags l = LIST_QUEUE"
      | "ll_flags l \<noteq> LIST_STACK" "ll_flags l \<noteq> LIST_QUEUE" by blast
    then show ?thesis
    proof cases
      case 1
      let ?h1 = "h(n \<mapsto> \<lparr>ln_data = d, ln_next = start_of xs NULL, ln_prev = NULL\<rparr>)"
      have "seg ?h1 NULL xs NULL" using seg_other [OF nx] s by blast
      then obtain h2 where h2: "set_prev ?h1 (start_of xs NULL) n = Some h2" "seg h2 n xs NULL"
        "\<forall>a. a \<notin> addrs xs \<longrightarrow> h2 a = ?h1 a"
        using seg_set_prev [OF _ False dis] by blast
      have "seg h2 NULL ((n, d) # xs) NULL" using h2 nx n(2) by simp
      moreover have "libtar_list_add malloc l d h = Some (0, ?l\<lparr>ll_first := n\<rparr>, h2)"
        using n f fn 1 h2(1) by (simp add: libtar_list_add_def Let_def set_self)
      moreover have "?l\<lparr>ll_first := n\<rparr> = ?l\<lparr>ll_first := n, ll_last := end_of xs n\<rparr>"
        using la False by (cases l) (simp add: end_of_def)
      ultimately show ?thesis using 1 h2(3) by (simp add: place_def)
    next
      case 2
      let ?h1 = "h(n \<mapsto> \<lparr>ln_data = d, ln_next = NULL, ln_prev = end_of xs NULL\<rparr>)"
      have "seg ?h1 NULL xs NULL" using seg_other [OF nx] s by blast
      then obtain h2 where h2: "set_next ?h1 (end_of xs NULL) n = Some h2" "seg h2 NULL xs n"
        "\<forall>a. a \<notin> addrs xs \<longrightarrow> h2 a = ?h1 a"
        using seg_set_next [OF _ False dis] by blast
      have "seg h2 NULL (xs @ [(n, d)]) NULL" using h2 nx n(2) by (simp add: seg_append)
      moreover have "libtar_list_add malloc l d h = Some (0, ?l\<lparr>ll_last := n\<rparr>, h2)"
        using n f fn ln 2 h2(1) la False by (simp add: libtar_list_add_def Let_def set_self)
      moreover have "?l\<lparr>ll_last := n\<rparr> = ?l\<lparr>ll_first := start_of xs n, ll_last := n\<rparr>"
        using f False by (cases l; cases xs) auto
      ultimately show ?thesis using 2 h2(3) by (simp add: place_def)
    next
      case 3
      have "\<exists>l' h'. insert_loop n d ?l ?h (start_of xs NULL) = Some (l', h')
          \<and> (let zs = [] @ takeWhile (\<lambda>x. \<not> ll_cmpfunc ?l d (snd x) < 0) xs @ (n, d) # dropWhile (\<lambda>x. \<not> ll_cmpfunc ?l d (snd x) < 0) xs
             in seg h' NULL zs NULL \<and> l' = ?l\<lparr>ll_first := start_of zs NULL, ll_last := end_of zs NULL\<rparr>)
          \<and> (\<forall>a. a \<notin> addrs ([] @ xs) \<longrightarrow> a \<noteq> n \<longrightarrow> h' a = ?h a)"
        by (rule insert_loop_value [where u = NULL and v = NULL]) (use s1 dis nx n(2) False f la in simp_all)
      then show ?thesis using n f fn 3 by (auto simp: libtar_list_add_def Let_def place_def)
    qed
  qed
  then show ?thesis using keys c by (auto simp: list_rep_def)
qed

subsection \<open>Deleting, emptying\<close>

lemma list_del_value:
  assumes r: "list_rep h l (xs @ (n, d) # ys)"
  shows "\<exists>l' h'. libtar_list_del l n h = Some (l', start_of ys NULL, h') \<and> list_rep h' l' (xs @ ys)
    \<and> ll_cmpfunc l' = ll_cmpfunc l \<and> ll_flags l' = ll_flags l \<and> h' n = None
    \<and> (\<forall>a. a \<notin> addrs (xs @ (n, d) # ys) \<longrightarrow> h' a = h a)"
proof -
  have s: "seg h NULL xs n" "seg h n ys NULL"
    and hn: "n \<noteq> NULL" "h n = Some \<lparr>ln_data = d, ln_next = start_of ys NULL, ln_prev = end_of xs NULL\<rparr>"
    using r by (auto simp: list_rep_def seg_append)
  have dis: "distinct (map fst xs)" "distinct (map fst ys)" "n \<notin> addrs xs" "n \<notin> addrs ys"
    "addrs xs \<inter> addrs ys = {}"
    using r by (auto simp: list_rep_def)
  let ?l = "l\<lparr>ll_nents := ll_nents l - 1\<rparr>"
  have en: "end_of xs NULL \<noteq> NULL \<longleftrightarrow> xs \<noteq> []"
    using end_of_in [of xs NULL] seg_null [OF s(1)] by (cases "xs = []") (simp_all, metis)
  have sn: "start_of ys NULL \<noteq> NULL \<longleftrightarrow> ys \<noteq> []"
    using start_of_null [OF s(2), of NULL] by (cases "ys = []") simp_all
  have "\<exists>h1. (if end_of xs NULL \<noteq> NULL then map_option (Pair ?l) (set_next h (end_of xs NULL) (start_of ys NULL))
      else Some (?l\<lparr>ll_first := start_of ys NULL\<rparr>, h)) = Some (?l\<lparr>ll_first := start_of (xs @ ys) NULL\<rparr>, h1)
    \<and> seg h1 NULL xs (start_of ys NULL) \<and> (\<forall>a. a \<notin> addrs xs \<longrightarrow> h1 a = h a)"
  proof (cases "xs = []")
    case True
    then show ?thesis by simp
  next
    case False
    have "?l = ?l\<lparr>ll_first := start_of (xs @ ys) NULL\<rparr>"
      using r False by (cases l; cases xs) (auto simp: list_rep_def)
    then show ?thesis using seg_set_next [OF s(1) False dis(1), of "start_of ys NULL"] en False by auto
  qed
  then obtain h1 where h1: "(if end_of xs NULL \<noteq> NULL then map_option (Pair ?l) (set_next h (end_of xs NULL) (start_of ys NULL))
      else Some (?l\<lparr>ll_first := start_of ys NULL\<rparr>, h)) = Some (?l\<lparr>ll_first := start_of (xs @ ys) NULL\<rparr>, h1)"
    "seg h1 NULL xs (start_of ys NULL)" "\<forall>a. a \<notin> addrs xs \<longrightarrow> h1 a = h a" by blast
  let ?l1 = "?l\<lparr>ll_first := start_of (xs @ ys) NULL\<rparr>"
  have n1: "h1 n = h n" using h1(3) dis(3) by blast
  have s1: "seg h1 n ys NULL" using seg_cong [of ys h1 h] h1(3) dis(5) s(2) by blast
  have "\<exists>l2 h2. (if start_of ys NULL \<noteq> NULL then map_option (Pair ?l1) (set_prev h1 (start_of ys NULL) (end_of xs NULL))
      else Some (?l1\<lparr>ll_last := end_of xs NULL\<rparr>, h1)) = Some (l2, h2)
    \<and> l2 = ?l1\<lparr>ll_last := (if xs @ ys = [] then NULL else end_of (xs @ ys) NULL)\<rparr>
    \<and> seg h2 (end_of xs NULL) ys NULL \<and> (\<forall>a. a \<notin> addrs ys \<longrightarrow> h2 a = h1 a)"
  proof (cases "ys = []")
    case True
    then show ?thesis by simp
  next
    case False
    have "?l1 = ?l1\<lparr>ll_last := end_of (xs @ ys) NULL\<rparr>"
      using r False by (cases l) (auto simp: list_rep_def end_of_def)
    then show ?thesis using seg_set_prev [OF s1 False dis(2), of "end_of xs NULL"] sn False by auto
  qed
  then obtain l2 h2 where h2: "(if start_of ys NULL \<noteq> NULL then map_option (Pair ?l1) (set_prev h1 (start_of ys NULL) (end_of xs NULL))
      else Some (?l1\<lparr>ll_last := end_of xs NULL\<rparr>, h1)) = Some (l2, h2)"
    "l2 = ?l1\<lparr>ll_last := (if xs @ ys = [] then NULL else end_of (xs @ ys) NULL)\<rparr>"
    "seg h2 (end_of xs NULL) ys NULL" "\<forall>a. a \<notin> addrs ys \<longrightarrow> h2 a = h1 a" by blast
  have d: "libtar_list_del l n h = Some (l2, start_of ys NULL, free_node h2 n)"
    unfolding libtar_list_del_def Let_def
    by (simp only: deref_def hn n1 if_False Option.bind.bind_lunit libtar_node.simps h1(1) h2(1) prod.case)
  have "seg h2 NULL xs (start_of ys NULL)" using seg_cong [of xs h2 h1] h2(4) dis(5) h1(2) by blast
  then have "seg h2 NULL (xs @ ys) NULL" using h2(3) by (simp add: seg_append)
  moreover have "n \<notin> addrs (xs @ ys)" using dis(3,4) by (simp add: image_Un)
  ultimately have "seg (free_node h2 n) NULL (xs @ ys) NULL" using seg_other unfolding free_node_def by blast
  then have "list_rep (free_node h2 n) l2 (xs @ ys)"
    using r h2(2) dis by (auto simp: list_rep_def)
  moreover have "\<forall>a. a \<notin> addrs (xs @ (n, d) # ys) \<longrightarrow> free_node h2 n a = h a"
    using h1(3) h2(4) by (simp add: free_node_def image_Un)
  ultimately show ?thesis using d h2(2) by (auto simp: free_node_def)
qed

lemma empty_loop_value:
  assumes "seg h q xs NULL" "distinct (map fst xs)" "ll_first l = start_of xs NULL"
  shows "empty_loop b l h freed = Some (l\<lparr>ll_first := NULL\<rparr>, (\<lambda>a. if a \<in> addrs xs then None else h a),
    freed @ (if b then map snd xs else []))"
  using assms
proof (induction xs arbitrary: h q l freed)
  case Nil
  then have "l\<lparr>ll_first := NULL\<rparr> = l" by (cases l) simp
  then show ?case using Nil by (subst empty_loop.simps) (simp add: Let_def)
next
  case (Cons x xs)
  obtain a d where x: "x = (a, d)" by (cases x)
  have a: "a \<noteq> NULL" "h a = Some \<lparr>ln_data = d, ln_next = start_of xs NULL, ln_prev = q\<rparr>" "ll_first l = a"
    "a \<notin> addrs xs" "seg h a xs NULL" "distinct (map fst xs)" using Cons.prems by (auto simp: x)
  let ?h = "free_node h a" and ?l = "l\<lparr>ll_first := start_of xs NULL\<rparr>"
  have "seg ?h a xs NULL" using seg_other [OF a(4)] a(5) by (simp add: free_node_def)
  then have "empty_loop b ?l ?h (if b then freed @ [d] else freed) = Some (?l\<lparr>ll_first := NULL\<rparr>,
      (\<lambda>k. if k \<in> addrs xs then None else ?h k), (if b then freed @ [d] else freed) @ (if b then map snd xs else []))"
    by (rule Cons.IH) (use a in simp_all)
  moreover have "(\<lambda>k. if k \<in> addrs xs then None else ?h k) = (\<lambda>k. if k \<in> addrs (x # xs) then None else h k)"
    by (auto simp: fun_eq_iff free_node_def x)
  ultimately show ?case using a by (subst empty_loop.simps) (cases b; simp add: Let_def deref_def x)
qed

lemma list_empty_value:
  assumes "list_rep h l xs"
  shows "libtar_list_empty b l h = Some (l\<lparr>ll_first := NULL, ll_nents := 0\<rparr>, (\<lambda>a. if a \<in> addrs xs then None else h a),
    if b then map snd xs else [])"
proof -
  have "empty_loop b l h [] = Some (l\<lparr>ll_first := NULL\<rparr>, (\<lambda>a. if a \<in> addrs xs then None else h a),
    [] @ (if b then map snd xs else []))"
    by (rule empty_loop_value [where q = NULL]) (use assms in \<open>simp_all add: list_rep_def\<close>)
  then show ?thesis by (simp add: libtar_list_empty_def)
qed

subsection \<open>Walking\<close>

lemma list_next_value:
  assumes "list_rep h l (xs @ ys)"
  shows "libtar_list_next l (end_of xs NULL) h = Some (if ys = [] then 0 else 1, start_of ys NULL)"
proof -
  have s: "seg h NULL xs (start_of ys NULL)" "seg h (end_of xs NULL) ys NULL" using assms by (auto simp: list_rep_def seg_append)
  have m: "start_of ys NULL \<noteq> NULL \<longleftrightarrow> ys \<noteq> []" using start_of_null [OF s(2), of NULL] by (cases "ys = []") simp_all
  have "(if end_of xs NULL = NULL then Some (ll_first l) else map_option ln_next (deref h (end_of xs NULL))) = Some (start_of ys NULL)"
  proof (cases "xs = []")
    case True
    then show ?thesis using assms by (simp add: list_rep_def)
  next
    case False
    then obtain zs a d where "xs = zs @ [(a, d)]" by (metis prod.exhaust rev_exhaust)
    then show ?thesis using s(1) by (simp add: seg_append deref_def)
  qed
  then show ?thesis using m by (simp add: libtar_list_next_def)
qed

lemma list_prev_value:
  assumes "list_rep h l (xs @ ys)" "xs @ ys \<noteq> []"
  shows "libtar_list_prev l (start_of ys NULL) h = Some (if xs = [] then 0 else 1, end_of xs NULL)"
proof -
  have s: "seg h NULL xs (start_of ys NULL)" "seg h (end_of xs NULL) ys NULL" using assms by (auto simp: list_rep_def seg_append)
  have m: "end_of xs NULL \<noteq> NULL \<longleftrightarrow> xs \<noteq> []"
    using end_of_in [of xs NULL] seg_null [OF s(1)] by (cases "xs = []") (simp_all, metis)
  have "(if start_of ys NULL = NULL then Some (ll_last l) else map_option ln_prev (deref h (start_of ys NULL))) = Some (end_of xs NULL)"
  proof (cases ys)
    case Nil
    then show ?thesis using assms by (simp add: list_rep_def)
  next
    case (Cons y zs)
    then show ?thesis using s(2) by (cases y) (simp add: deref_def)
  qed
  then show ?thesis using m by (simp add: libtar_list_prev_def)
qed

text \<open>Calling the plugin on every element until it returns -1.\<close>

fun iterate_abs :: "('d \<Rightarrow> 's \<Rightarrow> int \<times> 's) \<Rightarrow> 'd list \<Rightarrow> 's \<Rightarrow> int \<times> 's" where
  "iterate_abs plugin [] s = (0, s)"
| "iterate_abs plugin (d # ds) s = (let (r, s) = plugin d s in if r = - 1 then (- 1, s) else iterate_abs plugin ds s)"

lemma iterate_loop_value:
  "seg h q xs NULL \<Longrightarrow> iterate_loop plugin h (start_of xs NULL) s = Some (iterate_abs plugin (map snd xs) s)"
proof (induction xs arbitrary: q s)
  case Nil
  then show ?case by (subst iterate_loop.simps) simp
next
  case (Cons x xs)
  obtain a d where x: "x = (a, d)" by (cases x)
  then show ?case using Cons.prems Cons.IH [of a] by (subst iterate_loop.simps) (simp add: deref_def Let_def split_def)
qed

lemma search_loop_value:
  "seg h q xs NULL \<Longrightarrow> search_loop matches h (start_of xs NULL)
    = Some (let rest = dropWhile (\<lambda>x. \<not> matches (snd x)) xs in (if rest = [] then 0 else 1, start_of rest NULL))"
proof (induction xs arbitrary: q)
  case Nil
  then show ?case by (subst search_loop.simps) simp
next
  case (Cons x xs)
  obtain a d where x: "x = (a, d)" by (cases x)
  then show ?case using Cons.prems Cons.IH [of a] by (subst search_loop.simps) (simp add: deref_def)
qed

lemma list_search_value:
  assumes "list_rep h l (xs @ ys)"
  shows "libtar_list_search l (end_of xs NULL) matches h
    = Some (let rest = dropWhile (\<lambda>x. \<not> matches (snd x)) ys in (if rest = [] then 0 else 1, start_of rest NULL))"
proof -
  have "seg h (end_of xs NULL) ys NULL" using assms by (auto simp: list_rep_def seg_append)
  then have v: "search_loop matches h (start_of ys NULL)
    = Some (let rest = dropWhile (\<lambda>x. \<not> matches (snd x)) ys in (if rest = [] then 0 else 1, start_of rest NULL))"
    by (rule search_loop_value)
  have "(if end_of xs NULL = NULL then Some (ll_first l) else map_option ln_next (deref h (end_of xs NULL))) = Some (start_of ys NULL)"
    using list_next_value [OF assms] by (auto simp: libtar_list_next_def split: if_splits bind_splits)
  then show ?thesis using v by (simp add: libtar_list_search_def)
qed

subsection \<open>The abstract list\<close>

text \<open>Adding, on the elements only.\<close>

definition add_abs :: "int \<Rightarrow> ('d \<Rightarrow> 'd \<Rightarrow> int) \<Rightarrow> 'd \<Rightarrow> 'd list \<Rightarrow> 'd list" where
  "add_abs flags cmp d ds =
     (if flags = LIST_STACK then d # ds else if flags = LIST_QUEUE then ds @ [d]
      else takeWhile (\<lambda>x. \<not> cmp d x < 0) ds @ d # dropWhile (\<lambda>x. \<not> cmp d x < 0) ds)"

lemma map_place: "map snd (place l d n xs) = add_abs (ll_flags l) (ll_cmpfunc l) d (map snd xs)"
  by (simp add: place_def add_abs_def takeWhile_map dropWhile_map comp_def)

text \<open>Ordered insertion keeps the order, when the comparison is one.\<close>

definition comparison :: "('d \<Rightarrow> 'd \<Rightarrow> int) \<Rightarrow> bool" where
  "comparison cmp \<longleftrightarrow> (\<forall>a b. cmp a b < 0 \<longrightarrow> \<not> cmp b a < 0) \<and> (\<forall>a b c. \<not> cmp b a < 0 \<longrightarrow> \<not> cmp c b < 0 \<longrightarrow> \<not> cmp c a < 0)"

definition ordered :: "('d \<Rightarrow> 'd \<Rightarrow> int) \<Rightarrow> 'd list \<Rightarrow> bool" where
  "ordered cmp ds \<longleftrightarrow> sorted_wrt (\<lambda>a b. \<not> cmp b a < 0) ds"

lemma add_abs_ordered:
  assumes c: "comparison cmp" and o: "ordered cmp ds"
  shows "ordered cmp (add_abs LIST_USERFUNC cmp d ds)"
proof -
  let ?P = "\<lambda>x. \<not> cmp d x < 0" and ?le = "\<lambda>a b. \<not> cmp b a < 0"
  have c1: "cmp a b < 0 \<Longrightarrow> \<not> cmp b a < 0" and c2: "\<not> cmp b a < 0 \<Longrightarrow> \<not> cmp u b < 0 \<Longrightarrow> \<not> cmp u a < 0" for a b u
    using c unfolding comparison_def by blast+
  have o': "sorted_wrt ?le (takeWhile ?P ds @ dropWhile ?P ds)" using o by (simp add: ordered_def)
  have t: "\<forall>x \<in> set (takeWhile ?P ds). ?le x d" by (auto dest: set_takeWhileD)
  have dr: "\<forall>y \<in> set (dropWhile ?P ds). ?le d y"
  proof (cases "dropWhile ?P ds")
    case Nil
    show ?thesis unfolding Nil by simp
  next
    case (Cons z zs)
    then have "\<not> ?P z" using hd_dropWhile [of ?P ds] by auto
    then have z: "?le d z" using c1 by blast
    have "\<forall>y \<in> set zs. ?le z y" using o' Cons by (simp add: sorted_wrt_append del: takeWhile_dropWhile_id)
    then have "\<forall>y \<in> set zs. ?le d y" using z c2 by blast
    then show ?thesis using z Cons by simp
  qed
  have "sorted_wrt ?le (A @ d # B)" if "sorted_wrt ?le (A @ B)" "\<forall>x \<in> set A. ?le x d" "\<forall>y \<in> set B. ?le d y" for A B
    using that by (simp add: sorted_wrt_append)
  from this [OF o' t dr] have "sorted_wrt ?le (takeWhile ?P ds @ d # dropWhile ?P ds)" .
  then show ?thesis by (simp add: ordered_def add_abs_def list_flags)
qed

lemma add_abs_mset: "mset (add_abs flags cmp d ds) = add_mset d (mset ds)"
proof -
  have "mset (takeWhile P ds) + mset (dropWhile P ds) = mset ds" for P by (simp flip: mset_append)
  then show ?thesis by (simp add: add_abs_def)
qed

text \<open>An allocator that serves requests as long as fewer than \<open>N\<close> nodes are in use.\<close>

definition allocates :: "('d nodes \<Rightarrow> ptr) \<Rightarrow> nat \<Rightarrow> bool" where
  "allocates malloc N \<longleftrightarrow> (\<forall>h. card (dom h) < N \<longrightarrow> malloc h \<noteq> NULL \<and> h (malloc h) = None)"

lemma list_rep_cong:
  assumes "\<And>a. a \<in> addrs xs \<Longrightarrow> h' a = h a"
  shows "list_rep h' l xs = list_rep h l xs"
  using seg_cong [of xs h' h NULL NULL] assms unfolding list_rep_def by blast

lemma add_dom:
  assumes r: "list_rep h l xs" "list_rep h' l' xs'" and k: "addrs xs' = insert n (addrs xs)"
    and e: "\<forall>a. a \<notin> addrs xs \<longrightarrow> a \<noteq> n \<longrightarrow> h' a = h a"
  shows "dom h' = insert n (dom h)"
proof (rule set_eqI)
  have s: "seg h NULL xs NULL" "seg h' NULL xs' NULL" using r by (simp_all add: list_rep_def)
  fix x
  show "x \<in> dom h' \<longleftrightarrow> x \<in> insert n (dom h)"
  proof (cases "x \<in> insert n (addrs xs)")
    case True
    then have "h' x \<noteq> None" using seg_alloc [OF s(2), of x] k by blast
    moreover have "x = n \<or> h x \<noteq> None" using True seg_alloc [OF s(1), of x] by blast
    ultimately show ?thesis by auto
  next
    case False
    then show ?thesis using e by (auto simp: domIff)
  qed
qed

lemma list_add_step:
  assumes r: "list_rep h l xs" and m: "allocates malloc N" "card (dom h) < N"
  shows "\<exists>l' h' xs'. libtar_list_add malloc l d h = Some (0, l', h') \<and> list_rep h' l' xs'
    \<and> map snd xs' = add_abs (ll_flags l) (ll_cmpfunc l) d (map snd xs)
    \<and> addrs xs' = insert (malloc h) (addrs xs) \<and> h (malloc h) = None
    \<and> ll_cmpfunc l' = ll_cmpfunc l \<and> ll_flags l' = ll_flags l
    \<and> (\<forall>a. a \<notin> addrs xs' \<longrightarrow> h' a = h a) \<and> card (dom h') = Suc (card (dom h))"
proof -
  let ?n = "malloc h"
  have n: "?n \<noteq> NULL" "h ?n = None" using m by (auto simp: allocates_def)
  obtain l' h' where a: "libtar_list_add malloc l d h = Some (0, l', h')" "list_rep h' l' (place l d ?n xs)"
    "ll_cmpfunc l' = ll_cmpfunc l" "ll_flags l' = ll_flags l"
    "\<forall>a. a \<notin> addrs xs \<longrightarrow> a \<noteq> ?n \<longrightarrow> h' a = h a"
    using list_add_value [OF r _ n, where malloc = malloc] by blast
  have s: "seg h NULL xs NULL" and dis: "distinct (map fst xs)" using r by (simp_all add: list_rep_def)
  have nx: "?n \<notin> addrs xs" using seg_alloc [OF s, of ?n] n(2) by blast
  note k = place_keys [OF nx dis, of l d]
  have "dom h' = insert ?n (dom h)" by (rule add_dom [OF r a(2) k(2) a(5)])
  moreover have "?n \<notin> dom h" using n(2) by auto
  ultimately have "card (dom h') = Suc (card (dom h))" by simp
  then show ?thesis using a k(2) map_place [of l d ?n xs] n(2) by blast
qed

text \<open>Both copying loops add the elements they walk over.\<close>

lemma merge_loop_value:
  assumes "list_rep h src (xs @ ys)" "list_rep h new ns" "addrs ns \<inter> addrs (xs @ ys) = {}"
    and m: "allocates malloc N" "card (dom h) + length ys \<le> N"
  shows "\<exists>new' h' ns'. merge_loop malloc src new (end_of xs NULL) h = Some (new', h') \<and> list_rep h' new' ns'
    \<and> map snd ns' = fold (add_abs (ll_flags new) (ll_cmpfunc new)) (map snd ys) (map snd ns)
    \<and> ll_flags new' = ll_flags new \<and> ll_cmpfunc new' = ll_cmpfunc new
    \<and> addrs ns \<subseteq> addrs ns' \<and> (\<forall>a \<in> addrs ns' - addrs ns. h a = None)
    \<and> (\<forall>a. a \<notin> addrs ns' \<longrightarrow> h' a = h a) \<and> card (dom h') = card (dom h) + length ys"
  using assms(1-3) m(2)
proof (induction ys arbitrary: xs h new ns)
  case Nil
  then show ?case using list_next_value [of h src xs "[]"] by (subst merge_loop.simps) auto
next
  case (Cons y ys)
  obtain a d where y: "y = (a, d)" by (cases y)
  have nx: "libtar_list_next src (end_of xs NULL) h = Some (1, a)"
    using list_next_value [OF Cons.prems(1)] by (simp add: y)
  have ha: "deref h a = Some \<lparr>ln_data = d, ln_next = start_of ys NULL, ln_prev = end_of xs NULL\<rparr>"
    using Cons.prems(1) by (auto simp: y list_rep_def seg_append deref_def)
  obtain new1 h1 ns1 where 1: "libtar_list_add malloc new d h = Some (0, new1, h1)" "list_rep h1 new1 ns1"
    "map snd ns1 = add_abs (ll_flags new) (ll_cmpfunc new) d (map snd ns)"
    "addrs ns1 = insert (malloc h) (addrs ns)" "h (malloc h) = None"
    "ll_cmpfunc new1 = ll_cmpfunc new" "ll_flags new1 = ll_flags new"
    "\<forall>a. a \<notin> addrs ns1 \<longrightarrow> h1 a = h a" "card (dom h1) = Suc (card (dom h))"
    using list_add_step [OF Cons.prems(2) m(1), of d] Cons.prems(4) by auto
  have src: "seg h NULL (xs @ y # ys) NULL" using Cons.prems(1) by (simp add: list_rep_def)
  have "malloc h \<notin> addrs (xs @ y # ys)" using seg_alloc [OF src, of "malloc h"] 1(5) by blast
  then have dis: "addrs ns1 \<inter> addrs (xs @ y # ys) = {}" using Cons.prems(3) 1(4) by simp
  have r1: "list_rep h1 src (xs @ y # ys)"
    using list_rep_cong [of "xs @ y # ys" h1 h] 1(8) dis Cons.prems(1) by blast
  have "\<exists>new' h' ns'. merge_loop malloc src new1 (end_of (xs @ [y]) NULL) h1 = Some (new', h') \<and> list_rep h' new' ns'
    \<and> map snd ns' = fold (add_abs (ll_flags new1) (ll_cmpfunc new1)) (map snd ys) (map snd ns1)
    \<and> ll_flags new' = ll_flags new1 \<and> ll_cmpfunc new' = ll_cmpfunc new1
    \<and> addrs ns1 \<subseteq> addrs ns' \<and> (\<forall>a \<in> addrs ns' - addrs ns1. h1 a = None)
    \<and> (\<forall>a. a \<notin> addrs ns' \<longrightarrow> h' a = h1 a) \<and> card (dom h') = card (dom h1) + length ys"
    by (rule Cons.IH) (use r1 1 dis Cons.prems(4) in simp_all)
  then obtain new' h' ns' where 2: "merge_loop malloc src new1 a h1 = Some (new', h')" "list_rep h' new' ns'"
    "map snd ns' = fold (add_abs (ll_flags new) (ll_cmpfunc new)) (map snd ys) (map snd ns1)"
    "ll_flags new' = ll_flags new" "ll_cmpfunc new' = ll_cmpfunc new"
    "addrs ns1 \<subseteq> addrs ns'" "\<forall>a \<in> addrs ns' - addrs ns1. h1 a = None"
    "\<forall>a. a \<notin> addrs ns' \<longrightarrow> h' a = h1 a" "card (dom h') = card (dom h1) + length ys"
    using 1(6,7) by (auto simp: y)
  have m1: "merge_loop malloc src new (end_of xs NULL) h = Some (new', h')"
    using nx ha 1(1) 2(1) by (subst merge_loop.simps) simp
  have m2: "\<forall>a \<in> addrs ns' - addrs ns. h a = None"
  proof
    fix k assume k: "k \<in> addrs ns' - addrs ns"
    show "h k = None"
    proof (cases "k \<in> addrs ns1")
      case True
      then have "k = malloc h" using k 1(4) by blast
      then show ?thesis using 1(5) by simp
    next
      case False
      then have "h1 k = None" using bspec [OF 2(7), of k] k by simp
      then show ?thesis using 1(8) False by simp
    qed
  qed
  have m3: "\<forall>a. a \<notin> addrs ns' \<longrightarrow> h' a = h a" using 2(6,8) 1(8) by (metis subsetD)
  have m4: "addrs ns \<subseteq> addrs ns'" using 2(6) unfolding 1(4) by blast
  have m5: "map snd ns' = fold (add_abs (ll_flags new) (ll_cmpfunc new)) (map snd (y # ys)) (map snd ns)"
    using 2(3) 1(3) by (simp add: y)
  have m6: "card (dom h') = card (dom h) + length (y # ys)" using 2(9) 1(9) by simp
  show ?case
    by (rule exI [of _ new'], rule exI [of _ h'], rule exI [of _ ns'], intro conjI) (rule m1, rule 2(2), rule m5, rule 2(4), rule 2(5), rule m4, rule m2, rule m3, rule m6)
qed

lemma merge_value:
  assumes r: "list_rep h list1 xs" "list_rep h list2 ys" "addrs xs \<inter> addrs ys = {}"
    and m: "allocates malloc N" "card (dom h) + length xs + length ys \<le> N"
    and f: "flags \<in> {LIST_USERFUNC, LIST_STACK, LIST_QUEUE}"
  shows "\<exists>new h' zs. libtar_list_merge strcmp malloc (Some cmp) flags list1 list2 h = Some (new, h')
    \<and> list_rep h' new zs \<and> map snd zs = fold (add_abs flags cmp) (map snd xs @ map snd ys) []
    \<and> list_rep h' list1 xs \<and> list_rep h' list2 ys"
proof -
  let ?new = "\<lparr>ll_first = NULL, ll_last = NULL, ll_cmpfunc = cmp, ll_flags = flags, ll_nents = 0\<rparr>"
  have n: "libtar_list_new strcmp flags (Some cmp) = Some ?new" using f by (auto simp: libtar_list_new_def)
  have r0: "list_rep h ?new []" by (simp add: list_rep_def)
  obtain n1 h1 z1 where 1: "merge_loop malloc list1 ?new NULL h = Some (n1, h1)" "list_rep h1 n1 z1"
    "map snd z1 = fold (add_abs flags cmp) (map snd xs) []" "ll_flags n1 = flags" "ll_cmpfunc n1 = cmp"
    "\<forall>a \<in> addrs z1. h a = None" "\<forall>a. a \<notin> addrs z1 \<longrightarrow> h1 a = h a" "card (dom h1) = card (dom h) + length xs"
    using merge_loop_value [of h list1 "[]" xs ?new "[]" malloc N] r(1) r0 m by auto
  have used: "h a \<noteq> None" if "a \<in> addrs xs \<union> addrs ys" for a
    using that r(1,2) seg_alloc unfolding list_rep_def by blast
  then have d1: "addrs z1 \<inter> addrs ys = {}" "addrs z1 \<inter> addrs xs = {}" using 1(6) by blast+
  have r1: "list_rep h1 list1 xs" "list_rep h1 list2 ys"
    using list_rep_cong [of xs h1 h] list_rep_cong [of ys h1 h] 1(7) d1 r by blast+
  have c1: "card (dom h1) + length ys \<le> N" using m(2) 1(8) by simp
  obtain n2 h2 z2 where 2: "merge_loop malloc list2 n1 NULL h1 = Some (n2, h2)" "list_rep h2 n2 z2"
    "map snd z2 = fold (add_abs flags cmp) (map snd ys) (map snd z1)" "addrs z1 \<subseteq> addrs z2"
    "\<forall>a \<in> addrs z2 - addrs z1. h1 a = None" "\<forall>a. a \<notin> addrs z2 \<longrightarrow> h2 a = h1 a"
    using merge_loop_value [of h1 list2 "[]" ys n1 z1 malloc N] r1(2) 1(2,4,5) d1(1) m(1) c1 by auto
  have used1: "h1 a \<noteq> None" if "a \<in> addrs xs \<union> addrs ys" for a
    using that r1 seg_alloc unfolding list_rep_def by blast
  have d2: "a \<notin> addrs z2" if "a \<in> addrs xs \<union> addrs ys" for a
  proof
    assume "a \<in> addrs z2"
    moreover have "a \<notin> addrs z1" using d1 that by blast
    ultimately show False using bspec [OF 2(5), of a] used1 [OF that] by simp
  qed
  then have e2: "h2 a = h1 a" if "a \<in> addrs xs \<union> addrs ys" for a using 2(6) that by blast
  then have r2: "list_rep h2 list1 xs" "list_rep h2 list2 ys"
    using list_rep_cong [of xs h2 h1] list_rep_cong [of ys h2 h1] e2 r1 by simp_all
  have "libtar_list_merge strcmp malloc (Some cmp) flags list1 list2 h = Some (n2, h2)"
    using n 1(1) 2(1) by (simp add: libtar_list_merge_def)
  then show ?thesis using 2(2,3) 1(3) r2 by auto
qed

lemma fold_add_mset: "mset (fold (add_abs flags cmp) ds es) = mset ds + mset es"
  by (induction ds arbitrary: es) (simp_all add: add_abs_mset)

lemma fold_add_ordered:
  "comparison cmp \<Longrightarrow> ordered cmp es \<Longrightarrow> ordered cmp (fold (add_abs LIST_USERFUNC cmp) ds es)"
  by (induction ds arbitrary: es) (simp_all add: add_abs_ordered)

lemma fold_add_queue: "fold (add_abs LIST_QUEUE cmp) ds es = es @ ds"
  by (induction ds arbitrary: es) (simp_all add: add_abs_def list_flags)

subsection \<open>Properties\<close>

text \<open>(C29) \<^verbatim>\<open>libtar_list_add\<close> refines the insertion into an abstract list: with a fresh node from \<^verbatim>\<open>malloc\<close> it
  returns 0, the store represents the list with the element in front (a stack), at the end (a
  queue) or before the first greater one, and no node outside the list has changed.\<close>

theorem list_add_refines:
  assumes "list_rep h l xs" and "malloc h = n" and "n \<noteq> NULL" and "h n = None"
  shows "\<exists>l' h' xs'. libtar_list_add malloc l d h = Some (0, l', h') \<and> list_rep h' l' xs'
    \<and> map snd xs' = add_abs (ll_flags l) (ll_cmpfunc l) d (map snd xs)
    \<and> set (map fst xs') = insert n (set (map fst xs)) \<and> (\<forall>a. a \<notin> set (map fst xs') \<longrightarrow> h' a = h a)"
proof -
  obtain l' h' where a: "libtar_list_add malloc l d h = Some (0, l', h')" "list_rep h' l' (place l d n xs)"
    "\<forall>a. a \<notin> addrs xs \<longrightarrow> a \<noteq> n \<longrightarrow> h' a = h a"
    using list_add_value [where malloc = malloc and d = d, OF assms] by auto
  have s: "seg h NULL xs NULL" "distinct (map fst xs)" using assms(1) by (simp_all add: list_rep_def)
  have "n \<notin> addrs xs" using seg_alloc [OF s(1), of n] assms(4) by blast
  note k = place_keys(2) [OF this s(2)]
  show ?thesis
    by (rule exI [of _ l'], rule exI [of _ h'], rule exI [of _ "place l d n xs"]) (use a map_place k in simp)
qed

definition empty_list :: "int \<Rightarrow> int libtar_list" where
  "empty_list flags = \<lparr>ll_first = NULL, ll_last = NULL, ll_cmpfunc = (\<lambda>a b. a - b), ll_flags = flags, ll_nents = 0\<rparr>"

theorem list_add_refines_witness:
  "\<exists>l' h' xs'. libtar_list_add (\<lambda>h. 16) (empty_list LIST_USERFUNC) 7 Map.empty = Some (0, l', h') \<and> list_rep h' l' xs'
    \<and> map snd xs' = [7]"
  using list_add_refines [of Map.empty "empty_list LIST_USERFUNC" "[]" "\<lambda>h. 16" 16 7]
  by (fastforce simp: list_rep_def empty_list_def add_abs_def list_flags)

text \<open>\<^verbatim>\<open>libtar_list_del\<close> refines the removal of an element wherever it stands: the other elements keep
  their order, the pointer is moved on to the next node, the node is freed, and
  \<^verbatim>\<open>libtar_list_next\<close> and \<^verbatim>\<open>libtar_list_prev\<close> step over the gap.\<close>

theorem list_del_refines:
  assumes "list_rep h l (xs @ (n, d) # ys)"
  shows "\<exists>l' h'. libtar_list_del l n h = Some (l', start_of ys NULL, h') \<and> list_rep h' l' (xs @ ys)
    \<and> h' n = None \<and> libtar_list_next l' (end_of xs NULL) h' = Some (if ys = [] then 0 else 1, start_of ys NULL)
    \<and> (xs @ ys \<noteq> [] \<longrightarrow> libtar_list_prev l' (start_of ys NULL) h' = Some (if xs = [] then 0 else 1, end_of xs NULL))"
  using list_del_value [OF assms] list_next_value list_prev_value by metis

definition two_nodes :: "ptr \<Rightarrow> int libtar_node option" where
  "two_nodes = [16 \<mapsto> \<lparr>ln_data = 5, ln_next = 32, ln_prev = NULL\<rparr>, 32 \<mapsto> \<lparr>ln_data = 9, ln_next = NULL, ln_prev = 16\<rparr>]"

definition two_list :: "int libtar_list" where
  "two_list = \<lparr>ll_first = 16, ll_last = 32, ll_cmpfunc = (\<lambda>a b. a - b), ll_flags = LIST_USERFUNC, ll_nents = 2\<rparr>"

lemma two_list_rep: "list_rep two_nodes two_list [(16, 5), (32, 9)]"
  by (simp add: list_rep_def two_nodes_def two_list_def end_of_def)

theorem list_del_refines_witness:
  "\<exists>l' h'. libtar_list_del two_list 16 two_nodes = Some (l', 32, h') \<and> list_rep h' l' [(32, 9)] \<and> h' 16 = None"
  using list_del_refines [of two_nodes two_list "[]" 16 5 "[(32, 9)]"] two_list_rep by auto

text \<open>(C30) \<^verbatim>\<open>libtar_list_merge\<close> makes a list of all elements of two disjoint lists, which stay as they were:
  under a comparison function the result is ordered, as a queue it is the concatenation.\<close>

theorem list_merge_sorted:
  assumes "list_rep h list1 xs" and "list_rep h list2 ys" and "set (map fst xs) \<inter> set (map fst ys) = {}"
    and "allocates malloc N" and "card (dom h) + length xs + length ys \<le> N"
    and "flags = LIST_USERFUNC \<and> comparison cmp \<or> flags = LIST_QUEUE"
  shows "\<exists>new h' zs. libtar_list_merge strcmp malloc (Some cmp) flags list1 list2 h = Some (new, h')
    \<and> list_rep h' new zs \<and> mset (map snd zs) = mset (map snd xs) + mset (map snd ys)
    \<and> (if flags = LIST_QUEUE then map snd zs = map snd xs @ map snd ys else ordered cmp (map snd zs))
    \<and> list_rep h' list1 xs \<and> list_rep h' list2 ys"
proof -
  have f: "flags \<in> {LIST_USERFUNC, LIST_STACK, LIST_QUEUE}" using assms(6) by auto
  have dis: "addrs xs \<inter> addrs ys = {}" using assms(3) by simp
  obtain new h' zs where z: "libtar_list_merge strcmp malloc (Some cmp) flags list1 list2 h = Some (new, h')"
    "list_rep h' new zs" "map snd zs = fold (add_abs flags cmp) (map snd xs @ map snd ys) []"
    "list_rep h' list1 xs" "list_rep h' list2 ys"
    using merge_value [OF assms(1,2) _ assms(4,5) f, of strcmp cmp] dis by auto
  have "mset (map snd zs) = mset (map snd xs) + mset (map snd ys)"
    unfolding z(3) by (simp only: fold_add_mset) simp
  moreover have "if flags = LIST_QUEUE then map snd zs = map snd xs @ map snd ys else ordered cmp (map snd zs)"
  proof (cases "flags = LIST_QUEUE")
    case True
    show ?thesis unfolding z(3) True fold_add_queue by simp
  next
    case False
    then have "flags = LIST_USERFUNC" "comparison cmp" using assms(6) by auto
    moreover have "ordered cmp []" by (simp add: ordered_def)
    ultimately have "ordered cmp (map snd zs)" unfolding z(3) by (simp only: fold_add_ordered)
    then show ?thesis using False by simp
  qed
  ultimately show ?thesis using z by blast
qed

definition four_places :: "int nodes \<Rightarrow> ptr" where
  "four_places h = (if h 48 = None then 48 else if h 64 = None then 64 else if h 80 = None then 80 else 96)"

lemma four_places_allocates: "allocates four_places 4"
  unfolding allocates_def
proof (intro allI impI)
  fix h :: "int nodes"
  assume c: "card (dom h) < 4"
  have "\<not> {48, 64, 80, 96} \<subseteq> dom h"
  proof
    assume "{48, 64, 80, 96} \<subseteq> dom h"
    then have "card {48, 64, 80, 96 :: ptr} \<le> card (dom h)" by (rule card_mono [rotated]) simp
    then show False using c by simp
  qed
  then show "four_places h \<noteq> NULL \<and> h (four_places h) = None" by (auto simp: four_places_def)
qed

theorem list_merge_sorted_witness:
  "\<exists>new h' zs. libtar_list_merge (\<lambda>a b. 0) four_places (Some (\<lambda>a b. a - b)) LIST_USERFUNC two_list (empty_list LIST_QUEUE) two_nodes
      = Some (new, h') \<and> list_rep h' new zs \<and> ordered (\<lambda>a b. a - b) (map snd zs) \<and> mset (map snd zs) = {#5, 9#}"
proof -
  have "list_rep two_nodes (empty_list LIST_QUEUE) []" by (simp add: list_rep_def empty_list_def)
  moreover have "comparison (\<lambda>a b :: int. a - b)" by (auto simp: comparison_def)
  moreover have "dom two_nodes = {16, 32}" by (auto simp: two_nodes_def)
  ultimately have "\<exists>new h' zs. libtar_list_merge (\<lambda>a b. 0) four_places (Some (\<lambda>a b. a - b)) LIST_USERFUNC two_list (empty_list LIST_QUEUE) two_nodes
      = Some (new, h') \<and> list_rep h' new zs \<and> mset (map snd zs) = mset (map snd [(16 :: ptr, 5 :: int), (32, 9)]) + mset (map snd ([] :: (ptr \<times> int) list))
    \<and> (if LIST_USERFUNC = LIST_QUEUE then map snd zs = map snd [(16 :: ptr, 5), (32, 9)] @ map snd ([] :: (ptr \<times> int) list) else ordered (\<lambda>a b. a - b) (map snd zs))
    \<and> list_rep h' two_list [(16, 5), (32, 9)] \<and> list_rep h' (empty_list LIST_QUEUE) []"
    by (intro list_merge_sorted [OF two_list_rep _ _ four_places_allocates]) simp_all
  then show ?thesis by (auto simp: list_flags)
qed

text \<open>(C31) Emptying a list frees every node and hands every element to the free function, in order; but
  the list keeps the pointer to its last node, so that \<^verbatim>\<open>libtar_list_prev\<close> from the end returns a
  node that was freed, while \<^verbatim>\<open>libtar_list_next\<close> finds the list empty.\<close>

theorem list_empty_dangling:
  assumes "list_rep h l xs" and "xs \<noteq> []"
  shows "\<exists>l' h'. libtar_list_empty True l h = Some (l', h', map snd xs) \<and> list_rep h' l' []
    \<and> (\<forall>a \<in> set (map fst xs). h' a = None) \<and> libtar_list_next l' NULL h' = Some (0, NULL)
    \<and> libtar_list_prev l' NULL h' = Some (1, fst (last xs)) \<and> h' (fst (last xs)) = None"
proof -
  let ?h = "\<lambda>a. if a \<in> addrs xs then None else h a" and ?l = "l\<lparr>ll_first := NULL, ll_nents := 0\<rparr>"
  have "libtar_list_empty True l h = Some (?l, ?h, map snd xs)" using list_empty_value [OF assms(1), of True] by simp
  moreover have s: "seg h NULL xs NULL" using assms(1) by (simp add: list_rep_def)
  have i: "fst (last xs) \<in> addrs xs" using end_of_in [OF assms(2), of NULL] assms(2) by (simp add: end_of_def)
  then have "fst (last xs) \<noteq> NULL" using seg_null [OF s] by metis
  moreover note i
  moreover have "ll_last ?l = fst (last xs)" using assms by (simp add: list_rep_def end_of_def)
  ultimately show ?thesis
    by (intro exI [of _ ?l] exI [of _ ?h]) (simp add: list_rep_def libtar_list_next_def libtar_list_prev_def)
qed

theorem list_empty_dangling_witness:
  "\<exists>l' h'. libtar_list_empty True two_list two_nodes = Some (l', h', [5, 9])
    \<and> libtar_list_prev l' NULL h' = Some (1, 32) \<and> h' 32 = None"
  using list_empty_dangling [OF two_list_rep] by auto

end
