(* ===== verification/Libtar_Hash.thy ===== *)
theory Libtar_Hash
  imports Libtar_List
begin

section \<open>libtar: hash tables of lists\<close>

text \<open>
  \<^verbatim>\<open>libtar_hash.c\<close>, on the lists of \<^verbatim>\<open>libtar_list.c\<close>. A table is an array of list pointers, null for
  a bucket never used. An index outside the array is the result \<open>None\<close>, as in the list theory. The
  tables are proved to be the abstract tables of their buckets (\<open>hash_rep\<close>), each element in the
  bucket its hash selects.
\<close>

subsection \<open>The code\<close>

record libtar_hashptr =
  hp_bucket :: int
  hp_node :: ptr

record 'd libtar_hash =
  lh_numbuckets :: int
  lh_table :: "'d libtar_list option list"
  lh_hashfunc :: "'d \<Rightarrow> int \<Rightarrow> int option"
  lh_nents :: u32

definition bucket_of :: "'d libtar_hash \<Rightarrow> int \<Rightarrow> 'd libtar_list option option" where
  "bucket_of t i = (if 0 \<le> i \<and> nat i < length (lh_table t) then Some (lh_table t ! nat i) else None)"

definition set_bucket :: "'d libtar_hash \<Rightarrow> int \<Rightarrow> 'd libtar_list \<Rightarrow> 'd libtar_hash" where
  "set_bucket t i l = t\<lparr>lh_table := (lh_table t)[nat i := Some l]\<rparr>"

definition libtar_hashptr_reset :: libtar_hashptr where
  "libtar_hashptr_reset = \<lparr>hp_bucket = - 1, hp_node = NULL\<rparr>"

definition libtar_hashptr_data :: "'d nodes \<Rightarrow> libtar_hashptr \<Rightarrow> 'd option" where
  "libtar_hashptr_data h hp = libtar_listptr_data h (hp_node hp)"

text \<open>The key is a string in memory or the null pointer; \<^verbatim>\<open>key[0]\<close>, an unsigned char on the ARM targets as in
  \<^verbatim>\<open>path_hashfunc\<close>, is converted to unsigned for the division.\<close>

definition libtar_str_hashfunc :: "byte list option \<Rightarrow> u32 \<Rightarrow> u32 option" where
  "libtar_str_hashfunc key num_buckets =
     (case key of
        None \<Rightarrow> Some 0
      | Some mem \<Rightarrow>
          if mem = [] \<or> num_buckets = 0 then None
          else Some (ucast (mem ! 0) mod num_buckets))"

definition libtar_hash_nents :: "'d libtar_hash \<Rightarrow> u32" where
  "libtar_hash_nents t = lh_nents t"

definition libtar_hash_new :: "int \<Rightarrow> ('d \<Rightarrow> int \<Rightarrow> int option) \<Rightarrow> 'd libtar_hash" where
  "libtar_hash_new num hashfunc =
     \<lparr>lh_numbuckets = num, lh_table = replicate (nat num) None, lh_hashfunc = hashfunc, lh_nents = 0\<rparr>"

text \<open>The search for the next bucket that is not empty.\<close>

partial_function (option) next_bucket :: "'d libtar_hash \<Rightarrow> int \<Rightarrow> ptr \<Rightarrow> 'd nodes \<Rightarrow> (int \<times> libtar_hashptr) option" where
  "next_bucket t b node h =
     (if b < lh_numbuckets t then do {
        lp \<leftarrow> bucket_of t b;
        (more, node) \<leftarrow> (case lp of None \<Rightarrow> Some (0, NULL) | Some l \<Rightarrow> libtar_list_next l NULL h);
        (if more \<noteq> 0 then Some (1, \<lparr>hp_bucket = b, hp_node = node\<rparr>) else next_bucket t (b + 1) node h)
      }
      else if b = lh_numbuckets t then Some (0, \<lparr>hp_bucket = - 1, hp_node = NULL\<rparr>)
      else Some (0, \<lparr>hp_bucket = b, hp_node = node\<rparr>))"

definition libtar_hash_next :: "'d libtar_hash \<Rightarrow> libtar_hashptr \<Rightarrow> 'd nodes \<Rightarrow> (int \<times> libtar_hashptr) option" where
  "libtar_hash_next t hp h = do {
     (more, node) \<leftarrow> (if hp_bucket hp \<ge> 0 \<and> hp_node hp \<noteq> NULL then do {
         lp \<leftarrow> bucket_of t (hp_bucket hp);
         l \<leftarrow> lp;
         libtar_list_next l (hp_node hp) h
       } else Some (0, hp_node hp));
     (if more \<noteq> 0 then Some (1, hp\<lparr>hp_node := node\<rparr>) else next_bucket t (hp_bucket hp + 1) node h)
   }"

definition libtar_hash_del :: "'d libtar_hash \<Rightarrow> libtar_hashptr \<Rightarrow> 'd nodes
    \<Rightarrow> (int \<times> 'd libtar_hash \<times> libtar_hashptr \<times> 'd nodes) option" where
  "libtar_hash_del t hp h =
     (if hp_bucket hp < 0 \<or> hp_bucket hp \<ge> lh_numbuckets t then Some (- 1, t, hp, h)
      else do {
        lp \<leftarrow> bucket_of t (hp_bucket hp);
        (case lp of
           None \<Rightarrow> Some (- 1, t, hp, h)
         | Some l \<Rightarrow>
             if hp_node hp = NULL then Some (- 1, t, hp, h)
             else do {
               (l, node, h) \<leftarrow> libtar_list_del l (hp_node hp) h;
               let t = set_bucket t (hp_bucket hp) l;
               Some (0, t\<lparr>lh_nents := lh_nents t - 1\<rparr>, hp\<lparr>hp_node := node\<rparr>, h)
             })
      })"

text \<open>The loops over all buckets of \<^verbatim>\<open>libtar_hash_empty\<close> and \<^verbatim>\<open>libtar_hash_free\<close>; the data given to
  \<^verbatim>\<open>freefunc\<close> is collected.\<close>

fun empty_buckets :: "bool \<Rightarrow> 'd libtar_list option list \<Rightarrow> 'd nodes \<Rightarrow> ('d libtar_list option list \<times> 'd nodes \<times> 'd list) option" where
  "empty_buckets freefunc [] h = Some ([], h, [])"
| "empty_buckets freefunc (None # ls) h = do {
     (ls, h, freed) \<leftarrow> empty_buckets freefunc ls h;
     Some (None # ls, h, freed)
   }"
| "empty_buckets freefunc (Some l # ls) h = do {
     (l, h, freed) \<leftarrow> libtar_list_empty freefunc l h;
     (ls, h, freed') \<leftarrow> empty_buckets freefunc ls h;
     Some (Some l # ls, h, freed @ freed')
   }"

definition libtar_hash_empty :: "bool \<Rightarrow> 'd libtar_hash \<Rightarrow> 'd nodes \<Rightarrow> ('d libtar_hash \<times> 'd nodes \<times> 'd list) option" where
  "libtar_hash_empty freefunc t h = do {
     (ls, h, freed) \<leftarrow> empty_buckets freefunc (lh_table t) h;
     Some (t\<lparr>lh_table := ls, lh_nents := 0\<rparr>, h, freed)
   }"

fun free_buckets :: "bool \<Rightarrow> 'd libtar_list option list \<Rightarrow> 'd nodes \<Rightarrow> ('d nodes \<times> 'd list) option" where
  "free_buckets freefunc [] h = Some (h, [])"
| "free_buckets freefunc (None # ls) h = free_buckets freefunc ls h"
| "free_buckets freefunc (Some l # ls) h = do {
     (h, freed) \<leftarrow> libtar_list_free freefunc l h;
     (h, freed') \<leftarrow> free_buckets freefunc ls h;
     Some (h, freed @ freed')
   }"

definition libtar_hash_free :: "bool \<Rightarrow> 'd libtar_hash \<Rightarrow> 'd nodes \<Rightarrow> ('d nodes \<times> 'd list) option" where
  "libtar_hash_free freefunc t h = free_buckets freefunc (lh_table t) h"

partial_function (option) libtar_hash_search :: "'d libtar_hash \<Rightarrow> libtar_hashptr \<Rightarrow> ('d \<Rightarrow> bool) \<Rightarrow> 'd nodes
    \<Rightarrow> (int \<times> libtar_hashptr) option" where
  "libtar_hash_search t hp matches h = do {
     (more, hp) \<leftarrow> libtar_hash_next t hp h;
     (if more \<noteq> 0 then do {
        d \<leftarrow> libtar_listptr_data h (hp_node hp);
        (if matches d then Some (1, hp) else libtar_hash_search t hp matches h)
      } else Some (0, hp))
   }"

definition libtar_hash_getkey :: "'d libtar_hash \<Rightarrow> libtar_hashptr \<Rightarrow> 'd \<Rightarrow> ('d \<Rightarrow> bool) \<Rightarrow> 'd nodes
    \<Rightarrow> (int \<times> libtar_hashptr) option" where
  "libtar_hash_getkey t hp key matches h = do {
     b \<leftarrow> (if hp_bucket hp = - 1 then lh_hashfunc t key (lh_numbuckets t) else Some (hp_bucket hp));
     lp \<leftarrow> bucket_of t b;
     (case lp of
        None \<Rightarrow> Some (0, hp\<lparr>hp_bucket := - 1\<rparr>)
      | Some l \<Rightarrow> do {
          (r, node) \<leftarrow> libtar_list_search l (hp_node hp) matches h;
          Some (r, \<lparr>hp_bucket = b, hp_node = node\<rparr>)
        })
   }"

text \<open>The new bucket list has the default comparison function; a queue never calls it.\<close>

definition libtar_hash_add :: "('d \<Rightarrow> 'd \<Rightarrow> int) \<Rightarrow> ('d nodes \<Rightarrow> ptr) \<Rightarrow> 'd libtar_hash \<Rightarrow> 'd \<Rightarrow> 'd nodes
    \<Rightarrow> (int \<times> 'd libtar_hash \<times> 'd nodes) option" where
  "libtar_hash_add strcmp malloc t data h = do {
     b \<leftarrow> lh_hashfunc t data (lh_numbuckets t);
     lp \<leftarrow> bucket_of t b;
     l \<leftarrow> (case lp of None \<Rightarrow> libtar_list_new strcmp LIST_QUEUE None | Some l \<Rightarrow> Some l);
     (i, l, h) \<leftarrow> libtar_list_add malloc l data h;
     let t = set_bucket t b l;
     Some (i, if i = 0 then t\<lparr>lh_nents := lh_nents t + 1\<rparr> else t, h)
   }"

subsection \<open>Tables in the store\<close>

definition bucket_rep :: "'d nodes \<Rightarrow> 'd libtar_list option \<Rightarrow> (ptr \<times> 'd) list \<Rightarrow> bool" where
  "bucket_rep h lp xs \<longleftrightarrow> (case lp of None \<Rightarrow> xs = [] | Some l \<Rightarrow> list_rep h l xs \<and> ll_flags l = LIST_QUEUE)"

definition hash_rep :: "'d nodes \<Rightarrow> 'd libtar_hash \<Rightarrow> (ptr \<times> 'd) list list \<Rightarrow> bool" where
  "hash_rep h t bs \<longleftrightarrow> lh_numbuckets t = int (length bs) \<and> list_all2 (bucket_rep h) (lh_table t) bs
     \<and> (\<forall>i < length bs. \<forall>j < length bs. i \<noteq> j \<longrightarrow> addrs (bs ! i) \<inter> addrs (bs ! j) = {})
     \<and> (\<forall>i < length bs. \<forall>x \<in> set (bs ! i). lh_hashfunc t (snd x) (int (length bs)) = Some (int i))
     \<and> lh_nents t = of_nat (length (concat bs))"

definition elements :: "(ptr \<times> 'd) list list \<Rightarrow> 'd list" where
  "elements bs = map snd (concat bs)"

lemma bucket_cong:
  assumes "bucket_rep h lp xs" "\<And>a. a \<in> addrs xs \<Longrightarrow> h' a = h a"
  shows "bucket_rep h' lp xs"
  using assms list_rep_cong [of xs h' h] by (cases lp) (auto simp: bucket_rep_def)

lemma concat_update:
  "i < length bs \<Longrightarrow> set (concat (bs[i := bs ! i @ [x]])) = insert x (set (concat bs))"
proof (induction bs arbitrary: i)
  case (Cons b bs)
  then show ?case by (cases i) auto
qed simp

lemma elements_update: "i < length bs \<Longrightarrow> set (elements (bs[i := bs ! i @ [(n, d)]])) = insert d (set (elements bs))"
  using concat_update [of i bs "(n, d)"] by (simp add: elements_def del: set_concat)

lemma addrs_update: "i < length bs \<Longrightarrow> addrs (concat (bs[i := bs ! i @ [(n, d)]])) = insert n (addrs (concat bs))"
  using concat_update [of i bs "(n, d)"] by (simp add: addrs_def del: set_concat addrs_simps(4))

lemma bucket_sub: "i < length bs \<Longrightarrow> set (bs ! i) \<subseteq> set (concat bs)"
  using nth_mem by fastforce

lemma bucket_addrs: "i < length bs \<Longrightarrow> addrs (bs ! i) \<subseteq> addrs (concat bs)"
  unfolding addrs_def by (rule image_mono) (rule bucket_sub)

lemma hash_rep_cong:
  assumes "hash_rep h t bs" "\<And>a. a \<in> addrs (concat bs) \<Longrightarrow> h' a = h a"
  shows "hash_rep h' t bs"
proof -
  have "bucket_rep h' (lh_table t ! i) (bs ! i)" if "i < length bs" for i
  proof (rule bucket_cong)
    show "bucket_rep h (lh_table t ! i) (bs ! i)" using assms(1) that by (simp add: hash_rep_def list_all2_conv_all_nth)
    show "h' a = h a" if "a \<in> addrs (bs ! i)" for a using that assms(2) bucket_addrs [OF \<open>i < length bs\<close>] by blast
  qed
  then show ?thesis using assms(1) by (simp add: hash_rep_def list_all2_conv_all_nth)
qed

lemma hash_new_rep: "0 \<le> num \<Longrightarrow> hash_rep h (libtar_hash_new num f) (replicate (nat num) [])"
  by (auto simp: hash_rep_def libtar_hash_new_def list_all2_conv_all_nth bucket_rep_def)

lemma hash_bucket:
  assumes "hash_rep h t bs" "i < length bs"
  shows "bucket_of t (int i) = Some (lh_table t ! i)" "bucket_rep h (lh_table t ! i) (bs ! i)"
    "length (lh_table t) = length bs" "lh_numbuckets t = int (length bs)"
  using assms by (auto simp: hash_rep_def bucket_of_def list_all2_conv_all_nth)

subsection \<open>Walking over the table\<close>

text \<open>Where a hash pointer stands: before the first element, or at an element; \<open>rest\<close> is what is still
  to be visited.\<close>

definition hash_at :: "(ptr \<times> 'd) list list \<Rightarrow> libtar_hashptr \<Rightarrow> (ptr \<times> 'd) list \<Rightarrow> bool" where
  "hash_at bs hp rest \<longleftrightarrow> hp = libtar_hashptr_reset \<and> rest = concat bs
     \<or> (\<exists>i xs x ys. i < length bs \<and> bs ! i = xs @ x # ys \<and> hp = \<lparr>hp_bucket = int i, hp_node = fst x\<rparr>
        \<and> rest = ys @ concat (drop (Suc i) bs))"

lemma next_bucket_value:
  assumes "hash_rep h t bs" "b \<le> length bs"
  shows "if concat (drop b bs) = [] then next_bucket t (int b) node h = Some (0, libtar_hashptr_reset)
    else \<exists>hp. next_bucket t (int b) node h = Some (1, hp) \<and> hash_at bs hp (tl (concat (drop b bs)))
      \<and> hp_node hp = fst (hd (concat (drop b bs)))"
  using assms(2)
proof (induction "length bs - b" arbitrary: b node)
  case 0
  then have "b = length bs" by simp
  then show ?case using hash_bucket [OF assms(1)] assms(1)
    by (subst next_bucket.simps) (simp add: hash_rep_def libtar_hashptr_reset_def)
next
  case (Suc k)
  then have b: "b < length bs" by simp
  note hb = hash_bucket [OF assms(1) b]
  have d: "drop b bs = bs ! b # drop (Suc b) bs" using b by (simp add: Cons_nth_drop_Suc)
  show ?case
  proof (cases "bs ! b")
    case Nil
    have "(case lh_table t ! b of None \<Rightarrow> Some (0, NULL) | Some l \<Rightarrow> libtar_list_next l NULL h) = Some (0, NULL)"
      using hb(2) list_next_value [of h _ "[]" "[]"] Nil by (cases "lh_table t ! b") (simp_all add: bucket_rep_def)
    then have n: "next_bucket t (int b) node h = next_bucket t (int (Suc b)) NULL h"
      using hb b by (subst next_bucket.simps) (simp add: algebra_simps)
    have c: "concat (drop b bs) = concat (drop (Suc b) bs)" using Nil d by simp
    show ?thesis unfolding n c by (rule Suc.hyps(1)) (use Suc.hyps(2) b in simp_all)
  next
    case (Cons x ys)
    obtain l where l: "lh_table t ! b = Some l" "list_rep h l (x # ys)"
      using hb(2) Cons by (cases "lh_table t ! b") (auto simp: bucket_rep_def)
    have "libtar_list_next l NULL h = Some (1, fst x)" using list_next_value [of h l "[]" "x # ys"] l(2) by simp
    then have "next_bucket t (int b) node h = Some (1, \<lparr>hp_bucket = int b, hp_node = fst x\<rparr>)"
      using hb b l(1) by (subst next_bucket.simps) simp
    moreover have "hash_at bs \<lparr>hp_bucket = int b, hp_node = fst x\<rparr> (ys @ concat (drop (Suc b) bs))"
      unfolding hash_at_def using b Cons by (intro disjI2 exI [of _ b] exI [of _ "[]"] exI [of _ x] exI [of _ ys]) simp
    ultimately show ?thesis using Cons d by simp
  qed
qed

lemma hash_next_value:
  assumes r: "hash_rep h t bs" and a: "hash_at bs hp rest"
  shows "if rest = [] then libtar_hash_next t hp h = Some (0, libtar_hashptr_reset)
    else \<exists>hp'. libtar_hash_next t hp h = Some (1, hp') \<and> hash_at bs hp' (tl rest) \<and> hp_node hp' = fst (hd rest)"
  using a [unfolded hash_at_def]
proof (elim disjE exE conjE)
  assume "hp = libtar_hashptr_reset" "rest = concat bs"
  moreover from this have "libtar_hash_next t hp h = next_bucket t (int 0) NULL h"
    by (simp add: libtar_hash_next_def libtar_hashptr_reset_def)
  ultimately show ?thesis using next_bucket_value [OF r le0, of NULL] by (simp only: drop_0)
next
  fix i xs x ys assume i: "i < length bs" "bs ! i = xs @ x # ys" and hp: "hp = \<lparr>hp_bucket = int i, hp_node = fst x\<rparr>"
    and rest: "rest = ys @ concat (drop (Suc i) bs)"
  note hb = hash_bucket [OF r i(1)]
  obtain l where l: "lh_table t ! i = Some l" "list_rep h l ((xs @ [x]) @ ys)"
    using hb(2) i(2) by (cases "lh_table t ! i") (auto simp: bucket_rep_def)
  have "fst x \<noteq> NULL" using l(2) by (cases x) (auto simp: list_rep_def seg_append)
  then have n: "libtar_hash_next t hp h = (if ys \<noteq> [] then Some (1, \<lparr>hp_bucket = int i, hp_node = start_of ys NULL\<rparr>)
      else next_bucket t (int (Suc i)) NULL h)"
    using list_next_value [OF l(2)] hb(1) l(1) hp by (cases ys) (simp_all add: libtar_hash_next_def add.commute)
  show ?thesis
  proof (cases ys)
    case Nil
    then have v: "libtar_hash_next t hp h = next_bucket t (int (Suc i)) NULL h" "rest = concat (drop (Suc i) bs)" using n rest by simp_all
    show ?thesis unfolding v by (rule next_bucket_value [OF r]) (use i(1) in simp)
  next
    case (Cons y zs)
    have "hash_at bs \<lparr>hp_bucket = int i, hp_node = fst y\<rparr> (zs @ concat (drop (Suc i) bs))"
      unfolding hash_at_def using i Cons by (intro disjI2 exI [of _ i] exI [of _ "xs @ [x]"] exI [of _ y] exI [of _ zs]) simp
    then show ?thesis using n rest Cons by simp
  qed
qed

lemma hash_elem:
  assumes r: "hash_rep h t bs" and x: "x \<in> set (concat bs)"
  shows "libtar_listptr_data h (fst x) = Some (snd x)"
proof -
  obtain b where "b \<in> set bs" "x \<in> set b" using x by auto
  then obtain i where i: "i < length bs" "x \<in> set (bs ! i)" by (auto simp: in_set_conv_nth [of b bs])
  obtain xs ys where s: "bs ! i = xs @ x # ys" using i(2) by (meson split_list)
  obtain l where "list_rep h l (bs ! i)"
    using hash_bucket(2) [OF r i(1)] s by (cases "lh_table t ! i") (auto simp: bucket_rep_def)
  then show ?thesis by (cases x) (auto simp: s list_rep_def seg_append libtar_listptr_data_def deref_def)
qed

lemma hash_at_sub: "hash_at bs hp rest \<Longrightarrow> set rest \<subseteq> set (concat bs)"
  unfolding hash_at_def
proof (elim disjE exE conjE)
  fix i xs x ys assume i: "i < length bs" "bs ! i = xs @ x # ys" and r: "rest = ys @ concat (drop (Suc i) bs)"
  have "set ys \<subseteq> set (bs ! i)" using i(2) by auto
  moreover have "bs ! i \<in> set bs" using i(1) by simp
  moreover have "set (drop (Suc i) bs) \<subseteq> set bs" by (rule set_drop_subset)
  ultimately show ?thesis unfolding r by (simp only: set_append set_concat) blast
qed simp

lemma hash_search_value:
  fixes matches :: "'d \<Rightarrow> bool"
  assumes r: "hash_rep h t bs" and a: "hash_at bs hp rest"
  defines "found \<equiv> dropWhile (\<lambda>x. \<not> matches (snd x)) rest"
  shows "if found = [] then libtar_hash_search t hp matches h = Some (0, libtar_hashptr_reset)
    else \<exists>hp'. libtar_hash_search t hp matches h = Some (1, hp') \<and> hash_at bs hp' (tl found) \<and> hp_node hp' = fst (hd found)"
  using a unfolding found_def
proof (induction rest arbitrary: hp)
  case Nil
  then show ?case using hash_next_value [OF r Nil] by (subst libtar_hash_search.simps) simp
next
  case (Cons x rest)
  obtain hp' where n: "libtar_hash_next t hp h = Some (1, hp')" "hash_at bs hp' rest" "hp_node hp' = fst x"
    using hash_next_value [OF r Cons.prems] by auto
  have x: "libtar_listptr_data h (fst x) = Some (snd x)" using hash_elem [OF r] hash_at_sub [OF Cons.prems] by simp
  show ?case
  proof (cases "matches (snd x)")
    case True
    then show ?thesis using n x by (subst libtar_hash_search.simps) simp
  next
    case False
    then have "libtar_hash_search t hp matches h = libtar_hash_search t hp' matches h"
      using n x by (subst libtar_hash_search.simps) simp
    then show ?thesis using Cons.IH [OF n(2)] False by simp
  qed
qed

subsection \<open>Looking up a key\<close>

lemma hash_getkey_value:
  fixes matches :: "'d \<Rightarrow> bool"
  assumes r: "hash_rep h t bs" and i: "lh_hashfunc t key (int (length bs)) = Some (int i)" "i < length bs"
  defines "found \<equiv> dropWhile (\<lambda>x. \<not> matches (snd x)) (bs ! i)"
  shows "\<exists>hp. libtar_hash_getkey t libtar_hashptr_reset key matches h = Some (if found = [] then 0 else 1, hp)
    \<and> (found \<noteq> [] \<longrightarrow> hp = \<lparr>hp_bucket = int i, hp_node = fst (hd found)\<rparr>)"
proof -
  note hb = hash_bucket [OF r i(2)]
  show ?thesis
  proof (cases "lh_table t ! i")
    case None
    then have "bs ! i = []" using hb(2) by (simp add: bucket_rep_def)
    then show ?thesis using hb None i(1) by (simp add: libtar_hash_getkey_def libtar_hashptr_reset_def found_def)
  next
    case (Some l)
    then have "list_rep h l ([] @ bs ! i)" using hb(2) by (simp add: bucket_rep_def)
    then have "libtar_list_search l NULL matches h = Some (if found = [] then 0 else 1, start_of found NULL)"
      using list_search_value [of h l "[]" "bs ! i" matches] by (simp add: found_def Let_def)
    then show ?thesis using hb Some i(1)
      by (cases found) (simp_all add: libtar_hash_getkey_def libtar_hashptr_reset_def)
  qed
qed

lemma first_match:
  "dropWhile (\<lambda>x. \<not> matches (snd x)) zs \<noteq> [] \<Longrightarrow>
    hd (dropWhile (\<lambda>x. \<not> matches (snd x)) zs) \<in> set zs
    \<and> snd (hd (dropWhile (\<lambda>x. \<not> matches (snd x)) zs)) = hd (filter matches (map snd zs))"
  by (induction zs) auto

text \<open>When whatever the key matches has its hash, the bucket stands for the whole table.\<close>

lemma hash_getkey_elements:
  fixes matches :: "'d \<Rightarrow> bool"
  assumes r: "hash_rep h t bs" and i: "lh_hashfunc t key (int (length bs)) = Some (int i)" "i < length bs"
    and same: "\<And>d. matches d \<Longrightarrow> lh_hashfunc t d (int (length bs)) = Some (int i)"
  shows "\<exists>hp. libtar_hash_getkey t libtar_hashptr_reset key matches h
      = Some (if \<exists>d \<in> set (elements bs). matches d then 1 else 0, hp)
    \<and> ((\<exists>d \<in> set (elements bs). matches d) \<longrightarrow> (\<exists>d \<in> set (elements bs). matches d \<and> libtar_hashptr_data h hp = Some d))"
proof -
  define found where "found = dropWhile (\<lambda>x. \<not> matches (snd x)) (bs ! i)"
  obtain hp where hp: "libtar_hash_getkey t libtar_hashptr_reset key matches h = Some (if found = [] then 0 else 1, hp)"
    "found \<noteq> [] \<longrightarrow> hp = \<lparr>hp_bucket = int i, hp_node = fst (hd found)\<rparr>"
    using hash_getkey_value [OF r i, of matches] by (auto simp: found_def)
  note sub = bucket_sub [OF i(2)]
  have e: "found \<noteq> [] \<longleftrightarrow> (\<exists>d \<in> set (elements bs). matches d)"
  proof
    assume "found \<noteq> []"
    then obtain x where "x \<in> set (bs ! i)" "matches (snd x)" by (auto simp: found_def dropWhile_eq_Nil_conv)
    then show "\<exists>d \<in> set (elements bs). matches d" using sub by (auto simp: elements_def)
  next
    assume "\<exists>d \<in> set (elements bs). matches d"
    then obtain b x where b: "b \<in> set bs" "x \<in> set b" "matches (snd x)" by (auto simp: elements_def)
    obtain j where j: "j < length bs" "bs ! j = b" using b(1) by (meson in_set_conv_nth)
    have "lh_hashfunc t (snd x) (int (length bs)) = Some (int j)" using r j b(2) by (auto simp: hash_rep_def)
    then have "j = i" using same [OF b(3)] by simp
    then show "found \<noteq> []" using j b by (auto simp: found_def dropWhile_eq_Nil_conv)
  qed
  have "\<exists>d \<in> set (elements bs). matches d \<and> libtar_hashptr_data h hp = Some d" if f: "found \<noteq> []"
  proof -
    have x: "hd found \<in> set (bs ! i)" using first_match f by (auto simp: found_def)
    have "matches (snd (hd found))" using hd_dropWhile [of "\<lambda>x. \<not> matches (snd x)" "bs ! i"] f by (simp add: found_def)
    moreover have "snd (hd found) \<in> set (elements bs)" using x sub by (auto simp: elements_def)
    moreover have "libtar_hashptr_data h hp = Some (snd (hd found))"
      using hash_elem [OF r subsetD [OF sub x]] f hp(2) by (simp add: libtar_hashptr_data_def)
    ultimately show ?thesis by blast
  qed
  then show ?thesis using hp(1) e by auto
qed

subsection \<open>Adding and deleting\<close>

lemma length_concat_update:
  "i < length bs \<Longrightarrow> length (concat (bs[i := xs])) + length (bs ! i) = length (concat bs) + length xs"
proof (induction bs arbitrary: i)
  case (Cons b bs)
  then show ?case by (cases i) auto
qed simp

lemma hash_update:
  assumes r: "hash_rep h t bs" and i: "i < length bs"
    and l: "list_rep h' l xs" "ll_flags l = LIST_QUEUE"
    and h': "\<And>a. a \<notin> addrs xs \<Longrightarrow> a \<notin> addrs (bs ! i) \<Longrightarrow> h' a = h a"
    and new: "\<And>a. a \<in> addrs xs \<Longrightarrow> a \<notin> addrs (bs ! i) \<Longrightarrow> h a = None"
    and hash: "\<forall>x \<in> set xs. lh_hashfunc t (snd x) (int (length bs)) = Some (int i)"
    and n: "c + of_nat (length (bs ! i)) = lh_nents t + of_nat (length xs)"
  shows "hash_rep h' ((set_bucket t (int i) l)\<lparr>lh_nents := c\<rparr>) (bs[i := xs])"
proof -
  let ?bs = "bs[i := xs]"
  note hb = hash_bucket [OF r]
  have dis: "addrs (bs ! j) \<inter> addrs (bs ! i) = {}" if "j < length bs" "j \<noteq> i" for j
    using r that i by (simp add: hash_rep_def)
  have used: "h a \<noteq> None" if "j < length bs" "a \<in> addrs (bs ! j)" for j a
    using hb(2) [OF that(1)] that(2) seg_alloc [of h NULL "bs ! j" NULL a]
    by (cases "lh_table t ! j") (auto simp: bucket_rep_def list_rep_def)
  have dis': "addrs (bs ! j) \<inter> addrs xs = {}" if "j < length bs" "j \<noteq> i" for j
    using dis [OF that] used [OF that(1)] new by blast
  have "bucket_rep h' (lh_table t ! j) (bs ! j)" if j: "j < length bs" "j \<noteq> i" for j
  proof (rule bucket_cong [OF hb(2) [OF j(1)]])
    fix a assume "a \<in> addrs (bs ! j)"
    then show "h' a = h a" using h' [of a] dis [OF j] dis' [OF j] by blast
  qed
  then have b: "list_all2 (bucket_rep h') ((lh_table t)[i := Some l]) ?bs"
    using hb(3) [OF i] i l by (auto simp: list_all2_conv_all_nth nth_list_update bucket_rep_def)
  have d: "addrs (?bs ! j) \<inter> addrs (?bs ! k) = {}" if "j < length bs" "k < length bs" "j \<noteq> k" for j k
    using r dis' that i unfolding hash_rep_def by (cases "j = i"; cases "k = i") (simp_all add: Int_commute)
  have hf: "lh_hashfunc t (snd x) (int (length bs)) = Some (int j)" if "j < length bs" "x \<in> set (?bs ! j)" for j x
    using r hash that by (cases "j = i") (simp_all add: hash_rep_def)
  have "(of_nat (length (concat ?bs) + length (bs ! i)) :: u32) = of_nat (length (concat bs) + length xs)"
    using length_concat_update [OF i, of xs] by simp
  then have "of_nat (length (concat ?bs)) + of_nat (length (bs ! i)) = c + of_nat (length (bs ! i))"
    using n r by (simp add: hash_rep_def del: length_concat)
  then have "c = of_nat (length (concat ?bs))" by (metis add_right_cancel)
  then show ?thesis using b d hf hb(4) [OF i] by (simp add: hash_rep_def set_bucket_def del: length_concat)
qed

lemma hash_add_value:
  assumes r: "hash_rep h t bs" and i: "lh_hashfunc t d (int (length bs)) = Some (int i)" "i < length bs"
    and n: "malloc h = n" "n \<noteq> NULL" "h n = None"
  shows "\<exists>t' h'. libtar_hash_add strcmp malloc t d h = Some (0, t', h') \<and> hash_rep h' t' (bs[i := bs ! i @ [(n, d)]])
    \<and> lh_hashfunc t' = lh_hashfunc t \<and> dom h' = insert n (dom h) \<and> (\<forall>a. a \<notin> addrs (bs ! i) \<longrightarrow> a \<noteq> n \<longrightarrow> h' a = h a)"
proof -
  note hb = hash_bucket [OF r i(2)]
  define l where "l = (case lh_table t ! i of None \<Rightarrow> the (libtar_list_new strcmp LIST_QUEUE None) | Some l \<Rightarrow> l)"
  have l: "(case lh_table t ! i of None \<Rightarrow> libtar_list_new strcmp LIST_QUEUE None | Some l \<Rightarrow> Some l) = Some l"
    by (cases "lh_table t ! i") (simp_all add: l_def libtar_list_new_def)
  have lr: "list_rep h l (bs ! i)" "ll_flags l = LIST_QUEUE"
    using hb(2) by (cases "lh_table t ! i"; simp add: l_def bucket_rep_def libtar_list_new_def list_rep_def)+
  obtain l' h' where a: "libtar_list_add malloc l d h = Some (0, l', h')" "list_rep h' l' (place l d n (bs ! i))"
    "ll_flags l' = ll_flags l" "\<forall>a. a \<notin> addrs (bs ! i) \<longrightarrow> a \<noteq> n \<longrightarrow> h' a = h a"
    using list_add_value [where malloc = malloc and d = d, OF lr(1) n] by blast
  have p: "place l d n (bs ! i) = bs ! i @ [(n, d)]" using lr(2) by (simp add: place_def list_flags)
  let ?t = "(set_bucket t (int i) l')\<lparr>lh_nents := lh_nents t + 1\<rparr>"
  have v: "libtar_hash_add strcmp malloc t d h = Some (0, ?t, h')"
    using hb i l a(1) by (simp add: libtar_hash_add_def Let_def set_bucket_def)
  have "\<forall>x \<in> set (bs ! i @ [(n, d)]). lh_hashfunc t (snd x) (int (length bs)) = Some (int i)"
    using r i by (simp add: hash_rep_def)
  then have "hash_rep h' ?t (bs[i := bs ! i @ [(n, d)]])"
    by (intro hash_update [OF r i(2)]) (use a p lr(2) n(3) in auto)
  moreover have "dom h' = insert n (dom h)" by (rule add_dom [OF lr(1) a(2) _ a(4)]) (simp add: p)
  ultimately show ?thesis using v a(4) by (intro exI [of _ ?t] exI [of _ h']) (simp add: set_bucket_def)
qed

lemma hash_del_value:
  assumes r: "hash_rep h t bs" and i: "i < length bs" "bs ! i = xs @ (n, d) # ys"
  shows "\<exists>t' h'. libtar_hash_del t \<lparr>hp_bucket = int i, hp_node = n\<rparr> h
      = Some (0, t', \<lparr>hp_bucket = int i, hp_node = start_of ys NULL\<rparr>, h') \<and> hash_rep h' t' (bs[i := xs @ ys]) \<and> h' n = None"
proof -
  note hb = hash_bucket [OF r i(1)]
  obtain l where l: "lh_table t ! i = Some l" "list_rep h l (xs @ (n, d) # ys)" "ll_flags l = LIST_QUEUE"
    using hb(2) i(2) by (cases "lh_table t ! i") (auto simp: bucket_rep_def)
  obtain l' h' where a: "libtar_list_del l n h = Some (l', start_of ys NULL, h')" "list_rep h' l' (xs @ ys)"
    "ll_flags l' = ll_flags l" "h' n = None" "\<forall>a. a \<notin> addrs (xs @ (n, d) # ys) \<longrightarrow> h' a = h a"
    using list_del_value [OF l(2)] by blast
  have "n \<noteq> NULL" using l(2) by (auto simp: list_rep_def seg_append)
  let ?t = "(set_bucket t (int i) l')\<lparr>lh_nents := lh_nents t - 1\<rparr>"
  have v: "libtar_hash_del t \<lparr>hp_bucket = int i, hp_node = n\<rparr> h = Some (0, ?t, \<lparr>hp_bucket = int i, hp_node = start_of ys NULL\<rparr>, h')"
    using hb i(1) l(1) a(1) \<open>n \<noteq> NULL\<close> by (simp add: libtar_hash_del_def Let_def set_bucket_def)
  have "\<forall>x \<in> set (xs @ ys). lh_hashfunc t (snd x) (int (length bs)) = Some (int i)"
    using r i by (auto simp: hash_rep_def)
  then have "hash_rep h' ?t (bs[i := xs @ ys])"
    by (intro hash_update [OF r i(1)]) (use a l(3) i(2) in auto)
  then show ?thesis using v a(4) by blast
qed

subsection \<open>Emptying and freeing\<close>

lemma buckets_after_free:
  "list_all2 (bucket_rep h) ls bs \<Longrightarrow> \<forall>ys \<in> set bs. addrs xs \<inter> addrs ys = {} \<Longrightarrow>
    list_all2 (bucket_rep (\<lambda>a. if a \<in> addrs xs then None else h a)) ls bs"
proof (induction rule: list_all2_induct)
  case (Cons lp ls ys bs)
  have "bucket_rep (\<lambda>a. if a \<in> addrs xs then None else h a) lp ys"
    by (rule bucket_cong [OF Cons(1)]) (use Cons.prems in auto)
  then show ?case using Cons by simp
qed simp

lemma free_buckets_value:
  assumes "list_all2 (bucket_rep h) ls bs" "sorted_wrt (\<lambda>xs ys. addrs xs \<inter> addrs ys = {}) bs"
  shows "free_buckets b ls h = Some (\<lambda>a. if a \<in> addrs (concat bs) then None else h a, if b then map snd (concat bs) else [])"
  using assms
proof (induction ls bs arbitrary: h rule: list_induct2')
  case (4 lp ls xs bs)
  let ?h = "\<lambda>a. if a \<in> addrs xs then None else h a"
  have e: "(\<lambda>a. if a \<in> addrs (concat bs) then None else ?h a) = (\<lambda>a. if a \<in> addrs (concat (xs # bs)) then None else h a)"
    by (auto simp: fun_eq_iff)
  have "list_all2 (bucket_rep ?h) ls bs" by (rule buckets_after_free) (use 4(2,3) in simp_all)
  then have ih: "free_buckets b ls ?h = Some (\<lambda>a. if a \<in> addrs (concat bs) then None else ?h a, if b then map snd (concat bs) else [])"
    using 4 by simp
  show ?case
  proof (cases lp)
    case None
    then have "xs = []" using 4(2) by (simp add: bucket_rep_def)
    then show ?thesis using None ih [unfolded e] by simp
  next
    case (Some l)
    then have "list_rep h l xs" using 4(2) by (simp add: bucket_rep_def)
    then have "libtar_list_free b l h = Some (?h, if b then map snd xs else [])" by (simp add: libtar_list_free_def list_empty_value)
    then show ?thesis using Some ih e by (cases b) simp_all
  qed
qed simp_all

lemma empty_buckets_value:
  assumes "list_all2 (bucket_rep h) ls bs" "sorted_wrt (\<lambda>xs ys. addrs xs \<inter> addrs ys = {}) bs"
  shows "\<exists>ls'. empty_buckets b ls h = Some (ls', (\<lambda>a. if a \<in> addrs (concat bs) then None else h a), if b then map snd (concat bs) else [])
    \<and> list_all2 (bucket_rep h') ls' (map (\<lambda>_. []) bs)"
  using assms
proof (induction ls bs arbitrary: h rule: list_induct2')
  case (4 lp ls xs bs)
  let ?h = "\<lambda>a. if a \<in> addrs xs then None else h a"
  have e: "(\<lambda>a. if a \<in> addrs (concat bs) then None else ?h a) = (\<lambda>a. if a \<in> addrs (concat (xs # bs)) then None else h a)"
    by (auto simp: fun_eq_iff)
  have "list_all2 (bucket_rep ?h) ls bs" by (rule buckets_after_free) (use 4(2,3) in simp_all)
  then obtain ls' where ih: "empty_buckets b ls ?h = Some (ls', (\<lambda>a. if a \<in> addrs (concat bs) then None else ?h a), if b then map snd (concat bs) else [])"
    "list_all2 (bucket_rep h') ls' (map (\<lambda>_. []) bs)"
    using 4(1) [of ?h] 4(3) by auto
  show ?case
  proof (cases lp)
    case None
    then have "xs = []" using 4(2) by (simp add: bucket_rep_def)
    moreover have "bucket_rep h' None []" by (simp add: bucket_rep_def)
    ultimately show ?thesis using None ih [unfolded e] by simp
  next
    case (Some l)
    then have l: "list_rep h l xs" "ll_flags l = LIST_QUEUE" using 4(2) by (simp_all add: bucket_rep_def)
    note v = list_empty_value [OF l(1), of b]
    have "bucket_rep h' (Some (l\<lparr>ll_first := NULL, ll_nents := 0\<rparr>)) []" using l by (simp add: bucket_rep_def list_rep_def)
    then show ?thesis using Some ih e v by (cases b) simp_all
  qed
qed simp_all

lemma hash_disjoint: "hash_rep h t bs \<Longrightarrow> list_all2 (bucket_rep h) (lh_table t) bs \<and> sorted_wrt (\<lambda>xs ys. addrs xs \<inter> addrs ys = {}) bs"
  by (simp add: hash_rep_def sorted_wrt_iff_nth_less)

subsection \<open>Properties\<close>

text \<open>(C32) An element added to a hash table is appended to the bucket its hash selects, and a lookup of any
  key with the same hash that it matches then finds it, unless an earlier element of that bucket
  matches too.\<close>

theorem hash_add_getkey:
  assumes "hash_rep h t bs" and "lh_hashfunc t d (int (length bs)) = Some (int i)" and "i < length bs"
    and "malloc h \<noteq> NULL" and "h (malloc h) = None"
    and "lh_hashfunc t key (int (length bs)) = Some (int i)" and "matches d"
  shows "\<exists>t' h' hp. libtar_hash_add strcmp malloc t d h = Some (0, t', h')
    \<and> hash_rep h' t' (bs[i := bs ! i @ [(malloc h, d)]])
    \<and> libtar_hash_getkey t' libtar_hashptr_reset key matches h' = Some (1, hp)
    \<and> libtar_hashptr_data h' hp = Some (hd (filter matches (map snd (bs ! i) @ [d])))"
proof -
  let ?bs = "bs[i := bs ! i @ [(malloc h, d)]]"
  obtain t' h' where a: "libtar_hash_add strcmp malloc t d h = Some (0, t', h')" "hash_rep h' t' ?bs"
    "lh_hashfunc t' = lh_hashfunc t"
    using hash_add_value [where malloc = malloc and n = "malloc h", OF assms(1-3) refl assms(4,5)] by blast
  define found where "found = dropWhile (\<lambda>x. \<not> matches (snd x)) (bs ! i @ [(malloc h, d)])"
  have "found \<noteq> []" using assms(7) by (simp add: found_def dropWhile_eq_Nil_conv)
  moreover obtain hp where g: "libtar_hash_getkey t' libtar_hashptr_reset key matches h' = Some (if found = [] then 0 else 1, hp)"
    "found \<noteq> [] \<longrightarrow> hp = \<lparr>hp_bucket = int i, hp_node = fst (hd found)\<rparr>"
    using hash_getkey_value [OF a(2), of key i matches] a(3) assms(3,6) by (auto simp: found_def)
  moreover have "hd found \<in> set (concat ?bs)"
  proof -
    have "hd found \<in> set (bs ! i @ [(malloc h, d)])" using calculation(1) first_match [of matches "bs ! i @ [(malloc h, d)]"] by (simp add: found_def)
    moreover have "bs ! i @ [(malloc h, d)] \<in> set ?bs" using assms(3) by (simp add: set_update_memI)
    ultimately show ?thesis unfolding set_concat by blast
  qed
  moreover have "snd (hd found) = hd (filter matches (map snd (bs ! i) @ [d]))"
    using calculation(1) first_match [of matches "bs ! i @ [(malloc h, d)]"] by (simp add: found_def)
  ultimately show ?thesis using a hash_elem [OF a(2), of "hd found"] by (auto simp: libtar_hashptr_data_def)
qed

definition mod_table :: "int libtar_hash" where
  "mod_table = libtar_hash_new 8 (\<lambda>d n. Some (d mod n))"

lemma mod_table_rep: "hash_rep h mod_table (replicate 8 [])"
  using hash_new_rep [of 8 h] by (simp add: mod_table_def)

theorem hash_add_getkey_witness:
  "\<exists>t' h' hp. libtar_hash_add (\<lambda>a b. 0) (\<lambda>h. 16) mod_table 21 Map.empty = Some (0, t', h')
    \<and> libtar_hash_getkey t' libtar_hashptr_reset 13 ((<) 20) h' = Some (1, hp) \<and> libtar_hashptr_data h' hp = Some 21"
  using hash_add_getkey [OF mod_table_rep [of Map.empty], of 21 5 "\<lambda>h. 16" 13 "(<) 20" "\<lambda>a b. 0"]
  by (fastforce simp: mod_table_def libtar_hash_new_def)

text \<open>\<^verbatim>\<open>libtar_hash_search\<close> from a reset pointer returns, always ends, and goes through the elements of
  all buckets in order: it stops at the first match, and when nothing matches it returns 0 with
  the pointer reset.\<close>

theorem hash_search_first:
  assumes "hash_rep h t bs"
  shows "if \<exists>d \<in> set (elements bs). matches d
    then \<exists>hp. libtar_hash_search t libtar_hashptr_reset matches h = Some (1, hp)
      \<and> libtar_hashptr_data h hp = Some (hd (filter matches (elements bs)))
    else libtar_hash_search t libtar_hashptr_reset matches h = Some (0, libtar_hashptr_reset)"
proof -
  define found where "found = dropWhile (\<lambda>x. \<not> matches (snd x)) (concat bs)"
  have "hash_at bs libtar_hashptr_reset (concat bs)" by (simp add: hash_at_def)
  note s = hash_search_value [OF assms this, of matches, folded found_def]
  have e: "found = [] \<longleftrightarrow> \<not> (\<exists>d \<in> set (elements bs). matches d)" by (auto simp: found_def elements_def dropWhile_eq_Nil_conv)
  show ?thesis
  proof (cases "found = []")
    case True
    then show ?thesis using s e by simp
  next
    case False
    then have h: "hd found \<in> set (concat bs)" "snd (hd found) = hd (filter matches (elements bs))"
      using first_match [of matches "concat bs"] by (simp_all add: found_def elements_def)
    then have d: "libtar_listptr_data h (fst (hd found)) = Some (hd (filter matches (elements bs)))"
      using hash_elem [OF assms] h by metis
    obtain hp where "libtar_hash_search t libtar_hashptr_reset matches h = Some (1, hp)" "hp_node hp = fst (hd found)"
      using s False by auto
    then show ?thesis using d e False by (auto simp: libtar_hashptr_data_def)
  qed
qed

theorem hash_search_first_witness:
  "libtar_hash_search mod_table libtar_hashptr_reset (\<lambda>d. d = 3) Map.empty = Some (0, libtar_hashptr_reset)"
  using hash_search_first [OF mod_table_rep [of Map.empty], of "\<lambda>d. d = 3"] by (simp add: elements_def)

text \<open>Deleting an element through its hash pointer takes exactly it out of its bucket, frees its node
  and lowers the count; emptying the table hands every element to the free function once, bucket
  by bucket, frees all its nodes and leaves an empty table; freeing the table does the same.\<close>

theorem hash_del_empty:
  assumes "hash_rep h t bs" and "i < length bs" and "bs ! i = xs @ (n, d) # ys"
  shows "(\<exists>t' h' hp'. libtar_hash_del t \<lparr>hp_bucket = int i, hp_node = n\<rparr> h = Some (0, t', hp', h')
      \<and> hash_rep h' t' (bs[i := xs @ ys]) \<and> h' n = None \<and> libtar_hash_nents t' = libtar_hash_nents t - 1)
    \<and> (\<exists>t' h'. libtar_hash_empty True t h = Some (t', h', elements bs) \<and> hash_rep h' t' (map (\<lambda>_. []) bs)
      \<and> (\<forall>x \<in> set (concat bs). h' (fst x) = None) \<and> libtar_hash_free True t h = Some (h', elements bs))"
proof (intro conjI)
  show "\<exists>t' h' hp'. libtar_hash_del t \<lparr>hp_bucket = int i, hp_node = n\<rparr> h = Some (0, t', hp', h')
      \<and> hash_rep h' t' (bs[i := xs @ ys]) \<and> h' n = None \<and> libtar_hash_nents t' = libtar_hash_nents t - 1"
  proof -
    obtain t' h' where d: "libtar_hash_del t \<lparr>hp_bucket = int i, hp_node = n\<rparr> h
      = Some (0, t', \<lparr>hp_bucket = int i, hp_node = start_of ys NULL\<rparr>, h')" "hash_rep h' t' (bs[i := xs @ ys])" "h' n = None"
      using hash_del_value [OF assms] by blast
    have "length (concat (bs[i := xs @ ys])) + 1 = length (concat bs)"
      using length_concat_update [OF assms(2), of "xs @ ys"] assms(3) by simp
    then have "(of_nat (length (concat bs)) :: u32) = of_nat (length (concat (bs[i := xs @ ys]))) + 1"
      by (metis of_nat_1 of_nat_add)
    then show ?thesis using d assms(1) unfolding hash_rep_def libtar_hash_nents_def by auto
  qed
  let ?h = "\<lambda>a. if a \<in> addrs (concat bs) then None else h a"
  note dis = hash_disjoint [OF assms(1)]
  obtain ls where e: "empty_buckets True (lh_table t) h = Some (ls, ?h, map snd (concat bs))"
    "list_all2 (bucket_rep ?h) ls (map (\<lambda>_. []) bs)"
    using empty_buckets_value [OF conjunct1 [OF dis] conjunct2 [OF dis], of True ?h] by auto
  have f: "libtar_hash_free True t h = Some (?h, elements bs)"
    using free_buckets_value [OF conjunct1 [OF dis] conjunct2 [OF dis], of True] by (simp add: libtar_hash_free_def elements_def)
  have "hash_rep ?h (t\<lparr>lh_table := ls, lh_nents := 0\<rparr>) (map (\<lambda>_. []) bs)"
    using e(2) assms(1) by (simp add: hash_rep_def map_replicate_const)
  then show "\<exists>t' h'. libtar_hash_empty True t h = Some (t', h', elements bs) \<and> hash_rep h' t' (map (\<lambda>_. []) bs)
      \<and> (\<forall>x \<in> set (concat bs). h' (fst x) = None) \<and> libtar_hash_free True t h = Some (h', elements bs)"
    using e(1) f by (intro exI [of _ "t\<lparr>lh_table := ls, lh_nents := 0\<rparr>"] exI [of _ ?h])
      (auto simp: libtar_hash_empty_def elements_def addrs_def)
qed

definition one_table :: "int libtar_hash" where
  "one_table = \<lparr>lh_numbuckets = 1, lh_table = [Some (two_list\<lparr>ll_flags := LIST_QUEUE\<rparr>)], lh_hashfunc = (\<lambda>d n. Some (d mod n)), lh_nents = 2\<rparr>"

lemma one_table_rep: "hash_rep two_nodes one_table [[(16, 5), (32, 9)]]"
  by (simp add: hash_rep_def one_table_def bucket_rep_def list_rep_def two_nodes_def two_list_def end_of_def)

theorem hash_del_empty_witness:
  "(\<exists>t' h' hp'. libtar_hash_del one_table \<lparr>hp_bucket = 0, hp_node = 16\<rparr> two_nodes = Some (0, t', hp', h')
      \<and> hash_rep h' t' [[(32, 9)]])
    \<and> (\<exists>h'. libtar_hash_free True one_table two_nodes = Some (h', [5, 9]))"
  using hash_del_empty [OF one_table_rep, of 0 "[]" 16 5 "[(32, 9)]"] by (auto simp: elements_def)

end
