(* ===== verification/Libtar_Links.thy ===== *)
theory Libtar_Links
  imports Libtar_Hash Libtar_Header
begin

section \<open>libtar: the inode tables that find hard links\<close>

text \<open>
  The two levels of hash tables in which \<^verbatim>\<open>tar_append_file\<close> of \<^verbatim>\<open>append.c\<close> remembers the files it has
  stored: devices, and for every device its inodes with the name each was saved under. The interface
  \<open>keyed_store\<close> is what the search for hard links relies on; it is interpreted on the tables.
\<close>

subsection \<open>The code\<close>

text \<open>The elements of the tables. \<open>td_h\<close> is the address of the device's own table.\<close>

record tar_dev =
  td_dev :: u64
  td_h :: ptr

record tar_ino =
  ti_ino :: u64
  ti_name :: "byte list"

text \<open>The tables and the memory they live in. The hash functions read the first field of an element,
  which is also all there is of a key.\<close>

record links =
  lk_h :: "tar_dev libtar_hash"
  lk_devs :: "tar_dev nodes"
  lk_tables :: "ptr \<Rightarrow> tar_ino libtar_hash option"
  lk_inos :: "tar_ino nodes"

definition dev_hashfunc :: "tar_dev \<Rightarrow> int \<Rightarrow> int option" where
  "dev_hashfunc d num = Some (int (dev_hash (td_dev d)))"

definition ino_hashfunc :: "tar_ino \<Rightarrow> int \<Rightarrow> int option" where
  "ino_hashfunc d num = Some (int (ino_hash (ti_ino d)))"

text \<open>The memory allocator: which sizes are granted, and where the next nodes and tables go.\<close>

record allocator =
  al_mem :: "nat \<Rightarrow> bool"
  al_dev :: "tar_dev nodes \<Rightarrow> ptr"
  al_ino :: "tar_ino nodes \<Rightarrow> ptr"
  al_table :: "(ptr \<Rightarrow> tar_ino libtar_hash option) \<Rightarrow> ptr"

text \<open>The table of a device, made when there is none. The inner result \<open>None\<close> is the return with -1;
  the outer one a use of the null pointer.\<close>

definition device_table :: "allocator \<Rightarrow> u64 \<Rightarrow> links \<Rightarrow> (ptr option \<times> links) option" where
  "device_table al dev lk = do {
     (r, hp) \<leftarrow> libtar_hash_getkey (lk_h lk) libtar_hashptr_reset \<lparr>td_dev = dev, td_h = NULL\<rparr>
       (\<lambda>d. dev_match dev (td_dev d)) (lk_devs lk);
     (if r \<noteq> 0 then do {
        td \<leftarrow> libtar_hashptr_data (lk_devs lk) hp;
        Some (Some (td_h td), lk)
      }
      else if \<not> al_mem al 16 then None
      else
        let p = al_table al (lk_tables lk)
        in if p = NULL then Some (None, lk)
           else
             let lk = lk\<lparr>lk_tables := (lk_tables lk)(p \<mapsto> libtar_hash_new 256 ino_hashfunc)\<rparr>
             in do {
               (i, h, devs) \<leftarrow> libtar_hash_add (\<lambda>a b. 0) (al_dev al) (lk_h lk) \<lparr>td_dev = dev, td_h = p\<rparr> (lk_devs lk);
               Some (if i = - 1 then None else Some p, lk\<lparr>lk_h := h, lk_devs := devs\<rparr>)
             })
   }"

text \<open>The name under which an inode of the table \<open>p\<close> was saved, or a new entry under \<open>name\<close>.\<close>

datatype link_result = Link "byte list" | Recorded | NoMemory

definition inode_entry :: "allocator \<Rightarrow> ptr \<Rightarrow> u64 \<Rightarrow> byte list \<Rightarrow> links \<Rightarrow> (link_result \<times> links) option" where
  "inode_entry al p ino name lk = do {
     t \<leftarrow> lk_tables lk p;
     (r, hp) \<leftarrow> libtar_hash_getkey t libtar_hashptr_reset \<lparr>ti_ino = ino, ti_name = []\<rparr>
       (\<lambda>d. ino_match ino (ti_ino d)) (lk_inos lk);
     (if r \<noteq> 0 then do {
        ti \<leftarrow> libtar_hashptr_data (lk_inos lk) hp;
        Some (Link (ti_name ti), lk)
      }
      else if \<not> al_mem al 4104 then Some (NoMemory, lk)
      else do {
        (ignored, t, inos) \<leftarrow> libtar_hash_add (\<lambda>a b. 0) (al_ino al) t
          \<lparr>ti_ino = ino, ti_name = take (MAXPATHLEN - 1) name\<rparr> (lk_inos lk);
        Some (Recorded, lk\<lparr>lk_tables := (lk_tables lk)(p \<mapsto> t), lk_inos := inos\<rparr>)
      })
   }"

text \<open>The part of \<^verbatim>\<open>tar_append_file\<close> that looks for a hard link.\<close>

definition check_hardlink :: "allocator \<Rightarrow> u64 \<Rightarrow> u64 \<Rightarrow> byte list \<Rightarrow> links \<Rightarrow> (link_result \<times> links) option" where
  "check_hardlink al dev ino name lk = do {
     (p, lk) \<leftarrow> device_table al dev lk;
     (case p of None \<Rightarrow> Some (NoMemory, lk) | Some p \<Rightarrow> inode_entry al p ino name lk)
   }"

text \<open>\<^verbatim>\<open>tar_dev_free\<close> on the table of a device; the entries are freed with \<^verbatim>\<open>free\<close>.\<close>

definition tar_dev_free :: "tar_dev \<Rightarrow> links \<Rightarrow> (links \<times> tar_ino list) option" where
  "tar_dev_free tdp lk = do {
     t \<leftarrow> lk_tables lk (td_h tdp);
     (inos, freed) \<leftarrow> libtar_hash_free True t (lk_inos lk);
     Some (lk\<lparr>lk_tables := (lk_tables lk)(td_h tdp := None), lk_inos := inos\<rparr>, freed)
   }"

text \<open>The tables of a handle opened for writing, as \<^verbatim>\<open>tar_init\<close> makes them.\<close>

definition no_links :: links where
  "no_links = \<lparr>lk_h = libtar_hash_new 16 dev_hashfunc, lk_devs = Map.empty, lk_tables = Map.empty, lk_inos = Map.empty\<rparr>"

subsection \<open>What the tables hold\<close>

text \<open>\<open>bs\<close> are the buckets of the device table, \<open>cs p\<close> those of the inode table at \<open>p\<close>.\<close>

definition ino_table_ok :: "links \<Rightarrow> (ptr \<Rightarrow> (ptr \<times> tar_ino) list list) \<Rightarrow> tar_dev \<Rightarrow> bool" where
  "ino_table_ok lk cs d \<longleftrightarrow> td_h d \<noteq> NULL \<and> (\<exists>t. lk_tables lk (td_h d) = Some t \<and> hash_rep (lk_inos lk) t (cs (td_h d))
     \<and> length (cs (td_h d)) = 256 \<and> lh_hashfunc t = ino_hashfunc)"

definition links_ok :: "links \<Rightarrow> (ptr \<times> tar_dev) list list \<Rightarrow> (ptr \<Rightarrow> (ptr \<times> tar_ino) list list) \<Rightarrow> bool" where
  "links_ok lk bs cs \<longleftrightarrow> hash_rep (lk_devs lk) (lk_h lk) bs \<and> length bs = 16 \<and> lh_hashfunc (lk_h lk) = dev_hashfunc
     \<and> (\<forall>d \<in> set (elements bs). ino_table_ok lk cs d)
     \<and> (\<forall>d \<in> set (elements bs). \<forall>e \<in> set (elements bs). td_h d = td_h e \<longrightarrow> d = e)
     \<and> (\<forall>d \<in> set (elements bs). \<forall>e \<in> set (elements bs). td_dev d = td_dev e \<longrightarrow> d = e)
     \<and> (\<forall>d \<in> set (elements bs). \<forall>e \<in> set (elements bs). td_h d \<noteq> td_h e \<longrightarrow>
          addrs (concat (cs (td_h d))) \<inter> addrs (concat (cs (td_h e))) = {})"

text \<open>The map the tables stand for: the saved name of a device and inode number.\<close>

definition saved :: "(ptr \<times> tar_dev) list list \<Rightarrow> (ptr \<Rightarrow> (ptr \<times> tar_ino) list list) \<Rightarrow> u64 \<Rightarrow> tar_ino \<Rightarrow> bool" where
  "saved bs cs dev e \<longleftrightarrow> (\<exists>d \<in> set (elements bs). td_dev d = dev \<and> e \<in> set (elements (cs (td_h d))))"

definition links_rep :: "links \<Rightarrow> (u64 \<times> u64 \<Rightarrow> byte list option) \<Rightarrow> bool" where
  "links_rep lk m \<longleftrightarrow> (\<exists>bs cs. links_ok lk bs cs
     \<and> (\<forall>dev ino name. m (dev, ino) = Some name \<longleftrightarrow> saved bs cs dev \<lparr>ti_ino = ino, ti_name = name\<rparr>))"

lemma no_links_rep: "links_rep no_links Map.empty"
proof -
  have "hash_rep Map.empty (libtar_hash_new 16 dev_hashfunc) (replicate 16 ([] :: (ptr \<times> tar_dev) list))"
    using hash_new_rep [of 16 "Map.empty :: tar_dev nodes" dev_hashfunc] by simp
  then have "links_ok no_links (replicate 16 []) (\<lambda>p. [])"
    by (simp add: links_ok_def no_links_def elements_def libtar_hash_new_def)
  moreover have "\<not> saved (replicate 16 []) (\<lambda>p. []) dev e" for dev e by (simp add: saved_def elements_def)
  ultimately show ?thesis unfolding links_rep_def by auto
qed

lemma hash_bounds: "dev_hash d < 16" "ino_hash d < 256"
proof -
  have "unat (d mod 16) < 16" "unat (d mod 256) < 256" by (simp_all add: unat_mod)
  then show "dev_hash d < 16" "ino_hash d < 256" by (simp_all add: dev_hash_def ino_hash_def)
qed

lemma elements_empty [simp]: "elements (replicate n []) = []"
  by (simp add: elements_def)

subsection \<open>A new device\<close>

lemma device_added:
  assumes ok: "links_ok lk bs cs" and new: "\<forall>d \<in> set (elements bs). td_dev d \<noteq> dev"
    and p: "p \<noteq> NULL" "lk_tables lk p = None" and n: "malloc (lk_devs lk) \<noteq> NULL" "lk_devs lk (malloc (lk_devs lk)) = None"
  defines "lk1 \<equiv> lk\<lparr>lk_tables := (lk_tables lk)(p \<mapsto> libtar_hash_new 256 ino_hashfunc)\<rparr>"
  shows "\<exists>h devs bs'. libtar_hash_add strcmp malloc (lk_h lk1) \<lparr>td_dev = dev, td_h = p\<rparr> (lk_devs lk1) = Some (0, h, devs)
    \<and> links_ok (lk1\<lparr>lk_h := h, lk_devs := devs\<rparr>) bs' (cs(p := replicate 256 []))
    \<and> set (elements bs') = insert \<lparr>td_dev = dev, td_h = p\<rparr> (set (elements bs))
    \<and> dom devs = insert (malloc (lk_devs lk)) (dom (lk_devs lk))"
proof -
  let ?d = "\<lparr>td_dev = dev, td_h = p\<rparr>" and ?i = "dev_hash dev" and ?cs = "cs(p := replicate 256 [])"
  let ?bs = "bs[?i := bs ! ?i @ [(malloc (lk_devs lk), ?d)]]"
  have r: "hash_rep (lk_devs lk) (lk_h lk) bs" "length bs = 16" "lh_hashfunc (lk_h lk) = dev_hashfunc"
    using ok by (simp_all add: links_ok_def)
  have i: "?i < length bs" using hash_bounds(1) r(2) by simp
  have hf: "lh_hashfunc (lk_h lk) ?d (int (length bs)) = Some (int ?i)" by (simp add: r(3) dev_hashfunc_def)
  obtain h devs where a: "libtar_hash_add strcmp malloc (lk_h lk) ?d (lk_devs lk) = Some (0, h, devs)"
    "hash_rep devs h ?bs" "lh_hashfunc h = lh_hashfunc (lk_h lk)" "dom devs = insert (malloc (lk_devs lk)) (dom (lk_devs lk))"
    using hash_add_value [where malloc = malloc and n = "malloc (lk_devs lk)" and strcmp = strcmp, OF r(1) hf i refl n] by blast
  have el: "set (elements ?bs) = insert ?d (set (elements bs))" by (rule elements_update [OF i])
  have np: "td_h d \<noteq> p" if "d \<in> set (elements bs)" for d
    using ok that p(2) by (auto simp: links_ok_def ino_table_ok_def)
  let ?lk = "lk1\<lparr>lk_h := h, lk_devs := devs\<rparr>"
  have old: "ino_table_ok ?lk ?cs d" if d: "d \<in> set (elements bs)" for d
    using ok d np [OF d] by (auto simp: links_ok_def ino_table_ok_def lk1_def)
  have "hash_rep (lk_inos lk) (libtar_hash_new 256 ino_hashfunc) (replicate 256 [])"
    using hash_new_rep [of 256 "lk_inos lk" ino_hashfunc] by simp
  then have this_ok: "ino_table_ok ?lk ?cs ?d" using p(1) by (simp add: ino_table_ok_def lk1_def libtar_hash_new_def)
  have inj: "\<forall>d \<in> set (elements ?bs). \<forall>e \<in> set (elements ?bs). (td_h d = td_h e \<longrightarrow> d = e) \<and> (td_dev d = td_dev e \<longrightarrow> d = e)"
    using ok np new unfolding el links_ok_def by auto
  have dis: "\<forall>d \<in> set (elements ?bs). \<forall>e \<in> set (elements ?bs). td_h d \<noteq> td_h e \<longrightarrow>
      addrs (concat (?cs (td_h d))) \<inter> addrs (concat (?cs (td_h e))) = {}"
    using ok np unfolding el links_ok_def by (auto simp: addrs_def)
  have tabs: "\<forall>d \<in> set (elements ?bs). ino_table_ok ?lk ?cs d" using old this_ok unfolding el by blast
  have "links_ok ?lk ?bs ?cs"
    unfolding links_ok_def by (intro conjI) (use a(2,3) r inj dis tabs in simp_all)
  moreover have "libtar_hash_add strcmp malloc (lk_h lk1) ?d (lk_devs lk1) = Some (0, h, devs)"
    using a(1) by (simp add: lk1_def)
  ultimately show ?thesis using el a(4) by blast
qed

subsection \<open>A new inode\<close>

lemma inode_added:
  assumes ok: "links_ok lk bs cs" and d: "d \<in> set (elements bs)" and t: "lk_tables lk (td_h d) = Some t"
    and n: "malloc (lk_inos lk) \<noteq> NULL" "lk_inos lk (malloc (lk_inos lk)) = None"
  shows "\<exists>t' inos c. libtar_hash_add strcmp malloc t e (lk_inos lk) = Some (0, t', inos)
    \<and> links_ok (lk\<lparr>lk_tables := (lk_tables lk)(td_h d \<mapsto> t'), lk_inos := inos\<rparr>) bs (cs(td_h d := c))
    \<and> set (elements c) = insert e (set (elements (cs (td_h d))))
    \<and> dom inos = insert (malloc (lk_inos lk)) (dom (lk_inos lk))"
proof -
  let ?p = "td_h d" and ?n = "malloc (lk_inos lk)" and ?i = "ino_hash (ti_ino e)"
  let ?c = "cs ?p" and ?c' = "(cs ?p)[?i := cs ?p ! ?i @ [(?n, e)]]"
  have r: "hash_rep (lk_inos lk) t ?c" "length ?c = 256" "lh_hashfunc t = ino_hashfunc" "?p \<noteq> NULL"
    using ok d t by (auto simp: links_ok_def ino_table_ok_def)
  have i: "?i < length ?c" using hash_bounds(2) r(2) by simp
  have hf: "lh_hashfunc t e (int (length ?c)) = Some (int ?i)" by (simp add: r(3) ino_hashfunc_def)
  obtain t' inos where a: "libtar_hash_add strcmp malloc t e (lk_inos lk) = Some (0, t', inos)"
    "hash_rep inos t' ?c'" "lh_hashfunc t' = lh_hashfunc t" "dom inos = insert ?n (dom (lk_inos lk))"
    "\<forall>a. a \<notin> addrs (?c ! ?i) \<longrightarrow> a \<noteq> ?n \<longrightarrow> inos a = lk_inos lk a"
    using hash_add_value [where malloc = malloc and n = ?n and strcmp = strcmp, OF r(1) hf i refl n] by blast
  have el: "set (elements ?c') = insert e (set (elements ?c))" by (rule elements_update [OF i])
  note ci = bucket_addrs [OF i]
  have used: "lk_inos lk a \<noteq> None" if f: "f \<in> set (elements bs)" and a: "a \<in> addrs (concat (cs (td_h f)))" for f a
  proof -
    obtain u where "hash_rep (lk_inos lk) u (cs (td_h f))" using ok f by (auto simp: links_ok_def ino_table_ok_def)
    moreover obtain x where "x \<in> set (concat (cs (td_h f)))" "fst x = a" using a unfolding addrs_def by blast
    ultimately have "libtar_listptr_data (lk_inos lk) a = Some (snd x)" using hash_elem by blast
    then show ?thesis by (auto simp: libtar_listptr_data_def deref_def split: if_splits)
  qed
  have fresh: "?n \<notin> addrs (concat (cs (td_h f)))" if "f \<in> set (elements bs)" for f
    using used [OF that, of ?n] n(2) by blast
  note ac = addrs_update [OF i, of ?n e]
  let ?lk = "lk\<lparr>lk_tables := (lk_tables lk)(?p \<mapsto> t'), lk_inos := inos\<rparr>" and ?cs = "cs(?p := ?c')"
  have other: "ino_table_ok ?lk ?cs f" if f: "f \<in> set (elements bs)" "td_h f \<noteq> ?p" for f
  proof -
    obtain u where u: "lk_tables lk (td_h f) = Some u" "hash_rep (lk_inos lk) u (cs (td_h f))"
      "length (cs (td_h f)) = 256" "lh_hashfunc u = ino_hashfunc" "td_h f \<noteq> NULL"
      using ok f(1) by (auto simp: links_ok_def ino_table_ok_def)
    have "addrs (concat (cs (td_h f))) \<inter> addrs (concat ?c) = {}" using ok d f by (simp add: links_ok_def)
    then have "hash_rep inos u (cs (td_h f))"
      using a(5) ci fresh [OF f(1)] by (intro hash_rep_cong [OF u(2)]) blast
    then show ?thesis using u f(2) by (simp add: ino_table_ok_def)
  qed
  have this_ok: "ino_table_ok ?lk ?cs f" if "td_h f = ?p" for f
    using a(2,3) r that by (simp add: ino_table_ok_def)
  have tabs: "\<forall>f \<in> set (elements bs). ino_table_ok ?lk ?cs f" using other this_ok by blast
  have dis: "\<forall>f \<in> set (elements bs). \<forall>g \<in> set (elements bs). td_h f \<noteq> td_h g \<longrightarrow>
      addrs (concat (?cs (td_h f))) \<inter> addrs (concat (?cs (td_h g))) = {}"
  proof (intro ballI impI)
    fix f g assume f: "f \<in> set (elements bs)" "g \<in> set (elements bs)" "td_h f \<noteq> td_h g"
    have o: "addrs (concat (cs (td_h f))) \<inter> addrs (concat (cs (td_h g))) = {}" using ok f by (simp add: links_ok_def)
    consider "td_h f = ?p" "td_h g \<noteq> ?p" | "td_h g = ?p" "td_h f \<noteq> ?p" | "td_h f \<noteq> ?p" "td_h g \<noteq> ?p" using f(3) by metis
    then show "addrs (concat (?cs (td_h f))) \<inter> addrs (concat (?cs (td_h g))) = {}"
    proof cases
      case 1
      then show ?thesis using o ac fresh [OF f(2)] by (simp add: Int_commute)
    next
      case 2
      then show ?thesis using o ac fresh [OF f(1)] by (simp add: Int_commute)
    next
      case 3
      then show ?thesis using o by simp
    qed
  qed
  have "links_ok ?lk bs ?cs" unfolding links_ok_def by (intro conjI) (use ok tabs dis in \<open>simp_all add: links_ok_def\<close>)
  then show ?thesis using a(1,4) el by blast
qed

subsection \<open>The tables as a map\<close>

text \<open>An allocator that serves \<open>n\<close> more requests of each kind.\<close>

definition link_room :: "allocator \<Rightarrow> nat \<Rightarrow> nat \<Rightarrow> links \<Rightarrow> bool" where
  "link_room al N n lk \<longleftrightarrow> (\<forall>k. al_mem al k) \<and> allocates (al_dev al) N \<and> allocates (al_ino al) N
     \<and> (\<forall>ts. card (dom ts) < N \<longrightarrow> al_table al ts \<noteq> NULL \<and> ts (al_table al ts) = None)
     \<and> card (dom (lk_devs lk)) + n \<le> N \<and> card (dom (lk_tables lk)) + n \<le> N \<and> card (dom (lk_inos lk)) + n \<le> N"

lemma card_insert_Suc: "card (insert x (A :: ptr set)) \<le> Suc (card A)"
  by (simp add: card_insert_if)

lemma device_table_value:
  assumes ok: "links_ok lk bs cs" and room: "link_room al N (Suc n) lk"
  shows "\<exists>lk' bs' cs' d. device_table al dev lk = Some (Some (td_h d), lk') \<and> links_ok lk' bs' cs'
    \<and> d \<in> set (elements bs') \<and> td_dev d = dev \<and> saved bs' cs' = saved bs cs
    \<and> lk_inos lk' = lk_inos lk \<and> card (dom (lk_devs lk')) + n \<le> N \<and> card (dom (lk_tables lk')) + n \<le> N"
proof -
  let ?key = "\<lparr>td_dev = dev, td_h = NULL\<rparr>" and ?m = "\<lambda>d. dev_match dev (td_dev d)"
  have r: "hash_rep (lk_devs lk) (lk_h lk) bs" "length bs = 16" "lh_hashfunc (lk_h lk) = dev_hashfunc"
    using ok by (simp_all add: links_ok_def)
  have i: "dev_hash dev < length bs" using hash_bounds(1) r(2) by simp
  obtain hp where g: "libtar_hash_getkey (lk_h lk) libtar_hashptr_reset ?key ?m (lk_devs lk)
      = Some (if \<exists>d \<in> set (elements bs). ?m d then 1 else 0, hp)"
    "(\<exists>d \<in> set (elements bs). ?m d) \<longrightarrow> (\<exists>d \<in> set (elements bs). ?m d \<and> libtar_hashptr_data (lk_devs lk) hp = Some d)"
    using hash_getkey_elements [OF r(1), of ?key "dev_hash dev" ?m] i by (auto simp: r(3) dev_hashfunc_def dev_match_def)
  show ?thesis
  proof (cases "\<exists>d \<in> set (elements bs). ?m d")
    case True
    then obtain d where d: "d \<in> set (elements bs)" "?m d" "libtar_hashptr_data (lk_devs lk) hp = Some d" using g(2) by blast
    have "device_table al dev lk = Some (Some (td_h d), lk)" using g(1) True d(3) by (simp add: device_table_def)
    then show ?thesis using ok d room by (auto simp: dev_match_def link_room_def)
  next
    case False
    have al: "al_mem al 16" "al_table al (lk_tables lk) \<noteq> NULL" "lk_tables lk (al_table al (lk_tables lk)) = None"
      "al_dev al (lk_devs lk) \<noteq> NULL" "lk_devs lk (al_dev al (lk_devs lk)) = None"
      using room by (auto simp: link_room_def allocates_def)
    let ?p = "al_table al (lk_tables lk)"
    let ?d = "\<lparr>td_dev = dev, td_h = ?p\<rparr>"
    let ?lk1 = "lk\<lparr>lk_tables := (lk_tables lk)(?p \<mapsto> libtar_hash_new 256 ino_hashfunc)\<rparr>" and ?cs = "cs(?p := replicate 256 [])"
    have new: "\<forall>d \<in> set (elements bs). td_dev d \<noteq> dev" using False by (auto simp: dev_match_def)
    obtain h devs bs' where a: "libtar_hash_add (\<lambda>a b. 0) (al_dev al) (lk_h ?lk1) ?d (lk_devs ?lk1) = Some (0, h, devs)"
      "links_ok (?lk1\<lparr>lk_h := h, lk_devs := devs\<rparr>) bs' ?cs" "set (elements bs') = insert ?d (set (elements bs))"
      "dom devs = insert (al_dev al (lk_devs lk)) (dom (lk_devs lk))"
      using device_added [where malloc = "al_dev al" and strcmp = "\<lambda>a b. 0", OF ok new al(2,3,4,5)] by blast
    let ?lk = "?lk1\<lparr>lk_h := h, lk_devs := devs\<rparr>"
    have v: "device_table al dev lk = Some (Some (td_h ?d), ?lk)"
      using g(1) False al(1,2) a(1) by (simp add: device_table_def Let_def)
    have np: "td_h d \<noteq> ?p" if "d \<in> set (elements bs)" for d
      using ok that al(3) by (auto simp: links_ok_def ino_table_ok_def)
    have s: "saved bs' ?cs = saved bs cs"
    proof (intro ext)
      fix dv e
      show "saved bs' ?cs dv e = saved bs cs dv e" unfolding saved_def a(3) using np by auto
    qed
    have rm: "card (dom (lk_devs lk)) + Suc n \<le> N" "card (dom (lk_tables lk)) + Suc n \<le> N" using room by (simp_all add: link_room_def)
    have "card (dom devs) \<le> Suc (card (dom (lk_devs lk)))" unfolding a(4) by (rule card_insert_Suc)
    then have "card (dom devs) + n \<le> N" using rm(1) by simp
    moreover have "card (insert ?p (dom (lk_tables lk))) \<le> Suc (card (dom (lk_tables lk)))" by (rule card_insert_Suc)
    then have "card (dom ((lk_tables lk)(?p \<mapsto> libtar_hash_new 256 ino_hashfunc))) + n \<le> N" using rm(2) by simp
    ultimately show ?thesis using v a(2,3) s by (intro exI [of _ ?lk] exI [of _ bs'] exI [of _ ?cs] exI [of _ ?d]) simp
  qed
qed

lemma inode_entry_value:
  assumes ok: "links_ok lk bs cs" and d: "d \<in> set (elements bs)" and al: "\<forall>k. al_mem al k"
    and n: "al_ino al (lk_inos lk) \<noteq> NULL" "lk_inos lk (al_ino al (lk_inos lk)) = None"
  shows "if \<exists>e \<in> set (elements (cs (td_h d))). ti_ino e = ino
    then \<exists>e \<in> set (elements (cs (td_h d))). ti_ino e = ino \<and> inode_entry al (td_h d) ino name lk = Some (Link (ti_name e), lk)
    else \<exists>lk' cs'. inode_entry al (td_h d) ino name lk = Some (Recorded, lk') \<and> links_ok lk' bs cs'
      \<and> (\<forall>dev e. saved bs cs' dev e \<longleftrightarrow> saved bs cs dev e \<or> dev = td_dev d \<and> e = \<lparr>ti_ino = ino, ti_name = take (MAXPATHLEN - 1) name\<rparr>)
      \<and> lk_devs lk' = lk_devs lk \<and> dom (lk_tables lk') = dom (lk_tables lk)
      \<and> dom (lk_inos lk') = insert (al_ino al (lk_inos lk)) (dom (lk_inos lk))"
proof -
  let ?p = "td_h d" and ?key = "\<lparr>ti_ino = ino, ti_name = []\<rparr>" and ?m = "\<lambda>e. ino_match ino (ti_ino e)"
  obtain t where t: "lk_tables lk ?p = Some t" "hash_rep (lk_inos lk) t (cs ?p)" "length (cs ?p) = 256" "lh_hashfunc t = ino_hashfunc"
    using ok d by (auto simp: links_ok_def ino_table_ok_def)
  have i: "ino_hash ino < length (cs ?p)" using hash_bounds(2) t(3) by simp
  obtain hp where g: "libtar_hash_getkey t libtar_hashptr_reset ?key ?m (lk_inos lk)
      = Some (if \<exists>e \<in> set (elements (cs ?p)). ?m e then 1 else 0, hp)"
    "(\<exists>e \<in> set (elements (cs ?p)). ?m e) \<longrightarrow> (\<exists>e \<in> set (elements (cs ?p)). ?m e \<and> libtar_hashptr_data (lk_inos lk) hp = Some e)"
    using hash_getkey_elements [OF t(2), of ?key "ino_hash ino" ?m] i by (auto simp: t(4) ino_hashfunc_def ino_match_def)
  have m: "?m e \<longleftrightarrow> ti_ino e = ino" for e by (auto simp: ino_match_def)
  show ?thesis
  proof (cases "\<exists>e \<in> set (elements (cs ?p)). ?m e")
    case True
    then obtain e where e: "e \<in> set (elements (cs ?p))" "?m e" "libtar_hashptr_data (lk_inos lk) hp = Some e" using g(2) by blast
    have "inode_entry al ?p ino name lk = Some (Link (ti_name e), lk)" using g(1) True e(3) t(1) by (simp add: inode_entry_def)
    then show ?thesis using e m by auto
  next
    case False
    let ?e = "\<lparr>ti_ino = ino, ti_name = take (MAXPATHLEN - 1) name\<rparr>"
    obtain t' inos c where a: "libtar_hash_add (\<lambda>a b. 0) (al_ino al) t ?e (lk_inos lk) = Some (0, t', inos)"
      "links_ok (lk\<lparr>lk_tables := (lk_tables lk)(?p \<mapsto> t'), lk_inos := inos\<rparr>) bs (cs(?p := c))"
      "set (elements c) = insert ?e (set (elements (cs ?p)))" "dom inos = insert (al_ino al (lk_inos lk)) (dom (lk_inos lk))"
      using inode_added [where malloc = "al_ino al" and strcmp = "\<lambda>a b. 0" and e = ?e, OF ok d t(1) n] by blast
    let ?lk = "lk\<lparr>lk_tables := (lk_tables lk)(?p \<mapsto> t'), lk_inos := inos\<rparr>"
    have v: "inode_entry al ?p ino name lk = Some (Recorded, ?lk)" using g(1) False t(1) al a(1) by (simp add: inode_entry_def)
    have same: "f = d" if "f \<in> set (elements bs)" "td_h f = ?p" for f using ok that d by (simp add: links_ok_def)
    have s: "saved bs (cs(?p := c)) dev e \<longleftrightarrow> saved bs cs dev e \<or> dev = td_dev d \<and> e = ?e" for dev e
    proof
      assume "saved bs (cs(?p := c)) dev e"
      then obtain f where f: "f \<in> set (elements bs)" "td_dev f = dev" "e \<in> set (elements ((cs(?p := c)) (td_h f)))" by (auto simp: saved_def)
      then show "saved bs cs dev e \<or> dev = td_dev d \<and> e = ?e"
        using same [OF f(1)] a(3) by (cases "td_h f = ?p") (auto simp: saved_def)
    next
      assume "saved bs cs dev e \<or> dev = td_dev d \<and> e = ?e"
      then consider f where "f \<in> set (elements bs)" "td_dev f = dev" "e \<in> set (elements (cs (td_h f)))" | "dev = td_dev d" "e = ?e"
        by (auto simp: saved_def)
      then show "saved bs (cs(?p := c)) dev e"
        using d a(3) by cases (auto simp: saved_def intro: bexI)
    qed
    have dm: "dom (lk_tables ?lk) = dom (lk_tables lk)" using t(1) by auto
    have nf: "\<not> (\<exists>e \<in> set (elements (cs ?p)). ti_ino e = ino)" using False m by blast
    show ?thesis
      unfolding if_not_P [OF nf]
      by (rule exI [of _ ?lk], rule exI [of _ "cs(?p := c)"]) (use v a(2,4) s dm in simp)
  qed
qed

subsection \<open>The interface\<close>

text \<open>A store of what is known under a key: a visit answers what the first visit with that key has left
  (as \<open>stored\<close>), or leaves it. \<open>room n\<close> promises space for \<open>n\<close> more visits.\<close>

fun visits :: "('k \<Rightarrow> 'v \<Rightarrow> 's \<Rightarrow> ('v option \<times> 's) option) \<Rightarrow> ('k \<times> 'v) list \<Rightarrow> 's \<Rightarrow> ('v option list \<times> 's) option" where
  "visits visit [] s = Some ([], s)"
| "visits visit ((k, v) # kvs) s = do {
     (r, s) \<leftarrow> visit k v s;
     (rs, s) \<leftarrow> visits visit kvs s;
     Some (r # rs, s)
   }"

locale keyed_store =
  fixes rep :: "'s \<Rightarrow> ('k \<Rightarrow> 'v option) \<Rightarrow> bool" and room :: "nat \<Rightarrow> 's \<Rightarrow> bool"
    and visit :: "'k \<Rightarrow> 'v \<Rightarrow> 's \<Rightarrow> ('v option \<times> 's) option" and stored :: "'v \<Rightarrow> 'v"
  assumes visit_rep: "\<lbrakk>rep s m; room (Suc n) s\<rbrakk>
    \<Longrightarrow> \<exists>s'. visit k v s = Some (m k, s') \<and> rep s' (if m k = None then m(k \<mapsto> stored v) else m) \<and> room n s'"
begin

lemma visits_first:
  assumes "rep s m" "room (length kvs) s"
  shows "\<exists>rs s'. visits visit kvs s = Some (rs, s') \<and> length rs = length kvs
    \<and> (\<forall>i < length kvs. rs ! i = (case m (fst (kvs ! i)) of Some v \<Rightarrow> Some v
        | None \<Rightarrow> map_of (map (\<lambda>(k, v). (k, stored v)) (take i kvs)) (fst (kvs ! i))))"
  using assms
proof (induction kvs arbitrary: s m)
  case Nil
  then show ?case by simp
next
  case (Cons kv kvs)
  obtain k v where kv: "kv = (k, v)" by (cases kv)
  let ?m = "if m k = None then m(k \<mapsto> stored v) else m"
  obtain s1 where s1: "visit k v s = Some (m k, s1)" "rep s1 ?m" "room (length kvs) s1"
    using visit_rep [OF Cons.prems(1), of "length kvs" k v] Cons.prems(2) by auto
  obtain rs s' where rs: "visits visit kvs s1 = Some (rs, s')" "length rs = length kvs"
    "\<forall>i < length kvs. rs ! i = (case ?m (fst (kvs ! i)) of Some v \<Rightarrow> Some v
        | None \<Rightarrow> map_of (map (\<lambda>(k, v). (k, stored v)) (take i kvs)) (fst (kvs ! i)))"
    using Cons.IH [OF s1(2,3)] by blast
  have "(m k # rs) ! i = (case m (fst ((kv # kvs) ! i)) of Some v \<Rightarrow> Some v
        | None \<Rightarrow> map_of (map (\<lambda>(k, v). (k, stored v)) (take i (kv # kvs))) (fst ((kv # kvs) ! i)))"
    if "i < length (kv # kvs)" for i
  proof (cases i)
    case 0
    then show ?thesis by (simp add: kv split: option.split)
  next
    case (Suc j)
    then show ?thesis using rs(3) that by (auto simp: kv split: option.split)
  qed
  then show ?case using s1(1) rs(1,2) by (simp add: kv)
qed

end

definition link_visit :: "allocator \<Rightarrow> u64 \<times> u64 \<Rightarrow> byte list \<Rightarrow> links \<Rightarrow> (byte list option \<times> links) option" where
  "link_visit al k name lk = map_option (\<lambda>(r, lk). (case r of Link n \<Rightarrow> Some n | _ \<Rightarrow> None, lk))
     (check_hardlink al (fst k) (snd k) name lk)"

lemma check_hardlink_value:
  assumes rep: "links_rep lk m" and room: "link_room al N (Suc n) lk"
  shows "\<exists>lk'. check_hardlink al dev ino name lk
      = Some (case m (dev, ino) of Some v \<Rightarrow> Link v | None \<Rightarrow> Recorded, lk')
    \<and> links_rep lk' (if m (dev, ino) = None then m((dev, ino) \<mapsto> take (MAXPATHLEN - 1) name) else m) \<and> link_room al N n lk'"
proof -
  obtain bs cs where ok: "links_ok lk bs cs"
    and m: "\<forall>dev ino name. m (dev, ino) = Some name \<longleftrightarrow> saved bs cs dev \<lparr>ti_ino = ino, ti_name = name\<rparr>"
    using rep unfolding links_rep_def by blast
  obtain lk1 bs1 cs1 d where 1: "device_table al dev lk = Some (Some (td_h d), lk1)" "links_ok lk1 bs1 cs1"
    "d \<in> set (elements bs1)" "td_dev d = dev" "saved bs1 cs1 = saved bs cs" "lk_inos lk1 = lk_inos lk"
    "card (dom (lk_devs lk1)) + n \<le> N" "card (dom (lk_tables lk1)) + n \<le> N"
    using device_table_value [OF ok room, of dev] by blast
  have c1: "check_hardlink al dev ino name lk = inode_entry al (td_h d) ino name lk1"
    using 1(1) by (simp add: check_hardlink_def)
  have al: "\<forall>k. al_mem al k" "al_ino al (lk_inos lk1) \<noteq> NULL" "lk_inos lk1 (al_ino al (lk_inos lk1)) = None"
    "card (dom (lk_inos lk1)) + Suc n \<le> N"
    using room 1(6) by (auto simp: link_room_def allocates_def)
  have sv: "saved bs1 cs1 dev e \<longleftrightarrow> e \<in> set (elements (cs1 (td_h d)))" for e
    using 1(2,3,4) by (auto simp: saved_def links_ok_def)
  have md: "m (dev, ino) = Some nm \<longleftrightarrow> \<lparr>ti_ino = ino, ti_name = nm\<rparr> \<in> set (elements (cs1 (td_h d)))" for nm
    using m sv 1(5) by simp
  note v = inode_entry_value [OF 1(2,3) al(1-3), of ino name]
  show ?thesis
  proof (cases "\<exists>e \<in> set (elements (cs1 (td_h d))). ti_ino e = ino")
    case True
    then obtain e where e: "e \<in> set (elements (cs1 (td_h d)))" "ti_ino e = ino"
      "inode_entry al (td_h d) ino name lk1 = Some (Link (ti_name e), lk1)" using v by auto
    have "e = \<lparr>ti_ino = ino, ti_name = ti_name e\<rparr>" using e(2) by (cases e) simp
    then have "m (dev, ino) = Some (ti_name e)" using md e(1) by metis
    moreover have "links_rep lk1 m"
      unfolding links_rep_def by (rule exI [of _ bs1], rule exI [of _ cs1]) (use 1(2,5) m in simp)
    ultimately show ?thesis using c1 e(3) 1(7,8) room al by (auto simp: link_room_def)
  next
    case False
    then have no: "m (dev, ino) = None" using md by (metis not_None_eq tar_ino.select_convs(1))
    obtain lk2 cs2 where 2: "inode_entry al (td_h d) ino name lk1 = Some (Recorded, lk2)" "links_ok lk2 bs1 cs2"
      "\<forall>dv e. saved bs1 cs2 dv e \<longleftrightarrow> saved bs1 cs1 dv e \<or> dv = td_dev d \<and> e = \<lparr>ti_ino = ino, ti_name = take (MAXPATHLEN - 1) name\<rparr>"
      "lk_devs lk2 = lk_devs lk1" "dom (lk_tables lk2) = dom (lk_tables lk1)"
      "dom (lk_inos lk2) = insert (al_ino al (lk_inos lk1)) (dom (lk_inos lk1))"
      using v False by auto
    have "card (dom (lk_inos lk2)) \<le> Suc (card (dom (lk_inos lk1)))" unfolding 2(6) by (rule card_insert_Suc)
    then have "link_room al N n lk2" using 2(4,5) 1(7,8) room al(4) by (simp add: link_room_def)
    moreover have "links_rep lk2 (m((dev, ino) \<mapsto> take (MAXPATHLEN - 1) name))"
    proof -
      have "\<not> saved bs cs dev \<lparr>ti_ino = ino, ti_name = nm\<rparr>" for nm using no m by (metis option.distinct(1))
      then have "(m((dev, ino) \<mapsto> take (MAXPATHLEN - 1) name)) (dv, i) = Some nm
          \<longleftrightarrow> saved bs1 cs2 dv \<lparr>ti_ino = i, ti_name = nm\<rparr>" for dv i nm
        using 2(3) m 1(4,5) by (cases "(dv, i) = (dev, ino)") auto
      then show ?thesis unfolding links_rep_def using 2(2) by blast
    qed
    ultimately show ?thesis using c1 2(1) no by auto
  qed
qed

interpretation link_store: keyed_store links_rep "link_room al N" "link_visit al" "take (MAXPATHLEN - 1)" for al N
proof (unfold_locales, goal_cases)
  case (1 s m n k v)
  obtain lk' where "check_hardlink al (fst k) (snd k) v s
      = Some (case m k of Some v \<Rightarrow> Link v | None \<Rightarrow> Recorded, lk')"
    "links_rep lk' (if m k = None then m(k \<mapsto> take (MAXPATHLEN - 1) v) else m)" "link_room al N n lk'"
    using check_hardlink_value [OF 1, of "fst k" "snd k" v] unfolding prod.collapse by blast
  then show ?case by (cases "m k") (simp_all add: link_visit_def)
qed

subsection \<open>Property\<close>

text \<open>(C8) The search for hard links: going through any sequence of files with empty tables and enough memory,
  the code finds for each file the name under which the first earlier file of the same device and
  inode was saved (cut to \<^verbatim>\<open>MAXPATHLEN - 1\<close> bytes), and nothing for the first file of an inode.\<close>

theorem hardlinks_found:
  assumes "link_room al N (length files) no_links"
  shows "\<exists>rs lk. visits (link_visit al) files no_links = Some (rs, lk) \<and> length rs = length files
    \<and> (\<forall>i < length files. rs ! i = map_of (map (\<lambda>(k, name). (k, take (MAXPATHLEN - 1) name)) (take i files)) (fst (files ! i)))"
  using link_store.visits_first [OF no_links_rep assms] by simp

text \<open>An allocator with room for two.\<close>

definition two_free :: "(ptr \<Rightarrow> 'a option) \<Rightarrow> ptr" where
  "two_free h = (if h 16 = None then 16 else 32)"

definition small_allocator :: allocator where
  "small_allocator = \<lparr>al_mem = (\<lambda>n. True), al_dev = two_free, al_ino = two_free, al_table = two_free\<rparr>"

lemma two_free_fresh: "card (dom h) < 2 \<Longrightarrow> two_free h \<noteq> NULL \<and> h (two_free h) = None"
proof -
  assume c: "card (dom h) < 2"
  have "\<not> {16, 32} \<subseteq> dom h"
  proof
    assume "{16, 32} \<subseteq> dom h"
    then have "card {16, 32 :: ptr} \<le> card (dom h)" by (rule card_mono [rotated]) simp
    then show False using c by simp
  qed
  then show ?thesis by (auto simp: two_free_def)
qed

theorem hardlinks_found_witness:
  "\<exists>rs lk. visits (link_visit small_allocator) [((8, 77), str ''/data/a''), ((8, 77), str ''/data/b'')] no_links = Some (rs, lk)
    \<and> rs ! 0 = None \<and> rs ! 1 = Some (str ''/data/a'')"
proof -
  have "link_room small_allocator 2 (length [((8 :: u64, 77 :: u64), str ''/data/a''), ((8, 77), str ''/data/b'')]) no_links"
    unfolding link_room_def allocates_def by (intro conjI allI impI) (simp_all add: small_allocator_def no_links_def two_free_fresh)
  from hardlinks_found [OF this] obtain rs lk where
    rs: "visits (link_visit small_allocator) [((8, 77), str ''/data/a''), ((8, 77), str ''/data/b'')] no_links = Some (rs, lk)"
    "\<forall>i < 2. rs ! i = map_of (map (\<lambda>(k, name). (k, take (MAXPATHLEN - 1) name))
      (take i [((8 :: u64, 77 :: u64), str ''/data/a''), ((8, 77), str ''/data/b'')]))
        (fst ([((8 :: u64, 77 :: u64), str ''/data/a''), ((8, 77), str ''/data/b'')] ! i))"
    by (auto simp: numeral_2_eq_2)
  have "rs ! 0 = None" using rs(2) by simp
  moreover have "rs ! 1 = Some (str ''/data/a'')" using spec [OF rs(2), of 1] by (simp add: MAXPATHLEN_def str_def)
  ultimately show ?thesis using rs(1) by blast
qed

end
