(* ===== verification/Posix_Files.thy ===== *)
theory Posix_Files
  imports Libtar_Member
begin

section \<open>Files, and the interface of a writer\<close>

text \<open>
  \<^verbatim>\<open>read\<close> and \<^verbatim>\<open>write\<close> as the code uses them: sequential, on file descriptors, a write bounded by the
  room that is left (\<open>f_room\<close>, \<open>None\<close> when there is no bound). The interface \<open>file_sink\<close> is what a writer
  of whole buffers relies on; a file sink is a sink for tar blocks.
\<close>

record files =
  f_out :: "int \<Rightarrow> byte list option"
  f_in :: "int \<Rightarrow> byte list option"
  f_room :: "nat option"

definition posix_write :: "files writer" where
  "posix_write fd b w =
     (case f_out w fd of
        None \<Rightarrow> (- 1, w)
      | Some c \<Rightarrow>
          (case f_room w of
             None \<Rightarrow> (int (length b), w\<lparr>f_out := (f_out w)(fd \<mapsto> c @ b)\<rparr>)
           | Some n \<Rightarrow>
               if b \<noteq> [] \<and> n = 0 then (- 1, w)
               else (int (min n (length b)), w\<lparr>f_out := (f_out w)(fd \<mapsto> c @ take n b), f_room := Some (n - length b)\<rparr>)))"

definition posix_read :: "files reader" where
  "posix_read fd n w =
     (case f_in w fd of
        None \<Rightarrow> (- 1, [], w)
      | Some c \<Rightarrow> (int (min n (length c)), take n c, w\<lparr>f_in := (f_in w)(fd \<mapsto> drop n c)\<rparr>))"

locale file_sink =
  fixes wr :: "'w writer" and fd :: int and good :: "'w \<Rightarrow> bool" and out :: "'w \<Rightarrow> byte list"
  assumes write_all: "good w \<Longrightarrow> \<exists>w'. wr fd b w = (int (length b), w') \<and> good w' \<and> out w' = out w @ b"
    and write_other: "\<lbrakk>good w; fd' \<noteq> fd\<rbrakk> \<Longrightarrow> good (snd (wr fd' b w)) \<and> out (snd (wr fd' b w)) = out w"

sublocale file_sink \<subseteq> blocks: tar_sink wr fd good out
proof (unfold_locales, goal_cases)
  case (1 w b)
  then show ?case using write_all [OF 1(1), of b] by simp
qed

text \<open>An output file with room, and an input file.\<close>

definition writable :: "int \<Rightarrow> files \<Rightarrow> bool" where
  "writable fd w \<longleftrightarrow> f_out w fd \<noteq> None \<and> f_room w = None"

definition written :: "int \<Rightarrow> files \<Rightarrow> byte list" where
  "written fd w = the (f_out w fd)"

definition unread :: "int \<Rightarrow> files \<Rightarrow> byte list" where
  "unread fd w = (case f_in w fd of None \<Rightarrow> [] | Some c \<Rightarrow> c)"

interpretation posix_out: file_sink posix_write fd "writable fd" "written fd" for fd
  by unfold_locales (auto simp: posix_write_def writable_def written_def split: option.splits)

interpretation posix_in: tar_source posix_read fd "unread fd" for fd
  by unfold_locales (auto simp: posix_read_def unread_def split: option.splits)

end
