(* ===== verification/Tar_Write.thy ===== *)
theory Tar_Write
  imports Posix_Files
begin

section \<open>The buffered archive writer\<close>

text \<open>
  \<^verbatim>\<open>tarWrite.c\<close>: the writer that the backup hands to libtar. Its globals are the record
  \<open>tar_writer\<close>; the write function of the system is the parameter \<open>wr\<close>. \<open>None\<close> is a copy beyond the
  allocated buffer. The buffer is proved to provide the tar block sink, on any file sink.
\<close>

subsection \<open>The code\<close>

record tar_writer =
  w_flush :: int
  w_eot_count :: int
  w_buffer :: "byte list"
  w_buffer_size :: u32
  w_buffer_loc :: u32
  w_buffer_status :: int
  w_prog_pipe :: int

text \<open>The globals at program start; the null buffer has no bytes.\<close>

definition tar_writer_start :: tar_writer where
  "tar_writer_start = \<lparr>w_flush = 0, w_eot_count = - 1, w_buffer = [], w_buffer_size = 4096, w_buffer_loc = 0,
     w_buffer_status = 0, w_prog_pipe = - 1\<rparr>"

definition reinit_libtar_buffer :: "tar_writer \<Rightarrow> tar_writer" where
  "reinit_libtar_buffer g = g\<lparr>w_flush := 0, w_eot_count := - 1, w_buffer_loc := 0, w_buffer_status := 1\<rparr>"

text \<open>\<open>malloc n\<close> is the memory a request for \<open>n\<close> bytes gets.\<close>

definition init_libtar_buffer :: "(nat \<Rightarrow> byte list) \<Rightarrow> u32 \<Rightarrow> int \<Rightarrow> tar_writer \<Rightarrow> tar_writer" where
  "init_libtar_buffer malloc new_buff_size pipe_fd g =
     (let g = (if new_buff_size \<noteq> 0 then g\<lparr>w_buffer_size := new_buff_size\<rparr> else g);
          g = reinit_libtar_buffer g
      in g\<lparr>w_buffer := malloc (8 * unat (w_buffer_size g)), w_prog_pipe := pipe_fd\<rparr>)"

definition free_libtar_buffer :: "tar_writer \<Rightarrow> tar_writer" where
  "free_libtar_buffer g =
     (let g = (if w_buffer_status g > 0 then g\<lparr>w_buffer := []\<rparr> else g)
      in g\<lparr>w_buffer_status := 0, w_prog_pipe := - 1\<rparr>)"

definition le_bytes64 :: "u64 \<Rightarrow> byte list" where
  "le_bytes64 x = map (\<lambda>k. ucast (drop_bit (8 * k) x)) [0..<8]"

definition write_libtar_buffer :: "'w writer \<Rightarrow> int \<Rightarrow> byte list \<Rightarrow> tar_writer \<Rightarrow> 'w \<Rightarrow> (int \<times> tar_writer \<times> 'w) option" where
  "write_libtar_buffer wr fd buffer g w =
     (case (if w_flush g = 0 then
              (if unat (w_buffer_loc g) + length buffer > length (w_buffer g) then None
               else
                 let g = g\<lparr>w_buffer := put (w_buffer g) (unat (w_buffer_loc g)) buffer,
                     w_buffer_loc := w_buffer_loc g + of_nat (length buffer)\<rparr>;
                     g = (if w_eot_count g \<ge> 0 \<and> w_eot_count g < 2 then g\<lparr>w_eot_count := w_eot_count g + 1\<rparr> else g)
                 in Some (if w_buffer_loc g \<ge> w_buffer_size g \<or> w_eot_count g \<ge> 2 then g\<lparr>w_flush := 1\<rparr> else g))
            else Some g) of
        None \<Rightarrow> None
      | Some g \<Rightarrow>
          if w_flush g = 1 then
            let g = g\<lparr>w_flush := 0\<rparr>
            in if w_buffer_loc g = 0 then Some (0, g, w)
               else
                 let (n, w) = wr fd (take (unat (w_buffer_loc g)) (w_buffer g)) w
                 in if n \<noteq> sint (w_buffer_loc g) then Some (- 1, g\<lparr>w_buffer_loc := 0\<rparr>, w)
                    else
                      let fs = ucast (w_buffer_loc g);
                          (ignored, w) = wr (w_prog_pipe g) (le_bytes64 fs) w
                      in Some (int (length buffer), g\<lparr>w_buffer_loc := 0\<rparr>, w)
          else Some (int (length buffer), g, w))"

definition flush_libtar_buffer :: "int \<Rightarrow> tar_writer \<Rightarrow> tar_writer" where
  "flush_libtar_buffer fd g =
     (let g = g\<lparr>w_eot_count := 0\<rparr>
      in if w_buffer_status g \<noteq> 0 then g\<lparr>w_buffer_status := 2\<rparr> else g)"

definition init_libtar_no_buffer :: "int \<Rightarrow> tar_writer \<Rightarrow> tar_writer" where
  "init_libtar_no_buffer pipe_fd g = g\<lparr>w_buffer_size := 512, w_prog_pipe := pipe_fd, w_buffer_status := 0\<rparr>"

definition write_libtar_no_buffer :: "'w writer \<Rightarrow> int \<Rightarrow> byte list \<Rightarrow> tar_writer \<Rightarrow> 'w \<Rightarrow> int \<times> tar_writer \<times> 'w" where
  "write_libtar_no_buffer wr fd buffer g w =
     (let (ignored, w) = wr (w_prog_pipe g) (le_bytes64 512) w;
          (n, w) = wr fd buffer w
      in (n, g, w))"

text \<open>The two as write functions of a handle, on the globals and the system; a crash stays one.\<close>

definition write_tar :: "'w writer \<Rightarrow> (tar_writer \<times> 'w) option writer" where
  "write_tar wr fd buffer s =
     (case s of
        None \<Rightarrow> (- 1, None)
      | Some (g, w) \<Rightarrow>
          (case write_libtar_buffer wr fd buffer g w of
             None \<Rightarrow> (- 1, None)
           | Some (n, g, w) \<Rightarrow> (n, Some (g, w))))"

definition write_tar_no_buffer :: "'w writer \<Rightarrow> (tar_writer \<times> 'w) writer" where
  "write_tar_no_buffer wr fd buffer s =
     (let (n, g, w) = write_libtar_no_buffer wr fd buffer (fst s) (snd s) in (n, g, w))"

subsection \<open>What the buffer holds\<close>

definition buffered :: "tar_writer \<Rightarrow> byte list" where
  "buffered g = take (unat (w_buffer_loc g)) (w_buffer g)"

text \<open>The state between writes: a buffer of at least one block, in which the next block still fits.\<close>

definition writer_inv :: "int \<Rightarrow> tar_writer \<Rightarrow> bool" where
  "writer_inv fd g \<longleftrightarrow> w_flush g = 0 \<and> length (w_buffer g) = 8 * unat (w_buffer_size g)
     \<and> 512 \<le> unat (w_buffer_size g) \<and> unat (w_buffer_size g) < 2 ^ 30
     \<and> unat (w_buffer_loc g) < unat (w_buffer_size g) \<and> w_prog_pipe g \<noteq> fd"

text \<open>A write of a block: the block is appended to the buffer, and the buffer goes to the file when it
  is full or the second block after \<^verbatim>\<open>flush_libtar_buffer\<close> has come.\<close>

lemma sint_small: "uint (x :: u32) < 2 ^ 31 \<Longrightarrow> sint x = uint x"
  unfolding sint_uint by (rule signed_take_bit_int_eq_self) (simp_all add: order_trans [OF _ uint_ge_0])

lemma loc_facts:
  assumes inv: "writer_inv fd g"
  shows "unat (w_buffer_loc g + 512) = unat (w_buffer_loc g) + 512" "w_buffer_loc g + 512 \<noteq> 0"
    "(w_buffer_loc g + 512 \<ge> w_buffer_size g) = (unat (w_buffer_loc g) + 512 \<ge> unat (w_buffer_size g))"
    "sint (w_buffer_loc g + 512) = int (unat (w_buffer_loc g) + 512)"
    "(ucast (w_buffer_loc g + 512) :: u64) = of_nat (unat (w_buffer_loc g) + 512)"
    "unat (w_buffer_loc g) + 512 \<le> length (w_buffer g)"
proof -
  have b: "unat (w_buffer_loc g) < 2 ^ 30" using inv by (simp add: writer_inv_def)
  show u: "unat (w_buffer_loc g + 512) = unat (w_buffer_loc g) + 512"
    using b by (simp add: unat_word_ariths)
  then show "w_buffer_loc g + 512 \<noteq> 0" by (metis add_is_0 unsigned_0 zero_neq_numeral)
  show "(w_buffer_loc g + 512 \<ge> w_buffer_size g) = (unat (w_buffer_loc g) + 512 \<ge> unat (w_buffer_size g))"
    by (simp add: word_le_nat_alt u)
  have i: "uint (w_buffer_loc g + 512) = int (unat (w_buffer_loc g) + 512)" by (simp only: uint_nat u)
  have "unat (w_buffer_loc g) + 512 < 2 ^ 31" using b by simp
  then have "int (unat (w_buffer_loc g) + 512) < 2 ^ 31" by (simp only: of_nat_less_numeral_power_cancel_iff)
  then show "sint (w_buffer_loc g + 512) = int (unat (w_buffer_loc g) + 512)"
    using sint_small [of "w_buffer_loc g + 512"] unfolding i by simp
  show "(ucast (w_buffer_loc g + 512) :: u64) = of_nat (unat (w_buffer_loc g) + 512)"
    by (simp flip: u)
  show "unat (w_buffer_loc g) + 512 \<le> length (w_buffer g)" using inv by (simp add: writer_inv_def)
qed

lemma put_block:
  "n + length b \<le> length buf \<Longrightarrow> take (n + length b) (put buf n b) = take n buf @ b"
  "n + length b \<le> length buf \<Longrightarrow> length (put buf n b) = length buf"
  by (simp_all add: put_def)

definition after_block :: "tar_writer \<Rightarrow> byte list \<Rightarrow> tar_writer" where
  "after_block g b = g\<lparr>w_buffer := put (w_buffer g) (unat (w_buffer_loc g)) b, w_buffer_loc := w_buffer_loc g + 512,
     w_eot_count := (if w_eot_count g \<ge> 0 \<and> w_eot_count g < 2 then w_eot_count g + 1 else w_eot_count g)\<rparr>"

definition full_after :: "tar_writer \<Rightarrow> bool" where
  "full_after g \<longleftrightarrow> unat (w_buffer_loc g) + 512 \<ge> unat (w_buffer_size g) \<or> w_eot_count g \<ge> 1"

lemma write_libtar_buffer_value:
  assumes inv: "writer_inv fd g" and b: "length b = 512"
  shows "write_libtar_buffer wr fd b g w =
    (if full_after g then
       (let (n, w1) = wr fd (buffered g @ b) w
        in if n \<noteq> int (length (buffered g @ b)) then Some (- 1, (after_block g b)\<lparr>w_buffer_loc := 0\<rparr>, w1)
           else Some (512, (after_block g b)\<lparr>w_buffer_loc := 0\<rparr>,
             snd (wr (w_prog_pipe g) (le_bytes64 (of_nat (length (buffered g @ b)))) w1)))
     else Some (512, after_block g b, w))"
proof -
  note l = loc_facts [OF inv]
  have fl: "w_flush g = 0" using inv by (simp add: writer_inv_def)
  have keep: "g\<lparr>w_eot_count := c, w_flush := 0\<rparr> = g\<lparr>w_eot_count := c\<rparr>" for c using fl by (cases g) simp
  let ?g1 = "after_block g b"
  have fl1: "w_flush ?g1 = 0" "w_buffer_loc ?g1 = w_buffer_loc g + 512" "w_prog_pipe ?g1 = w_prog_pipe g"
    using fl by (simp_all add: after_block_def)
  have same: "?g1\<lparr>w_flush := 1, w_flush := 0\<rparr> = ?g1" using fl1 by (cases ?g1) simp
  have data: "take (unat (w_buffer_loc g) + 512) (w_buffer ?g1) = buffered g @ b"
    using put_block(1) [of "unat (w_buffer_loc g)" b "w_buffer g"] l(6) b by (simp add: after_block_def buffered_def)
  have len: "length (buffered g @ b) = unat (w_buffer_loc g) + 512" using l(6) b by (simp add: buffered_def)
  have first: "(if w_flush g = 0 then
              (if unat (w_buffer_loc g) + length b > length (w_buffer g) then None
               else
                 let g = g\<lparr>w_buffer := put (w_buffer g) (unat (w_buffer_loc g)) b,
                     w_buffer_loc := w_buffer_loc g + of_nat (length b)\<rparr>;
                     g = (if w_eot_count g \<ge> 0 \<and> w_eot_count g < 2 then g\<lparr>w_eot_count := w_eot_count g + 1\<rparr> else g)
                 in Some (if w_buffer_loc g \<ge> w_buffer_size g \<or> w_eot_count g \<ge> 2 then g\<lparr>w_flush := 1\<rparr> else g))
            else Some g) = Some (if full_after g then ?g1\<lparr>w_flush := 1\<rparr> else ?g1)"
  proof -
    have "(w_buffer_loc ?g1 \<ge> w_buffer_size ?g1 \<or> w_eot_count ?g1 \<ge> 2) = full_after g"
      using l(3) by (auto simp: after_block_def full_after_def)
    then show ?thesis using l(6) b fl by (cases g) (auto simp: after_block_def Let_def)
  qed
  show ?thesis
  proof (cases "full_after g")
    case True
    then show ?thesis
      using fl1 l(1,2,4,5) data len b
      unfolding write_libtar_buffer_def first by (simp add: same Let_def split_def)
  next
    case False
    then show ?thesis unfolding write_libtar_buffer_def first using fl1 b by simp
  qed
qed

subsection \<open>The writer as a sink of tar blocks\<close>

lemma after_block_facts:
  assumes inv: "writer_inv fd g" and b: "length b = 512"
  shows "\<not> full_after g \<Longrightarrow> writer_inv fd (after_block g b) \<and> buffered (after_block g b) = buffered g @ b"
    "writer_inv fd ((after_block g b)\<lparr>w_buffer_loc := 0\<rparr>)" "buffered ((after_block g b)\<lparr>w_buffer_loc := 0\<rparr>) = []"
proof -
  note l = loc_facts [OF inv]
  have len: "length (w_buffer (after_block g b)) = length (w_buffer g)"
    using put_block(2) [of "unat (w_buffer_loc g)" b "w_buffer g"] l(6) b by (simp add: after_block_def)
  show "buffered ((after_block g b)\<lparr>w_buffer_loc := 0\<rparr>) = []" by (simp add: buffered_def)
  show "writer_inv fd ((after_block g b)\<lparr>w_buffer_loc := 0\<rparr>)"
    using inv len by (auto simp: writer_inv_def after_block_def)
  assume "\<not> full_after g"
  then have "unat (w_buffer_loc g) + 512 < unat (w_buffer_size g)" by (simp add: full_after_def)
  then have "writer_inv fd (after_block g b)" using inv len l(1) by (simp add: writer_inv_def after_block_def)
  moreover have "buffered (after_block g b) = buffered g @ b"
    using put_block(1) [of "unat (w_buffer_loc g)" b "w_buffer g"] l(1,6) b by (simp add: after_block_def buffered_def)
  ultimately show "writer_inv fd (after_block g b) \<and> buffered (after_block g b) = buffered g @ b" by blast
qed

definition tar_good :: "int \<Rightarrow> ('w \<Rightarrow> bool) \<Rightarrow> (tar_writer \<times> 'w) option \<Rightarrow> bool" where
  "tar_good fd good s \<longleftrightarrow> (case s of None \<Rightarrow> False | Some (g, w) \<Rightarrow> writer_inv fd g \<and> good w)"

text \<open>What has been written: the file, and what the buffer holds.\<close>

definition tar_out :: "('w \<Rightarrow> byte list) \<Rightarrow> (tar_writer \<times> 'w) option \<Rightarrow> byte list" where
  "tar_out out s = (case s of None \<Rightarrow> [] | Some (g, w) \<Rightarrow> out w @ buffered g)"

context file_sink
begin

lemma buffered_block:
  assumes inv: "writer_inv fd g" and g: "good w" and b: "length b = 512"
  shows "\<exists>g' w'. write_libtar_buffer wr fd b g w = Some (512, g', w') \<and> writer_inv fd g' \<and> good w'
    \<and> (if full_after g then out w' = out w @ buffered g @ b \<and> buffered g' = []
       else w' = w \<and> buffered g' = buffered g @ b) \<and> w_eot_count g' = w_eot_count (after_block g b)"
proof (cases "full_after g")
  case False
  then show ?thesis
    using write_libtar_buffer_value [OF inv b, of wr w] after_block_facts(1) [OF inv b] g by auto
next
  case True
  obtain w1 where w1: "wr fd (buffered g @ b) w = (int (length (buffered g @ b)), w1)" "good w1"
    "out w1 = out w @ buffered g @ b" using write_all [OF g] by blast
  have "w_prog_pipe g \<noteq> fd" using inv by (simp add: writer_inv_def)
  then have "good (snd (wr (w_prog_pipe g) x w1)) \<and> out (snd (wr (w_prog_pipe g) x w1)) = out w1" for x
    by (rule write_other [OF w1(2)])
  then show ?thesis
    using True w1 write_libtar_buffer_value [OF inv b, of wr w] after_block_facts(2,3) [OF inv b]
    by (simp add: Let_def)
qed

end

sublocale file_sink \<subseteq> tar: tar_sink "write_tar wr" fd "tar_good fd good" "tar_out out"
proof (unfold_locales, goal_cases)
  case (1 s b)
  then obtain g w where s: "s = Some (g, w)" and inv: "writer_inv fd g" and g: "good w"
    by (auto simp: tar_good_def split: option.splits prod.splits)
  obtain g' w' where gw: "write_libtar_buffer wr fd b g w = Some (512, g', w')" "writer_inv fd g'" "good w'"
    and o: "if full_after g then out w' = out w @ buffered g @ b \<and> buffered g' = []
       else w' = w \<and> buffered g' = buffered g @ b"
    using buffered_block [OF inv g 1(2)] by blast
  have "write_tar wr fd b s = (512, Some (g', w'))" by (simp add: write_tar_def s gw(1))
  moreover have "tar_good fd good (Some (g', w'))" using gw by (simp add: tar_good_def)
  moreover have "tar_out out (Some (g', w')) = tar_out out s @ b" using o s by (auto simp: tar_out_def split: if_splits)
  ultimately show ?case by blast
qed

text \<open>Without the buffer.\<close>

context file_sink
begin

lemma unbuffered_block:
  assumes "w_prog_pipe g \<noteq> fd" "good w"
  shows "\<exists>w'. write_tar_no_buffer wr fd b (g, w) = (int (length b), g, w') \<and> good w' \<and> out w' = out w @ b"
proof -
  have "good (snd (wr (w_prog_pipe g) x w)) \<and> out (snd (wr (w_prog_pipe g) x w)) = out w" for x
    by (rule write_other [OF assms(2,1)])
  then show ?thesis
    using write_all [of "snd (wr (w_prog_pipe g) (le_bytes64 512) w)" b]
    by (auto simp: write_tar_no_buffer_def write_libtar_no_buffer_def Let_def split_def)
qed

end

sublocale file_sink \<subseteq> plain: tar_sink "write_tar_no_buffer wr" fd
  "\<lambda>s. w_prog_pipe (fst s) \<noteq> fd \<and> good (snd s)" "\<lambda>s. out (snd s)"
proof (unfold_locales, goal_cases)
  case (1 s b)
  then show ?case using unbuffered_block [of "fst s" "snd s" b] by (cases s) auto
qed

subsection \<open>Properties\<close>

text \<open>A sequence of block writes, stopping at the first that does not return 512.\<close>

fun write_all_blocks :: "'w writer \<Rightarrow> int \<Rightarrow> byte list list \<Rightarrow> tar_writer \<Rightarrow> 'w \<Rightarrow> (tar_writer \<times> 'w) option" where
  "write_all_blocks wr fd [] g w = Some (g, w)"
| "write_all_blocks wr fd (b # bs) g w =
     (case write_libtar_buffer wr fd b g w of
        None \<Rightarrow> None
      | Some (n, g, w) \<Rightarrow> if n \<noteq> 512 then None else write_all_blocks wr fd bs g w)"

context file_sink
begin

lemma all_blocks:
  assumes "writer_inv fd g" "good w" "\<forall>b \<in> set bs. length b = 512"
  shows "\<exists>g' w'. write_all_blocks wr fd bs g w = Some (g', w') \<and> writer_inv fd g' \<and> good w'
    \<and> out w' @ buffered g' = out w @ buffered g @ concat bs"
  using assms
proof (induction bs arbitrary: g w)
  case (Cons b bs)
  obtain g1 w1 where 1: "write_libtar_buffer wr fd b g w = Some (512, g1, w1)" "writer_inv fd g1" "good w1"
    "if full_after g then out w1 = out w @ buffered g @ b \<and> buffered g1 = [] else w1 = w \<and> buffered g1 = buffered g @ b"
    using buffered_block [OF Cons.prems(1,2), of b] Cons.prems(3) by auto
  then have o: "out w1 @ buffered g1 = out w @ buffered g @ b" by (auto split: if_splits)
  obtain g' w' where 2: "write_all_blocks wr fd bs g1 w1 = Some (g', w')" "writer_inv fd g'" "good w'"
    "out w' @ buffered g' = out w1 @ buffered g1 @ concat bs"
    using Cons.IH [OF 1(2,3)] Cons.prems(3) by auto
  have "write_all_blocks wr fd (b # bs) g w = Some (g', w')" using 1(1) 2(1) by simp
  moreover have "out w' @ buffered g' = out w @ buffered g @ concat (b # bs)" using 2(4) o by (metis append.assoc concat.simps(2))
  ultimately show ?case using 2(2,3) by blast
qed simp

end

lemma flush_facts:
  "writer_inv fd (flush_libtar_buffer fd g) = writer_inv fd g" "buffered (flush_libtar_buffer fd g) = buffered g"
  "w_eot_count (flush_libtar_buffer fd g) = 0"
  by (simp_all add: flush_libtar_buffer_def writer_inv_def buffered_def Let_def)

text \<open>(C28) The buffered writer keeps its invariant (the next block fits into the buffer, which is never
  written beyond its end) and loses nothing: after any number of block writes to a file with room,
  the file and what is still in the buffer make up exactly the blocks written, in order.\<close>

theorem buffered_writes:
  assumes "writer_inv fd g" and "writable fd w" and "\<forall>b \<in> set bs. length b = 512"
  shows "\<exists>g' w'. write_all_blocks posix_write fd bs g w = Some (g', w') \<and> writer_inv fd g' \<and> writable fd w'
    \<and> written fd w' @ buffered g' = written fd w @ buffered g @ concat bs"
  using posix_out.all_blocks [OF assms] .

definition empty_file :: "int \<Rightarrow> nat option \<Rightarrow> files" where
  "empty_file fd room = \<lparr>f_out = [fd \<mapsto> []], f_in = Map.empty, f_room = room\<rparr>"

definition fresh_writer :: tar_writer where
  "fresh_writer = init_libtar_buffer (\<lambda>n. replicate n 0xAA) 1024 9 tar_writer_start"

lemma fresh_writer_inv: "writer_inv 3 fresh_writer" "buffered fresh_writer = []" "w_eot_count fresh_writer = - 1"
  by (simp_all add: fresh_writer_def init_libtar_buffer_def reinit_libtar_buffer_def tar_writer_start_def writer_inv_def buffered_def Let_def)

theorem buffered_writes_witness:
  "\<exists>g' w'. write_all_blocks posix_write 3 [replicate 512 1, replicate 512 2, replicate 512 3] fresh_writer (empty_file 3 None) = Some (g', w')
    \<and> written 3 w' @ buffered g' = replicate 512 1 @ replicate 512 2 @ replicate 512 3"
  using buffered_writes [OF fresh_writer_inv(1), of "empty_file 3 None" "[replicate 512 1, replicate 512 2, replicate 512 3]"]
  by (auto simp: fresh_writer_inv(2) empty_file_def writable_def written_def)

text \<open>After \<^verbatim>\<open>flush_libtar_buffer\<close> the two blocks that end an archive leave nothing in the buffer: whatever
  was waiting in it has reached the file, followed by the two blocks.\<close>

theorem flush_empties:
  assumes "writer_inv fd g" and "writable fd w" and "length b1 = 512" and "length b2 = 512"
  shows "\<exists>g' w'. write_all_blocks posix_write fd [b1, b2] (flush_libtar_buffer fd g) w = Some (g', w')
    \<and> buffered g' = [] \<and> written fd w' = written fd w @ buffered g @ b1 @ b2"
proof -
  let ?g = "flush_libtar_buffer fd g"
  have inv: "writer_inv fd ?g" using assms(1) by (simp only: flush_facts)
  obtain g1 w1 where 1: "write_libtar_buffer posix_write fd b1 ?g w = Some (512, g1, w1)" "writer_inv fd g1" "writable fd w1"
    "if full_after ?g then written fd w1 = written fd w @ buffered g @ b1 \<and> buffered g1 = [] else w1 = w \<and> buffered g1 = buffered g @ b1"
    "w_eot_count g1 = w_eot_count (after_block ?g b1)"
    using posix_out.buffered_block [OF inv assms(2,3)] unfolding flush_facts(2) by blast
  have "w_eot_count g1 = 1" using 1(5) flush_facts(3) [of fd g] by (simp add: after_block_def)
  then have f: "full_after g1" by (simp add: full_after_def)
  obtain g2 w2 where 2: "write_libtar_buffer posix_write fd b2 g1 w1 = Some (512, g2, w2)"
    "written fd w2 = written fd w1 @ buffered g1 @ b2" "buffered g2 = []"
    using posix_out.buffered_block [OF 1(2,3) assms(4)] f by auto
  have "written fd w1 @ buffered g1 = written fd w @ buffered g @ b1" using 1(4) by (auto split: if_splits)
  then have "written fd w2 = written fd w @ buffered g @ b1 @ b2" using 2(2) by simp
  then show ?thesis using 1(1) 2(1,3) by simp
qed

theorem flush_empties_witness:
  "\<exists>g' w'. write_all_blocks posix_write 3 [replicate 512 0, replicate 512 0] (flush_libtar_buffer 3 fresh_writer) (empty_file 3 None) = Some (g', w')
    \<and> buffered g' = [] \<and> written 3 w' = replicate 512 0 @ replicate 512 0"
  using flush_empties [OF fresh_writer_inv(1), of "empty_file 3 None" "replicate 512 0" "replicate 512 0"]
  by (auto simp: fresh_writer_inv(2) empty_file_def writable_def written_def)

text \<open>When the buffer goes out to a file without room for all of it, the writer returns -1 and drops
  the buffer: the bytes beyond the room are neither in the file nor in the buffer, so that a
  caller that went on would leave a gap in the archive.\<close>

theorem short_write_lost:
  assumes "writer_inv fd g" and "length b = 512" and "full_after g"
    and "f_out w fd = Some c" and "f_room w = Some n" and "n < length (buffered g @ b)"
  shows "\<exists>g' w'. write_libtar_buffer posix_write fd b g w = Some (- 1, g', w') \<and> buffered g' = []
    \<and> written fd w' = c @ take n (buffered g @ b)"
proof -
  let ?d = "buffered g @ b"
  have ne: "?d \<noteq> []" using assms(2) by auto
  obtain k w1 where p: "posix_write fd ?d w = (k, w1)" "k \<noteq> int (length ?d)" "written fd w1 = c @ take n ?d"
  proof (cases "n = 0")
    case True
    then show thesis using that [of "- 1" w] assms(4,5) ne by (simp add: posix_write_def written_def)
  next
    case False
    then show thesis
      using that [of "int n" "w\<lparr>f_out := (f_out w)(fd \<mapsto> c @ take n ?d), f_room := Some (n - length ?d)\<rparr>"] assms(4-6)
      by (simp add: posix_write_def written_def)
  qed
  have "write_libtar_buffer posix_write fd b g w = Some (- 1, (after_block g b)\<lparr>w_buffer_loc := 0\<rparr>, w1)"
    unfolding write_libtar_buffer_value [OF assms(1,2)] p(1) using assms(3) p(2) by (simp only: Let_def prod.case if_True not_False_eq_True)
  then show ?thesis using p(3) after_block_facts(3) [OF assms(1,2)] by blast
qed

theorem short_write_lost_witness:
  "\<exists>g' w'. write_libtar_buffer posix_write 3 (replicate 512 7) (fresh_writer\<lparr>w_buffer_loc := 512\<rparr>) (empty_file 3 (Some 100)) = Some (- 1, g', w')
    \<and> buffered g' = [] \<and> length (written 3 w') = 100"
proof -
  let ?g = "fresh_writer\<lparr>w_buffer_loc := 512\<rparr>"
  have i: "writer_inv 3 ?g" "length (buffered ?g) = 512" "full_after ?g"
    using fresh_writer_inv(1) by (simp_all add: writer_inv_def buffered_def full_after_def fresh_writer_def init_libtar_buffer_def
        reinit_libtar_buffer_def tar_writer_start_def Let_def)
  have "\<exists>g' w'. write_libtar_buffer posix_write 3 (replicate 512 7) ?g (empty_file 3 (Some 100)) = Some (- 1, g', w') \<and> buffered g' = []
    \<and> written 3 w' = [] @ take 100 (buffered ?g @ replicate 512 7)"
    by (rule short_write_lost [OF i(1) _ i(3)]) (simp_all add: empty_file_def)
  then show ?thesis using i(2) by auto
qed

end
