(* ===== verification/Libtar_Append.thy ===== *)
theory Libtar_Append
  imports Libtar_Member Libtar_Links Tar_Write
begin

section \<open>libtar: appending members\<close>

text \<open>
  \<^verbatim>\<open>append.c\<close>, as built without \<^verbatim>\<open>USE_FSCRYPT\<close>. What the system knows about files by name is the
  parameter \<open>host\<close>; opening, closing, reading and writing are parameters on a world of their own, as in
  the header theory. The result \<open>None\<close> of an errno stands for the return value 0, \<open>Some\<close> for -1. What is
  appended is proved to be the header blocks and the contents padded to whole blocks (\<open>pad512\<close>), on
  every medium of the interface \<open>file_copy\<close>.
\<close>

subsection \<open>The code\<close>

record host =
  ho_lstat :: "byte list \<Rightarrow> stat option"
  ho_filecon :: "byte list \<Rightarrow> byte list option"
  ho_caps :: "byte list \<Rightarrow> byte list option"
  ho_xattr :: "byte list \<Rightarrow> byte list \<Rightarrow> bool"
  ho_readlink :: "byte list \<Rightarrow> byte list option"
  ho_getpwuid :: "u32 \<Rightarrow> byte list option"
  ho_getgrgid :: "u32 \<Rightarrow> byte list option"

text \<open>The end of an archive.\<close>

fun eof_loop :: "'w writer \<Rightarrow> TAR \<Rightarrow> nat \<Rightarrow> 'w \<Rightarrow> errno option \<times> 'w" where
  "eof_loop wr t 0 w = (None, w)"
| "eof_loop wr t (Suc j) w =
     (let (failed, w) = tar_block_write wr t (replicate 512 0) w
      in if failed \<noteq> None then (failed, w) else eof_loop wr t j w)"

definition tar_append_eof :: "'w writer \<Rightarrow> TAR \<Rightarrow> 'w \<Rightarrow> errno option \<times> 'w" where
  "tar_append_eof wr t w = eof_loop wr t 2 w"

text \<open>The contents of a file. \<open>i\<close> is what is left to copy; a write fails only when it returns -1. The
  block on the stack is \<open>block\<close>, with what it held before as \<open>junk\<close>.\<close>

function copy_blocks :: "'w reader \<Rightarrow> 'w writer \<Rightarrow> TAR \<Rightarrow> int \<Rightarrow> byte list \<Rightarrow> int \<Rightarrow> 'w \<Rightarrow> errno option \<times> int \<times> byte list \<times> 'w" where
  "copy_blocks rd wr t filefd block i w =
     (if i > 512 then
        (let (j, data, w) = rd filefd 512 w;
             block = overwrite block data
         in if j \<noteq> 512 then (Some (io_errno j), i, block, w)
            else
              let (k, w) = wr (tar_fd t) block w
              in if k = - 1 then (Some Unchanged, i, block, w)
                 else copy_blocks rd wr t filefd block (i - 512) w)
      else (None, i, block, w))"
  by pat_completeness auto
termination by (relation "measure (\<lambda>(rd, wr, t, filefd, block, i, w). nat i)") auto

declare copy_blocks.simps [simp del]

definition tar_append_regfile :: "(byte list \<Rightarrow> 'w \<Rightarrow> int \<times> 'w) \<Rightarrow> (int \<Rightarrow> 'w \<Rightarrow> 'w) \<Rightarrow> 'w reader \<Rightarrow> 'w writer
    \<Rightarrow> byte list \<Rightarrow> TAR \<Rightarrow> byte list \<Rightarrow> 'w \<Rightarrow> errno option \<times> 'w" where
  "tar_append_regfile opn cls rd wr junk t realname w =
     (let (filefd, w) = opn realname w
      in if filefd = - 1 then (Some Unchanged, w)
         else
           let size = sint (th_get_size (th_buf t));
               (failed, i, block, w) = copy_blocks rd wr t filefd junk size w;
               (failed, w) =
                 (if failed \<noteq> None then (failed, w)
                  else if i > 0 then
                    (let (j, data, w) = rd filefd (nat i) w;
                         block = overwrite block data
                     in if j = - 1 then (Some Unchanged, w)
                        else
                          let block = take (nat i) block @ replicate (512 - nat i) 0;
                              (k, w) = wr (tar_fd t) block w
                          in (if k = - 1 then Some Unchanged else None, w))
                  else (None, w))
           in (failed, cls filefd w))"

text \<open>The contents of a buffer. \<open>int i = size\<close> cuts the length to 32 bits; reading beyond the buffer is
  the result \<open>None\<close>.\<close>

function buffer_blocks :: "'w writer \<Rightarrow> TAR \<Rightarrow> int \<Rightarrow> byte list \<Rightarrow> 'w \<Rightarrow> (errno option \<times> int \<times> byte list \<times> 'w) option" where
  "buffer_blocks wr t i buf w =
     (if i > 512 then
        (if length buf < 512 then None
         else
           let (k, w) = wr (tar_fd t) (take 512 buf) w
           in if k = - 1 then Some (Some Unchanged, i, buf, w)
              else buffer_blocks wr t (i - 512) (drop 512 buf) w)
      else Some (None, i, buf, w))"
  by pat_completeness auto
termination by (relation "measure (\<lambda>(wr, t, i, buf, w). nat i)") auto

declare buffer_blocks.simps [simp del]

definition tar_append_buffer :: "'w writer \<Rightarrow> TAR \<Rightarrow> byte list \<Rightarrow> u64 \<Rightarrow> 'w \<Rightarrow> (errno option \<times> 'w) option" where
  "tar_append_buffer wr t buf len w = do {
     (failed, i, buf, w) \<leftarrow> buffer_blocks wr t (sint (ucast len :: u32)) buf w;
     (if failed \<noteq> None then Some (failed, w)
      else if i > 0 then
        (if length buf < nat i then None
         else
           let block = take (nat i) buf @ replicate (512 - nat i) 0;
               (k, w) = wr (tar_fd t) block w
           in Some (if k = - 1 then Some Unchanged else None, w))
      else Some (None, w))
   }"

text \<open>\<open>now\<close> is the time. The header is set over what the last member has left in it.\<close>

definition tar_append_file_contents :: "host \<Rightarrow> u64 \<Rightarrow> 'w writer \<Rightarrow> TAR \<Rightarrow> byte list \<Rightarrow> u32 \<Rightarrow> u32 \<Rightarrow> u32 \<Rightarrow> byte list \<Rightarrow> u64 \<Rightarrow> 'w
    \<Rightarrow> (errno option \<times> TAR \<times> 'w) option" where
  "tar_append_file_contents ho now wr t savename mode uid gid buf len w = do {
     let st = \<lparr>st_dev = 0, st_ino = 0, st_mode = S_IFREG OR mode, st_rdev = 0, st_uid = uid, st_gid = gid, st_mtime = now, st_size = len\<rparr>;
     let t = th_set_from_stat (ho_getpwuid ho) (ho_getgrgid ho) t st;
     t \<leftarrow> th_set_path t savename;
     (failed, t, w) \<leftarrow> th_write wr t w;
     (if failed \<noteq> None then Some (failed, t, w)
      else do {
        (failed, w) \<leftarrow> tar_append_buffer wr t buf len w;
        Some (failed, t, w)
      })
   }"

text \<open>\<^verbatim>\<open>tar_append_file\<close>, in steps: what is known of the file goes into the header.\<close>

definition set_selinux :: "host \<Rightarrow> byte list \<Rightarrow> TAR \<Rightarrow> TAR" where
  "set_selinux ho realname t =
     (if opt t TAR_STORE_SELINUX
      then t\<lparr>th_buf := (th_buf t)\<lparr>selinux_context := map_option (\<lambda>c. c @ [0]) (ho_filecon ho realname)\<rparr>\<rparr>
      else t)"

definition set_caps :: "host \<Rightarrow> byte list \<Rightarrow> TAR \<Rightarrow> TAR" where
  "set_caps ho realname t =
     (if TH_ISREG (th_buf t) \<and> opt t TAR_STORE_POSIX_CAP then
        (let h = th_buf t;
             h = (if has_cap_data h then h\<lparr>cap_data := replicate 20 0, has_cap_data := False\<rparr> else h)
         in t\<lparr>th_buf := (case ho_caps ho realname of
              None \<Rightarrow> h
            | Some c \<Rightarrow> h\<lparr>cap_data := overwrite (cap_data h) c, has_cap_data := True\<rparr>)\<rparr>)
      else t)"

definition set_user_xattrs :: "host \<Rightarrow> byte list \<Rightarrow> TAR \<Rightarrow> TAR" where
  "set_user_xattrs ho realname t =
     (if TH_ISDIR (th_buf t) \<and> opt t TAR_STORE_ANDROID_USER_XATTR then
        (let h = th_buf t;
             h = (if ho_xattr ho realname (str ''user.default'') then h\<lparr>has_user_default := True\<rparr> else h);
             h = (if ho_xattr ho realname (str ''user.inode_cache'') then h\<lparr>has_user_cache := True\<rparr> else h);
             h = (if ho_xattr ho realname (str ''user.inode_code_cache'') then h\<lparr>has_user_code_cache := True\<rparr> else h)
         in t\<lparr>th_buf := h\<rparr>)
      else t)"

definition set_hardlink :: "link_result \<Rightarrow> TAR \<Rightarrow> TAR option" where
  "set_hardlink r t =
     (case r of
        NoMemory \<Rightarrow> None
      | Recorded \<Rightarrow> Some t
      | Link name \<Rightarrow> Some (th_set_link (t\<lparr>th_buf := (th_buf t)\<lparr>th_typeflag := LNKTYPE\<rparr>\<rparr>) name))"

definition set_symlink :: "host \<Rightarrow> byte list \<Rightarrow> TAR \<Rightarrow> TAR option" where
  "set_symlink ho realname t =
     (if TH_ISSYM (th_buf t) then
        (case ho_readlink ho realname of
           None \<Rightarrow> None
         | Some path \<Rightarrow> Some (th_set_link t (take (MAXPATHLEN - 1) path)))
      else Some t)"

text \<open>\<open>savename\<close> is \<open>None\<close> for the null pointer. \<open>pathmem\<close> and \<open>pathjunk\<close> serve the printing of the name
  of a verbose handle.\<close>

definition tar_append_file :: "host \<Rightarrow> allocator \<Rightarrow> bool \<Rightarrow> byte list \<Rightarrow> (byte list \<Rightarrow> 'w \<Rightarrow> int \<times> 'w) \<Rightarrow> (int \<Rightarrow> 'w \<Rightarrow> 'w)
    \<Rightarrow> 'w reader \<Rightarrow> 'w writer \<Rightarrow> byte list \<Rightarrow> TAR \<Rightarrow> links \<Rightarrow> byte list \<Rightarrow> byte list option \<Rightarrow> 'w
    \<Rightarrow> (errno option \<times> TAR \<times> links \<times> 'w) option" where
  "tar_append_file ho al pathmem pathjunk opn cls rd wr junk t lk realname savename w =
     (case ho_lstat ho realname of
        None \<Rightarrow> Some (Some Unchanged, t, lk, w)
      | Some s \<Rightarrow>
          let name = (case savename of Some n \<Rightarrow> n | None \<Rightarrow> realname);
              t = th_set_from_stat (ho_getpwuid ho) (ho_getgrgid ho) (t\<lparr>th_buf := zero_header\<rparr>) s
          in do {
            t \<leftarrow> th_set_path t name;
            let t = set_user_xattrs ho realname (set_caps ho realname (set_selinux ho realname t));
            (r, lk) \<leftarrow> check_hardlink al (st_dev s) (st_ino s) name lk;
            (case set_hardlink r t of
               None \<Rightarrow> Some (Some Unchanged, t, lk, w)
             | Some t \<Rightarrow>
                 (case set_symlink ho realname t of
                    None \<Rightarrow> Some (Some Unchanged, t, lk, w)
                  | Some t \<Rightarrow>
                      let t = (if opt t TAR_VERBOSE then snd (th_get_pathname pathmem pathjunk t) else t)
                      in do {
                        (failed, t, w) \<leftarrow> th_write wr t w;
                        (if failed \<noteq> None then Some (failed, t, lk, w)
                         else if TH_ISREG (th_buf t) then
                           (let (failed, w) = tar_append_regfile opn cls rd wr junk t realname w
                            in Some (failed, t, lk, w))
                         else Some (None, t, lk, w))
                      }))
          })"

subsection \<open>A medium to copy files on\<close>

text \<open>A sink of tar blocks beside a source of file contents: opening a file that exists gives its
  descriptor, reading delivers what was asked for as long as there is that much, and writing blocks
  does not change what is still to be read.\<close>

locale file_copy = tar_sink wr fd good out
  for wr :: "'w writer" and fd :: int and good :: "'w \<Rightarrow> bool" and out :: "'w \<Rightarrow> byte list" +
  fixes rd :: "'w reader" and src :: int and inp :: "'w \<Rightarrow> byte list"
  assumes read_some: "good w \<Longrightarrow> \<exists>w'. rd src n w = (int (min n (length (inp w))), take n (inp w), w')
      \<and> good w' \<and> out w' = out w \<and> inp w' = drop n (inp w)"
    and write_keeps: "\<lbrakk>good w; length b = 512\<rbrakk> \<Longrightarrow> inp (snd (wr fd b w)) = inp w"

text \<open>The blocks before the last one.\<close>

definition full_blocks :: "nat \<Rightarrow> nat" where
  "full_blocks n = (n - 1) div 512"

lemma full_blocks_small: "\<not> 512 < n \<Longrightarrow> full_blocks n = 0"
  by (simp add: full_blocks_def)

lemma full_blocks_step: "512 < n \<Longrightarrow> full_blocks n = Suc (full_blocks (n - 512))"
proof -
  assume "512 < n"
  then have "n - 1 = (n - 512 - 1) + 512" by simp
  then show ?thesis unfolding full_blocks_def by (metis add_Suc_right add.right_neutral div_add_self2 Suc_eq_plus1 zero_neq_numeral)
qed

lemma full_blocks_bounds: "0 < n \<Longrightarrow> 512 * full_blocks n < n" "n \<le> 512 * full_blocks n + 512"
proof -
  define q where "q = (n - 1) div 512"
  define m where "m = (n - 1) mod 512"
  have n: "n - 1 = 512 * q + m" "m < 512" unfolding q_def m_def by simp_all
  show "n \<le> 512 * full_blocks n + 512" "0 < n \<Longrightarrow> 512 * full_blocks n < n"
    unfolding full_blocks_def q_def [symmetric] using n by linarith+
qed

lemma pad512_full:
  assumes "s \<noteq> []"
  defines "k \<equiv> full_blocks (length s)"
  shows "pad512 s = take (512 * k) s @ drop (512 * k) s @ replicate (512 - (length s - 512 * k)) 0"
proof -
  have k: "512 * k < length s" "length s \<le> 512 * Suc k" using assms full_blocks_bounds [of "length s"] by simp_all
  then have "strncpy (replicate 512 0) (drop (512 * k) s) 512 = drop (512 * k) s @ replicate (512 - (length s - 512 * k)) 0"
    by (simp add: strncpy_def overwrite_def min_def)
  then show ?thesis using pad512_last [OF k] by simp
qed

lemma sint_length: "unat len < 2 ^ 31 \<Longrightarrow> sint (ucast (len :: u64) :: u32) = int (unat len)"
proof -
  assume n: "unat len < 2 ^ 31"
  have u: "unat (ucast len :: u32) = unat len" using n by (simp add: unsigned_ucast_eq take_bit_nat_eq_self)
  have "int (unat len) < 2 ^ 31" using n by (simp only: of_nat_less_numeral_power_cancel_iff)
  then show ?thesis using sint_small [of "ucast len"] by (simp only: uint_nat u)
qed

context tar_sink
begin

lemma sink_block:
  assumes "good w" "length b = 512"
  obtains w' where "wr fd b w = (512, w')" "good w'" "out w' = out w @ b"
  using write_block [OF assms] by blast

lemma eof_written:
  assumes "tar_fd t = fd" "good w"
  shows "\<exists>w'. tar_append_eof wr t w = (None, w') \<and> good w' \<and> out w' = out w @ replicate 1024 0"
proof -
  obtain w1 where 1: "tar_block_write wr t (replicate 512 0) w = (None, w1)" "good w1" "out w1 = out w @ replicate 512 0"
    using block_written [OF assms, of "replicate 512 0"] by auto
  obtain w2 where 2: "tar_block_write wr t (replicate 512 0) w1 = (None, w2)" "good w2" "out w2 = out w1 @ replicate 512 0"
    using block_written [OF assms(1) 1(2), of "replicate 512 0"] by auto
  have "replicate 512 0 @ replicate 512 0 = replicate 1024 (0 :: byte)" by (simp flip: replicate_add)
  then show ?thesis using 1 2 by (simp add: tar_append_eof_def numeral_2_eq_2)
qed

lemma buffer_blocks_written:
  assumes fd: "tar_fd t = fd" and "good w" "n \<le> length buf"
  shows "\<exists>w'. buffer_blocks wr t (int n) buf w
      = Some (None, int (n - 512 * full_blocks n), drop (512 * full_blocks n) buf, w') \<and> good w'
    \<and> out w' = out w @ take (512 * full_blocks n) buf"
  using assms(2-)
proof (induction n arbitrary: buf w rule: less_induct)
  case (less n)
  show ?case
  proof (cases "512 < n")
    case False
    then have "buffer_blocks wr t (int n) buf w = Some (None, int n, buf, w)" by (subst buffer_blocks.simps) simp
    then show ?thesis using less.prems(1) False by (simp add: full_blocks_small)
  next
    case True
    let ?k = "full_blocks (n - 512)"
    obtain w1 where w1: "wr fd (take 512 buf) w = (512, w1)" "good w1" "out w1 = out w @ take 512 buf"
      using sink_block [OF less.prems(1), of "take 512 buf"] True less.prems(2) by auto
    have "\<exists>w'. buffer_blocks wr t (int (n - 512)) (drop 512 buf) w1
        = Some (None, int (n - 512 - 512 * ?k), drop (512 * ?k) (drop 512 buf), w') \<and> good w'
      \<and> out w' = out w1 @ take (512 * ?k) (drop 512 buf)"
      by (rule less.IH) (use True less.prems w1(2) in simp_all)
    moreover have "buffer_blocks wr t (int n) buf w = buffer_blocks wr t (int (n - 512)) (drop 512 buf) w1"
      using True less.prems(2) w1(1) fd by (subst buffer_blocks.simps) (simp add: of_nat_diff)
    moreover have "take (512 * Suc ?k) buf = take 512 buf @ take (512 * ?k) (drop 512 buf)" by (simp add: take_add)
    ultimately show ?thesis using w1(3) by (simp add: full_blocks_step [OF True] add.commute)
  qed
qed

lemma buffer_written:
  assumes fd: "tar_fd t = fd" and g: "good w" and n: "unat len = n" "n < 2 ^ 31" "n \<le> length buf"
  shows "\<exists>w'. tar_append_buffer wr t buf len w = Some (None, w') \<and> good w' \<and> out w' = out w @ pad512 (take n buf)"
proof -
  let ?n = n and ?k = "full_blocks n"
  have s: "sint (ucast len :: u32) = int n" using sint_length [of len] n(1,2) by simp
  obtain w1 where 1: "buffer_blocks wr t (int ?n) buf w = Some (None, int (?n - 512 * ?k), drop (512 * ?k) buf, w1)"
    "good w1" "out w1 = out w @ take (512 * ?k) buf" using buffer_blocks_written [OF fd g n(3)] by blast
  note v = tar_append_buffer_def s 1(1)
  show ?thesis
  proof (cases "?n = 0")
    case True
    then show ?thesis using 1 by (simp add: v full_blocks_def pad512_def)
  next
    case False
    then have k: "512 * ?k < ?n" "?n \<le> 512 * ?k + 512" using full_blocks_bounds [of ?n] by simp_all
    let ?b = "take (?n - 512 * ?k) (drop (512 * ?k) buf) @ replicate (512 - (?n - 512 * ?k)) 0"
    have "length ?b = 512" using k n(3) by simp
    then obtain w2 where 2: "wr fd ?b w1 = (512, w2)" "good w2" "out w2 = out w1 @ ?b"
      using sink_block [OF 1(2)] by blast
    have r: "nat (int (?n - 512 * ?k)) = ?n - 512 * ?k" "0 < int (?n - 512 * ?k)" using k by simp_all
    have "tar_append_buffer wr t buf len w = Some (None, w2)"
      using k n(3) 2(1) fd r by (simp add: v Let_def)
    moreover have "take (512 * ?k) buf @ ?b = pad512 (take ?n buf)"
    proof -
      have "take n buf \<noteq> []" "length (take n buf) = n" using False n(3) by auto
      then show ?thesis using pad512_full [of "take n buf"] k by (simp add: drop_take min_def)
    qed
    ultimately show ?thesis using 1(3) 2(2,3) by simp
  qed
qed

end

context file_copy
begin

lemma rd_some:
  assumes "good w" "n \<le> length (inp w)"
  obtains w' where "rd src n w = (int n, take n (inp w), w')" "good w'" "out w' = out w" "inp w' = drop n (inp w)"
  using read_some [OF assms(1), of n] assms(2) by (auto simp: min_def)

lemma wr_keeps:
  assumes "good w" "length b = 512"
  obtains w' where "wr fd b w = (512, w')" "good w'" "out w' = out w @ b" "inp w' = inp w"
  using write_block [OF assms] write_keeps [OF assms] by auto

lemma copy_blocks_written:
  assumes fd: "tar_fd t = fd" and "good w" "n \<le> length (inp w)" "length block = 512"
  shows "\<exists>b w'. copy_blocks rd wr t src block (int n) w = (None, int (n - 512 * full_blocks n), b, w') \<and> good w'
    \<and> out w' = out w @ take (512 * full_blocks n) (inp w) \<and> inp w' = drop (512 * full_blocks n) (inp w) \<and> length b = 512"
  using assms(2-)
proof (induction n arbitrary: block w rule: less_induct)
  case (less n)
  show ?case
  proof (cases "512 < n")
    case False
    then have "copy_blocks rd wr t src block (int n) w = (None, int n, block, w)" by (subst copy_blocks.simps) simp
    then show ?thesis using less.prems False by (simp add: full_blocks_small)
  next
    case True
    let ?k = "full_blocks (n - 512)" and ?b = "take 512 (inp w)"
    have l: "length ?b = 512" using True less.prems(2) by simp
    obtain w0 where w0: "rd src 512 w = (512, ?b, w0)" "good w0" "out w0 = out w" "inp w0 = drop 512 (inp w)"
      using rd_some [OF less.prems(1), of 512] True less.prems(2) by auto
    obtain w1 where w1: "wr fd ?b w0 = (512, w1)" "good w1" "out w1 = out w0 @ ?b" "inp w1 = inp w0"
      using wr_keeps [OF w0(2) l] by blast
    have o: "overwrite block ?b = ?b" using l less.prems(3) by (simp add: overwrite_def)
    have "\<exists>b w'. copy_blocks rd wr t src ?b (int (n - 512)) w1
        = (None, int (n - 512 - 512 * ?k), b, w') \<and> good w'
      \<and> out w' = out w1 @ take (512 * ?k) (inp w1) \<and> inp w' = drop (512 * ?k) (inp w1) \<and> length b = 512"
      by (rule less.IH) (use True less.prems w1(2,4) w0(4) in simp_all)
    moreover have "copy_blocks rd wr t src block (int n) w = copy_blocks rd wr t src ?b (int (n - 512)) w1"
      using True w0(1) w1(1) fd o by (subst copy_blocks.simps) (simp add: of_nat_diff)
    moreover have "take (512 * Suc ?k) (inp w) = ?b @ take (512 * ?k) (drop 512 (inp w))" by (simp add: take_add)
    ultimately show ?thesis using w0 w1 by (simp add: full_blocks_step [OF True] add.commute)
  qed
qed

text \<open>The whole file is there to be read, and it has the size the header says.\<close>

lemma regfile_written:
  assumes fd: "tar_fd t = fd" and opn: "opn realname w = (src, w1)" "src \<noteq> - 1" and w1: "good w1" "out w1 = out w" "inp w1 = c"
    and sz: "sint (th_get_size (th_buf t)) = int (length c)" and junk: "length junk = 512"
  shows "\<exists>w2. tar_append_regfile opn cls rd wr junk t realname w = (None, cls src w2) \<and> good w2 \<and> out w2 = out w @ pad512 c"
proof -
  let ?n = "length c" and ?k = "full_blocks (length c)"
  obtain b w2 where 2: "copy_blocks rd wr t src junk (int ?n) w1 = (None, int (?n - 512 * ?k), b, w2)" "good w2"
    "out w2 = out w1 @ take (512 * ?k) c" "inp w2 = drop (512 * ?k) c" "length b = 512"
    using copy_blocks_written [OF fd w1(1) _ junk, of ?n] w1(3) by auto
  have v: "tar_append_regfile opn cls rd wr junk t realname w = (let (failed, w) =
      (if int (?n - 512 * ?k) > 0 then
         (let (j, data, w) = rd src (nat (int (?n - 512 * ?k))) w2;
              block = overwrite b data
          in if j = - 1 then (Some Unchanged, w)
             else
               let block = take (nat (int (?n - 512 * ?k))) block @ replicate (512 - nat (int (?n - 512 * ?k))) 0;
                   (k, w) = wr (tar_fd t) block w
               in (if k = - 1 then Some Unchanged else None, w))
       else (None, w2)) in (failed, cls src w))"
    using opn 2(1) by (simp add: tar_append_regfile_def sz)
  show ?thesis
  proof (cases "c = []")
    case True
    then show ?thesis using 2 w1(2) by (simp add: v full_blocks_def pad512_def) blast
  next
    case False
    then have k: "512 * ?k < ?n" "?n \<le> 512 * ?k + 512" using full_blocks_bounds [of ?n] by simp_all
    let ?m = "?n - 512 * ?k"
    let ?d = "drop (512 * ?k) c"
    let ?b = "?d @ replicate (512 - ?m) 0"
    have m: "0 < ?m" "?m \<le> 512" "length ?d = ?m" using k by simp_all
    obtain w3 where 3: "rd src ?m w2 = (int ?m, ?d, w3)" "good w3" "out w3 = out w2"
      using rd_some [OF 2(2), of ?m] 2(4) m(3) by (metis order_refl take_all)
    have "length ?b = 512" using m by simp
    then obtain w4 where 4: "wr fd ?b w3 = (512, w4)" "good w4" "out w4 = out w3 @ ?b" using wr_keeps [OF 3(2)] by blast
    have "take ?m (overwrite b ?d) = ?d" using m(3) by (simp add: overwrite_def)
    then have "tar_append_regfile opn cls rd wr junk t realname w = (None, cls src w4)"
      unfolding v using m 3(1) 4(1) fd by (simp add: Let_def nat_int del: of_nat_diff)
    moreover have "out w4 = out w @ pad512 c"
      using 4(3) 3(3) 2(3) w1(2) pad512_full [OF False] by simp
    ultimately show ?thesis using 4(2) by blast
  qed
qed

end

subsection \<open>Disks\<close>

text \<open>A file sink beside a file to be read; through the buffer of \<^verbatim>\<open>tarWrite.c\<close> it is a medium to copy
  files on as well.\<close>

locale disk = file_sink wr fd good out
  for wr :: "'w writer" and fd :: int and good :: "'w \<Rightarrow> bool" and out :: "'w \<Rightarrow> byte list" +
  fixes rd :: "'w reader" and src :: int and inp :: "'w \<Rightarrow> byte list"
  assumes read_file: "good w \<Longrightarrow> \<exists>w'. rd src n w = (int (min n (length (inp w))), take n (inp w), w')
      \<and> good w' \<and> out w' = out w \<and> inp w' = drop n (inp w)"
    and write_beside: "good w \<Longrightarrow> inp (snd (wr fd' b w)) = inp w"

definition read_beside :: "'w reader \<Rightarrow> (tar_writer \<times> 'w) option reader" where
  "read_beside rd fd n s =
     (case s of None \<Rightarrow> (- 1, [], None) | Some (g, w) \<Rightarrow> (let (i, data, w) = rd fd n w in (i, data, Some (g, w))))"

definition inp_beside :: "('w \<Rightarrow> byte list) \<Rightarrow> (tar_writer \<times> 'w) option \<Rightarrow> byte list" where
  "inp_beside inp s = (case s of None \<Rightarrow> [] | Some (g, w) \<Rightarrow> inp w)"

sublocale disk \<subseteq> direct: file_copy wr fd good out rd src inp
  by unfold_locales (use read_file write_beside in auto)

context disk
begin

lemma write_libtar_buffer_keeps:
  assumes inv: "writer_inv fd g" and g: "good w" and b: "length b = 512"
    and v: "write_libtar_buffer wr fd b g w = Some (n, g', w')"
  shows "inp w' = inp w"
proof -
  obtain w1 where w1: "wr fd (buffered g @ b) w = (int (length (buffered g @ b)), w1)" "good w1" using write_all [OF g] by blast
  have k: "inp w1 = inp w" "inp (snd (wr fd' x w1)) = inp w1" for fd' x
    using write_beside [OF g, of fd "buffered g @ b"] write_beside [OF w1(2)] w1(1) by simp_all
  show ?thesis
    using v k w1(1) unfolding write_libtar_buffer_value [OF inv b] by (auto simp: Let_def split: if_splits)
qed

end

sublocale disk \<subseteq> buffered: file_copy "write_tar wr" fd "tar_good fd good" "tar_out out" "read_beside rd" src "inp_beside inp"
proof (unfold_locales, goal_cases)
  case (1 s n)
  then obtain g w where s: "s = Some (g, w)" "writer_inv fd g" "good w" by (auto simp: tar_good_def split: option.splits prod.splits)
  obtain w' where w': "rd src n w = (int (min n (length (inp w))), take n (inp w), w')" "good w'" "out w' = out w" "inp w' = drop n (inp w)"
    using read_file [OF s(3)] by blast
  then show ?case using s by (simp add: read_beside_def inp_beside_def tar_good_def tar_out_def)
next
  case (2 s b)
  then obtain g w where s: "s = Some (g, w)" "writer_inv fd g" "good w" by (auto simp: tar_good_def split: option.splits prod.splits)
  obtain g' w' where v: "write_libtar_buffer wr fd b g w = Some (512, g', w')" using buffered_block [OF s(2,3) 2(2)] by blast
  then show ?case using write_libtar_buffer_keeps [OF s(2,3) 2(2) v] by (simp add: s(1) write_tar_def inp_beside_def)
qed

definition at_work :: "int \<Rightarrow> int \<Rightarrow> files \<Rightarrow> bool" where
  "at_work fd src w \<longleftrightarrow> writable fd w \<and> f_in w src \<noteq> None"

interpretation posix_disk: disk posix_write fd "at_work fd src" "written fd" posix_read src "unread src" for fd src
  by unfold_locales (auto simp: posix_write_def posix_read_def at_work_def writable_def written_def unread_def split: option.splits)

end
