(* ===== verification/Libtar_Extract.thy ===== *)
theory Libtar_Extract
  imports Libtar_Member Tar_Write "HOL-Library.Monad_Syntax"
begin

section \<open>libtar: extracting members\<close>

text \<open>
  \<^verbatim>\<open>extract.c\<close>, \<^verbatim>\<open>android_utils.c\<close> and \<^verbatim>\<open>mkdirhier\<close> of \<^verbatim>\<open>util.c\<close>, as built without \<^verbatim>\<open>USE_FSCRYPT\<close> and
  \<^verbatim>\<open>LIBTAR_FILE_HASH\<close>. The system calls are the parameter \<open>fs\<close>, on a world of their own; a call gives
  \<open>None\<close>, or the errno of its failure. An operation returns \<open>None\<close> where the C code follows the null
  pointer, reads an uninitialised variable or leaves an array.
\<close>

subsection \<open>System calls\<close>

record 'w fsys =
  fs_lstat :: "byte list \<Rightarrow> 'w \<Rightarrow> errno option"
  fs_mkdir :: "byte list \<Rightarrow> u32 \<Rightarrow> 'w \<Rightarrow> errno option \<times> 'w"
  fs_chmod :: "byte list \<Rightarrow> u32 \<Rightarrow> 'w \<Rightarrow> errno option \<times> 'w"
  fs_unlink :: "byte list \<Rightarrow> 'w \<Rightarrow> errno option \<times> 'w"
  fs_link :: "byte list \<Rightarrow> byte list \<Rightarrow> 'w \<Rightarrow> errno option \<times> 'w"
  fs_symlink :: "byte list \<Rightarrow> byte list \<Rightarrow> 'w \<Rightarrow> errno option \<times> 'w"
  fs_mknod :: "byte list \<Rightarrow> u32 \<Rightarrow> u64 \<Rightarrow> u64 \<Rightarrow> 'w \<Rightarrow> errno option \<times> 'w"
  fs_mkfifo :: "byte list \<Rightarrow> u32 \<Rightarrow> 'w \<Rightarrow> errno option \<times> 'w"
  fs_lchown :: "byte list \<Rightarrow> u32 \<Rightarrow> u32 \<Rightarrow> 'w \<Rightarrow> errno option \<times> 'w"
  fs_utime :: "byte list \<Rightarrow> u64 \<Rightarrow> 'w \<Rightarrow> errno option \<times> 'w"
  fs_root :: "'w \<Rightarrow> bool"
  fs_open :: "byte list \<Rightarrow> 'w \<Rightarrow> int \<times> 'w"
  fs_close :: "int \<Rightarrow> 'w \<Rightarrow> errno option \<times> 'w"
  fs_write :: "'w writer"
  fs_setfilecon :: "byte list \<Rightarrow> byte list \<Rightarrow> 'w \<Rightarrow> errno option \<times> 'w"
  fs_setxattr :: "byte list \<Rightarrow> byte list \<Rightarrow> byte list \<Rightarrow> 'w \<Rightarrow> errno option \<times> 'w"
  fs_getxattr :: "byte list \<Rightarrow> byte list \<Rightarrow> 'w \<Rightarrow> byte list option"
  fs_stat_ino :: "byte list \<Rightarrow> 'w \<Rightarrow> u64 option"
  fs_getpwnam :: "byte list \<Rightarrow> u32 option"
  fs_getgrnam :: "byte list \<Rightarrow> u32 option"

subsection \<open>mkdirhier\<close>

text \<open>\<open>src\<close> is the copy of the path, cut at its slashes by \<^verbatim>\<open>strsep\<close>, \<open>dst\<close> the directory made so far. The
  results are 0, 1 (nothing was made) and a failure.\<close>

datatype mkdirs = Made | Present | MkFailed errno

partial_function (option) mkdirhier_loop :: "'w fsys \<Rightarrow> byte list \<Rightarrow> nat option \<Rightarrow> byte list \<Rightarrow> mkdirs \<Rightarrow> 'w \<Rightarrow> (mkdirs \<times> 'w) option" where
  "mkdirhier_loop fs src nextp dst retval w = do {
     (dirp, nextp, src) \<leftarrow> strsep src nextp [slash];
     (case dirp of
        None \<Rightarrow> Some (retval, w)
      | Some i \<Rightarrow> do {
          s \<leftarrow> cstr (drop i src);
          (if s = [] then mkdirhier_loop fs src nextp dst retval w
           else
             let dst = (if dst \<noteq> [] then dst @ [slash] else dst) @ s
             in if length dst \<ge> MAXPATHLEN then None
                else
                  case fs_mkdir fs dst 0x1FF w of
                    (Some e, w) \<Rightarrow> if e \<noteq> EEXIST then Some (MkFailed e, w) else mkdirhier_loop fs src nextp dst retval w
                  | (None, w) \<Rightarrow> mkdirhier_loop fs src nextp dst Made w)
        })
   }"

text \<open>\<^verbatim>\<open>path[0]\<close> is the terminating NUL of an empty path. The bound test lets a path of exactly
  \<^verbatim>\<open>MAXPATHLEN\<close> bytes through, cut.\<close>

definition mkdirhier :: "'w fsys \<Rightarrow> byte list \<Rightarrow> byte list \<Rightarrow> 'w \<Rightarrow> (mkdirs \<times> 'w) option" where
  "mkdirhier fs junk path w = do {
     (src, len) \<leftarrow> strlcpy (take MAXPATHLEN (junk @ replicate MAXPATHLEN 0)) (path @ [0]) MAXPATHLEN;
     (if len > MAXPATHLEN then Some (MkFailed ENAMETOOLONG, w)
      else mkdirhier_loop fs src (Some 0) (if path \<noteq> [] \<and> hd path = slash then [slash] else []) Present w)
   }"

text \<open>The directory of a file; \<^verbatim>\<open>dirname\<close> gives the null pointer for too long a path.\<close>

definition make_parents :: "'w fsys \<Rightarrow> byte list \<Rightarrow> byte list \<Rightarrow> 'w \<Rightarrow> (mkdirs \<times> 'w) option" where
  "make_parents fs junk filename w = do {
     d \<leftarrow> openbsd_dirname (Some filename);
     d \<leftarrow> d;
     mkdirhier fs junk d w
   }"

subsection \<open>The parts of a member\<close>

text \<open>What the functions need of the memory: whether a path can be allocated, and what is in it and on
  the stack before it is written.\<close>

record memory =
  m_path :: bool
  m_junk :: "byte list"

definition member_file :: "memory \<Rightarrow> byte list option \<Rightarrow> TAR \<Rightarrow> (byte list \<times> TAR) option" where
  "member_file me realname t =
     (let (pn, t) = th_get_pathname (m_path me) (m_junk me) t
      in case realname of
           Some r \<Rightarrow> Some (r, t)
         | None \<Rightarrow> do { p \<leftarrow> pn; s \<leftarrow> cstr p; Some (s, t) })"

datatype extracted = Done | UsingExisting | Failed errno

definition step :: "(errno option \<times> 'w) \<Rightarrow> ('w \<Rightarrow> (extracted \<times> 'w) option) \<Rightarrow> (extracted \<times> 'w) option" where
  "step r f = (case r of (Some e, w) \<Rightarrow> Some (Failed e, w) | (None, w) \<Rightarrow> f w)"

definition tar_set_file_perms :: "'w fsys \<Rightarrow> memory \<Rightarrow> byte list option \<Rightarrow> TAR \<Rightarrow> 'w \<Rightarrow> (extracted \<times> TAR \<times> 'w) option" where
  "tar_set_file_perms fs me realname t w = do {
     (filename, t) \<leftarrow> member_file me realname t;
     mode \<leftarrow> th_get_mode (th_buf t);
     uid \<leftarrow> th_get_uid (fs_getpwnam fs) t;
     gid \<leftarrow> th_get_gid (fs_getgrnam fs) t;
     let sym = TH_ISSYM (th_buf t);
     (r, w) \<leftarrow> step (if fs_root fs w then fs_lchown fs filename uid gid w else (None, w))
       (\<lambda>w. step (if sym then (None, w) else fs_utime fs filename (th_get_mtime (th_buf t)) w)
         (\<lambda>w. step (if sym then (None, w) else fs_chmod fs filename mode w) (\<lambda>w. Some (Done, w))));
     Some (r, t, w)
   }"

text \<open>The blocks of a regular file, and the progress written to a pipe.\<close>

function extract_blocks :: "'w reader \<Rightarrow> 'w fsys \<Rightarrow> TAR \<Rightarrow> int \<Rightarrow> int \<Rightarrow> byte list \<Rightarrow> int \<Rightarrow> 'w \<Rightarrow> errno option \<times> 'w" where
  "extract_blocks rd fs t fdout progress_fd buf i w =
     (if i > 0 then
        (let (k, buf, w) = tar_block_read rd t buf w
         in if k \<noteq> 512 then (Some (io_errno k), w)
            else
              let (n, w) = fs_write fs fdout (take (if i > 512 then 512 else nat i) buf) w
              in if n = - 1 then (Some Unchanged, w)
                 else
                   let w = (if progress_fd \<noteq> 0 then snd (fs_write fs progress_fd (le_bytes64 512) w) else w)
                   in extract_blocks rd fs t fdout progress_fd buf (i - 512) w)
      else (None, w))"
  by pat_completeness auto
termination by (relation "measure (\<lambda>(rd, fs, t, fdout, progress_fd, buf, i, w). nat i)") auto

declare extract_blocks.simps [simp del]

definition tar_extract_regfile :: "'w reader \<Rightarrow> 'w fsys \<Rightarrow> memory \<Rightarrow> int \<Rightarrow> byte list option \<Rightarrow> TAR \<Rightarrow> 'w \<Rightarrow> (extracted \<times> TAR \<times> 'w) option" where
  "tar_extract_regfile rd fs me progress_fd realname t w =
     (if \<not> TH_ISREG (th_buf t) then Some (Failed EINVAL, t, w)
      else do {
        (filename, t) \<leftarrow> member_file me realname t;
        let size = sint (th_get_size (th_buf t));
        (made, w) \<leftarrow> make_parents fs (m_junk me) filename w;
        (case made of
           MkFailed e \<Rightarrow> Some (Failed e, t, w)
         | _ \<Rightarrow>
             (let (fdout, w) = fs_open fs filename w
              in if fdout = - 1 then Some (Failed Unchanged, t, w)
                 else
                   let (failed, w) = extract_blocks rd fs t fdout progress_fd (take 512 (m_junk me @ replicate 512 0)) size w;
                       (closed, w) = fs_close fs fdout w
                   in case failed of
                        Some e \<Rightarrow> Some (Failed e, t, w)
                      | None \<Rightarrow> Some (case closed of Some e \<Rightarrow> Failed e | None \<Rightarrow> Done, t, w)))
      })"

function skip_blocks :: "'w reader \<Rightarrow> TAR \<Rightarrow> byte list \<Rightarrow> int \<Rightarrow> 'w \<Rightarrow> errno option \<times> 'w" where
  "skip_blocks rd t buf i w =
     (if i > 0 then
        (let (k, buf, w) = tar_block_read rd t buf w
         in if k \<noteq> 512 then (Some (io_errno k), w) else skip_blocks rd t buf (i - 512) w)
      else (None, w))"
  by pat_completeness auto
termination by (relation "measure (\<lambda>(rd, t, buf, i, w). nat i)") auto

declare skip_blocks.simps [simp del]

definition tar_skip_regfile :: "'w reader \<Rightarrow> memory \<Rightarrow> TAR \<Rightarrow> 'w \<Rightarrow> extracted \<times> 'w" where
  "tar_skip_regfile rd me t w =
     (if \<not> TH_ISREG (th_buf t) then (Failed EINVAL, w)
      else
        let (failed, w) = skip_blocks rd t (take 512 (m_junk me @ replicate 512 0)) (sint (th_get_size (th_buf t))) w
        in (case failed of Some e \<Rightarrow> Failed e | None \<Rightarrow> Done, w))"

text \<open>The contents of a member into a buffer of the caller, \<open>buf\<close>; \<open>pos\<close> is where the next block goes.
  \<open>None\<close> is a store beyond it.\<close>

function contents_blocks :: "'w reader \<Rightarrow> TAR \<Rightarrow> byte list \<Rightarrow> nat \<Rightarrow> int \<Rightarrow> 'w \<Rightarrow> (errno option \<times> byte list \<times> nat \<times> int \<times> 'w) option" where
  "contents_blocks rd t buf pos i w =
     (if i \<ge> 512 then
        (let (k, data, w) = rd (tar_fd t) 512 w
         in if pos + length data > length buf then None
            else
              let buf = put buf pos data
              in if k \<noteq> 512 then Some (Some (io_errno k), buf, pos, i, w)
                 else contents_blocks rd t buf (pos + 512) (i - 512) w)
      else Some (None, buf, pos, i, w))"
  by pat_completeness auto
termination by (relation "measure (\<lambda>(rd, t, buf, pos, i, w). nat i)") auto

declare contents_blocks.simps [simp del]

definition tar_extract_file_contents :: "'w reader \<Rightarrow> memory \<Rightarrow> TAR \<Rightarrow> byte list \<Rightarrow> u64 \<Rightarrow> 'w \<Rightarrow> (errno option \<times> byte list \<times> u64 \<times> 'w) option" where
  "tar_extract_file_contents rd me t buf len w =
     (if \<not> TH_ISREG (th_buf t) then Some (Some EINVAL, buf, len, w)
      else
        let size = th_get_size (th_buf t)
        in if size > len then Some (Some ENOSPC, buf, len, w)
           else do {
             (failed, buf, pos, i, w) \<leftarrow> contents_blocks rd t buf 0 (sint size) w;
             (if failed \<noteq> None then Some (failed, buf, len, w)
              else if i > 0 then
                (let (k, block, w) = tar_block_read rd t (take 512 (m_junk me @ replicate 512 0)) w
                 in if k \<noteq> 512 then Some (Some (io_errno k), buf, len, w)
                    else if pos + nat i > length buf then None
                    else Some (None, put buf pos (take (nat i) block), size, w))
              else Some (None, buf, size, w))
           })"

subsection \<open>Members that are not regular files\<close>

text \<open>What the functions begin with: the type is checked, the file name found, its directories made.\<close>

definition with_parents :: "bool \<Rightarrow> 'w fsys \<Rightarrow> memory \<Rightarrow> byte list option \<Rightarrow> TAR \<Rightarrow> 'w
    \<Rightarrow> (byte list \<Rightarrow> TAR \<Rightarrow> 'w \<Rightarrow> (extracted \<times> TAR \<times> 'w) option) \<Rightarrow> (extracted \<times> TAR \<times> 'w) option" where
  "with_parents right_type fs me realname t w f =
     (if \<not> right_type then Some (Failed EINVAL, t, w)
      else do {
        (filename, t) \<leftarrow> member_file me realname t;
        (made, w) \<leftarrow> make_parents fs (m_junk me) filename w;
        (case made of MkFailed e \<Rightarrow> Some (Failed e, t, w) | _ \<Rightarrow> f filename t w)
      })"

text \<open>A hard link. The table of the handle is empty, so that only the hash of the link name is computed.
  The target is written over the link name: into the header block, from byte 157 of it on, or into
  the memory of the long link. \<open>None\<close>: it runs out of that memory.\<close>

definition put_target :: "tar_header \<Rightarrow> byte list \<Rightarrow> tar_header option" where
  "put_target h s =
     (case gnu_longlink h of
        Some l \<Rightarrow> if length s < length l then Some (h\<lparr>gnu_longlink := Some (overwrite l (s @ [0]))\<rparr>) else None
      | None \<Rightarrow> if 157 + length s < 512 then Some (load_block (put (block_of h) 157 (s @ [0])) h) else None)"

definition tar_extract_hardlink :: "'w fsys \<Rightarrow> memory \<Rightarrow> byte list option \<Rightarrow> byte list option \<Rightarrow> TAR \<Rightarrow> 'w \<Rightarrow> (extracted \<times> TAR \<times> 'w) option" where
  "tar_extract_hardlink fs me realname prefix t w =
     with_parents (TH_ISLNK (th_buf t)) fs me realname t w (\<lambda>filename t w. do {
       let (failed, w) = fs_unlink fs filename w;
       (if failed \<noteq> None \<and> failed \<noteq> Some ENOENT then Some (Failed (the failed), t, w)
        else do {
          linkname \<leftarrow> cstr (th_get_linkname (th_buf t));
          bucket \<leftarrow> path_hashfunc linkname 256;
          let linktgt = (case prefix of Some p \<Rightarrow> p | None \<Rightarrow> str ''(null)'') @ [slash] @ linkname;
          h \<leftarrow> put_target (th_buf t) linktgt;
          let (ignored, w) = fs_link fs linktgt filename w;
          Some (Done, t\<lparr>th_buf := h\<rparr>, w)
        })
     })"

definition tar_extract_symlink :: "'w fsys \<Rightarrow> memory \<Rightarrow> byte list option \<Rightarrow> TAR \<Rightarrow> 'w \<Rightarrow> (extracted \<times> TAR \<times> 'w) option" where
  "tar_extract_symlink fs me realname t w =
     with_parents (TH_ISSYM (th_buf t)) fs me realname t w (\<lambda>filename t w. do {
       let (failed, w) = fs_unlink fs filename w;
       (if failed \<noteq> None \<and> failed \<noteq> Some ENOENT then Some (Failed (the failed), t, w)
        else do {
          linkname \<leftarrow> cstr (th_get_linkname (th_buf t));
          let (failed, w) = fs_symlink fs linkname filename w;
          Some (case failed of Some e \<Rightarrow> Failed e | None \<Rightarrow> Done, t, w)
        })
     })"

definition tar_extract_chardev :: "'w fsys \<Rightarrow> memory \<Rightarrow> byte list option \<Rightarrow> TAR \<Rightarrow> 'w \<Rightarrow> (extracted \<times> TAR \<times> 'w) option" where
  "tar_extract_chardev fs me realname t w =
     with_parents (TH_ISCHR (th_buf t)) fs me realname t w (\<lambda>filename t w. do {
       mode \<leftarrow> th_get_mode (th_buf t);
       let (ignored, w) = fs_mknod fs filename (mode OR S_IFCHR) (th_get_devmajor (th_buf t)) (th_get_devminor (th_buf t)) w;
       Some (Done, t, w)
     })"

definition tar_extract_blockdev :: "'w fsys \<Rightarrow> memory \<Rightarrow> byte list option \<Rightarrow> TAR \<Rightarrow> 'w \<Rightarrow> (extracted \<times> TAR \<times> 'w) option" where
  "tar_extract_blockdev fs me realname t w =
     with_parents (TH_ISBLK (th_buf t)) fs me realname t w (\<lambda>filename t w. do {
       mode \<leftarrow> th_get_mode (th_buf t);
       let (ignored, w) = fs_mknod fs filename (mode OR S_IFBLK) (th_get_devmajor (th_buf t)) (th_get_devminor (th_buf t)) w;
       Some (Done, t, w)
     })"

definition tar_extract_fifo :: "'w fsys \<Rightarrow> memory \<Rightarrow> byte list option \<Rightarrow> TAR \<Rightarrow> 'w \<Rightarrow> (extracted \<times> TAR \<times> 'w) option" where
  "tar_extract_fifo fs me realname t w =
     with_parents (TH_ISFIFO (th_buf t)) fs me realname t w (\<lambda>filename t w. do {
       mode \<leftarrow> th_get_mode (th_buf t);
       let (failed, w) = fs_mkfifo fs filename mode w;
       Some (case failed of Some e \<Rightarrow> Failed e | None \<Rightarrow> Done, t, w)
     })"

text \<open>\<^verbatim>\<open>write_path_inode\<close> of \<^verbatim>\<open>android_utils.c\<close>: the inode number of a child, kept at its parent. The results
  are 0 and -1.\<close>

definition write_path_inode :: "'w fsys \<Rightarrow> memory \<Rightarrow> byte list \<Rightarrow> byte list \<Rightarrow> byte list \<Rightarrow> 'w \<Rightarrow> (int \<times> 'w) option" where
  "write_path_inode fs me parent name inode_xattr w = do {
     let path = take (MAXPATHLEN - 1) (parent @ [slash] @ name);
     (made, w) \<leftarrow> mkdirhier fs (m_junk me) path w;
     (case made of
        MkFailed e \<Rightarrow> Some (- 1, w)
      | _ \<Rightarrow>
          (case fs_stat_ino fs path w of
             None \<Rightarrow> Some (- 1, w)
           | Some inode \<Rightarrow>
               if fs_getxattr fs parent inode_xattr w = Some (le_bytes64 inode) then Some (0, w)
               else
                 let (failed, w) = fs_setxattr fs parent inode_xattr (le_bytes64 inode) w
                 in Some (if failed \<noteq> None \<and> failed \<noteq> Some EOPNOTSUPP then - 1 else 0, w)))
   }"

definition tar_extract_dir :: "'w fsys \<Rightarrow> memory \<Rightarrow> byte list option \<Rightarrow> TAR \<Rightarrow> 'w \<Rightarrow> (extracted \<times> TAR \<times> 'w) option" where
  "tar_extract_dir fs me realname t w =
     (if \<not> TH_ISDIR (th_buf t) then Some (Failed EINVAL, t, w)
      else do {
        (filename, t) \<leftarrow> member_file me realname t;
        mode \<leftarrow> th_get_mode (th_buf t);
        (made, w) \<leftarrow> make_parents fs (m_junk me) filename w;
        (case made of
           MkFailed e \<Rightarrow> Some (Failed e, t, w)
         | _ \<Rightarrow>
             (case fs_mkdir fs filename mode w of
                (Some e, w) \<Rightarrow>
                  if e = EEXIST then
                    (let (failed, w) = fs_chmod fs filename mode w
                     in Some (case failed of Some e \<Rightarrow> Failed e | None \<Rightarrow> UsingExisting, t, w))
                  else Some (Failed e, t, w)
              | (None, w) \<Rightarrow>
                  if \<not> opt t TAR_STORE_ANDROID_USER_XATTR then Some (Done, t, w)
                  else do {
                    (r, w) \<leftarrow> (if has_user_default (th_buf t) then do {
                        name \<leftarrow> realname;
                        let (failed, w) = fs_setxattr fs name (str ''user.default'') [] w;
                        Some (if failed \<noteq> None then - 1 else 0, w)
                      } else Some (0, w));
                    (r, w) \<leftarrow> (if r = 0 \<and> has_user_cache (th_buf t) then do {
                        name \<leftarrow> realname;
                        write_path_inode fs me name (str ''cache'') (str ''user.inode_cache'') w
                      } else Some (r, w));
                    (r, w) \<leftarrow> (if r = 0 \<and> has_user_code_cache (th_buf t) then do {
                        name \<leftarrow> realname;
                        write_path_inode fs me name (str ''code_cache'') (str ''user.inode_code_cache'') w
                      } else Some (r, w));
                    Some (if r \<noteq> 0 then Failed Unchanged else Done, t, w)
                  }))
      })"

subsection \<open>The switchboard\<close>

definition extract_member :: "'w reader \<Rightarrow> 'w fsys \<Rightarrow> memory \<Rightarrow> int \<Rightarrow> byte list \<Rightarrow> byte list option \<Rightarrow> TAR \<Rightarrow> 'w \<Rightarrow> (extracted \<times> TAR \<times> 'w) option" where
  "extract_member rd fs me progress_fd realname prefix t w =
     (let h = th_buf t; name = Some realname
      in if TH_ISDIR h then
           map_option (\<lambda>(r, t, w). (if r = UsingExisting then Done else r, t, w)) (tar_extract_dir fs me name t w)
         else if TH_ISLNK h then tar_extract_hardlink fs me name prefix t w
         else if TH_ISSYM h then tar_extract_symlink fs me name t w
         else if TH_ISCHR h then tar_extract_chardev fs me name t w
         else if TH_ISBLK h then tar_extract_blockdev fs me name t w
         else if TH_ISFIFO h then tar_extract_fifo fs me name t w
         else tar_extract_regfile rd fs me progress_fd name t w)"

definition restore_attributes :: "'w fsys \<Rightarrow> byte list \<Rightarrow> TAR \<Rightarrow> 'w \<Rightarrow> 'w option" where
  "restore_attributes fs realname t w = do {
     w \<leftarrow> (if opt t TAR_STORE_SELINUX then
             (case selinux_context (th_buf t) of
                None \<Rightarrow> Some w
              | Some c \<Rightarrow> do { s \<leftarrow> cstr c; Some (snd (fs_setfilecon fs realname s w)) })
           else Some w);
     Some (if opt t TAR_STORE_POSIX_CAP \<and> has_cap_data (th_buf t)
           then snd (fs_setxattr fs realname (str ''security.capability'') (cap_data (th_buf t)) w)
           else w)
   }"

definition tar_extract_file :: "'w reader \<Rightarrow> 'w fsys \<Rightarrow> memory \<Rightarrow> int \<Rightarrow> byte list \<Rightarrow> byte list option \<Rightarrow> TAR \<Rightarrow> 'w \<Rightarrow> (extracted \<times> TAR \<times> 'w) option" where
  "tar_extract_file rd fs me progress_fd realname prefix t w =
     (if opt t TAR_NOOVERWRITE \<and> fs_lstat fs realname w \<noteq> Some ENOENT then Some (Failed EEXIST, t, w)
      else do {
        (r, t, w) \<leftarrow> extract_member rd fs me progress_fd realname prefix t w;
        (if r \<noteq> Done then Some (r, t, w)
         else do {
           (r, t, w) \<leftarrow> tar_set_file_perms fs me (Some realname) t w;
           (if r \<noteq> Done then Some (r, t, w)
            else do {
              w \<leftarrow> restore_attributes fs realname t w;
              Some (Done, t, w)
            })
         })
      })"

subsection \<open>Contents read back\<close>

lemma pad512_block:
  assumes "c \<noteq> []"
  obtains b where "pad512 c = b @ pad512 (drop 512 c)" "length b = 512" "take 512 c = take (length c) b"
proof (cases "512 \<le> length c")
  case True
  then show thesis using pad512_step [OF True] by (intro that [of "take 512 c"]) simp_all
next
  case False
  then show thesis using pad512_single [OF assms] assms by (intro that [of "pad512 c"]) simp_all
qed

lemma put_put:
  "length a = m \<Longrightarrow> pos + m + length b \<le> length buf \<Longrightarrow> put (put buf pos a) (pos + m) b = put buf pos (a @ b)"
  by (simp add: put_def ac_simps)

context tar_source
begin

lemma read_padded:
  assumes fd: "tar_fd t = fd" and inp: "inp w = pad512 c @ rest" and c: "c \<noteq> []"
  obtains b w' where "rd fd 512 w = (512, b, w')" "inp w' = pad512 (drop 512 c) @ rest" "length b = 512" "take 512 c = take (length c) b"
    "\<And>buf. length buf = 512 \<Longrightarrow> tar_block_read rd t buf w = (512, b, w')"
proof -
  obtain b where b: "pad512 c = b @ pad512 (drop 512 c)" "length b = 512" "take 512 c = take (length c) b"
    using pad512_block [OF c] by blast
  obtain w' where w': "rd fd 512 w = (512, b, w')" "inp w' = pad512 (drop 512 c) @ rest"
    using read_block [of w b "pad512 (drop 512 c) @ rest"] b inp by auto
  show thesis by (rule that [OF w' b(2,3)]) (use w' b(2) fd in \<open>simp add: tar_block_read_def overwrite_def\<close>)
qed

lemma skipped:
  assumes fd: "tar_fd t = fd" and "inp w = pad512 c @ rest" "length buf = 512"
  shows "\<exists>w'. skip_blocks rd t buf (int (length c)) w = (None, w') \<and> inp w' = rest"
  using assms(2-)
proof (induction "length c" arbitrary: c buf w rule: less_induct)
  case less
  show ?case
  proof (cases "c = []")
    case True
    then show ?thesis using less.prems by (subst skip_blocks.simps) simp
  next
    case False
    obtain b w1 where 1: "inp w1 = pad512 (drop 512 c) @ rest" "length b = 512" "tar_block_read rd t buf w = (512, b, w1)"
      using read_padded [OF fd less.prems(1) False] less.prems(2) by metis
    have s: "skip_blocks rd t buf (int (length c)) w = skip_blocks rd t b (int (length c) - 512) w1"
      using 1(3) False by (subst skip_blocks.simps) simp
    show ?thesis
    proof (cases "512 < length c")
      case True
      then have e: "int (length c) - 512 = int (length (drop 512 c))" by simp
      show ?thesis unfolding s e by (rule less.hyps) (use 1 False in simp_all)
    next
      case last: False
      then have "skip_blocks rd t b (int (length c) - 512) w1 = (None, w1)" by (subst skip_blocks.simps) simp
      then show ?thesis using s 1(1) last by simp
    qed
  qed
qed

lemma contents_read:
  assumes fd: "tar_fd t = fd" and "inp w = pad512 c @ rest" "pos + length c \<le> length buf"
  shows "\<exists>w'. contents_blocks rd t buf pos (int (length c)) w
      = Some (None, put buf pos (take (512 * (length c div 512)) c), pos + 512 * (length c div 512), int (length c mod 512), w')
    \<and> inp w' = pad512 (drop (512 * (length c div 512)) c) @ rest"
  using assms(2-)
proof (induction "length c" arbitrary: c buf pos w rule: less_induct)
  case less
  show ?case
  proof (cases "512 \<le> length c")
    case False
    then have "length c div 512 = 0" "length c mod 512 = length c" by simp_all
    then show ?thesis using less.prems False by (subst contents_blocks.simps) (simp add: put_def)
  next
    case True
    then have ne: "c \<noteq> []" by auto
    obtain b w1 where 1: "rd fd 512 w = (512, b, w1)" "inp w1 = pad512 (drop 512 c) @ rest" "length b = 512"
      "take 512 c = take (length c) b" using read_padded [OF fd less.prems(1) ne] by metis
    have b: "b = take 512 c" using 1(3,4) True by simp
    let ?d = "drop 512 c" and ?buf = "put buf pos b" and ?n = "length c div 512"
    have n: "?n = Suc (length ?d div 512)" "length c mod 512 = length ?d mod 512"
      using True by (simp_all add: div_nat_eqI le_div_geq le_mod_geq)
    have lb: "length ?buf = length buf" using less.prems(2) True b by (simp add: put_def)
    define k where "k = length ?d div 512"
    have "512 * Suc k \<le> length c" unfolding k_def n(1) [symmetric] by (rule times_div_less_eq_dividend)
    then have e: "put ?buf (pos + 512) (take (512 * k) ?d) = put buf pos (take (512 * Suc k) c)"
      "pos + 512 + 512 * k = pos + 512 * Suc k" "drop (512 * k) ?d = drop (512 * Suc k) c"
      using 1(3) less.prems(2) put_put [of b 512 pos "take (512 * k) ?d" buf] by (simp_all add: b take_add add.commute)
    have "\<exists>w'. contents_blocks rd t ?buf (pos + 512) (int (length ?d)) w1
        = Some (None, put ?buf (pos + 512) (take (512 * k) ?d), pos + 512 + 512 * k, int (length ?d mod 512), w')
      \<and> inp w' = pad512 (drop (512 * k) ?d) @ rest"
      unfolding k_def by (rule less.hyps) (use 1 True less.prems(2) lb in simp_all)
    moreover have "contents_blocks rd t buf pos (int (length c)) w = contents_blocks rd t ?buf (pos + 512) (int (length ?d)) w1"
      using 1(1,3) True less.prems(2) fd by (subst contents_blocks.simps) (simp add: of_nat_diff)
    ultimately show ?thesis unfolding n k_def [symmetric] e by simp
  qed
qed

end

context tar_source
begin

text \<open>The contents of a member arrive in the buffer, and the source stands behind them.\<close>

lemma file_contents_read:
  assumes fd: "tar_fd t = fd" and reg: "TH_ISREG (th_buf t)" and size: "th_get_size (th_buf t) = of_nat (length c)" "length c < 2 ^ 63"
    and len: "length c \<le> unat len" "length c \<le> length buf" and inp: "inp w = pad512 c @ rest"
  shows "\<exists>w'. tar_extract_file_contents rd me t buf len w = Some (None, put buf 0 c, of_nat (length c), w') \<and> inp w' = rest"
proof -
  let ?n = "length c" and ?k = "length c div 512"
  have u: "unat (of_nat ?n :: u64) = ?n" using size(2) by (simp add: unsigned_of_nat take_bit_nat_eq_self)
  have "int ?n < 2 ^ 63" using size(2) by (simp only: of_nat_less_numeral_power_cancel_iff)
  then have s: "sint (of_nat ?n :: u64) = int ?n" by (simp add: signed_of_nat signed_take_bit_int_eq_self)
  have small: "\<not> th_get_size (th_buf t) > len" using len(1) by (simp add: size(1) word_less_nat_alt u)
  obtain w1 where 1: "contents_blocks rd t buf 0 (int ?n) w
      = Some (None, put buf 0 (take (512 * ?k) c), 512 * ?k, int (?n mod 512), w1)" "inp w1 = pad512 (drop (512 * ?k) c) @ rest"
    using contents_read [OF fd inp, of 0 buf] len(2) by auto
  have v: "tar_extract_file_contents rd me t buf len w =
      (if int (?n mod 512) > 0 then
         (let (k, block, w) = tar_block_read rd t (take 512 (m_junk me @ replicate 512 0)) w1
          in if k \<noteq> 512 then Some (Some (io_errno k), put buf 0 (take (512 * ?k) c), len, w)
             else if 512 * ?k + nat (int (?n mod 512)) > length (put buf 0 (take (512 * ?k) c)) then None
             else Some (None, put (put buf 0 (take (512 * ?k) c)) (512 * ?k) (take (nat (int (?n mod 512))) block), of_nat ?n, w))
       else Some (None, put buf 0 (take (512 * ?k) c), of_nat ?n, w1))"
    using reg small 1(1) by (simp add: tar_extract_file_contents_def Let_def size(1) s)
  have d: "512 * ?k + ?n mod 512 = ?n" "512 * ?k \<le> ?n" by simp_all
  show ?thesis
  proof (cases "?n mod 512 = 0")
    case True
    then have "drop (512 * ?k) c = []" "take (512 * ?k) c = c" using d by simp_all
    then show ?thesis using 1(2) True by (simp add: v)
  next
    case False
    let ?r = "drop (512 * ?k) c"
    have r: "?r \<noteq> []" "length ?r = ?n mod 512" using False d by (auto simp: minus_mult_div_eq_mod [symmetric])
    obtain b w2 where 2: "inp w2 = pad512 (drop 512 ?r) @ rest" "length b = 512" "take 512 ?r = take (length ?r) b"
      "\<And>buf. length buf = 512 \<Longrightarrow> tar_block_read rd t buf w1 = (512, b, w2)"
      using read_padded [OF fd 1(2) r(1)] by metis
    have lr: "length ?r < 512" using r(2) by simp
    have "take (length ?r) b = ?r" using 2(3) less_imp_le [OF lr] by (simp only: take_all)
    then have "take (?n mod 512) b = ?r" unfolding r(2) .
    moreover have "drop 512 ?r = []" using lr by simp
    moreover have "length (put buf 0 (take (512 * ?k) c)) = length buf" using d len(2) by (simp add: put_def)
    moreover have "put (put buf 0 (take (512 * ?k) c)) (512 * ?k) ?r = put buf 0 c"
      using put_put [of "take (512 * ?k) c" "512 * ?k" 0 ?r buf] len(2) d by simp
    ultimately show ?thesis using False 2(1) 2(4) [of "take 512 (m_junk me @ replicate 512 0)"] d len(2) by (simp add: v)
  qed
qed

end

text \<open>Where a regular file is extracted to: an archive to read from and an output file beside it.\<close>

locale restore = tar_source rd fd inp
  for rd :: "'w reader" and fd :: int and inp :: "'w \<Rightarrow> byte list" +
  fixes fs :: "'w fsys" and fdout :: int and good :: "'w \<Rightarrow> bool" and out :: "'w \<Rightarrow> byte list"
  assumes read_beside: "good w \<Longrightarrow> good (snd (snd (rd fd 512 w))) \<and> out (snd (snd (rd fd 512 w))) = out w"
    and write_file: "good w \<Longrightarrow> \<exists>w'. fs_write fs fdout b w = (int (length b), w') \<and> good w' \<and> out w' = out w @ b \<and> inp w' = inp w"
    and write_pipe: "\<lbrakk>good w; p \<noteq> fdout\<rbrakk> \<Longrightarrow> good (snd (fs_write fs p b w)) \<and> out (snd (fs_write fs p b w)) = out w
      \<and> inp (snd (fs_write fs p b w)) = inp w"
begin

lemma blocks_extracted:
  assumes fd: "tar_fd t = fd" and p: "p \<noteq> fdout" and "good w" "inp w = pad512 c @ rest" "length buf = 512"
  shows "\<exists>w'. extract_blocks rd fs t fdout p buf (int (length c)) w = (None, w') \<and> good w' \<and> out w' = out w @ c \<and> inp w' = rest"
  using assms(3-)
proof (induction "length c" arbitrary: c buf w rule: less_induct)
  case less
  show ?case
  proof (cases "c = []")
    case True
    then show ?thesis using less.prems by (subst extract_blocks.simps) simp
  next
    case False
    obtain b w1 where 1: "rd fd 512 w = (512, b, w1)" "inp w1 = pad512 (drop 512 c) @ rest" "length b = 512"
      "take 512 c = take (length c) b" "tar_block_read rd t buf w = (512, b, w1)"
      using read_padded [OF fd less.prems(2) False] less.prems(3) by metis
    have g1: "good w1" "out w1 = out w" using read_beside [OF less.prems(1)] 1(1) by simp_all
    have tk: "take (if int (length c) > 512 then 512 else nat (int (length c))) b = take 512 c" using 1(3,4) by simp
    obtain w2 where 2: "fs_write fs fdout (take 512 c) w1 = (int (length (take 512 c)), w2)" "good w2" "out w2 = out w1 @ take 512 c" "inp w2 = inp w1"
      using write_file [OF g1(1)] by blast
    define w3 where "w3 = (if p \<noteq> 0 then snd (fs_write fs p (le_bytes64 512) w2) else w2)"
    have 3: "good w3" "out w3 = out w2" "inp w3 = inp w2" using write_pipe [OF 2(2) p] 2(2) by (simp_all add: w3_def)
    have "int (length (take 512 c)) \<noteq> - 1" by simp
    then have s: "extract_blocks rd fs t fdout p buf (int (length c)) w = extract_blocks rd fs t fdout p b (int (length c) - 512) w3"
      using 1(5) False 2(1) tk by (subst extract_blocks.simps) (simp only: Let_def prod.case w3_def [symmetric] if_True simp_thms, simp)
    show ?thesis
    proof (cases "512 < length c")
      case True
      then have e: "int (length c) - 512 = int (length (drop 512 c))" by simp
      have "\<exists>w'. extract_blocks rd fs t fdout p b (int (length (drop 512 c))) w3 = (None, w') \<and> good w'
          \<and> out w' = out w3 @ drop 512 c \<and> inp w' = rest"
        by (rule less.hyps) (use 1 2 3 False in simp_all)
      moreover have "out w3 @ drop 512 c = out w @ c" using 3(2) 2(3) g1(2) by simp
      ultimately show ?thesis unfolding s e by simp
    next
      case last: False
      then have "extract_blocks rd fs t fdout p b (int (length c) - 512) w3 = (None, w3)" by (subst extract_blocks.simps) simp
      then show ?thesis using s 3 2 g1 1(2) last by simp
    qed
  qed
qed

end

end
