(* ===== verification/Libtar_Stat.thy ===== *)
theory Libtar_Stat
  imports Libtar_Member
begin

section \<open>libtar: headers set from a file\<close>

text \<open>
  What \<^verbatim>\<open>th_set_from_stat\<close>, \<^verbatim>\<open>th_set_path\<close> and \<^verbatim>\<open>th_set_link\<close> make of a header: which fields they
  keep, that it stays well formed, and the type a reader finds in it.
\<close>

text \<open>The fields that setting a header from a file does not touch.\<close>

definition same_rest :: "TAR \<Rightarrow> TAR \<Rightarrow> bool" where
  "same_rest t t' \<longleftrightarrow> tar_fd t' = tar_fd t \<and> tar_options t' = tar_options t \<and> th_pathname t' = th_pathname t
     \<and> selinux_context (th_buf t') = selinux_context (th_buf t) \<and> has_cap_data (th_buf t') = has_cap_data (th_buf t)
     \<and> cap_data (th_buf t') = cap_data (th_buf t) \<and> has_user_default (th_buf t') = has_user_default (th_buf t)
     \<and> has_user_cache (th_buf t') = has_user_cache (th_buf t)
     \<and> has_user_code_cache (th_buf t') = has_user_code_cache (th_buf t)"

lemma same_rest_opt: "same_rest t t' \<Longrightarrow> opt t' = opt t"
  by (simp add: same_rest_def opt_def fun_eq_iff)

lemma same_rest_trans: "same_rest t t' \<Longrightarrow> same_rest t' t'' \<Longrightarrow> same_rest t t''"
  by (simp add: same_rest_def)

text \<open>The type bits are written into the mode and found there.\<close>

definition stored_mode :: "u32 \<Rightarrow> u32" where
  "stored_mode m = (if S_ISSOCK m then (m AND NOT S_IFSOCK) OR S_IFIFO else m)"

lemma mod_8_7: "(of_nat (n mod 8 ^ 7) :: u32) AND S_IFMT = of_nat n AND S_IFMT"
proof -
  have "(of_nat (n mod 8 ^ 7) :: u32) = take_bit 21 (of_nat n)"
  proof -
    have "n mod 8 ^ 7 = take_bit 21 n" by (simp add: take_bit_eq_mod)
    then show ?thesis by (simp add: take_bit_of_nat)
  qed
  moreover have "take_bit 21 x AND S_IFMT = x AND S_IFMT" for x :: u32
    by (simp add: take_bit_eq_mask and.assoc S_IFMT_def mask_eq_exp_minus_1)
  ultimately show ?thesis by simp
qed

lemma mode_field_value:
  assumes "th_wf h" "th_mode h = int_to_oct (ucast m) 8"
  shows "th_mode_field h AND S_IFMT = m AND S_IFMT"
proof -
  have "oct_to_int (field_mem 100 h) = of_nat (unat (ucast m :: u64) mod 8 ^ 7)"
    using oct_round_trip_mod [of 7 "ucast m" "field_mem 108 h"] field_mems(1) [OF assms(1)] assms(2) by simp
  moreover have "unat m < 2 ^ LENGTH(32)" by (rule unsigned_less)
  then have "unat (ucast m :: u64) = unat m" by (simp add: unsigned_ucast_eq take_bit_nat_eq_self)
  moreover have "(ucast (of_nat (n mod 8 ^ 7) :: u64) :: u32) = of_nat (n mod 8 ^ 7)" for n
  proof -
    have "n mod 8 ^ 7 < 8 ^ 7" by simp
    then have "n mod 8 ^ 7 < 2 ^ 64" by simp
    then show ?thesis by (simp add: unsigned_of_nat take_bit_nat_eq_self)
  qed
  ultimately have "th_mode_field h = of_nat (unat m mod 8 ^ 7)"
    by (simp only: th_mode_field_def)
  then show ?thesis using mod_8_7 [of "unat m"] by simp
qed

subsection \<open>th_set_from_stat\<close>

definition type_of_mode :: "byte \<Rightarrow> u32 \<Rightarrow> byte" where
  "type_of_mode tf m = th_typeflag (th_set_type (zero_header\<lparr>th_typeflag := tf\<rparr>) m)"

lemma set_type_form: "th_set_type h m = h\<lparr>th_typeflag := type_of_mode (th_typeflag h) m\<rparr>"
  by (cases h) (simp add: th_set_type_def type_of_mode_def Let_def)

lemma type_of_modes:
  "m AND S_IFMT = S_IFREG \<Longrightarrow> type_of_mode tf m = REGTYPE" "m AND S_IFMT = S_IFDIR \<Longrightarrow> type_of_mode tf m = DIRTYPE"
  "m AND S_IFMT = S_IFLNK \<Longrightarrow> type_of_mode tf m = SYMTYPE"
  by (simp_all add: type_of_mode_def th_set_type_def Let_def S_IS_defs S_IF_defs)

lemma from_stat_facts:
  fixes pw gr :: "u32 \<Rightarrow> byte list option" and s :: stat
  assumes wf: "th_wf (th_buf t)"
  defines "t' \<equiv> th_set_from_stat pw gr t s"
  shows "th_wf (th_buf t')" "same_rest t t'" "th_size (th_buf t') = int_to_oct_ex (if S_ISREG (st_mode s) then st_size s else 0) 12"
    "th_mode (th_buf t') = int_to_oct (ucast (stored_mode (st_mode s))) 8"
    "th_typeflag (th_buf t') = type_of_mode (th_typeflag (th_buf t)) (st_mode s)"
    "gnu_longname (th_buf t') = gnu_longname (th_buf t)" "gnu_longlink (th_buf t') = gnu_longlink (th_buf t)"
    "th_name (th_buf t') = th_name (th_buf t)" "th_prefix (th_buf t') = th_prefix (th_buf t)"
    "th_linkname (th_buf t') = th_linkname (th_buf t)"
proof -
  have u: "th_wf (h\<lparr>th_uname := strlcpy_s (th_uname h) n 32\<rparr>)" "th_wf (h\<lparr>th_gname := strlcpy_s (th_gname h) n 32\<rparr>)"
    "th_wf (h\<lparr>th_uid := int_to_oct v 8\<rparr>)" "th_wf (h\<lparr>th_gid := int_to_oct v 8\<rparr>)" "th_wf (h\<lparr>th_mode := int_to_oct v 8\<rparr>)"
    if "th_wf h" for h n v
    using that by (simp_all add: th_wf_def strlcpy_s_def)
  have us: "th_wf (th_buf (th_set_user pw t i))" "th_wf (th_buf (th_set_group gr t i))" if "th_wf (th_buf t)" for t i
    using that u by (auto simp: th_set_user_def th_set_group_def Let_def split: option.split)
  show "th_wf (th_buf t')"
    unfolding t'_def th_set_from_stat_def Let_def
    using wf by (auto intro!: wf_set us)
  show "same_rest t t'" "th_size (th_buf t') = int_to_oct_ex (if S_ISREG (st_mode s) then st_size s else 0) 12"
    "th_mode (th_buf t') = int_to_oct (ucast (stored_mode (st_mode s))) 8"
    "th_typeflag (th_buf t') = type_of_mode (th_typeflag (th_buf t)) (st_mode s)"
    "gnu_longname (th_buf t') = gnu_longname (th_buf t)" "gnu_longlink (th_buf t') = gnu_longlink (th_buf t)"
    "th_name (th_buf t') = th_name (th_buf t)" "th_prefix (th_buf t') = th_prefix (th_buf t)"
    "th_linkname (th_buf t') = th_linkname (th_buf t)"
    unfolding t'_def th_set_from_stat_def Let_def
    by (simp_all add: same_rest_def set_type_form th_set_user_def th_set_group_def th_set_device_def th_set_mode_def
        th_set_mtime_def th_set_size_def stored_mode_def Let_def split: option.split)
qed

subsection \<open>Types of members set from a file\<close>

lemma regular_file:
  assumes "th_wf h" "th_mode h = int_to_oct (ucast (stored_mode m)) 8" "m AND S_IFMT = S_IFREG" "th_typeflag h = REGTYPE"
  shows "TH_ISREG h" "\<not> TH_ISSYM h" "\<not> TH_ISDIR h"
proof -
  have "stored_mode m = m" using assms(3) by (simp add: stored_mode_def S_ISSOCK_def S_IF_defs)
  then have "th_mode_field h AND S_IFMT = S_IFREG" using mode_field_value [OF assms(1)] assms(2,3) by simp
  then show "TH_ISREG h" "\<not> TH_ISSYM h" "\<not> TH_ISDIR h"
    using assms(4) by (simp_all add: TH_ISREG_def TH_ISSYM_def TH_ISDIR_def S_IS_defs S_IF_defs typeflag_defs)
qed

lemma hardlinked_file:
  assumes "th_wf h" "th_mode h = int_to_oct (ucast (stored_mode m)) 8" "m AND S_IFMT = S_IFREG" "th_typeflag h = LNKTYPE"
  shows "\<not> TH_ISREG h" "\<not> TH_ISSYM h" "TH_ISLNK h"
proof -
  have "stored_mode m = m" using assms(3) by (simp add: stored_mode_def S_ISSOCK_def S_IF_defs)
  then have "th_mode_field h AND S_IFMT = S_IFREG" using mode_field_value [OF assms(1)] assms(2,3) by simp
  then show "\<not> TH_ISREG h" "\<not> TH_ISSYM h" "TH_ISLNK h"
    using assms(4) by (simp_all add: TH_ISREG_def TH_ISSYM_def TH_ISLNK_def S_IS_defs S_IF_defs typeflag_defs)
qed

subsection \<open>Paths and links\<close>

lemma wf_names:
  assumes "th_wf h"
  shows "length nm = 100 \<Longrightarrow> th_wf (h\<lparr>th_name := nm\<rparr>)" "length px = 155 \<Longrightarrow> th_wf (h\<lparr>th_prefix := px\<rparr>)"
    "length ln = 100 \<Longrightarrow> th_wf (h\<lparr>th_linkname := ln\<rparr>)" "th_wf (h\<lparr>gnu_longname := g\<rparr>)" "th_wf (h\<lparr>gnu_longlink := g\<rparr>)"
  using assms by (simp_all add: th_wf_def)

lemma set_path_cases:
  assumes "th_set_path t p = Some t'"
  obtains (long) s where "length p \<ge> 100" "opt t TAR_GNU" "s = strncpy (th_name (th_buf t)) p 100"
      "t' = t\<lparr>th_buf := (th_buf t)\<lparr>gnu_longname := Some (p @ [0]), th_name := s\<rparr>\<rparr>"
    | (short) s where "length p < 100" "s = snprintf_s (th_name (th_buf t)) 100 (p @ dir_suffix t p)"
      "t' = t\<lparr>th_buf := (th_buf t)\<lparr>gnu_longname := None, th_name := s\<rparr>\<rparr>"
    | (unsplit) "length p \<ge> 100" "\<not> opt t TAR_GNU" "t' = t\<lparr>th_buf := (th_buf t)\<lparr>gnu_longname := None\<rparr>\<rparr>"
    | (split) s q k where "length p \<ge> 100" "\<not> opt t TAR_GNU"
      "t' = t\<lparr>th_buf := (th_buf t)\<lparr>gnu_longname := None, th_name := strncpy (th_name (th_buf t)) s 100, th_prefix := q\<rparr>\<rparr>"
      "q = strncpy (th_prefix (th_buf t)) p 155 \<or> k < 155 \<and> q = snprintf_s (th_prefix (th_buf t)) (k + 1) p"
proof (cases "length p < 100 \<or> opt t TAR_GNU")
  case True
  then show thesis
    using assms short long
    by (cases "length p < 100") (simp_all add: th_set_path_def Let_def T_NAMELEN_def dir_suffix_def split: if_split_asm)
next
  case False
  then have f: "length p \<ge> 100" "\<not> opt t TAR_GNU" by simp_all
  show thesis
  proof (cases "strchr (drop (length p - 100) p) slash")
    case None
    then show thesis using assms f by (intro unsplit) (simp_all add: th_set_path_def Let_def T_NAMELEN_def split: if_split_asm)
  next
    case (Some i)
    let ?k = "length p - 100 + i"
    let ?q = "if ?k \<ge> 155 then strncpy (th_prefix (th_buf t)) p 155 else snprintf_s (th_prefix (th_buf t)) (?k + 1) p"
    let ?s = "take 100 (drop (?k + 1) p @ dir_suffix t p)"
    have "t' = t\<lparr>th_buf := (th_buf t)\<lparr>gnu_longname := None, th_name := strncpy (th_name (th_buf t)) ?s 100, th_prefix := ?q\<rparr>\<rparr>"
      using assms f Some by (auto simp: th_set_path_def Let_def T_NAMELEN_def dir_suffix_def split: if_split_asm)
    then show thesis by (rule split [OF f, where k = ?k]) auto
  qed
qed

lemma set_path_facts:
  assumes wf: "th_wf (th_buf t)" and p: "th_set_path t p = Some t'"
  shows "th_wf (th_buf t')" "same_rest t t'" "th_size (th_buf t') = th_size (th_buf t)" "th_mode (th_buf t') = th_mode (th_buf t)"
    "th_typeflag (th_buf t') = th_typeflag (th_buf t)" "gnu_longlink (th_buf t') = gnu_longlink (th_buf t)"
    "opt t TAR_GNU \<Longrightarrow> gnu_longname (th_buf t') = (if length p \<ge> 100 then Some (p @ [0]) else None)"
    "length p < 100 \<Longrightarrow> gnu_longname (th_buf t') = None"
proof -
  have n: "length (th_name (th_buf t)) = 100" "length (th_prefix (th_buf t)) = 155" using wf by (simp_all add: th_wf_def)
  show "th_wf (th_buf t')"
    using p
  proof (cases rule: set_path_cases)
    case (split s q k)
    then have "length q = 155" using n(2) by auto
    then show ?thesis using split(3) n by (simp add: wf_names wf)
  qed (use n in \<open>simp_all add: wf_names wf\<close>)
  show "same_rest t t'" "th_size (th_buf t') = th_size (th_buf t)" "th_mode (th_buf t') = th_mode (th_buf t)"
    "th_typeflag (th_buf t') = th_typeflag (th_buf t)" "gnu_longlink (th_buf t') = gnu_longlink (th_buf t)"
    "opt t TAR_GNU \<Longrightarrow> gnu_longname (th_buf t') = (if length p \<ge> 100 then Some (p @ [0]) else None)"
    "length p < 100 \<Longrightarrow> gnu_longname (th_buf t') = None"
    using p by (cases rule: set_path_cases; simp add: same_rest_def)+
qed

lemma set_link_facts:
  assumes wf: "th_wf (th_buf t)"
  shows "th_wf (th_buf (th_set_link t p))" "same_rest t (th_set_link t p)" "th_size (th_buf (th_set_link t p)) = th_size (th_buf t)"
    "th_mode (th_buf (th_set_link t p)) = th_mode (th_buf t)"
    "th_typeflag (th_buf (th_set_link t p)) = th_typeflag (th_buf t)" "gnu_longname (th_buf (th_set_link t p)) = gnu_longname (th_buf t)"
    "gnu_longlink (th_buf (th_set_link t p)) = (if length p \<ge> 100 \<and> opt t TAR_GNU then Some (p @ [0]) else None)"
    "th_name (th_buf (th_set_link t p)) = th_name (th_buf t)"
  using wf by (auto simp: th_set_link_def Let_def T_NAMELEN_def same_rest_def th_wf_def str_def)

text \<open>The first byte of the name, which a reader tests for the end of the archive.\<close>

lemma set_path_name:
  assumes wf: "th_wf (th_buf t)" and p: "th_set_path t p = Some t'" and s: "0 \<notin> set p" and l: "length p < 100 \<or> opt t TAR_GNU"
  shows "th_name (th_buf t') ! 0 \<noteq> 0"
proof -
  have ne: "p \<noteq> []" using p by (auto simp: th_set_path_def)
  then have h: "p ! 0 \<noteq> 0" using s by (metis length_greater_0_conv nth_mem)
  have n: "length (th_name (th_buf t)) = 100" using wf by (simp add: th_wf_def)
  show ?thesis
    using p
  proof (cases rule: set_path_cases)
    case (long s)
    then show ?thesis using h ne n by (simp add: strncpy_def overwrite_def nth_append)
  next
    case (short s)
    then show ?thesis using h ne n by (simp add: snprintf_s_def overwrite_def nth_append)
  qed (use l in auto)
qed

subsection \<open>Sizes\<close>

lemma size_field:
  assumes "th_wf h" "th_size h = int_to_oct_ex n 12"
  shows "th_get_size h = n"
proof -
  have "th_set_size h n = h" using assms(2) by (simp add: th_set_size_def)
  then show ?thesis using th_get_set_size [OF assms(1), of n] by simp
qed

lemma read_back_facts:
  fixes link name "context" :: "byte list option"
  assumes wf: "th_wf (th_buf t)"
  defines "h \<equiv> read_back t link name context"
  shows "th_wf h" "th_name h = th_name (th_buf t)" "th_prefix h = th_prefix (th_buf t)" "th_size h = th_size (th_buf t)"
    "th_typeflag h = th_typeflag (th_buf t)" "gnu_longname h = map_option pad512 name" "gnu_longlink h = map_option pad512 link"
    "th_linkname h = th_linkname (th_buf t)" "th_mode h = th_mode (th_buf t)"
proof -
  have "th_wf (th_buf (th_finish t))" using th_finish_crc [OF wf] by simp
  then show "th_wf h" by (simp add: h_def read_back_def Let_def th_wf_def)
  show "th_name h = th_name (th_buf t)" "th_prefix h = th_prefix (th_buf t)" "th_size h = th_size (th_buf t)"
    "th_typeflag h = th_typeflag (th_buf t)" "gnu_longname h = map_option pad512 name" "gnu_longlink h = map_option pad512 link"
    "th_linkname h = th_linkname (th_buf t)" "th_mode h = th_mode (th_buf t)"
    by (simp_all add: h_def read_back_def th_finish_def Let_def)
qed

end
