(* ===== verification/Archive.thy ===== *)
theory Archive
  imports Libtar_Append Libtar_Extract Libtar_Stat
begin

section \<open>Archives: writing and reading put together\<close>

text \<open>
  The components of libtar together, on files: a member is written through the buffer of
  \<^verbatim>\<open>tarWrite.c\<close> or without it, and what is then read from the archive is the member that was written.
\<close>

subsection \<open>Files\<close>

text \<open>Any system whose writes are those of the files, with an archive to read from and an output file.\<close>

definition on_files :: "files fsys \<Rightarrow> files fsys" where
  "on_files fs = fs\<lparr>fs_write := posix_write\<rparr>"

interpretation posix_restore: restore posix_read fd "unread fd" "on_files fs" fdout "writable fdout" "written fdout" for fd fs fdout
  by unfold_locales
    (auto simp: posix_read_def posix_write_def unread_def writable_def written_def on_files_def split: option.splits)

text \<open>A file as the medium from which an archive is read.\<close>

definition archive_file :: "int \<Rightarrow> byte list \<Rightarrow> files" where
  "archive_file fd c = \<lparr>f_out = Map.empty, f_in = [fd \<mapsto> c], f_room = None\<rparr>"

lemma unread_archive [simp]: "unread fd (archive_file fd c) = c"
  by (simp add: unread_def archive_file_def)

text \<open>What the buffered writer of an archive has put into its file once the buffer is flushed.\<close>

definition archived :: "int \<Rightarrow> (tar_writer \<times> files) option \<Rightarrow> byte list" where
  "archived fd s = tar_out (written fd) s"

subsection \<open>The end of an archive\<close>

lemma zero_block: "block_of zero_header = replicate 512 0"
  by (simp add: block_of_def zero_header_def flip: replicate_Suc replicate_add)

lemma load_zero: "length b = 512 \<Longrightarrow> b = replicate 512 0 \<Longrightarrow> th_name (load_block b h) ! 0 = 0"
  by (simp add: load_block_def)

context tar_source
begin

lemma end_read:
  assumes fd: "tar_fd t = fd" and inp: "inp r = replicate 1024 0 @ rest" and eot: "\<not> opt t TAR_IGNORE_EOT"
  shows "\<exists>t' r'. th_read mem rd t r = Some (ReadEof, t', r') \<and> inp r' = rest"
proof -
  let ?z = "replicate 512 0 :: byte list" and ?t = "t\<lparr>th_buf := zero_header\<rparr>"
  have l: "length ?z = 512" by simp
  have i: "inp r = ?z @ (?z @ rest)" using inp by (simp add: append_assoc [symmetric] replicate_add [symmetric] del: append_assoc)
  obtain r1 where 1: "tar_block_read rd ?t (block_of (th_buf ?t)) r = (512, ?z, r1)" "inp r1 = ?z @ rest"
    using block_read [of ?t r ?z "?z @ rest" "block_of (th_buf ?t)"] fd i th_wf_block [OF zero_header_wf] by auto
  let ?t1 = "?t\<lparr>th_buf := load_block ?z (th_buf ?t)\<rparr>"
  have w1: "th_wf (th_buf ?t1)" by (simp add: load_block_wf)
  obtain r2 where 2: "tar_block_read rd ?t1 (block_of (th_buf ?t1)) r1 = (512, ?z, r2)" "inp r2 = rest"
    using block_read [of ?t1 r1 ?z rest "block_of (th_buf ?t1)"] fd 1(2) th_wf_block [OF w1] by auto
  let ?t2 = "?t1\<lparr>th_buf := load_block ?z (th_buf ?t1)\<rparr>"
  have n: "th_name (load_block ?z h) ! 0 = 0" for h using load_zero [OF l] by simp
  have o: "\<not> opt ?t1 TAR_IGNORE_EOT" "\<not> opt ?t2 TAR_IGNORE_EOT" using eot by simp_all
  have "read_internal_loop rd ?t1 1 r1 = Some (0, ?t2, r2)"
    using 2(1) n o by (subst read_internal_loop.simps) (simp add: Let_def)
  then have "th_read_internal rd ?t r = Some (0, ?t2, r2)"
    unfolding th_read_internal_def using 1(1) n o by (subst read_internal_loop.simps) (simp add: Let_def)
  then show ?thesis using 2(2) by (simp add: th_read_def Let_def)
qed

end

subsection \<open>A member from memory\<close>

text \<open>A header in which earlier members have left nothing.\<close>

definition clean :: "tar_header \<Rightarrow> bool" where
  "clean h \<longleftrightarrow> th_wf h \<and> gnu_longlink h = None \<and> selinux_context h = None \<and> \<not> has_cap_data h \<and> length (cap_data h) = 20
     \<and> \<not> has_user_default h \<and> \<not> has_user_cache h \<and> \<not> has_user_code_cache h \<and> th_prefix h ! 0 = 0"

text \<open>The name a header with GNU extensions points to, and whether a name survives.\<close>

definition long_name :: "TAR \<Rightarrow> byte list \<Rightarrow> byte list option" where
  "long_name t p = (if length p \<ge> 100 \<and> opt t TAR_GNU then Some p else None)"

definition name_ok :: "TAR \<Rightarrow> byte list \<Rightarrow> bool" where
  "name_ok t p \<longleftrightarrow> p \<noteq> [] \<and> 0 \<notin> set p \<and> length p < 2 ^ 39 \<and> (length p < 100 \<or> opt t TAR_GNU \<and> length p mod 512 \<noteq> 0)"

definition contents_stat :: "u64 \<Rightarrow> u32 \<Rightarrow> u32 \<Rightarrow> u32 \<Rightarrow> u64 \<Rightarrow> stat" where
  "contents_stat now mode uid gid len = \<lparr>st_dev = 0, st_ino = 0, st_mode = S_IFREG OR mode, st_rdev = 0, st_uid = uid,
     st_gid = gid, st_mtime = now, st_size = len\<rparr>"

text \<open>The header of a regular file with a path.\<close>

lemma regular_header:
  assumes c: "clean (th_buf t0)" and n: "name_ok t0 p" and m: "st_mode s AND S_IFMT = S_IFREG"
    and t: "th_set_path (th_set_from_stat pw gr t0 s) p = Some t"
  shows "th_wf (th_buf t)" "sized t" "same_rest t0 t" "TH_ISREG (th_buf t)" "th_typeflag (th_buf t) = REGTYPE" "\<not> TH_ISSYM (th_buf t)"
    "\<not> TH_ISDIR (th_buf t)" "th_size (th_buf t) = int_to_oct_ex (st_size s) 12" "th_name (th_buf t) ! 0 \<noteq> 0"
    "gnu_longlink (th_buf t) = None" "gnu_longname (th_buf t) = text_mem (long_name t p)"
    "th_mode (th_buf t) = int_to_oct (ucast (stored_mode (st_mode s))) 8"
    "length p < 100 \<Longrightarrow> th_prefix (th_buf t) ! 0 = 0 \<and> strn 100 (th_name (th_buf t)) = p"
proof -
  let ?t1 = "th_set_from_stat pw gr t0 s"
  have w0: "th_wf (th_buf t0)" using c by (simp add: clean_def)
  note f = from_stat_facts [OF w0, of pw gr s]
  note g = set_path_facts [OF f(1) t]
  have reg: "S_ISREG (st_mode s)" using m by (simp add: S_ISREG_def)
  show wf: "th_wf (th_buf t)" by (rule g(1))
  show size: "th_size (th_buf t) = int_to_oct_ex (st_size s) 12" using g(3) f(3) reg by simp
  then show "sized t" by (auto simp: sized_def)
  show sr: "same_rest t0 t" by (rule same_rest_trans [OF f(2) g(2)])
  have o: "opt ?t1 = opt t0" "opt t = opt t0" by (rule same_rest_opt [OF f(2)]) (rule same_rest_opt [OF sr])
  show tf: "th_typeflag (th_buf t) = REGTYPE" using g(5) f(5) type_of_modes(1) [OF m] by simp
  show md: "th_mode (th_buf t) = int_to_oct (ucast (stored_mode (st_mode s))) 8" using g(4) f(4) by simp
  show "TH_ISREG (th_buf t)" "\<not> TH_ISSYM (th_buf t)" "\<not> TH_ISDIR (th_buf t)"
    using regular_file [OF wf md m tf] by simp_all
  show "th_name (th_buf t) ! 0 \<noteq> 0"
    by (rule set_path_name [OF f(1) t]) (use n o in \<open>auto simp: name_ok_def\<close>)
  show "gnu_longlink (th_buf t) = None" using g(6) f(7) c by (simp add: clean_def)
  show "gnu_longname (th_buf t) = text_mem (long_name t p)"
    using g(7,8) n o by (auto simp: long_name_def text_mem_def name_ok_def)
  show "th_prefix (th_buf t) ! 0 = 0 \<and> strn 100 (th_name (th_buf t)) = p" if l: "length p < 100"
    using t
  proof (cases rule: set_path_cases)
    case (short nm)
    have "th_mode (th_buf ?t1) = int_to_oct (ucast (stored_mode (st_mode s))) 8" by (rule f(4))
    then have "\<not> TH_ISDIR ((th_buf ?t1)\<lparr>gnu_longname := None\<rparr>)"
      using regular_file(3) [of "(th_buf ?t1)\<lparr>gnu_longname := None\<rparr>" "st_mode s"] f(1,5) type_of_modes(1) [OF m] m
      by (simp add: wf_names)
    then have "dir_suffix ?t1 p = []" by (simp add: dir_suffix_def)
    then have "strn 100 nm = p" using short(2) strn_snprintf [of p 100 100 "th_name (th_buf ?t1)"] n l by (simp add: name_ok_def)
    then show ?thesis using short(3) f(9) c by (simp add: clean_def)
  qed (use l in auto)
qed

lemma contents_mode: "mode AND S_IFMT = 0 \<Longrightarrow> st_mode (contents_stat now mode uid gid len) AND S_IFMT = S_IFREG"
proof -
  assume m: "mode AND S_IFMT = 0"
  have "S_IFREG AND S_IFMT = S_IFREG" by (simp add: S_IFREG_def S_IFMT_def)
  then show ?thesis using m by (simp add: contents_stat_def bit.conj_disj_distrib2)
qed

lemma member_ready:
  assumes "clean (th_buf t0)" "name_ok t0 p" "st_mode s AND S_IFMT = S_IFREG" "th_set_path (th_set_from_stat pw gr t0 s) p = Some t"
  shows "member_ok t None (long_name t p) None"
proof -
  note h = regular_header [OF assms]
  have r: "selinux_context (th_buf t) = None" "\<not> has_cap_data (th_buf t)" "length (cap_data (th_buf t)) = 20"
    using h(3) assms(1) by (simp_all add: same_rest_def clean_def)
  have "long_ok (long_name t p)" using assms(2) by (auto simp: long_ok_def long_name_def name_ok_def)
  moreover have "ext_ok t None" using r by (simp add: ext_ok_def stores_caps_def)
  ultimately show ?thesis
    using h r by (auto simp: member_ok_def text_mem_def long_ok_def long_name_def)
qed

text \<open>What a reader finds in the header.\<close>

lemma name_read:
  assumes "clean (th_buf t0)" "name_ok t0 p" "st_mode s AND S_IFMT = S_IFREG" "th_set_path (th_set_from_stat pw gr t0 s) p = Some t"
    and b: "th_name (th_buf u) = th_name (th_buf t)" "th_prefix (th_buf u) = th_prefix (th_buf t)"
      "gnu_longname (th_buf u) = map_option pad512 (long_name t p)"
  shows "\<exists>buf u'. th_get_pathname True junk u = (Some buf, u') \<and> cstr buf = Some p"
proof -
  note h = regular_header [OF assms(1-4)]
  have o: "opt t = opt t0" by (rule same_rest_opt [OF h(3)])
  show ?thesis
  proof (cases "length p < 100")
    case True
    then show ?thesis using th_get_pathname_value [of u junk] b h(13) by (simp add: long_name_def)
  next
    case False
    then have "gnu_longname (th_buf u) = Some (pad512 p)" "cstr (pad512 p) = Some p"
      using b(3) assms(2) o cstr_pad512 [of p] by (auto simp: long_name_def name_ok_def)
    then show ?thesis by (simp add: th_get_pathname_def)
  qed
qed

context tar_sink
begin

lemma file_contents_written:
  assumes fd: "tar_fd t0 = fd" and g: "good w" and c: "clean (th_buf t0)" and n: "name_ok t0 p" and m: "mode AND S_IFMT = 0"
    and len: "unat len = length buf" "length buf < 2 ^ 31"
  shows "\<exists>t w'. th_set_path (th_set_from_stat (ho_getpwuid ho) (ho_getgrgid ho) t0 (contents_stat now mode uid gid len)) p = Some t
    \<and> tar_append_file_contents ho now wr t0 p mode uid gid buf len w = Some (None, th_finish t, w') \<and> good w'
    \<and> out w' = out w @ member_blocks t None (long_name t p) None @ pad512 buf"
proof -
  let ?s = "contents_stat now mode uid gid len" and ?t1 = "th_set_from_stat (ho_getpwuid ho) (ho_getgrgid ho) t0 (contents_stat now mode uid gid len)"
  have sm: "st_mode ?s AND S_IFMT = S_IFREG" by (rule contents_mode [OF m])
  obtain t where t: "th_set_path ?t1 p = Some t" using n by (auto simp: th_set_path_def Let_def name_ok_def)
  note h = regular_header [OF c n sm t]
  have ok: "member_ok t None (long_name t p) None" by (rule member_ready [OF c n sm t])
  have fdt: "tar_fd t = fd" using h(3) fd by (simp add: same_rest_def)
  obtain w1 where 1: "th_write wr t w = Some (None, th_finish t, w1)" "good w1" "out w1 = out w @ member_blocks t None (long_name t p) None"
    using th_write_blocks [OF fdt g ok] by blast
  have fdf: "tar_fd (th_finish t) = fd" using fdt by (simp add: th_finish_def Let_def)
  obtain w2 where 2: "tar_append_buffer wr (th_finish t) buf len w1 = Some (None, w2)" "good w2" "out w2 = out w1 @ pad512 (take (length buf) buf)"
    using buffer_written [OF fdf 1(2) len order_refl] by auto
  have "tar_append_file_contents ho now wr t0 p mode uid gid buf len w = Some (None, th_finish t, w2)"
    using t 1(1) 2(1) by (simp add: tar_append_file_contents_def contents_stat_def Let_def)
  then show ?thesis using t 1(3) 2(2,3) by auto
qed

end

subsection \<open>Properties\<close>

lemma cstr_padded:
  assumes "s \<noteq> []" and "0 \<notin> set s"
  shows "cstr (pad512 s) = (if length s mod 512 = 0 then None else Some s)"
  using assms cstr_pad512 [of s] by (auto simp: pad512_def cstr_def)

lemma read_back_header: "block_of (read_back t link name context) = block_of (th_buf (th_finish t))"
  by (simp add: read_back_def block_of_def Let_def)

text \<open>(C5) Writing a member through the buffered writer and reading it back: whatever long link, long name,
  security context, capabilities and attributes the member has, \<^verbatim>\<open>th_write\<close> succeeds on a file with
  room and keeps the writer's invariant, and a reader put at the place where the member starts
  gets \<^verbatim>\<open>th_read\<close>'s result 0 and stands behind it. What comes back: the finished header block and the context
  always; a long link and a long name as strings, but without the NUL behind them when their length is a multiple
  of 512; capabilities when their first byte is not NUL, else none; the three user attributes when no capabilities
  are stored with them, else none.\<close>

theorem member_round_trip:
  assumes "writer_inv fd g" and "writable fd w" and "tar_fd t = fd" and "member_ok t link name context"
    and "readable s t" and "tar_fd s = rfd"
  shows "\<exists>g' w' bytes h. th_write (write_tar posix_write) t (Some (g, w)) = Some (None, th_finish t, Some (g', w'))
    \<and> writer_inv fd g' \<and> writable fd w' \<and> written fd w' @ buffered g' = written fd w @ buffered g @ bytes
    \<and> (\<forall>rest. \<exists>r. th_read (\<lambda>n. True) posix_read s (archive_file rfd (bytes @ rest)) = Some (ReadOk, s\<lparr>th_buf := h\<rparr>, r)
         \<and> unread rfd r = rest)
    \<and> block_of h = block_of (th_buf (th_finish t)) \<and> selinux_context h = text_mem context
    \<and> gnu_longlink h = map_option pad512 link \<and> gnu_longname h = map_option pad512 name
    \<and> (\<forall>l. link = Some l \<or> name = Some l \<longrightarrow> cstr (pad512 l) = (if length l mod 512 = 0 then None else Some l))
    \<and> (if stores_caps t then
         (if cap_data (th_buf t) ! 0 \<noteq> 0 then has_cap_data h \<and> cap_data h = cap_data (th_buf t) else \<not> has_cap_data h)
         \<and> \<not> has_user_default h \<and> \<not> has_user_cache h \<and> \<not> has_user_code_cache h
       else
         \<not> has_cap_data h
         \<and> has_user_default h = (opt t TAR_STORE_ANDROID_USER_XATTR \<and> has_user_default (th_buf t))
         \<and> has_user_cache h = (opt t TAR_STORE_ANDROID_USER_XATTR \<and> has_user_cache (th_buf t))
         \<and> has_user_code_cache h = (opt t TAR_STORE_ANDROID_USER_XATTR \<and> has_user_code_cache (th_buf t)))"
proof -
  let ?h = "read_back t link name context"
  have good: "tar_good fd (writable fd) (Some (g, w))" using assms(1,2) by (simp add: tar_good_def)
  obtain z where z: "th_write (write_tar posix_write) t (Some (g, w)) = Some (None, th_finish t, z)" "tar_good fd (writable fd) z"
    "tar_out (written fd) z = tar_out (written fd) (Some (g, w)) @ member_blocks t link name context"
    using posix_out.tar.th_write_blocks [OF assms(3) good assms(4)] by blast
  obtain g' w' where z': "z = Some (g', w')" "writer_inv fd g'" "writable fd w'"
    using z(2) by (auto simp: tar_good_def split: option.splits prod.splits)
  have m: "th_wf (th_buf t)" "ext_ok t context" "long_ok link" "long_ok name" using assms(4) by (simp_all add: member_ok_def)
  have r: "\<exists>r. th_read (\<lambda>n. True) posix_read s (archive_file rfd (member_blocks t link name context @ rest)) = Some (ReadOk, s\<lparr>th_buf := ?h\<rparr>, r)
      \<and> unread rfd r = rest" for rest
    by (rule posix_in.th_read_blocks [OF assms(6) m assms(5)]) simp_all
  have l: "cstr (pad512 l) = (if length l mod 512 = 0 then None else Some l)" if "link = Some l \<or> name = Some l" for l
    using that m(3,4) by (intro cstr_padded) (auto simp: long_ok_def)
  have o: "written fd w' @ buffered g' = written fd w @ buffered g @ member_blocks t link name context"
    using z(3) z'(1) by (simp add: tar_out_def)
  show ?thesis
    using z(1) z' o r l read_back_header [of t link name "context"]
    by (intro exI [of _ g'] exI [of _ w'] exI [of _ "member_blocks t link name context"] exI [of _ ?h]) (simp add: read_back_def Let_def)
qed

definition plain_tar :: "int \<Rightarrow> TAR" where
  "plain_tar fd = \<lparr>tar_pathname = str ''backup.tar'', tar_fd = fd, tar_oflags = 0, tar_options = TAR_GNU,
     th_buf = (th_set_size zero_header 0)\<lparr>th_name := 0x61 # replicate 99 0, th_typeflag := REGTYPE, gnu_longlink := Some (str ''target'' @ [0])\<rparr>, th_pathname = None\<rparr>"

lemma plain_tar_facts: "member_ok (plain_tar fd) (Some (str ''target'')) None None" "readable s (plain_tar fd) = (\<not> opt s TAR_CHECK_VERSION)"
  "opt (plain_tar fd) TAR_GNU"
proof -
  have o: "opt (plain_tar fd) TAR_GNU" "\<not> opt (plain_tar fd) TAR_STORE_SELINUX" "\<not> opt (plain_tar fd) TAR_STORE_POSIX_CAP"
    by (simp_all add: opt_def plain_tar_def TAR_GNU_def TAR_STORE_SELINUX_def TAR_STORE_POSIX_CAP_def)
  have wf: "th_wf (th_buf (plain_tar fd))" by (simp add: plain_tar_def th_wf_def th_set_size_def zero_header_def)
  have sz: "sized (plain_tar fd)" unfolding sized_def by (rule exI [of _ 0]) (simp add: plain_tar_def th_set_size_def)
  have l: "long_ok (Some (str ''target''))" by (simp add: long_ok_def str_def)
  have x: "ext_ok (plain_tar fd) None" using o by (simp add: ext_ok_def stores_caps_def plain_tar_def th_set_size_def zero_header_def)
  have n: "gnu_longlink (th_buf (plain_tar fd)) = Some (str ''target'' @ [0])" "gnu_longname (th_buf (plain_tar fd)) = None"
    by (simp_all add: plain_tar_def th_set_size_def zero_header_def)
  show "opt (plain_tar fd) TAR_GNU" by (rule o)
  show "member_ok (plain_tar fd) (Some (str ''target'')) None None"
    using o wf sz l x n by (simp add: member_ok_def text_mem_def long_ok_def)
  show "readable s (plain_tar fd) = (\<not> opt s TAR_CHECK_VERSION)"
    using o by (auto simp: readable_def plain_tar_def th_set_size_def typeflag_defs)
qed

theorem member_round_trip_witness:
  "\<exists>g' w' bytes h. th_write (write_tar posix_write) (plain_tar 3) (Some (fresh_writer, empty_file 3 None))
      = Some (None, th_finish (plain_tar 3), Some (g', w')) \<and> writer_inv 3 g' \<and> written 3 w' @ buffered g' = bytes
    \<and> (\<exists>r. th_read (\<lambda>n. True) posix_read (blank_tar 0) (archive_file 3 bytes) = Some (ReadOk, (blank_tar 0)\<lparr>th_buf := h\<rparr>, r))
    \<and> (\<exists>m. gnu_longlink h = Some m \<and> cstr m = Some (str ''target''))"
proof -
  have "writable 3 (empty_file 3 None)" by (simp add: writable_def empty_file_def)
  moreover have "readable (blank_tar 0) (plain_tar 3)" by (simp add: plain_tar_facts(2) opt_def blank_tar_def)
  moreover have "tar_fd (plain_tar 3) = 3" "tar_fd (blank_tar 0) = 3" by (simp_all add: plain_tar_def blank_tar_def)
  ultimately obtain g' w' bytes h where a: "th_write (write_tar posix_write) (plain_tar 3) (Some (fresh_writer, empty_file 3 None))
      = Some (None, th_finish (plain_tar 3), Some (g', w'))" "writer_inv 3 g'"
    "written 3 w' @ buffered g' = written 3 (empty_file 3 None) @ buffered fresh_writer @ bytes"
    "\<exists>r. th_read (\<lambda>n. True) posix_read (blank_tar 0) (archive_file 3 (bytes @ [])) = Some (ReadOk, (blank_tar 0)\<lparr>th_buf := h\<rparr>, r)"
    "gnu_longlink h = map_option pad512 (Some (str ''target''))"
    "cstr (pad512 (str ''target'')) = (if length (str ''target'') mod 512 = 0 then None else Some (str ''target''))"
    using member_round_trip [OF fresh_writer_inv(1) _ _ plain_tar_facts(1), of "empty_file 3 None" 3 "blank_tar 0" 3] by blast
  have "written 3 w' @ buffered g' = bytes" using a(3) fresh_writer_inv by (simp add: written_def empty_file_def)
  then show ?thesis using a by (auto simp: str_def)
qed

text \<open>(C27) A file saved from memory comes back: \<^verbatim>\<open>tar_append_file_contents\<close> through the buffered writer, then
  \<^verbatim>\<open>th_read\<close>, \<^verbatim>\<open>th_get_pathname\<close> and \<^verbatim>\<open>tar_extract_file_contents\<close> give the same name and the same
  bytes, for every name with GNU extensions whose length is no positive multiple of 512, every
  mode and owner and every length below 2 GiB, whatever follows in the archive.\<close>

theorem contents_round_trip:
  assumes "writer_inv fd g" and "writable fd w" and "tar_fd t0 = fd" and "clean (th_buf t0)" and "name_ok t0 p"
    and "mode AND S_IFMT = 0" and "unat len = length buf" and "length buf < 2 ^ 31"
    and "tar_fd s = rfd" and "opt s TAR_CHECK_VERSION \<longrightarrow> \<not> opt t0 TAR_GNU" and "length buf \<le> unat room" and "length buf \<le> length mem"
  shows "\<exists>t g' w' bytes. tar_append_file_contents ho now (write_tar posix_write) t0 p mode uid gid buf len (Some (g, w)) = Some (None, t, Some (g', w'))
    \<and> writer_inv fd g' \<and> writable fd w' \<and> written fd w' @ buffered g' = written fd w @ buffered g @ bytes
    \<and> (\<forall>rest. \<exists>s' r path s'' r'. th_read (\<lambda>n. True) posix_read s (archive_file rfd (bytes @ rest)) = Some (ReadOk, s', r)
         \<and> th_get_pathname True junk s' = (Some path, s'') \<and> cstr path = Some p
         \<and> tar_extract_file_contents posix_read me s' mem room r = Some (None, put mem 0 buf, len, r')
         \<and> unread rfd r' = rest)"
proof -
  let ?s = "contents_stat now mode uid gid len"
  have good: "tar_good fd (writable fd) (Some (g, w))" using assms(1,2) by (simp add: tar_good_def)
  obtain t z where t: "th_set_path (th_set_from_stat (ho_getpwuid ho) (ho_getgrgid ho) t0 ?s) p = Some t"
    and z: "tar_append_file_contents ho now (write_tar posix_write) t0 p mode uid gid buf len (Some (g, w)) = Some (None, th_finish t, z)"
    "tar_good fd (writable fd) z"
    "tar_out (written fd) z = tar_out (written fd) (Some (g, w)) @ member_blocks t None (long_name t p) None @ pad512 buf"
    using posix_out.tar.file_contents_written [OF assms(3) good assms(4-8)] by blast
  obtain g' w' where z': "z = Some (g', w')" "writer_inv fd g'" "writable fd w'"
    using z(2) by (auto simp: tar_good_def split: option.splits prod.splits)
  have sm: "st_mode ?s AND S_IFMT = S_IFREG" by (rule contents_mode [OF assms(6)])
  note h = regular_header [OF assms(4,5) sm t]
  have ok: "member_ok t None (long_name t p) None" by (rule member_ready [OF assms(4,5) sm t])
  then have m: "th_wf (th_buf t)" "ext_ok t None" "long_ok None" "long_ok (long_name t p)" by (simp_all add: member_ok_def)
  have rd: "readable s t"
    using h(5,9) assms(10) same_rest_opt [OF h(3)] by (simp add: readable_def typeflag_defs)
  let ?b = "member_blocks t None (long_name t p) None @ pad512 buf" and ?s' = "s\<lparr>th_buf := read_back t None (long_name t p) None\<rparr>"
  note rb = read_back_facts [OF m(1), of None "long_name t p" None]
  have len: "of_nat (length buf) = len" by (simp flip: assms(7))
  have sz: "th_get_size (th_buf ?s') = of_nat (length buf)"
  proof -
    have "th_size (th_buf ?s') = int_to_oct_ex len 12" using rb(4) h(8) by (simp add: contents_stat_def)
    then show ?thesis using size_field rb(1) by (simp add: len)
  qed
  have reg: "TH_ISREG (th_buf ?s')" using rb(5) h(5) by (simp add: TH_ISREG_def)
  have F: "\<exists>s' r path s'' r'. th_read (\<lambda>n. True) posix_read s (archive_file rfd (?b @ rest)) = Some (ReadOk, s', r)
         \<and> th_get_pathname True junk s' = (Some path, s'') \<and> cstr path = Some p
         \<and> tar_extract_file_contents posix_read me s' mem room r = Some (None, put mem 0 buf, len, r')
         \<and> unread rfd r' = rest" for rest
  proof -
    obtain r where r: "th_read (\<lambda>n. True) posix_read s (archive_file rfd (?b @ rest)) = Some (ReadOk, ?s', r)"
      "unread rfd r = pad512 buf @ rest"
      using posix_in.th_read_blocks [OF assms(9) m rd, of "\<lambda>n. True" "archive_file rfd (?b @ rest)" "pad512 buf @ rest"] by auto
    obtain path s'' where pn: "th_get_pathname True junk ?s' = (Some path, s'')" "cstr path = Some p"
      using name_read [OF assms(4,5) sm t, of ?s' junk] rb by auto
    have fs: "tar_fd ?s' = rfd" "length buf < 2 ^ 63" using assms(8,9) by simp_all
    obtain r' where "tar_extract_file_contents posix_read me ?s' mem room r = Some (None, put mem 0 buf, of_nat (length buf), r')"
      "unread rfd r' = rest"
      using posix_in.file_contents_read [OF fs(1) reg sz fs(2) assms(11,12) r(2)] by blast
    then show ?thesis using r(1) pn unfolding len by blast
  qed
  have o: "written fd w' @ buffered g' = written fd w @ buffered g @ ?b" using z(3) z'(1) by (simp add: tar_out_def)
  show ?thesis
    by (rule exI [of _ "th_finish t"], rule exI [of _ g'], rule exI [of _ w'], rule exI [of _ ?b], intro conjI allI)
       (rule z(1) [unfolded z'(1)], rule z'(2), rule z'(3), rule o, rule F)
qed

theorem contents_round_trip_witness:
  "\<exists>t g' w'. tar_append_file_contents (\<lparr>ho_lstat = \<lambda>p. None, ho_filecon = \<lambda>p. None, ho_caps = \<lambda>p. None, ho_xattr = \<lambda>p n. False,
      ho_readlink = \<lambda>p. None, ho_getpwuid = \<lambda>u. None, ho_getgrgid = \<lambda>g. None\<rparr>) 0 (write_tar posix_write) (blank_tar TAR_GNU)
      (str ''info'') 0x1A4 0 0 [1, 2, 3] 3 (Some (fresh_writer, empty_file 3 None)) = Some (None, t, Some (g', w')) \<and> writer_inv 3 g'"
proof -
  have b: "writable 3 (empty_file 3 None)" "tar_fd (blank_tar TAR_GNU) = 3" "clean (th_buf (blank_tar TAR_GNU))"
    "name_ok (blank_tar TAR_GNU) (str ''info'')" "(0x1A4 :: u32) AND S_IFMT = 0" "unat (3 :: u64) = length [1, 2, 3 :: byte]"
    "tar_fd (blank_tar 0) = 3" "opt (blank_tar 0) TAR_CHECK_VERSION \<longrightarrow> \<not> opt (blank_tar TAR_GNU) TAR_GNU"
    by (simp_all add: writable_def empty_file_def blank_tar_def clean_def name_ok_def zero_header_wf S_IFMT_def opt_def str_def)
      (simp_all add: zero_header_def)
  show ?thesis
    using contents_round_trip [OF fresh_writer_inv(1) b(1-6) _ b(7,8), of 3 "[0, 0, 0]"] by fastforce
qed

text \<open>The end of an archive: after \<^verbatim>\<open>flush_libtar_buffer\<close>, \<^verbatim>\<open>tar_append_eof\<close> through the buffered writer
  brings everything into the file and leaves the buffer empty, and a reader at the end of the
  members gets \<^verbatim>\<open>th_read\<close>'s result 1.\<close>

theorem archive_end:
  assumes "writer_inv fd g" and "writable fd w" and "tar_fd t = fd" and "tar_fd s = rfd" and "\<not> opt s TAR_IGNORE_EOT"
  shows "\<exists>g' w'. tar_append_eof (write_tar posix_write) t (Some (flush_libtar_buffer fd g, w)) = (None, Some (g', w'))
    \<and> buffered g' = [] \<and> written fd w' = written fd w @ buffered g @ replicate 1024 0
    \<and> (\<forall>rest. \<exists>s' r. th_read (\<lambda>n. True) posix_read s (archive_file rfd (replicate 1024 0 @ rest)) = Some (ReadEof, s', r)
         \<and> unread rfd r = rest)"
proof -
  let ?z = "replicate 512 0 :: byte list"
  obtain g' w' where e: "write_all_blocks posix_write fd [?z, ?z] (flush_libtar_buffer fd g) w = Some (g', w')"
    "buffered g' = []" "written fd w' = written fd w @ buffered g @ ?z @ ?z"
    using flush_empties [OF assms(1,2), of ?z ?z] by auto
  obtain g1 w1 where 1: "write_libtar_buffer posix_write fd ?z (flush_libtar_buffer fd g) w = Some (512, g1, w1)"
    "write_libtar_buffer posix_write fd ?z g1 w1 = Some (512, g', w')"
    using e(1) by (auto split: option.splits prod.splits if_splits)
  have "tar_append_eof (write_tar posix_write) t (Some (flush_libtar_buffer fd g, w)) = (None, Some (g', w'))"
    using 1 assms(3) by (simp add: tar_append_eof_def numeral_2_eq_2 tar_block_write_def write_tar_def)
  moreover have "?z @ ?z = replicate 1024 0" by (simp flip: replicate_add)
  moreover have "\<exists>s' r. th_read (\<lambda>n. True) posix_read s (archive_file rfd (replicate 1024 0 @ rest)) = Some (ReadEof, s', r)
      \<and> unread rfd r = rest" for rest
    by (rule posix_in.end_read [OF assms(4) _ assms(5)]) simp
  ultimately show ?thesis using e(2,3) by auto
qed

theorem archive_end_witness:
  "\<exists>g' w'. tar_append_eof (write_tar posix_write) (blank_tar 0) (Some (flush_libtar_buffer 3 fresh_writer, empty_file 3 None)) = (None, Some (g', w'))
    \<and> written 3 w' = replicate 1024 0"
  using archive_end [OF fresh_writer_inv(1), of "empty_file 3 None" "blank_tar 0" "blank_tar 0" 3]
  by (fastforce simp: fresh_writer_inv(2) empty_file_def writable_def written_def blank_tar_def opt_def)

end
