(* ===== verification/Libtar_Mkdir.thy ===== *)
theory Libtar_Mkdir
  imports Libtar_Extract
begin

section \<open>libtar: making the directories of a path\<close>

text \<open>
  What \<^verbatim>\<open>mkdirhier\<close> does, stated on the components of the path instead of the memory \<^verbatim>\<open>strsep\<close> cuts: the
  directories it makes (\<open>path_dirs\<close>), in their order, up to the first failure (\<open>make_dirs\<close>).
\<close>

subsection \<open>Components of a path\<close>

fun pieces :: "byte list \<Rightarrow> byte list list" where
  "pieces [] = [[]]"
| "pieces (c # p) = (if c = slash then [] # pieces p else (c # hd (pieces p)) # tl (pieces p))"

definition components :: "byte list \<Rightarrow> byte list list" where
  "components p = filter (\<lambda>s. s \<noteq> []) (pieces p)"

definition below :: "byte list \<Rightarrow> byte list \<Rightarrow> byte list" where
  "below d s = (if d \<noteq> [] then d @ [slash] else d) @ s"

fun dirs_from :: "byte list \<Rightarrow> byte list list \<Rightarrow> byte list list" where
  "dirs_from d [] = []"
| "dirs_from d (s # ss) = below d s # dirs_from (below d s) ss"

definition root_of :: "byte list \<Rightarrow> byte list" where
  "root_of p = (if p \<noteq> [] \<and> hd p = slash then [slash] else [])"

definition path_dirs :: "byte list \<Rightarrow> byte list list" where
  "path_dirs p = dirs_from (root_of p) (components p)"

fun make_dirs :: "'w fsys \<Rightarrow> byte list list \<Rightarrow> mkdirs \<Rightarrow> 'w \<Rightarrow> mkdirs \<times> 'w" where
  "make_dirs fs [] r w = (r, w)"
| "make_dirs fs (d # ds) r w =
     (case fs_mkdir fs d 0x1FF w of
        (Some e, w) \<Rightarrow> if e \<noteq> EEXIST then (MkFailed e, w) else make_dirs fs ds r w
      | (None, w) \<Rightarrow> make_dirs fs ds Made w)"

text \<open>The same with the array of the directory: nothing is the result where a directory does not fit it.\<close>

fun make_dirs_in :: "'w fsys \<Rightarrow> byte list list \<Rightarrow> mkdirs \<Rightarrow> 'w \<Rightarrow> (mkdirs \<times> 'w) option" where
  "make_dirs_in fs [] r w = Some (r, w)"
| "make_dirs_in fs (d # ds) r w =
     (if length d \<ge> MAXPATHLEN then None
      else case fs_mkdir fs d 0x1FF w of
        (Some e, w) \<Rightarrow> if e \<noteq> EEXIST then Some (MkFailed e, w) else make_dirs_in fs ds r w
      | (None, w) \<Rightarrow> make_dirs_in fs ds Made w)"

lemma make_dirs_in_fit: "\<forall>d \<in> set ds. length d < MAXPATHLEN \<Longrightarrow> make_dirs_in fs ds r w = Some (make_dirs fs ds r w)"
  by (induction ds arbitrary: r w) (auto split: option.split prod.split)

lemma make_dirs_in_last:
  assumes "\<forall>e \<in> set ds. length e < MAXPATHLEN" and "length d \<ge> MAXPATHLEN" and "\<forall>e. r \<noteq> MkFailed e"
  shows "make_dirs_in fs (ds @ [d]) r w =
     (case make_dirs fs ds r w of (MkFailed e, w) \<Rightarrow> Some (MkFailed e, w) | _ \<Rightarrow> None)"
  using assms
proof (induction ds arbitrary: r w)
  case Nil
  then show ?case by (cases r) simp_all
qed (auto split: option.split prod.split mkdirs.split)

lemma pieces_ne [simp]: "pieces p \<noteq> []"
  by (cases p) simp_all

lemma pieces_word: "slash \<notin> set s \<Longrightarrow> pieces s = [s]"
  by (induction s) auto

lemma pieces_slash: "slash \<notin> set s \<Longrightarrow> pieces (s @ slash # r) = s # pieces r"
  by (induction s) auto

lemma pieces_append_slash: "pieces (p @ slash # r) = pieces p @ pieces r"
proof (induction p)
  case (Cons c p)
  then show ?case by (cases "pieces p") auto
qed simp

lemma path_cases:
  obtains (word) "slash \<notin> set p" | (piece) s r where "slash \<notin> set s" "p = s @ slash # r"
  by (metis split_list_first)

lemma components_word: "slash \<notin> set s \<Longrightarrow> s \<noteq> [] \<Longrightarrow> components s = [s]"
  by (simp add: components_def pieces_word)

lemma components_root: "components (root_of p) = []"
  by (simp add: components_def root_of_def)

lemma components_below: "slash \<notin> set s \<Longrightarrow> s \<noteq> [] \<Longrightarrow> components (below d s) = components d @ [s]"
  by (simp add: components_def below_def pieces_append_slash pieces_word)

lemma piece_plain: "s \<in> set (pieces p) \<Longrightarrow> slash \<notin> set s"
proof (induction p arbitrary: s)
  case (Cons c p)
  then show ?case by (cases "pieces p") (auto split: if_splits)
qed simp

lemma component_plain: "s \<in> set (components p) \<Longrightarrow> slash \<notin> set s \<and> s \<noteq> []"
  using piece_plain by (auto simp: components_def)

lemma length_dirs [simp]: "length (dirs_from d ss) = length ss"
  by (induction ss arbitrary: d) simp_all

lemma dirs_components:
  assumes "\<forall>s \<in> set ss. slash \<notin> set s \<and> s \<noteq> []" "i < length ss"
  shows "components (dirs_from d ss ! i) = components d @ take (Suc i) ss"
  using assms
proof (induction ss arbitrary: d i)
  case (Cons s ss)
  then show ?case by (cases i) (simp_all add: components_below)
qed simp

lemma pieces_length: "sum_list (map (\<lambda>s. Suc (length s)) (pieces p)) = Suc (length p)"
proof (induction p)
  case (Cons c p)
  then show ?case by (cases "pieces p") auto
qed simp

lemma filter_length: "sum_list (map (\<lambda>s. Suc (length s)) (filter Q ss)) \<le> sum_list (map (\<lambda>s. Suc (length s)) ss)"
  by (induction ss) auto

lemma filter_length_eq:
  "sum_list (map (\<lambda>s. Suc (length s)) (filter (\<lambda>s. s \<noteq> []) ss)) + length (filter (\<lambda>s. s = []) ss) = sum_list (map (\<lambda>s. Suc (length s)) ss)"
  by (induction ss) auto

lemma components_length:
  "sum_list (map (\<lambda>s. Suc (length s)) (components p)) + length (filter (\<lambda>s. s = []) (pieces p)) = Suc (length p)"
  unfolding components_def using filter_length_eq [of "pieces p"] pieces_length [of p] by simp

lemma below_longer: "s \<noteq> [] \<Longrightarrow> length d < length (below d s)"
  by (cases s) (simp_all add: below_def)

lemma dirs_grow:
  assumes "\<forall>s \<in> set ss. s \<noteq> []" and "e \<in> set (dirs_from d ss)"
  shows "length d < length e"
  using assms
proof (induction ss arbitrary: d)
  case (Cons s ss)
  then show ?case using below_longer [of s d] by (fastforce dest: less_trans)
qed simp

lemma dirs_butlast:
  assumes "\<forall>s \<in> set ss. s \<noteq> []" and "e \<in> set (butlast (dirs_from d ss))"
  shows "length e < length (last (dirs_from d ss))"
  using assms
proof (induction ss arbitrary: d)
  case (Cons s ss)
  then have ne: "dirs_from (below d s) ss \<noteq> []" by (cases ss) simp_all
  then have e: "e = below d s \<or> e \<in> set (butlast (dirs_from (below d s) ss))" using Cons.prems(2) by simp
  have "length (below d s) < length (last (dirs_from (below d s) ss))"
    using dirs_grow [of ss _ "below d s"] Cons.prems(1) ne last_in_set by force
  then show ?case using e ne Cons.IH [of "below d s"] Cons.prems(1) by auto
qed simp

lemma dirs_last:
  assumes "\<forall>s \<in> set ss. s \<noteq> []" and "ss \<noteq> []"
  shows "Suc (length (last (dirs_from d ss))) = (if d = [] then 0 else Suc (length d)) + sum_list (map (\<lambda>s. Suc (length s)) ss)"
  using assms
proof (induction ss arbitrary: d)
  case (Cons s ss)
  have b: "below d s \<noteq> []" "length (below d s) = (if d = [] then 0 else Suc (length d)) + length s"
    using Cons.prems(1) by (auto simp: below_def)
  show ?case
  proof (cases ss)
    case Nil
    then show ?thesis using b by simp
  next
    case (Cons s' ss')
    then have "dirs_from (below d s) ss \<noteq> []" by simp
    then show ?thesis using Cons.IH [of "below d s"] Cons.prems(1) b Cons by simp
  qed
qed simp

text \<open>The longest directory of a path is its last. It is longer than the path by one byte, the second slash at its
  start, when the path is absolute and has no slash more than its components need.\<close>

definition full_path :: "byte list \<Rightarrow> bool" where
  "full_path p \<longleftrightarrow> p \<noteq> [] \<and> hd p = slash \<and> [] \<notin> set (pieces (tl p))"

lemma components_ne: "\<forall>s \<in> set (components p). s \<noteq> []"
  by (simp add: components_def)

lemma path_dirs_butlast: "e \<in> set (butlast (path_dirs p)) \<Longrightarrow> length e < length (last (path_dirs p))"
  unfolding path_dirs_def by (rule dirs_butlast [OF components_ne])

lemma full_path_last:
  assumes "full_path p"
  shows "path_dirs p \<noteq> []" and "length (last (path_dirs p)) = Suc (length p)"
proof -
  obtain r where p: "p = slash # r" "[] \<notin> set (pieces r)" using assms by (cases p) (auto simp: full_path_def)
  have c: "components p = pieces r" using p by (auto simp: components_def filter_id_conv)
  then have ne: "components p \<noteq> []" by simp
  show "path_dirs p \<noteq> []" using ne by (simp add: path_dirs_def flip: length_greater_0_conv)
  show "length (last (path_dirs p)) = Suc (length p)"
    using dirs_last [OF components_ne ne, of "root_of p"] pieces_length [of r] unfolding c path_dirs_def by (simp add: root_of_def p(1))
qed

lemma other_path_last:
  assumes "\<not> full_path p" and "path_dirs p \<noteq> []"
  shows "length (last (path_dirs p)) \<le> length p"
proof -
  have ne: "components p \<noteq> []" using assms(2) by (auto simp: path_dirs_def)
  note l = dirs_last [OF components_ne ne, of "root_of p", folded path_dirs_def]
  show ?thesis
  proof (cases "root_of p = []")
    case True
    then show ?thesis using l components_length [of p] by simp
  next
    case False
    then obtain r where p: "p = slash # r" "root_of p = [slash]" by (cases p) (auto simp: root_of_def split: if_splits)
    then have "[] \<in> set (pieces r)" using assms(1) by (simp add: full_path_def)
    then have "0 < length (filter (\<lambda>s. s = []) (pieces r))" by (simp add: filter_empty_conv)
    moreover have "components p = components r" using p(1) by (simp add: components_def)
    moreover have "length p = Suc (length r)" using p(1) by simp
    moreover have "length (root_of p) = 1" "root_of p \<noteq> []" using p(2) by simp_all
    moreover from calculation have "length (last (path_dirs p)) = Suc (sum_list (map (\<lambda>s. Suc (length s)) (components r)))"
      using l by simp
    ultimately show ?thesis using components_length [of r] by linarith
  qed
qed

lemma path_dirs_last: "path_dirs p \<noteq> [] \<Longrightarrow> length (last (path_dirs p)) \<le> Suc (length p)"
  using full_path_last(2) [of p] other_path_last [of p] by (cases "full_path p") auto

lemma path_dirs_length:
  assumes "e \<in> set (path_dirs p)"
  shows "length e \<le> length (last (path_dirs p))"
proof -
  have "path_dirs p = butlast (path_dirs p) @ [last (path_dirs p)]" using assms by (cases "path_dirs p") auto
  then have "e \<in> set (butlast (path_dirs p)) \<or> e = last (path_dirs p)" using assms by (metis Un_iff empty_iff insert_iff list.set set_append)
  then show ?thesis using path_dirs_butlast [of e p] by auto
qed

subsection \<open>The loop\<close>

text \<open>\<open>q\<close> is what \<^verbatim>\<open>strsep\<close> has gone through, \<open>p\<close> the rest of the path. A directory too long for its array is
  where the code writes beyond it.\<close>

lemma mkdirhier_loop_end: "mkdirhier_loop fs mem None dst r w = Some (r, w)"
  by (subst mkdirhier_loop.simps) (simp add: strsep_def)

lemma mkdirhier_loop_step:
  fixes q j :: "byte list"
  assumes s: "0 \<notin> set s" "slash \<notin> set s" and c: "c = 0 \<or> c = slash"
  defines "next \<equiv> (if c = 0 then None else Some (length q + length s + 1))" and "mem' \<equiv> q @ s @ 0 # j"
  shows "mkdirhier_loop fs (q @ s @ c # j) (Some (length q)) dst r w =
     (if s = [] then mkdirhier_loop fs mem' next dst r w
      else if length (below dst s) \<ge> MAXPATHLEN then None
      else case fs_mkdir fs (below dst s) 0x1FF w of
        (Some e, w) \<Rightarrow> if e \<noteq> EEXIST then Some (MkFailed e, w) else mkdirhier_loop fs mem' next (below dst s) r w
      | (None, w) \<Rightarrow> mkdirhier_loop fs mem' next (below dst s) Made w)"
proof -
  have "strsep (q @ s @ c # j) (Some (length q)) [slash] = Some (Some (length q), next, mem')"
    using strsep_scan_value [of s "[slash]" c q j] s c by (auto simp: strsep_def next_def mem'_def)
  moreover have "cstr (drop (length q) mem') = Some s" using s by (simp add: mem'_def cstr_append)
  ultimately show ?thesis by (subst mkdirhier_loop.simps, fold below_def) (simp add: Let_def)
qed

lemma mkdirhier_loop_value:
  assumes "0 \<notin> set p"
  shows "mkdirhier_loop fs (q @ p @ 0 # j) (Some (length q)) dst r w = make_dirs_in fs (dirs_from dst (components p)) r w"
  using assms
proof (induction p arbitrary: q dst r w rule: length_induct)
  case (1 p)
  show ?case
  proof (cases p rule: path_cases)
    case word
    note st = mkdirhier_loop_step [OF 1(2) word, of 0 fs q j dst r w]
    show ?thesis
    proof (cases "p = []")
      case True
      then show ?thesis using st by (simp add: mkdirhier_loop_end components_def)
    next
      case False
      then show ?thesis
        using st False by (simp add: mkdirhier_loop_end components_word word split: option.split prod.split)
    qed
  next
    case (piece s t)
    have s0: "0 \<notin> set s" "0 \<notin> set t" using 1(2) piece by auto
    let ?q = "q @ s @ [0]"
    have e: "q @ p @ 0 # j = q @ s @ slash # (t @ 0 # j)" using piece by simp
    note st = mkdirhier_loop_step [OF s0(1) piece(1), of slash fs q "t @ 0 # j" dst r w]
    have IH: "mkdirhier_loop fs (q @ s @ 0 # t @ 0 # j) (Some (length q + length s + 1)) d r w
        = make_dirs_in fs (dirs_from d (components t)) r w" for d r w
      using 1(1) [rule_format, of t ?q d r w] s0(2) piece by simp
    have nz: "slash \<noteq> 0" by simp
    show ?thesis
    proof (cases "s = []")
      case True
      then have "components p = components t" using piece by (simp add: components_def)
      then show ?thesis using st IH [of dst r w] True nz unfolding e by simp
    next
      case False
      then have "components p = s # components t" using piece by (simp add: components_def pieces_slash)
      then show ?thesis using st IH [of "below dst s"] False nz unfolding e
        by (auto simp: not_le split: option.split prod.split)
    qed
  qed
qed

text \<open>The path is copied into an array, and cut to it when it is as long as the array.\<close>

lemma mkdirhier_value:
  assumes "0 \<notin> set p"
  shows "mkdirhier fs junk p w =
     (if length p > MAXPATHLEN then Some (MkFailed ENAMETOOLONG, w)
      else make_dirs_in fs (path_dirs (take (MAXPATHLEN - 1) p)) Present w)"
proof -
  let ?m = "take MAXPATHLEN (junk @ replicate MAXPATHLEN 0) :: byte list" and ?q = "take (MAXPATHLEN - 1) p"
  have l: "length ?m = MAXPATHLEN" "0 < MAXPATHLEN" "0 < MAXPATHLEN - 1" by (simp_all add: MAXPATHLEN_def)
  have c: "strlcpy ?m (p @ [0]) MAXPATHLEN = Some (snprintf_s ?m MAXPATHLEN p, length p)"
    using strlcpy_value [OF assms, of MAXPATHLEN ?m "[]"] l by simp
  have v: "snprintf_s ?m MAXPATHLEN p = [] @ ?q @ 0 # drop (Suc (length ?q)) ?m"
    using l by (simp add: snprintf_s_def overwrite_def)
  have q: "0 \<notin> set ?q" using assms by (auto dest: in_set_takeD)
  have r: "root_of ?q = (if p \<noteq> [] \<and> hd p = slash then [slash] else [])" using l(3) by (simp add: root_of_def)
  show ?thesis
    using mkdirhier_loop_value [OF q, of fs "[]" "drop (Suc (length ?q)) ?m" "root_of ?q" Present w]
    unfolding mkdirhier_def c option.case prod.case v path_dirs_def r [symmetric] by (simp add: Let_def)
qed

lemma mkdirhier_fits:
  assumes "0 \<notin> set p" and "length p + 1 < MAXPATHLEN"
  shows "mkdirhier fs junk p w = Some (make_dirs fs (path_dirs p) Present w)"
proof -
  have "\<forall>d \<in> set (path_dirs p). length d < MAXPATHLEN"
    using assms(2) path_dirs_length [of _ p] path_dirs_last [of p] by fastforce
  then show ?thesis using assms(2) by (simp add: mkdirhier_value [OF assms(1)] make_dirs_in_fit)
qed

subsection \<open>Properties\<close>

text \<open>(C19) \<^verbatim>\<open>mkdirhier\<close> always returns for a path of at most \<^verbatim>\<open>MAXPATHLEN - 2\<close> bytes, and it makes the
  directories of the path from the outermost to the last, whatever slashes are repeated: the
  i-th call of \<^verbatim>\<open>mkdir\<close> is for the directory of the first i components, directories that exist are
  passed over, and the first other failure ends it.\<close>

theorem mkdirhier_makes:
  assumes "0 \<notin> set p" and "length p + 1 < MAXPATHLEN"
  shows "mkdirhier fs junk p w = Some (make_dirs fs (path_dirs p) Present w)
    \<and> length (path_dirs p) = length (components p)
    \<and> (\<forall>i < length (components p). components (path_dirs p ! i) = take (Suc i) (components p))"
proof (intro conjI allI impI)
  show "mkdirhier fs junk p w = Some (make_dirs fs (path_dirs p) Present w)" using assms by (rule mkdirhier_fits)
  show "components (path_dirs p ! i) = take (Suc i) (components p)" if "i < length (components p)" for i
    unfolding path_dirs_def using dirs_components [of "components p" i "root_of p"] component_plain that
    by (simp add: components_root)
qed (simp add: path_dirs_def)

definition made_dirs :: "byte list list fsys \<Rightarrow> byte list list fsys" where
  "made_dirs fs = fs\<lparr>fs_mkdir := \<lambda>d m ds. if d \<in> set ds then (Some EEXIST, ds) else (None, ds @ [d])\<rparr>"

theorem mkdirhier_makes_witness:
  "\<forall>fs. mkdirhier (made_dirs fs) [] (str ''/data//app/x'') [str ''//data''] = Some (Made, [str ''//data'', str ''//data/app'', str ''//data/app/x''])"
proof
  fix fs :: "byte list list fsys"
  show "mkdirhier (made_dirs fs) [] (str ''/data//app/x'') [str ''//data''] = Some (Made, [str ''//data'', str ''//data/app'', str ''//data/app/x''])"
    using mkdirhier_makes [of "str ''/data//app/x''" "made_dirs fs" "[]" "[str ''//data'']"]
    by (simp add: str_def MAXPATHLEN_def path_dirs_def root_of_def components_def below_def made_dirs_def)
qed

text \<open>(C34) What \<^verbatim>\<open>mkdirhier\<close> does with a path near or above the size of its arrays, whatever its components. A path of more
  than \<^verbatim>\<open>MAXPATHLEN\<close> bytes is refused. One of exactly \<^verbatim>\<open>MAXPATHLEN\<close> bytes is not, but cut to \<^verbatim>\<open>MAXPATHLEN - 1\<close> bytes. An
  absolute path of (or cut to) \<^verbatim>\<open>MAXPATHLEN - 1\<close> bytes with no slash repeated and none at its end has a last directory of
  \<^verbatim>\<open>MAXPATHLEN\<close> bytes, because of the slash put after the root: unless making an earlier directory fails, its NUL goes one past
  the end of \<^verbatim>\<open>dst\<close>. For every other path the arrays hold what is put into them.\<close>

theorem mkdirhier_overflow:
  assumes "0 \<notin> set p"
  defines "q \<equiv> take (MAXPATHLEN - 1) p"
  shows "(length p > MAXPATHLEN \<longrightarrow> mkdirhier fs junk p w = Some (MkFailed ENAMETOOLONG, w))
    \<and> (length p \<le> MAXPATHLEN \<and> length q = MAXPATHLEN - 1 \<and> full_path q \<longrightarrow>
         length (last (path_dirs q)) = MAXPATHLEN
         \<and> mkdirhier fs junk p w = (case make_dirs fs (butlast (path_dirs q)) Present w of
              (MkFailed e, w) \<Rightarrow> Some (MkFailed e, w) | _ \<Rightarrow> None))
    \<and> (length p \<le> MAXPATHLEN \<and> \<not> (length q = MAXPATHLEN - 1 \<and> full_path q) \<longrightarrow>
         mkdirhier fs junk p w = Some (make_dirs fs (path_dirs q) Present w))"
proof (intro conjI impI)
  note v = mkdirhier_value [OF assms(1), of fs junk w, folded q_def]
  have M: "Suc (MAXPATHLEN - 1) = MAXPATHLEN" by (simp add: MAXPATHLEN_def)
  show "mkdirhier fs junk p w = Some (MkFailed ENAMETOOLONG, w)" if "length p > MAXPATHLEN"
    using v that by simp
  show l: "length (last (path_dirs q)) = MAXPATHLEN" if "length p \<le> MAXPATHLEN \<and> length q = MAXPATHLEN - 1 \<and> full_path q"
    using full_path_last(2) [of q] that M by simp
  show "mkdirhier fs junk p w = (case make_dirs fs (butlast (path_dirs q)) Present w of (MkFailed e, w) \<Rightarrow> Some (MkFailed e, w) | _ \<Rightarrow> None)"
    if a: "length p \<le> MAXPATHLEN \<and> length q = MAXPATHLEN - 1 \<and> full_path q"
  proof -
    have "path_dirs q = butlast (path_dirs q) @ [last (path_dirs q)]" using full_path_last(1) [of q] a by simp
    moreover have "\<forall>e \<in> set (butlast (path_dirs q)). length e < MAXPATHLEN" using path_dirs_butlast [of _ q] l [OF a] by simp
    ultimately show ?thesis
      using v a l [OF a] make_dirs_in_last [of "butlast (path_dirs q)" "last (path_dirs q)" Present fs w] by simp
  qed
  show "mkdirhier fs junk p w = Some (make_dirs fs (path_dirs q) Present w)"
    if a: "length p \<le> MAXPATHLEN \<and> \<not> (length q = MAXPATHLEN - 1 \<and> full_path q)"
  proof -
    have "length q \<le> MAXPATHLEN - 1" by (simp add: q_def)
    then have "length (last (path_dirs q)) < MAXPATHLEN" if "path_dirs q \<noteq> []"
      using a that other_path_last [of q] path_dirs_last [of q] M by (cases "full_path q") auto
    then have "\<forall>d \<in> set (path_dirs q). length d < MAXPATHLEN" using path_dirs_length [of _ q] by fastforce
    then show ?thesis using v a by (simp add: make_dirs_in_fit)
  qed
qed

theorem mkdirhier_overflow_witness:
  "\<forall>fs w gs. mkdirhier fs [] (slash # replicate 4094 0x61) w = None
    \<and> mkdirhier fs [] (slash # replicate 4096 0x61) w = Some (MkFailed ENAMETOOLONG, w)
    \<and> mkdirhier (made_dirs gs) [] (slash # 0x62 # slash # replicate 4092 0x61) [] = None"
proof (intro allI)
  fix fs :: "'w fsys" and w and gs :: "byte list list fsys"
  have p: "full_path (slash # replicate 4094 0x61)" "full_path (slash # 0x62 # slash # replicate 4092 0x61)"
    by (simp_all add: full_path_def pieces_word)
  have d: "path_dirs (slash # replicate 4094 0x61) = [slash # slash # replicate 4094 0x61]"
    "path_dirs (slash # 0x62 # slash # replicate 4092 0x61) = [[slash, slash, 0x62], slash # slash # 0x62 # slash # replicate 4092 0x61]"
    by (simp_all add: path_dirs_def root_of_def components_def pieces_word below_def)
  show "mkdirhier fs [] (slash # replicate 4094 0x61) w = None
    \<and> mkdirhier fs [] (slash # replicate 4096 0x61) w = Some (MkFailed ENAMETOOLONG, w)
    \<and> mkdirhier (made_dirs gs) [] (slash # 0x62 # slash # replicate 4092 0x61) [] = None"
    using mkdirhier_overflow [of "slash # replicate 4094 0x61" fs "[]" w] mkdirhier_overflow [of "slash # replicate 4096 0x61" fs "[]" w]
      mkdirhier_overflow [of "slash # 0x62 # slash # replicate 4092 0x61" "made_dirs gs" "[]" "[]"] p d
    by (simp add: MAXPATHLEN_def made_dirs_def)
qed

end
