(* ===== verification/Archive_Files.thy ===== *)
theory Archive_Files
  imports Archive Libtar_Mkdir
begin

section \<open>Files into an archive and out of it\<close>

text \<open>
  \<^verbatim>\<open>tar_append_file\<close> through the buffered writer on a disk, and \<^verbatim>\<open>tar_extract_regfile\<close> on the bytes it
  wrote: the steps of \<^verbatim>\<open>tar_append_file\<close> on a header, and the files the two work on.
\<close>

subsection \<open>The steps of appending a file\<close>

text \<open>The context and the capabilities that a handle's options make it take from a file.\<close>

definition file_context :: "host \<Rightarrow> TAR \<Rightarrow> byte list \<Rightarrow> byte list option" where
  "file_context ho t realname = (if opt t TAR_STORE_SELINUX then ho_filecon ho realname else None)"

definition file_caps :: "host \<Rightarrow> TAR \<Rightarrow> byte list \<Rightarrow> byte list option" where
  "file_caps ho t realname = (if opt t TAR_STORE_POSIX_CAP then ho_caps ho realname else None)"

definition attributes :: "host \<Rightarrow> byte list \<Rightarrow> TAR \<Rightarrow> TAR" where
  "attributes ho realname t = set_user_xattrs ho realname (set_caps ho realname (set_selinux ho realname t))"

definition named :: "byte list \<Rightarrow> byte list option \<Rightarrow> byte list" where
  "named realname savename = (case savename of Some n \<Rightarrow> n | None \<Rightarrow> realname)"

definition shown :: "bool \<Rightarrow> byte list \<Rightarrow> TAR \<Rightarrow> TAR" where
  "shown mem junk t = (if opt t TAR_VERBOSE then snd (th_get_pathname mem junk t) else t)"

lemma shown_keeps: "th_buf (shown mem junk t) = th_buf t" "opt (shown mem junk t) = opt t" "tar_fd (shown mem junk t) = tar_fd t"
  by (simp_all add: shown_def th_get_pathname_def Let_def opt_def fun_eq_iff split: option.split)

lemma append_file_steps:
  assumes "ho_lstat ho realname = Some s"
    and "th_set_path (th_set_from_stat (ho_getpwuid ho) (ho_getgrgid ho) (t0\<lparr>th_buf := zero_header\<rparr>) s) (named realname savename) = Some t2"
    and "check_hardlink al (st_dev s) (st_ino s) (named realname savename) lk = Some (r, lk')"
    and "set_hardlink r (attributes ho realname t2) = Some t4" and "set_symlink ho realname t4 = Some t5"
    and "th_write wr (shown pathmem pathjunk t5) w = Some (None, t6, w')"
  shows "tar_append_file ho al pathmem pathjunk opn cls rd wr junk t0 lk realname savename w =
    (if TH_ISREG (th_buf t6) then
       (let (failed, w) = tar_append_regfile opn cls rd wr junk t6 realname w' in Some (failed, t6, lk', w))
     else Some (None, t6, lk', w'))"
  using assms by (simp add: tar_append_file_def named_def attributes_def shown_def Let_def)

lemma regular_attributes:
  assumes h: "TH_ISREG (th_buf t)" "\<not> TH_ISDIR (th_buf t)" "selinux_context (th_buf t) = None" "\<not> has_cap_data (th_buf t)" "length (cap_data (th_buf t)) = 20"
    and caps: "\<forall>k. file_caps ho t realname = Some k \<longrightarrow> length k = 20"
  shows "attributes ho realname t = t\<lparr>th_buf := (th_buf t)\<lparr>selinux_context := text_mem (file_context ho t realname),
      has_cap_data := file_caps ho t realname \<noteq> None,
      cap_data := (case file_caps ho t realname of None \<Rightarrow> cap_data (th_buf t) | Some k \<Rightarrow> k)\<rparr>\<rparr>"
proof -
  let ?t1 = "set_selinux ho realname t" and ?h1 = "(th_buf t)\<lparr>selinux_context := text_mem (file_context ho t realname)\<rparr>"
  have 1: "?t1 = t\<lparr>th_buf := ?h1\<rparr>" using h(3) by (simp add: set_selinux_def file_context_def text_mem_def)
  have f: "th_mode_field (h\<lparr>selinux_context := c\<rparr>) = th_mode_field h" "th_mode_field (h\<lparr>selinux_context := c, has_cap_data := b, cap_data := d\<rparr>) = th_mode_field h"
    for h c b d by (simp_all add: th_mode_field_def field_mem_def block_of_def)
  have r: "TH_ISREG ?h1" using h(1) by (simp add: TH_ISREG_def f)
  have 2: "set_caps ho realname ?t1 = t\<lparr>th_buf := (th_buf t)\<lparr>selinux_context := text_mem (file_context ho t realname),
      has_cap_data := file_caps ho t realname \<noteq> None,
      cap_data := (case file_caps ho t realname of None \<Rightarrow> cap_data (th_buf t) | Some k \<Rightarrow> k)\<rparr>\<rparr>"
    using r h(4,5) caps by (cases "th_buf t") (auto simp: 1 set_caps_def file_caps_def overwrite_def Let_def split: option.split)
  have "\<not> TH_ISDIR (th_buf (set_caps ho realname ?t1))" unfolding 2 using h(2) by (simp add: TH_ISDIR_def f)
  then have "attributes ho realname t = set_caps ho realname ?t1" by (simp add: attributes_def set_user_xattrs_def)
  then show ?thesis unfolding 2 .
qed

text \<open>The header of a regular file, ready to be written.\<close>

definition attributes_ok :: "host \<Rightarrow> TAR \<Rightarrow> byte list \<Rightarrow> bool" where
  "attributes_ok ho t realname \<longleftrightarrow> (\<forall>c. file_context ho t realname = Some c \<longrightarrow> plain_context c)
     \<and> (\<forall>k. file_caps ho t realname = Some k \<longrightarrow> length k = 20 \<and> 0 \<in> set k)"

lemma clean_zero: "clean (th_buf (t\<lparr>th_buf := zero_header\<rparr>))"
  using zero_header_wf by (simp add: clean_def zero_header_def)

lemma file_header:
  fixes mem :: bool and junk :: "byte list"
  assumes n: "name_ok t0 p" and m: "st_mode s AND S_IFMT = S_IFREG" and a: "attributes_ok ho t0 realname"
    and t: "th_set_path (th_set_from_stat pw gr (t0\<lparr>th_buf := zero_header\<rparr>) s) p = Some t2"
  defines "u \<equiv> shown mem junk (attributes ho realname t2)"
  shows "member_ok u None (long_name t0 p) (file_context ho t0 realname)" "tar_fd u = tar_fd t0" "opt u = opt t0"
    "TH_ISREG (th_buf u)" "\<not> TH_ISSYM (th_buf u)"
    "th_typeflag (th_buf u) = REGTYPE" "th_size (th_buf u) = int_to_oct_ex (st_size s) 12"
    "th_name (th_buf u) = th_name (th_buf t2)" "th_prefix (th_buf u) = th_prefix (th_buf t2)" "th_name (th_buf u) ! 0 \<noteq> 0"
    "has_cap_data (th_buf u) = (file_caps ho t0 realname \<noteq> None)" "\<forall>k. file_caps ho t0 realname = Some k \<longrightarrow> cap_data (th_buf u) = k"
proof -
  let ?t0 = "t0\<lparr>th_buf := zero_header\<rparr>"
  have n0: "name_ok ?t0 p" using n by (simp add: name_ok_def opt_def)
  note h = regular_header [OF clean_zero n0 m t]
  have o: "opt t2 = opt t0" using same_rest_opt [OF h(3)] by (simp add: opt_def fun_eq_iff)
  have r: "selinux_context (th_buf t2) = None" "\<not> has_cap_data (th_buf t2)" "length (cap_data (th_buf t2)) = 20" "tar_fd t2 = tar_fd t0"
    using h(3) by (simp_all add: same_rest_def zero_header_def)
  have fc: "file_context ho t2 realname = file_context ho t0 realname" "file_caps ho t2 realname = file_caps ho t0 realname"
    by (simp_all add: file_context_def file_caps_def o)
  define h3 where "h3 = (th_buf t2)\<lparr>selinux_context := text_mem (file_context ho t0 realname), has_cap_data := file_caps ho t0 realname \<noteq> None,
      cap_data := (case file_caps ho t0 realname of None \<Rightarrow> cap_data (th_buf t2) | Some k \<Rightarrow> k)\<rparr>"
  have t3: "attributes ho realname t2 = t2\<lparr>th_buf := h3\<rparr>"
    using regular_attributes [OF h(4,7) r(1-3), of ho realname] a fc by (auto simp: attributes_ok_def h3_def)
  have u: "th_buf u = h3" "opt u = opt t0" "tar_fd u = tar_fd t0"
    unfolding u_def by (simp_all add: shown_keeps t3 r(4)) (simp add: opt_def fun_eq_iff flip: o)
  show "opt u = opt t0" "tar_fd u = tar_fd t0" by (rule u)+
  have mf: "th_mode_field h3 = th_mode_field (th_buf t2)" by (simp add: h3_def th_mode_field_def field_mem_def block_of_def)
  show "TH_ISREG (th_buf u)" "\<not> TH_ISSYM (th_buf u)"
    using h(4,6) unfolding u(1) by (simp_all add: TH_ISREG_def TH_ISSYM_def mf) (simp_all add: h3_def)
  show "th_typeflag (th_buf u) = REGTYPE" "th_size (th_buf u) = int_to_oct_ex (st_size s) 12"
    "th_name (th_buf u) = th_name (th_buf t2)" "th_prefix (th_buf u) = th_prefix (th_buf t2)" "th_name (th_buf u) ! 0 \<noteq> 0"
    "has_cap_data (th_buf u) = (file_caps ho t0 realname \<noteq> None)" "\<forall>k. file_caps ho t0 realname = Some k \<longrightarrow> cap_data (th_buf u) = k"
    using h(5,8,9) by (simp_all add: u(1) h3_def)
  have ln: "long_name t2 p = long_name t0 p" "long_name ?t0 p = long_name t0 p" by (simp_all add: long_name_def o)
  have wf: "th_wf h3" using h(1) by (simp add: h3_def th_wf_def)
  have sz: "sized u" unfolding sized_def u(1) using h(8) by (simp add: h3_def) blast
  have lok: "long_ok (long_name t0 p)" using n by (auto simp: long_ok_def long_name_def name_ok_def)
  have x: "ext_ok u (file_context ho t0 realname)"
    using a r(3) unfolding ext_ok_def stores_caps_def u(1) by (auto simp: attributes_ok_def h3_def split: option.split)
  have g: "gnu_longlink h3 = None" "gnu_longname h3 = text_mem (long_name t0 p)" "selinux_context h3 = text_mem (file_context ho t0 realname)"
    using h(10,11) ln by (simp_all add: h3_def)
  have "\<not> opt t0 TAR_GNU \<Longrightarrow> long_name t0 p = None" "\<not> opt t0 TAR_STORE_SELINUX \<Longrightarrow> file_context ho t0 realname = None"
    by (simp_all add: long_name_def file_context_def)
  then show "member_ok u None (long_name t0 p) (file_context ho t0 realname)"
    unfolding member_ok_def u using wf sz x lok g by (simp add: text_mem_def long_ok_def)
qed

subsection \<open>Files by name\<close>

text \<open>Opening a file for reading puts its contents on the descriptor \<open>src\<close>; closing takes them away.\<close>

definition open_input :: "(byte list \<Rightarrow> byte list option) \<Rightarrow> int \<Rightarrow> byte list \<Rightarrow> (tar_writer \<times> files) option \<Rightarrow> int \<times> (tar_writer \<times> files) option" where
  "open_input names src path z =
     (case (z, names path) of
        (Some (g, w), Some c) \<Rightarrow> (src, Some (g, w\<lparr>f_in := (f_in w)(src \<mapsto> c)\<rparr>))
      | _ \<Rightarrow> (- 1, z))"

definition close_input :: "int \<Rightarrow> (tar_writer \<times> files) option \<Rightarrow> (tar_writer \<times> files) option" where
  "close_input src z = map_option (\<lambda>(g, w). (g, w\<lparr>f_in := (f_in w)(src := None)\<rparr>)) z"

abbreviation append_to_disk where
  "append_to_disk ho al names src pathmem pathjunk junk t lk realname savename z \<equiv>
     tar_append_file ho al pathmem pathjunk (open_input names src) close_input (read_beside posix_read) (write_tar posix_write)
       junk t lk realname savename z"

lemma opened:
  assumes "tar_good fd (writable fd) z" "names path = Some c"
  obtains z1 where "open_input names src path z = (src, z1)" "tar_good fd (at_work fd src) z1"
    "tar_out (written fd) z1 = tar_out (written fd) z" "inp_beside (unread src) z1 = c"
  using assms
  by (auto simp: open_input_def tar_good_def at_work_def writable_def tar_out_def written_def inp_beside_def unread_def split: option.splits prod.splits)

lemma closed:
  assumes "tar_good fd (at_work fd src) z"
  shows "tar_good fd (writable fd) (close_input src z)" "tar_out (written fd) (close_input src z) = tar_out (written fd) z"
  using assms by (auto simp: close_input_def tar_good_def at_work_def writable_def tar_out_def written_def split: option.splits)

text \<open>A regular file that is no hard link: header blocks and contents.\<close>

lemma file_appended:
  assumes fd: "tar_fd t0 = fd" and good: "tar_good fd (writable fd) z" and l: "ho_lstat ho realname = Some s"
    and m: "st_mode s AND S_IFMT = S_IFREG" and n: "name_ok t0 (named realname savename)" and a: "attributes_ok ho t0 realname"
    and c: "names realname = Some c" "unat (st_size s) = length c" "length c < 2 ^ 63" "src \<noteq> - 1" "length junk = 512"
    and rep: "links_rep lk lm" "link_room al N (Suc k) lk" "lm (st_dev s, st_ino s) = None"
  obtains t2 lk' z' where
    "th_set_path (th_set_from_stat (ho_getpwuid ho) (ho_getgrgid ho) (t0\<lparr>th_buf := zero_header\<rparr>) s) (named realname savename) = Some t2"
    "append_to_disk ho al names src mem pjunk junk t0 lk realname savename z
      = Some (None, th_finish (shown mem pjunk (attributes ho realname t2)), lk', z')"
    "tar_good fd (writable fd) z'"
    "tar_out (written fd) z' = tar_out (written fd) z
      @ member_blocks (shown mem pjunk (attributes ho realname t2)) None (long_name t0 (named realname savename)) (file_context ho t0 realname) @ pad512 c"
    "links_rep lk' (lm((st_dev s, st_ino s) \<mapsto> take (MAXPATHLEN - 1) (named realname savename)))" "link_room al N k lk'"
proof -
  let ?p = "named realname savename" and ?t0 = "t0\<lparr>th_buf := zero_header\<rparr>"
  obtain t2 where t2: "th_set_path (th_set_from_stat (ho_getpwuid ho) (ho_getgrgid ho) ?t0 s) ?p = Some t2"
    using n by (auto simp: th_set_path_def Let_def name_ok_def)
  let ?u = "shown mem pjunk (attributes ho realname t2)"
  note h = file_header [OF n m a t2, of mem pjunk]
  obtain lk' where lk': "check_hardlink al (st_dev s) (st_ino s) ?p lk = Some (Recorded, lk')"
    "links_rep lk' (lm((st_dev s, st_ino s) \<mapsto> take (MAXPATHLEN - 1) ?p))" "link_room al N k lk'"
    using check_hardlink_value [OF rep(1,2), of "st_dev s" "st_ino s" ?p] rep(3) by auto
  have fu: "tar_fd ?u = fd" using h(2) fd by simp
  obtain z1 where z1: "th_write (write_tar posix_write) ?u z = Some (None, th_finish ?u, z1)" "tar_good fd (writable fd) z1"
    "tar_out (written fd) z1 = tar_out (written fd) z @ member_blocks ?u None (long_name t0 ?p) (file_context ho t0 realname)"
    using posix_out.tar.th_write_blocks [OF fu good h(1)] by blast
  have wf: "th_wf (th_buf ?u)" using h(1) by (simp add: member_ok_def)
  note f = finish_fields [OF wf]
  have reg: "TH_ISREG (th_buf (th_finish ?u))" using f(2) h(6) by (simp add: TH_ISREG_def)
  have wff: "th_wf (th_buf (th_finish ?u))" using th_finish_crc [OF wf] by simp
  have "th_get_size (th_buf (th_finish ?u)) = st_size s" using size_field [OF wff] f(3) h(7) by simp
  moreover have "int (length c) < 2 ^ 63" using c(3) by (simp only: of_nat_less_numeral_power_cancel_iff)
  moreover have "st_size s = of_nat (length c)" by (simp flip: c(2))
  ultimately have sz: "sint (th_get_size (th_buf (th_finish ?u))) = int (length c)"
    by (simp add: signed_of_nat signed_take_bit_int_eq_self)
  obtain z2 where z2: "open_input names src realname z1 = (src, z2)" "tar_good fd (at_work fd src) z2"
    "tar_out (written fd) z2 = tar_out (written fd) z1" "inp_beside (unread src) z2 = c"
    using opened [OF z1(2), of names realname c src] c(1) by blast
  have ff: "tar_fd (th_finish ?u) = fd" using fu by (simp add: th_finish_def Let_def)
  obtain z3 where z3: "tar_append_regfile (open_input names src) close_input (read_beside posix_read) (write_tar posix_write) junk
      (th_finish ?u) realname z1 = (None, close_input src z3)" "tar_good fd (at_work fd src) z3"
    "tar_out (written fd) z3 = tar_out (written fd) z1 @ pad512 c"
    using posix_disk.buffered.regfile_written [where opn = "open_input names src", OF ff z2(1) c(4) z2(2-4) sz c(5)] by blast
  have st: "set_hardlink Recorded (attributes ho realname t2) = Some (attributes ho realname t2)"
    "set_symlink ho realname (attributes ho realname t2) = Some (attributes ho realname t2)"
    using h(5) by (simp_all add: shown_keeps set_hardlink_def set_symlink_def)
  have "append_to_disk ho al names src mem pjunk junk t0 lk realname savename z = Some (None, th_finish ?u, lk', close_input src z3)"
    using append_file_steps [OF l t2 lk'(1) st z1(1)] reg z3(1) by simp
  then show thesis
    by (rule that [OF t2]) (use closed [OF z3(2)] z3(3) z1(3) lk' in simp_all)
qed

subsection \<open>Extracting a file\<close>

text \<open>A system that makes directories and opens \<open>path\<close> empty on a free descriptor.\<close>

definition takes_file :: "files fsys \<Rightarrow> byte list \<Rightarrow> int \<Rightarrow> bool" where
  "takes_file fs path fdout \<longleftrightarrow> fdout \<noteq> - 1
     \<and> (\<forall>d w. fst (fs_mkdir fs d 0x1FF w) \<in> {None, Some EEXIST} \<and> snd (fs_mkdir fs d 0x1FF w) = w)
     \<and> (\<forall>w. fs_open fs path w = (fdout, w\<lparr>f_out := (f_out w)(fdout \<mapsto> [])\<rparr>)) \<and> (\<forall>w. fs_close fs fdout w = (None, w))"

lemma make_dirs_free:
  assumes "\<forall>d w. fst (fs_mkdir fs d 0x1FF w) \<in> {None, Some EEXIST} \<and> snd (fs_mkdir fs d 0x1FF w) = w" "\<not> (\<exists>e. r = MkFailed e)"
  shows "\<exists>r'. make_dirs fs ds r w = (r', w) \<and> \<not> (\<exists>e. r' = MkFailed e)"
  using assms(2)
proof (induction ds arbitrary: r)
  case (Cons d ds)
  have "fst (fs_mkdir fs d 0x1FF w) \<in> {None, Some EEXIST}" "snd (fs_mkdir fs d 0x1FF w) = w" using assms(1) by blast+
  then have "fs_mkdir fs d 0x1FF w = (None, w) \<or> fs_mkdir fs d 0x1FF w = (Some EEXIST, w)"
    by (metis insert_iff prod.collapse singletonD)
  then show ?case using Cons.IH [of Made] Cons.IH [of r] Cons.prems by auto
qed simp

text \<open>The path of a file: a directory, slashes, and a name.\<close>

definition file_path :: "byte list \<Rightarrow> bool" where
  "file_path p \<longleftrightarrow> (\<exists>x m b. p = x @ replicate (Suc m) slash @ b \<and> b \<noteq> [] \<and> slash \<notin> set b \<and> x \<noteq> [] \<and> last x \<noteq> slash
     \<and> 0 \<notin> set x \<and> length x + 1 < MAXPATHLEN)"

lemma parents_made:
  assumes "takes_file fs p fdout" "file_path p"
  shows "\<exists>r. make_parents fs junk p w = Some (r, w) \<and> \<not> (\<exists>e. r = MkFailed e)"
proof -
  obtain x m b where p: "p = x @ replicate (Suc m) slash @ b" "b \<noteq> []" "slash \<notin> set b" "x \<noteq> []" "last x \<noteq> slash"
    "0 \<notin> set x" "length x + 1 < MAXPATHLEN"
    using assms(2) unfolding file_path_def by blast
  have "openbsd_dirname (Some p) = Some (Some x)"
    using dirname_value [OF p(2-5), of m 0] p(1,7) by (simp add: last_component_def MAXPATHLEN_def)
  moreover have "mkdirhier fs junk x w = Some (make_dirs fs (path_dirs x) Present w)"
    using p(6,7) by (intro mkdirhier_fits) simp_all
  moreover obtain r where "make_dirs fs (path_dirs x) Present w = (r, w)" "\<not> (\<exists>e. r = MkFailed e)"
    using make_dirs_free [of fs Present "path_dirs x" w] assms(1) by (auto simp: takes_file_def)
  ultimately show ?thesis by (simp add: make_parents_def)
qed

lemma file_extracted:
  assumes fd: "tar_fd t = rfd" and reg: "TH_ISREG (th_buf t)" and size: "th_get_size (th_buf t) = of_nat (length c)" "length c < 2 ^ 63"
    and fs: "takes_file fs p fdout" "file_path p" "progress \<noteq> fdout" and w: "f_room w = None \<or> c = []" "unread rfd w = pad512 c @ rest"
  shows "\<exists>t' w'. tar_extract_regfile posix_read (on_files fs) me progress (Some p) t w = Some (Done, t', w')
    \<and> f_out w' fdout = Some c \<and> unread rfd w' = rest"
proof -
  let ?fs = "on_files fs" and ?w1 = "w\<lparr>f_out := (f_out w)(fdout \<mapsto> [])\<rparr>"
  have fs': "takes_file ?fs p fdout" using fs(1) by (simp add: takes_file_def on_files_def)
  obtain r where r: "make_parents ?fs (m_junk me) p w = Some (r, w)" "\<not> (\<exists>e. r = MkFailed e)"
    using parents_made [OF fs' fs(2)] by blast
  have s: "sint (of_nat (length c) :: u64) = int (length c)"
  proof -
    have "int (length c) < 2 ^ 63" using size(2) by (simp only: of_nat_less_numeral_power_cancel_iff)
    then show ?thesis by (simp add: signed_of_nat signed_take_bit_int_eq_self)
  qed
  let ?t = "snd (th_get_pathname (m_path me) (m_junk me) t)"
  have t: "tar_fd ?t = rfd" "member_file me (Some p) t = Some (p, ?t)" "th_buf ?t = th_buf t"
    using fd by (simp_all add: member_file_def th_get_pathname_def Let_def split: option.split)
  let ?j = "take 512 (m_junk me @ replicate 512 0)"
  have j: "length ?j = 512" by simp
  obtain w2 where w2: "extract_blocks posix_read ?fs ?t fdout progress ?j (int (length c)) ?w1 = (None, w2)"
    "f_out w2 fdout = Some c" "unread rfd w2 = rest"
  proof (cases "c = []")
    case True
    then have "extract_blocks posix_read ?fs ?t fdout progress ?j (int (length c)) ?w1 = (None, ?w1)" by (subst extract_blocks.simps) simp
    then show thesis by (rule that) (use w(2) True in \<open>simp_all add: unread_def pad512_def\<close>)
  next
    case False
    then have g: "writable fdout ?w1" "unread rfd ?w1 = pad512 c @ rest" "written fdout ?w1 = []"
      using w by (simp_all add: writable_def unread_def written_def)
    from posix_restore.blocks_extracted [OF t(1) fs(3) g(1,2) j, of fs]
    show thesis unfolding g(3) append_Nil by (auto intro!: that simp: writable_def written_def)
  qed
  have o: "fs_open ?fs p w = (fdout, ?w1)" "fdout \<noteq> - 1" "fs_close ?fs fdout w2 = (None, w2)"
    using fs' by (simp_all add: takes_file_def)
  have "tar_extract_regfile posix_read ?fs me progress (Some p) t w = Some (Done, ?t, w2)"
    using reg r t(2) o w2(1) by (cases r) (simp_all add: tar_extract_regfile_def t(3) size(1) s)
  then show ?thesis using w2(2,3) by blast
qed

text \<open>Reading an archive does not fill the disk.\<close>

lemma pad512_nil: "pad512 c @ rest = [] \<Longrightarrow> c = []"
  by (simp add: pad512_def)

definition unread_free :: "int \<Rightarrow> files \<Rightarrow> byte list" where
  "unread_free fd w = (if f_room w = None then unread fd w else [])"

interpretation posix_free: tar_source posix_read fd "unread_free fd" for fd
  by unfold_locales (auto simp: posix_read_def unread_def unread_free_def split: option.splits if_splits)

lemma unread_free_room: "unread_free fd w = x \<Longrightarrow> (f_room w = None \<or> x = [])"
  by (auto simp: unread_free_def split: if_splits)

subsection \<open>Properties\<close>

text \<open>(C1) A regular file goes into an archive and comes out of it: \<^verbatim>\<open>tar_append_file\<close> through the buffered
  writer succeeds and records the file for later hard links; from the bytes it wrote, whatever
  follows them, \<^verbatim>\<open>th_read\<close> gives the header with the file's name, its security context and its
  capabilities (unless these start with a NUL), and \<^verbatim>\<open>tar_extract_regfile\<close> makes a file with the same
  contents. For every file below \<open>2 ^ 63\<close> bytes, with or without a verbose handle.\<close>

theorem file_round_trip:
  assumes "writer_inv fd g" and "writable fd w" and "tar_fd t0 = fd" and "ho_lstat ho realname = Some s"
    and "st_mode s AND S_IFMT = S_IFREG" and "name_ok t0 (named realname savename)" and "attributes_ok ho t0 realname"
    and "names realname = Some c" and "unat (st_size s) = length c" and "length c < 2 ^ 63" and "src \<noteq> - 1" and "length junk = 512"
    and "links_rep lk lm" and "link_room al N (Suc k) lk" and "lm (st_dev s, st_ino s) = None"
    and "tar_fd r = rfd" and "opt r TAR_CHECK_VERSION \<longrightarrow> \<not> opt t0 TAR_GNU"
    and "takes_file fs target fdout" and "file_path target" and "progress \<noteq> fdout"
  shows "\<exists>t lk' g' w' bytes. append_to_disk ho al names src mem pjunk junk t0 lk realname savename (Some (g, w)) = Some (None, t, lk', Some (g', w'))
    \<and> writer_inv fd g' \<and> writable fd w' \<and> written fd w' @ buffered g' = written fd w @ buffered g @ bytes
    \<and> links_rep lk' (lm((st_dev s, st_ino s) \<mapsto> take (MAXPATHLEN - 1) (named realname savename))) \<and> link_room al N k lk'
    \<and> (\<forall>rest. \<exists>r1 a path r2 r3 a'. th_read (\<lambda>n. True) posix_read r (archive_file rfd (bytes @ rest)) = Some (ReadOk, r1, a)
         \<and> th_get_pathname True junk r1 = (Some path, r2) \<and> cstr path = Some (named realname savename)
         \<and> selinux_context (th_buf r1) = map_option (\<lambda>c. c @ [0]) (file_context ho t0 realname)
         \<and> (\<forall>k. file_caps ho t0 realname = Some k \<and> k ! 0 \<noteq> 0 \<longrightarrow> has_cap_data (th_buf r1) \<and> cap_data (th_buf r1) = k)
         \<and> tar_extract_regfile posix_read (on_files fs) me progress (Some target) r1 a = Some (Done, r3, a')
         \<and> f_out a' fdout = Some c \<and> unread rfd a' = rest)"
proof -
  let ?p = "named realname savename" and ?ctx = "file_context ho t0 realname"
  have good: "tar_good fd (writable fd) (Some (g, w))" using assms(1,2) by (simp add: tar_good_def)
  obtain t2 lk' z where
    t2: "th_set_path (th_set_from_stat (ho_getpwuid ho) (ho_getgrgid ho) (t0\<lparr>th_buf := zero_header\<rparr>) s) ?p = Some t2"
    and z: "append_to_disk ho al names src mem pjunk junk t0 lk realname savename (Some (g, w))
      = Some (None, th_finish (shown mem pjunk (attributes ho realname t2)), lk', z)"
    "tar_good fd (writable fd) z"
    "tar_out (written fd) z = tar_out (written fd) (Some (g, w))
      @ member_blocks (shown mem pjunk (attributes ho realname t2)) None (long_name t0 ?p) ?ctx @ pad512 c"
    "links_rep lk' (lm((st_dev s, st_ino s) \<mapsto> take (MAXPATHLEN - 1) ?p))" "link_room al N k lk'"
    using file_appended [OF assms(3) good assms(4-7), of names c src junk lk lm al N k mem pjunk] assms(8-15) by blast
  let ?u = "shown mem pjunk (attributes ho realname t2)"
  let ?b = "member_blocks ?u None (long_name t0 ?p) ?ctx @ pad512 c" and ?r = "r\<lparr>th_buf := read_back ?u None (long_name t0 ?p) ?ctx\<rparr>"
  obtain g' w' where z': "z = Some (g', w')" "writer_inv fd g'" "writable fd w'"
    using z(2) by (auto simp: tar_good_def split: option.splits prod.splits)
  note h = file_header [OF assms(6,5,7) t2, of mem pjunk]
  have m: "th_wf (th_buf ?u)" "ext_ok ?u ?ctx" "long_ok None" "long_ok (long_name t0 ?p)" using h(1) by (simp_all add: member_ok_def)
  have rd: "readable r ?u" using h(3,6,10) assms(17) by (simp add: readable_def typeflag_defs)
  note rb = read_back_facts [OF m(1), of None "long_name t0 ?p" ?ctx]
  have n0: "name_ok (t0\<lparr>th_buf := zero_header\<rparr>) ?p" using assms(6) by (simp add: name_ok_def opt_def)
  have o2: "opt t2 = opt t0"
    using same_rest_opt [OF regular_header(3) [OF clean_zero n0 assms(5) t2]] by (simp add: opt_def fun_eq_iff)
  obtain path r2 where pn: "th_get_pathname True junk ?r = (Some path, r2)" "cstr path = Some ?p"
    using name_read [OF clean_zero n0 assms(5) t2, of ?r junk] rb h(8,9) by (auto simp: long_name_def o2)
  have reg: "TH_ISREG (th_buf ?r)" using rb(5) h(6) by (simp add: TH_ISREG_def)
  have "st_size s = of_nat (length c)" by (simp flip: assms(9))
  then have sz: "th_get_size (th_buf ?r) = of_nat (length c)" using size_field [of "th_buf ?r" "st_size s"] rb(1,4) h(7) by simp
  have caps: "has_cap_data (th_buf ?r) \<and> cap_data (th_buf ?r) = k" if "file_caps ho t0 realname = Some k \<and> k ! 0 \<noteq> 0" for k
  proof -
    have "opt t0 TAR_STORE_POSIX_CAP" using that by (simp add: file_caps_def split: if_splits)
    then show ?thesis using that h(3,11,12) by (simp add: read_back_def stores_caps_def Let_def)
  qed
  have ctx: "selinux_context (th_buf ?r) = map_option (\<lambda>c. c @ [0]) ?ctx" by (simp add: read_back_def Let_def text_mem_def)
  have F: "\<exists>r1 a path r2 r3 a'. th_read (\<lambda>n. True) posix_read r (archive_file rfd (?b @ rest)) = Some (ReadOk, r1, a)
         \<and> th_get_pathname True junk r1 = (Some path, r2) \<and> cstr path = Some ?p
         \<and> selinux_context (th_buf r1) = map_option (\<lambda>c. c @ [0]) ?ctx
         \<and> (\<forall>k. file_caps ho t0 realname = Some k \<and> k ! 0 \<noteq> 0 \<longrightarrow> has_cap_data (th_buf r1) \<and> cap_data (th_buf r1) = k)
         \<and> tar_extract_regfile posix_read (on_files fs) me progress (Some target) r1 a = Some (Done, r3, a')
         \<and> f_out a' fdout = Some c \<and> unread rfd a' = rest" for rest
  proof -
    have i: "unread rfd (archive_file rfd (?b @ rest)) = member_blocks ?u None (long_name t0 ?p) ?ctx @ pad512 c @ rest"
      "unread_free rfd (archive_file rfd (?b @ rest)) = member_blocks ?u None (long_name t0 ?p) ?ctx @ pad512 c @ rest"
      by (simp_all add: unread_free_def archive_file_def unread_def)
    obtain a where a: "th_read (\<lambda>n. True) posix_read r (archive_file rfd (?b @ rest)) = Some (ReadOk, ?r, a)" "unread rfd a = pad512 c @ rest"
      using posix_in.th_read_blocks [OF assms(16) m rd _ i(1), of "\<lambda>n. True"] by auto
    have "unread_free rfd a = pad512 c @ rest"
      using posix_free.th_read_blocks [OF assms(16) m rd _ i(2), of "\<lambda>n. True"] a(1) by auto
    then have "f_room a = None \<or> c = []" using unread_free_room pad512_nil by blast
    then obtain r3 a' where e: "tar_extract_regfile posix_read (on_files fs) me progress (Some target) ?r a = Some (Done, r3, a')"
      "f_out a' fdout = Some c" "unread rfd a' = rest"
      using file_extracted [where me = me, OF _ reg sz assms(10,18-20) _ a(2)] assms(16) by auto
    show ?thesis
      by (intro exI conjI) (rule a(1), rule pn(1), rule pn(2), rule ctx, use caps in blast, rule e(1), rule e(2), rule e(3))
  qed
  have o: "written fd w' @ buffered g' = written fd w @ buffered g @ ?b" using z(3) z'(1) by (simp add: tar_out_def)
  show ?thesis
    by (rule exI [of _ "th_finish ?u"], rule exI [of _ lk'], rule exI [of _ g'], rule exI [of _ w'], rule exI [of _ ?b], intro conjI allI)
       (rule z(1) [unfolded z'(1)], rule z'(2), rule z'(3), rule o, rule z(4), rule z(5), rule F)
qed

text \<open>A host with one file, and a system to extract it on.\<close>

definition one_file_host :: "u32 \<Rightarrow> u64 \<Rightarrow> host" where
  "one_file_host mode n = \<lparr>ho_lstat = \<lambda>p. Some \<lparr>st_dev = 8, st_ino = 77, st_mode = mode, st_rdev = 0, st_uid = 0, st_gid = 0, st_mtime = 0, st_size = n\<rparr>,
     ho_filecon = \<lambda>p. Some (str ''u:object_r:data_file:s0''), ho_caps = \<lambda>p. None, ho_xattr = \<lambda>p n. False, ho_readlink = \<lambda>p. Some (str ''target''),
     ho_getpwuid = \<lambda>u. None, ho_getgrgid = \<lambda>g. None\<rparr>"

definition open_system :: "files fsys" where
  "open_system = \<lparr>fs_lstat = \<lambda>p w. Some ENOENT, fs_mkdir = \<lambda>p m w. (Some EEXIST, w), fs_chmod = \<lambda>p m w. (None, w), fs_unlink = \<lambda>p w. (None, w),
     fs_link = \<lambda>p q w. (None, w), fs_symlink = \<lambda>p q w. (None, w), fs_mknod = \<lambda>p m a b w. (None, w), fs_mkfifo = \<lambda>p m w. (None, w),
     fs_lchown = \<lambda>p u g w. (None, w), fs_utime = \<lambda>p m w. (None, w), fs_root = \<lambda>w. False, fs_open = \<lambda>p w. (9, w\<lparr>f_out := (f_out w)(9 \<mapsto> [])\<rparr>),
     fs_close = \<lambda>n w. (None, w), fs_write = posix_write, fs_setfilecon = \<lambda>p c w. (None, w), fs_setxattr = \<lambda>p n v w. (None, w),
     fs_getxattr = \<lambda>p n w. None, fs_stat_ino = \<lambda>p w. None, fs_getpwnam = \<lambda>n. None, fs_getgrnam = \<lambda>n. None\<rparr>"

lemma small_room: "link_room small_allocator 2 (Suc 0) no_links"
  unfolding link_room_def allocates_def by (intro conjI allI impI) (simp_all add: small_allocator_def no_links_def two_free_fresh)

lemma target_path: "file_path (str ''/data/info'')"
  unfolding file_path_def
  by (rule exI [of _ "str ''/data''"], rule exI [of _ 0], rule exI [of _ "str ''info''"]) (simp add: str_def MAXPATHLEN_def)

theorem file_round_trip_witness:
  "\<exists>t lk' g' w' bytes. append_to_disk (one_file_host 0x81A4 3) small_allocator [str ''/data/info'' \<mapsto> [1, 2, 3]] 5 True [] (replicate 512 0)
      (blank_tar TAR_GNU) no_links (str ''/data/info'') None (Some (fresh_writer, empty_file 3 None)) = Some (None, t, lk', Some (g', w'))
    \<and> written 3 w' @ buffered g' = bytes
    \<and> (\<exists>r1 a r3 a'. th_read (\<lambda>n. True) posix_read (blank_tar 0) (archive_file 3 bytes) = Some (ReadOk, r1, a)
         \<and> tar_extract_regfile posix_read (on_files open_system) \<lparr>m_path = True, m_junk = []\<rparr> 0 (Some (str ''/data/info'')) r1 a = Some (Done, r3, a')
         \<and> f_out a' 9 = Some [1, 2, 3])"
proof -
  let ?ho = "one_file_host 0x81A4 3" and ?p = "str ''/data/info''"
  obtain s where s: "ho_lstat ?ho ?p = Some s" "st_mode s AND S_IFMT = S_IFREG" "unat (st_size s) = length [1, 2, 3 :: byte]"
    by (simp add: one_file_host_def S_IFMT_def S_IFREG_def)
  have b: "writable 3 (empty_file 3 None)" "tar_fd (blank_tar TAR_GNU) = 3" "tar_fd (blank_tar 0) = 3"
    "name_ok (blank_tar TAR_GNU) (named ?p None)" "attributes_ok ?ho (blank_tar TAR_GNU) ?p"
    "opt (blank_tar 0) TAR_CHECK_VERSION \<longrightarrow> \<not> opt (blank_tar TAR_GNU) TAR_GNU" "takes_file open_system ?p 9"
    by (simp_all add: writable_def empty_file_def blank_tar_def name_ok_def named_def opt_def str_def attributes_ok_def file_context_def
        file_caps_def TAR_GNU_def TAR_STORE_SELINUX_def TAR_STORE_POSIX_CAP_def takes_file_def open_system_def)
  have e: "written 3 (empty_file 3 None) = []" by (simp add: written_def empty_file_def)
  show ?thesis
    using file_round_trip [where names = "[?p \<mapsto> [1, 2, 3]]" and c = "[1, 2, 3]" and src = 5 and junk = "replicate 512 0"
        and mem = True and pjunk = "[]" and me = "\<lparr>m_path = True, m_junk = []\<rparr>" and progress = 0,
        OF fresh_writer_inv(1) b(1,2) s(1,2) b(4,5) _ s(3) _ _ _ no_links_rep small_room _ b(3,6,7) target_path]
    by (simp add: e fresh_writer_inv(2)) (metis append_Nil2)
qed

end
