(* ===== verification/Archive_Links.thy ===== *)
theory Archive_Links
  imports Archive_Files
begin

section \<open>Hard links in an archive\<close>

text \<open>
  Files that \<^verbatim>\<open>tar_append_file\<close> has met before, under their device and inode: what it writes for them,
  and what a reader finds.
\<close>

subsection \<open>Link names\<close>

definition link_ok :: "TAR \<Rightarrow> byte list \<Rightarrow> bool" where
  "link_ok t l \<longleftrightarrow> 0 \<notin> set l \<and> length l < 2 ^ 39 \<and> (length l < 100 \<or> opt t TAR_GNU \<and> length l mod 512 \<noteq> 0)"

lemma linkname_read:
  assumes wf: "th_wf (th_buf t)" and l: "link_ok t l" and u: "th_wf h"
    and b: "th_linkname h = th_linkname (th_buf (th_set_link t l))" "gnu_longlink h = map_option pad512 (long_name t l)"
  shows "cstr (th_get_linkname h) = Some l"
proof (cases "length l < 100")
  case True
  then have "th_linkname h = l @ 0 # drop (Suc (length l)) (th_linkname (th_buf t))"
    using b(1) by (simp add: th_set_link_def Let_def T_NAMELEN_def snprintf_s_def overwrite_def)
  then have "field_mem 157 h = l @ 0 # (drop (Suc (length l)) (th_linkname (th_buf t)) @ field_mem 257 h)"
    using field_mems(7) [OF u] by simp
  then show ?thesis using True b(2) l by (simp add: th_get_linkname_def long_name_def link_ok_def cstr_append)
next
  case False
  then have "gnu_longlink h = Some (pad512 l)" "cstr (pad512 l) = Some l"
    using b(2) l cstr_pad512 [of l] by (auto simp: long_name_def link_ok_def)
  then show ?thesis by (simp add: th_get_linkname_def)
qed

subsection \<open>The header of a hard link\<close>

text \<open>A header that is ready but for its link.\<close>

definition nearly_ready :: "TAR \<Rightarrow> byte list \<Rightarrow> byte list option \<Rightarrow> bool" where
  "nearly_ready t p context \<longleftrightarrow> th_wf (th_buf t) \<and> sized t \<and> ext_ok t context \<and> name_ok t p
     \<and> (opt t TAR_GNU \<longrightarrow> gnu_longname (th_buf t) = text_mem (long_name t p)) \<and> th_name (th_buf t) ! 0 \<noteq> 0
     \<and> (if opt t TAR_STORE_SELINUX then selinux_context (th_buf t) = text_mem context else context = None)"

definition as_link :: "TAR \<Rightarrow> byte list \<Rightarrow> TAR" where
  "as_link t l = th_set_link (t\<lparr>th_buf := (th_buf t)\<lparr>th_typeflag := LNKTYPE\<rparr>\<rparr>) l"

lemma as_link_again:
  assumes "th_typeflag (th_buf t) = LNKTYPE"
  shows "as_link t l = th_set_link t l"
proof -
  have "(th_buf t)\<lparr>th_typeflag := LNKTYPE\<rparr> = th_buf t" unfolding assms [symmetric] by simp
  then show ?thesis by (simp add: as_link_def)
qed

lemma opt_buf [simp]: "opt (t\<lparr>th_buf := h\<rparr>) = opt t"
  by (simp add: opt_def fun_eq_iff)

lemma as_link_facts:
  assumes n: "nearly_ready t p context" and l: "link_ok t l"
  shows "member_ok (as_link t l) (long_name t l) (long_name t p) context" "nearly_ready (as_link t l) p context"
    "th_typeflag (th_buf (as_link t l)) = LNKTYPE" "opt (as_link t l) = opt t" "tar_fd (as_link t l) = tar_fd t"
    "th_name (th_buf (as_link t l)) = th_name (th_buf t)" "th_prefix (th_buf (as_link t l)) = th_prefix (th_buf t)"
    "th_mode (th_buf (as_link t l)) = th_mode (th_buf t)"
proof -
  let ?t = "t\<lparr>th_buf := (th_buf t)\<lparr>th_typeflag := LNKTYPE\<rparr>\<rparr>" and ?u = "as_link t l"
  have wf: "th_wf (th_buf ?t)" using n by (simp add: nearly_ready_def th_wf_def)
  note f = set_link_facts [OF wf, of l, folded as_link_def]
  show tf: "th_typeflag (th_buf ?u) = LNKTYPE" "opt ?u = opt t" "tar_fd ?u = tar_fd t" "th_name (th_buf ?u) = th_name (th_buf t)"
    "th_mode (th_buf ?u) = th_mode (th_buf t)"
    using f same_rest_opt [OF f(2)] by (simp_all add: same_rest_def)
  show "th_prefix (th_buf ?u) = th_prefix (th_buf t)" by (simp add: as_link_def th_set_link_def Let_def)
  have ln: "long_name ?u x = long_name t x" "name_ok ?u x = name_ok t x" for x by (simp_all add: long_name_def name_ok_def tf(2))
  have x: "ext_ok ?u context" using n f(2) by (simp add: nearly_ready_def ext_ok_def stores_caps_def tf(2) same_rest_def)
  have sz: "sized ?u" using n f(3) by (simp add: nearly_ready_def sized_def)
  have g: "opt t TAR_GNU \<Longrightarrow> gnu_longname (th_buf ?u) = text_mem (long_name t p)" "gnu_longlink (th_buf ?u) = text_mem (long_name t l)"
    "selinux_context (th_buf ?u) = selinux_context (th_buf t)"
    using n f(2,6,7) by (simp_all add: nearly_ready_def long_name_def text_mem_def same_rest_def)
  show nr: "nearly_ready ?u p context"
    using n f(1) sz x g tf ln by (simp add: nearly_ready_def)
  have ok: "long_ok (long_name t l)" "long_ok (long_name t p)"
    using n l by (auto simp: long_ok_def long_name_def nearly_ready_def name_ok_def link_ok_def)
  have "\<not> opt t TAR_GNU \<Longrightarrow> long_name t x = None" for x by (simp add: long_name_def)
  then show "member_ok ?u (long_name t l) (long_name t p) context"
    using nr ok g(1,2) tf(2) ln by (auto simp: member_ok_def nearly_ready_def split: if_splits)
qed

text \<open>A link member is written and found again.\<close>

lemma link_read:
  assumes n: "nearly_ready t p context" and l: "link_ok t l" and v: "opt s TAR_CHECK_VERSION \<longrightarrow> \<not> opt t TAR_GNU"
    and u: "th_buf u = th_buf (as_link t l)" "opt u = opt t"
  defines "h \<equiv> read_back u (long_name t l) (long_name t p) context"
  shows "member_ok u (long_name t l) (long_name t p) context" "readable s u" "TH_ISLNK h" "\<not> TH_ISREG (th_buf (th_finish u))"
    "cstr (th_get_linkname h) = Some l"
proof -
  note f = as_link_facts [OF n l]
  show m: "member_ok u (long_name t l) (long_name t p) context"
    using f(1) u f(4) by (simp add: member_ok_def ext_ok_def stores_caps_def sized_def)
  then have wf: "th_wf (th_buf u)" by (simp add: member_ok_def)
  show "readable s u" using n v u f(3,6) by (simp add: readable_def nearly_ready_def typeflag_defs)
  note rb = read_back_facts [OF wf, of "long_name t l" "long_name t p" "context", folded h_def]
  show "TH_ISLNK h" using rb(5) u f(3) by (simp add: TH_ISLNK_def)
  show "\<not> TH_ISREG (th_buf (th_finish u))" using finish_fields(2) [OF wf] u f(3) by (simp add: TH_ISREG_def typeflag_defs)
  have w: "th_wf (th_buf (t\<lparr>th_buf := (th_buf t)\<lparr>th_typeflag := LNKTYPE\<rparr>\<rparr>))" using n by (simp add: nearly_ready_def th_wf_def)
  have "link_ok (t\<lparr>th_buf := (th_buf t)\<lparr>th_typeflag := LNKTYPE\<rparr>\<rparr>) l" using l by (simp add: link_ok_def)
  moreover have "long_name (t\<lparr>th_buf := (th_buf t)\<lparr>th_typeflag := LNKTYPE\<rparr>\<rparr>) l = long_name t l" by (simp add: long_name_def)
  ultimately show "cstr (th_get_linkname h) = Some l"
    using linkname_read [OF w, of l h] rb(1,7,8) u(1) by (simp add: as_link_def)
qed

lemma regular_ready:
  assumes n: "name_ok t0 p" and m: "st_mode s AND S_IFMT = S_IFREG" and a: "attributes_ok ho t0 realname"
    and t: "th_set_path (th_set_from_stat pw gr (t0\<lparr>th_buf := zero_header\<rparr>) s) p = Some t2"
  defines "t3 \<equiv> attributes ho realname t2"
  shows "nearly_ready t3 p (file_context ho t0 realname)" "opt t3 = opt t0" "tar_fd t3 = tar_fd t0" "th_name (th_buf t3) = th_name (th_buf t2)"
    "th_prefix (th_buf t3) = th_prefix (th_buf t2)" "th_mode (th_buf t3) = int_to_oct (ucast (stored_mode (st_mode s))) 8"
proof -
  note h = file_header [OF n m a t, of False "[]", unfolded t3_def [symmetric]]
  have n0: "name_ok (t0\<lparr>th_buf := zero_header\<rparr>) p" using n by (simp add: name_ok_def)
  note r = regular_header [OF clean_zero n0 m t]
  show o: "opt t3 = opt t0" "tar_fd t3 = tar_fd t0" "th_name (th_buf t3) = th_name (th_buf t2)" "th_prefix (th_buf t3) = th_prefix (th_buf t2)"
    using h(2,3,8,9) by (simp_all add: shown_keeps) (simp add: shown_def th_get_pathname_def Let_def split: option.splits if_splits)?
  have "long_name t3 p = long_name t0 p" "name_ok t3 p" using n by (simp_all add: long_name_def name_ok_def o(1))
  then show "nearly_ready t3 p (file_context ho t0 realname)"
    using h(1,10) by (auto simp: nearly_ready_def member_ok_def shown_keeps ext_ok_def stores_caps_def sized_def split: if_splits)
  have "selinux_context (th_buf t2) = None" "\<not> has_cap_data (th_buf t2)" "length (cap_data (th_buf t2)) = 20"
    using r(3) by (simp_all add: same_rest_def zero_header_def)
  moreover have "file_caps ho t2 realname = file_caps ho t0 realname"
    using same_rest_opt [OF r(3)] by (simp add: file_caps_def)
  ultimately have "th_mode (th_buf t3) = th_mode (th_buf t2)"
    using regular_attributes [OF r(4,7), of ho realname] a by (auto simp: attributes_ok_def t3_def)
  then show "th_mode (th_buf t3) = int_to_oct (ucast (stored_mode (st_mode s))) 8" using r(12) by simp
qed

text \<open>Writing a header without contents, and reading it.\<close>

lemma link_appended:
  assumes good: "tar_good fd (writable fd) z" and fd: "tar_fd t0 = fd" and l: "ho_lstat ho realname = Some s"
    and t2: "th_set_path (th_set_from_stat (ho_getpwuid ho) (ho_getgrgid ho) (t0\<lparr>th_buf := zero_header\<rparr>) s) (named realname savename) = Some t2"
    and c: "check_hardlink al (st_dev s) (st_ino s) (named realname savename) lk = Some (Link first, lk')"
    and y: "set_symlink ho realname (as_link (attributes ho realname t2) first) = Some (as_link t3 link)"
    and n: "nearly_ready t3 p context" and k: "link_ok t3 link" "tar_fd t3 = fd"
    and r: "tar_fd s' = rfd" "opt s' TAR_CHECK_VERSION \<longrightarrow> \<not> opt t3 TAR_GNU"
  obtains t z' bytes h where "append_to_disk ho al names src mem pjunk junk t0 lk realname savename z = Some (None, t, lk', z')"
    "tar_good fd (writable fd) z'" "tar_out (written fd) z' = tar_out (written fd) z @ bytes"
    "\<And>rest. \<exists>a. th_read (\<lambda>n. True) posix_read s' (archive_file rfd (bytes @ rest)) = Some (ReadOk, s'\<lparr>th_buf := h\<rparr>, a) \<and> unread rfd a = rest"
    "TH_ISLNK h" "cstr (th_get_linkname h) = Some link" "th_name h = th_name (th_buf t3)" "th_prefix h = th_prefix (th_buf t3)"
    "gnu_longname h = map_option pad512 (long_name t3 p)"
proof -
  let ?u = "shown mem pjunk (as_link t3 link)"
  note f = as_link_facts [OF n k(1)]
  have u: "th_buf ?u = th_buf (as_link t3 link)" "opt ?u = opt t3" "tar_fd ?u = fd" using f(4,5) k(2) by (simp_all add: shown_keeps)
  note g = link_read [OF n k(1) r(2) u(1,2)]
  let ?b = "member_blocks ?u (long_name t3 link) (long_name t3 p) context" and ?h = "read_back ?u (long_name t3 link) (long_name t3 p) context"
  obtain z' where z': "th_write (write_tar posix_write) ?u z = Some (None, th_finish ?u, z')" "tar_good fd (writable fd) z'"
    "tar_out (written fd) z' = tar_out (written fd) z @ ?b"
    using posix_out.tar.th_write_blocks [OF u(3) good g(1)] by blast
  have m: "th_wf (th_buf ?u)" "ext_ok ?u context" "long_ok (long_name t3 link)" "long_ok (long_name t3 p)"
    using g(1) by (simp_all add: member_ok_def)
  have a: "append_to_disk ho al names src mem pjunk junk t0 lk realname savename z = Some (None, th_finish ?u, lk', z')"
    using append_file_steps [OF l t2 c _ y z'(1)] g(4) by (simp add: set_hardlink_def as_link_def)
  have rd: "\<exists>a. th_read (\<lambda>n. True) posix_read s' (archive_file rfd (?b @ rest)) = Some (ReadOk, s'\<lparr>th_buf := ?h\<rparr>, a) \<and> unread rfd a = rest" for rest
    using posix_in.th_read_blocks [OF r(1) m g(2), of "\<lambda>n. True" "archive_file rfd (?b @ rest)" rest] by simp
  note rb = read_back_facts [OF m(1), of "long_name t3 link" "long_name t3 p" "context"]
  show thesis
    by (rule that [OF a z'(2,3) rd g(3,5)]) (use rb u(1) f(6,7) in simp_all)
qed

text \<open>The header of a symbolic link. Its mode says that it is one, whatever the type flag becomes.\<close>

lemma symlink_ready:
  assumes n: "name_ok t0 p" and m: "st_mode s AND S_IFMT = S_IFLNK"
    and x: "\<forall>c. file_context ho t0 realname = Some c \<longrightarrow> plain_context c"
    and t: "th_set_path (th_set_from_stat pw gr (t0\<lparr>th_buf := zero_header\<rparr>) s) p = Some t2"
  defines "t3 \<equiv> attributes ho realname t2"
  shows "nearly_ready t3 p (file_context ho t0 realname)" "opt t3 = opt t0" "tar_fd t3 = tar_fd t0"
    "th_mode (th_buf t3) = int_to_oct (ucast (stored_mode (st_mode s))) 8"
proof -
  let ?t0 = "t0\<lparr>th_buf := zero_header\<rparr>" and ?t1 = "th_set_from_stat pw gr (t0\<lparr>th_buf := zero_header\<rparr>) s"
  have w0: "th_wf (th_buf ?t0)" using zero_header_wf by simp
  note f = from_stat_facts [OF w0, of pw gr s]
  note g = set_path_facts [OF f(1) t]
  have sr: "same_rest ?t0 t2" by (rule same_rest_trans [OF f(2) g(2)])
  have o2: "opt t2 = opt t0" "opt ?t1 = opt t0" using same_rest_opt [OF sr] same_rest_opt [OF f(2)] by simp_all
  have tf: "th_typeflag (th_buf t2) = SYMTYPE" using g(5) f(5) type_of_modes(3) [OF m] by simp
  have md: "th_mode (th_buf t2) = int_to_oct (ucast (stored_mode (st_mode s))) 8" using g(4) f(4) by simp
  have sm: "stored_mode (st_mode s) = st_mode s" using m by (simp add: stored_mode_def S_ISSOCK_def S_IF_defs)
  have mf: "th_mode_field (th_buf t2) AND S_IFMT = S_IFLNK" using mode_field_value [OF g(1)] md m sm by simp
  have no: "\<not> TH_ISREG (th_buf t2)" "\<not> TH_ISDIR (th_buf t2)"
    using tf mf by (simp_all add: TH_ISREG_def TH_ISDIR_def S_IS_defs S_IF_defs typeflag_defs)
  have mfs: "th_mode_field (h\<lparr>selinux_context := c\<rparr>) = th_mode_field h" for h c
    by (simp add: th_mode_field_def field_mem_def block_of_def)
  have ty: "TH_ISREG (h\<lparr>selinux_context := c\<rparr>) = TH_ISREG h" "TH_ISDIR (h\<lparr>selinux_context := c\<rparr>) = TH_ISDIR h" for h c
    by (simp_all add: TH_ISREG_def TH_ISDIR_def mfs)
  have sel: "selinux_context (th_buf t2) = None" "\<not> has_cap_data (th_buf t2)" "length (cap_data (th_buf t2)) = 20" "tar_fd t2 = tar_fd t0"
    using sr by (simp_all add: same_rest_def zero_header_def)
  have t3: "t3 = t2\<lparr>th_buf := (th_buf t2)\<lparr>selinux_context := text_mem (file_context ho t0 realname)\<rparr>\<rparr>"
  proof -
    have "set_selinux ho realname t2 = t2\<lparr>th_buf := (th_buf t2)\<lparr>selinux_context := text_mem (file_context ho t0 realname)\<rparr>\<rparr>"
      using sel(1) by (simp add: set_selinux_def file_context_def text_mem_def o2)
    then show ?thesis using no by (simp add: t3_def attributes_def set_caps_def set_user_xattrs_def ty)
  qed
  show "opt t3 = opt t0" "tar_fd t3 = tar_fd t0" "th_mode (th_buf t3) = int_to_oct (ucast (stored_mode (st_mode s))) 8"
    by (simp_all add: t3 o2 sel md)
  have "th_name (th_buf t2) ! 0 \<noteq> 0" by (rule set_path_name [OF f(1) t]) (use n o2 in \<open>auto simp: name_ok_def\<close>)
  moreover have "opt t0 TAR_GNU \<Longrightarrow> gnu_longname (th_buf t2) = text_mem (long_name t0 p)"
    using g(7) o2 by (simp add: long_name_def text_mem_def)
  moreover have "sized t2" using g(3) f(3) by (auto simp: sized_def)
  moreover have "file_context ho t0 realname = None" if "\<not> opt t0 TAR_STORE_SELINUX" using that by (simp add: file_context_def)
  ultimately show "nearly_ready t3 p (file_context ho t0 realname)"
    using g(1) n x sel by (simp add: nearly_ready_def t3 th_wf_def sized_def ext_ok_def stores_caps_def name_ok_def long_name_def o2)
qed

lemma linked_symlink:
  assumes "nearly_ready t p context" "link_ok t l" "th_mode (th_buf t) = int_to_oct (ucast (stored_mode m)) 8" "m AND S_IFMT = S_IFLNK"
  shows "TH_ISSYM (th_buf (as_link t l))"
proof -
  note f = as_link_facts [OF assms(1,2)]
  have "stored_mode m = m" using assms(4) by (simp add: stored_mode_def S_ISSOCK_def S_IF_defs)
  moreover have "th_wf (th_buf (as_link t l))" using f(2) by (simp add: nearly_ready_def)
  ultimately have "th_mode_field (th_buf (as_link t l)) AND S_IFMT = S_IFLNK"
    using mode_field_value f(8) assms(3,4) by metis
  then show ?thesis by (simp add: TH_ISSYM_def S_ISLNK_def)
qed

subsection \<open>Properties\<close>

lemma small_room2: "link_room small_allocator 2 (Suc 1) no_links"
  unfolding link_room_def allocates_def by (intro conjI allI impI) (simp_all add: small_allocator_def no_links_def two_free_fresh)

text \<open>(C14) A regular file met before is archived as a hard link and without contents: from the bytes
  \<^verbatim>\<open>tar_append_file\<close> writes, \<^verbatim>\<open>th_read\<close> gives a header of type \<^verbatim>\<open>LNKTYPE\<close> with the name of the file,
  whose link name is the name under which its inode was saved first, and stands at the next member.\<close>

theorem hardlink_round_trip:
  assumes "writer_inv fd g" and "writable fd w" and "tar_fd t0 = fd" and "ho_lstat ho realname = Some s"
    and "st_mode s AND S_IFMT = S_IFREG" and "name_ok t0 (named realname savename)" and "attributes_ok ho t0 realname"
    and "links_rep lk lm" and "link_room al N (Suc k) lk" and "lm (st_dev s, st_ino s) = Some first" and "link_ok t0 first"
    and "tar_fd r = rfd" and "opt r TAR_CHECK_VERSION \<longrightarrow> \<not> opt t0 TAR_GNU"
  shows "\<exists>t lk' g' w' bytes. append_to_disk ho al names src mem pjunk junk t0 lk realname savename (Some (g, w)) = Some (None, t, lk', Some (g', w'))
    \<and> writer_inv fd g' \<and> writable fd w' \<and> written fd w' @ buffered g' = written fd w @ buffered g @ bytes \<and> links_rep lk' lm
    \<and> (\<forall>rest. \<exists>r1 a path r2. th_read (\<lambda>n. True) posix_read r (archive_file rfd (bytes @ rest)) = Some (ReadOk, r1, a) \<and> unread rfd a = rest
         \<and> th_get_pathname True junk r1 = (Some path, r2) \<and> cstr path = Some (named realname savename)
         \<and> TH_ISLNK (th_buf r1) \<and> cstr (th_get_linkname (th_buf r1)) = Some first)"
proof -
  let ?p = "named realname savename"
  have good: "tar_good fd (writable fd) (Some (g, w))" using assms(1,2) by (simp add: tar_good_def)
  obtain t2 where t2: "th_set_path (th_set_from_stat (ho_getpwuid ho) (ho_getgrgid ho) (t0\<lparr>th_buf := zero_header\<rparr>) s) ?p = Some t2"
    using assms(6) by (auto simp: th_set_path_def Let_def name_ok_def)
  let ?t3 = "attributes ho realname t2"
  obtain lk' where lk': "check_hardlink al (st_dev s) (st_ino s) ?p lk = Some (Link first, lk')" "links_rep lk' lm"
    using check_hardlink_value [OF assms(8,9), of "st_dev s" "st_ino s" ?p] assms(10) by auto
  note h = regular_ready [OF assms(6,5,7) t2]
  have l: "link_ok ?t3 first" "tar_fd ?t3 = fd" "opt r TAR_CHECK_VERSION \<longrightarrow> \<not> opt ?t3 TAR_GNU"
    using assms(3,11,13) h(2,3) by (simp_all add: link_ok_def)
  note f = as_link_facts [OF h(1) l(1)]
  have "th_wf (th_buf (as_link ?t3 first))" using f(2) by (simp add: nearly_ready_def)
  then have "\<not> TH_ISSYM (th_buf (as_link ?t3 first))"
    by (rule hardlinked_file(2) [OF _ _ assms(5) f(3)]) (use f(8) h(6) in simp)
  then have y: "set_symlink ho realname (as_link ?t3 first) = Some (as_link ?t3 first)" by (simp add: set_symlink_def)
  obtain t z' bytes hd where z: "append_to_disk ho al names src mem pjunk junk t0 lk realname savename (Some (g, w)) = Some (None, t, lk', z')"
    "tar_good fd (writable fd) z'" "tar_out (written fd) z' = tar_out (written fd) (Some (g, w)) @ bytes"
    "\<And>rest. \<exists>a. th_read (\<lambda>n. True) posix_read r (archive_file rfd (bytes @ rest)) = Some (ReadOk, r\<lparr>th_buf := hd\<rparr>, a) \<and> unread rfd a = rest"
    "TH_ISLNK hd" "cstr (th_get_linkname hd) = Some first" "th_name hd = th_name (th_buf ?t3)" "th_prefix hd = th_prefix (th_buf ?t3)"
    "gnu_longname hd = map_option pad512 (long_name ?t3 ?p)"
    using link_appended [where names = names and src = src and mem = mem and pjunk = pjunk and junk = junk,
      OF good assms(3,4) t2 lk'(1) y h(1) l(1,2) assms(12) l(3)] by blast
  obtain g' w' where z': "z' = Some (g', w')" "writer_inv fd g'" "writable fd w'"
    using z(2) by (auto simp: tar_good_def split: option.splits prod.splits)
  have n0: "name_ok (t0\<lparr>th_buf := zero_header\<rparr>) ?p" using assms(6) by (simp add: name_ok_def)
  have o2: "opt t2 = opt t0" using same_rest_opt [OF regular_header(3) [OF clean_zero n0 assms(5) t2]] by simp
  obtain path r2 where pn: "th_get_pathname True junk (r\<lparr>th_buf := hd\<rparr>) = (Some path, r2)" "cstr path = Some ?p"
    using name_read [OF clean_zero n0 assms(5) t2, of "r\<lparr>th_buf := hd\<rparr>" junk] z(7-9) h(2,4,5) by (auto simp: long_name_def o2)
  have F: "\<exists>r1 a path r2. th_read (\<lambda>n. True) posix_read r (archive_file rfd (bytes @ rest)) = Some (ReadOk, r1, a) \<and> unread rfd a = rest
         \<and> th_get_pathname True junk r1 = (Some path, r2) \<and> cstr path = Some ?p
         \<and> TH_ISLNK (th_buf r1) \<and> cstr (th_get_linkname (th_buf r1)) = Some first" for rest
    using z(4) [of rest] pn z(5,6) by (metis TAR.select_convs(5) TAR.surjective TAR.update_convs(5))
  have o: "written fd w' @ buffered g' = written fd w @ buffered g @ bytes" using z(3) z'(1) by (simp add: tar_out_def)
  show ?thesis
    by (rule exI [of _ t], rule exI [of _ lk'], rule exI [of _ g'], rule exI [of _ w'], rule exI [of _ bytes], intro conjI allI)
       (rule z(1) [unfolded z'(1)], rule z'(2), rule z'(3), rule o, rule lk'(2), rule F)
qed

theorem hardlink_round_trip_witness:
  "\<exists>lk t lk' g' w' bytes. links_rep lk [(8, 77) \<mapsto> str ''/data/first'']
    \<and> append_to_disk (one_file_host 0x81A4 3) small_allocator Map.empty 5 True [] [] (blank_tar TAR_GNU) lk (str ''/data/info'') None
        (Some (fresh_writer, empty_file 3 None)) = Some (None, t, lk', Some (g', w'))
    \<and> (\<exists>r1 a. th_read (\<lambda>n. True) posix_read (blank_tar 0) (archive_file 3 bytes) = Some (ReadOk, r1, a)
         \<and> cstr (th_get_linkname (th_buf r1)) = Some (str ''/data/first''))"
proof -
  let ?ho = "one_file_host 0x81A4 3" and ?p = "str ''/data/info''" and ?f = "str ''/data/first''"
  obtain s where s: "ho_lstat ?ho ?p = Some s" "st_mode s AND S_IFMT = S_IFREG" "(st_dev s, st_ino s) = (8, 77)"
    by (simp add: one_file_host_def S_IFMT_def S_IFREG_def)
  have "take (MAXPATHLEN - 1) ?f = ?f" by (simp add: MAXPATHLEN_def)
  then obtain lk where lk: "links_rep lk [(8, 77) \<mapsto> ?f]" "link_room small_allocator 2 (Suc 0) lk"
    using check_hardlink_value [OF no_links_rep, of small_allocator 2 1 8 77 ?f] small_room2 by auto
  have b: "writable 3 (empty_file 3 None)" "tar_fd (blank_tar TAR_GNU) = 3" "tar_fd (blank_tar 0) = 3"
    "name_ok (blank_tar TAR_GNU) (named ?p None)" "attributes_ok ?ho (blank_tar TAR_GNU) ?p" "link_ok (blank_tar TAR_GNU) ?f"
    "opt (blank_tar 0) TAR_CHECK_VERSION \<longrightarrow> \<not> opt (blank_tar TAR_GNU) TAR_GNU"
    by (simp_all add: writable_def empty_file_def blank_tar_def name_ok_def named_def opt_def str_def attributes_ok_def file_context_def
        file_caps_def TAR_GNU_def TAR_STORE_SELINUX_def TAR_STORE_POSIX_CAP_def link_ok_def)
  have "[(8, 77) \<mapsto> ?f] (st_dev s, st_ino s) = Some ?f" using s(3) by simp
  from hardlink_round_trip [where names = Map.empty and src = 5 and junk = "[]" and mem = True and pjunk = "[]",
        OF fresh_writer_inv(1) b(1,2) s(1,2) b(4,5) lk this b(6,3,7)]
  obtain t lk' g' w' bytes where t: "append_to_disk ?ho small_allocator Map.empty 5 True [] [] (blank_tar TAR_GNU) lk ?p None
        (Some (fresh_writer, empty_file 3 None)) = Some (None, t, lk', Some (g', w'))"
    "\<And>rest. \<exists>r1 a. th_read (\<lambda>n. True) posix_read (blank_tar 0) (archive_file 3 (bytes @ rest)) = Some (ReadOk, r1, a)
       \<and> cstr (th_get_linkname (th_buf r1)) = Some ?f"
    by blast
  have "\<exists>r1 a. th_read (\<lambda>n. True) posix_read (blank_tar 0) (archive_file 3 bytes) = Some (ReadOk, r1, a)
       \<and> cstr (th_get_linkname (th_buf r1)) = Some ?f" using t(2) [of "[]"] by simp
  then show ?thesis using lk(1) t(1) by blast
qed

text \<open>(C33) A symbolic link met before is archived wrongly: it becomes a hard link, as its type flag says, but
  the text of the symbolic link goes over the name of the first file. Whoever extracts it makes a
  hard link to \<open>target\<close> where the backup had a second name of a symbolic link.\<close>

theorem hardlinked_symlink:
  assumes "writer_inv fd g" and "writable fd w" and "tar_fd t0 = fd" and "ho_lstat ho realname = Some s"
    and "st_mode s AND S_IFMT = S_IFLNK" and "name_ok t0 (named realname savename)"
    and "\<forall>c. file_context ho t0 realname = Some c \<longrightarrow> plain_context c"
    and "links_rep lk lm" and "link_room al N (Suc k) lk" and "lm (st_dev s, st_ino s) = Some first" and "link_ok t0 first"
    and "ho_readlink ho realname = Some target" and "length target < MAXPATHLEN" and "link_ok t0 target"
    and "tar_fd r = rfd" and "opt r TAR_CHECK_VERSION \<longrightarrow> \<not> opt t0 TAR_GNU"
  shows "\<exists>t lk' g' w' bytes. append_to_disk ho al names src mem pjunk junk t0 lk realname savename (Some (g, w)) = Some (None, t, lk', Some (g', w'))
    \<and> written fd w' @ buffered g' = written fd w @ buffered g @ bytes
    \<and> (\<forall>rest. \<exists>r1 a. th_read (\<lambda>n. True) posix_read r (archive_file rfd (bytes @ rest)) = Some (ReadOk, r1, a) \<and> unread rfd a = rest
         \<and> TH_ISLNK (th_buf r1) \<and> cstr (th_get_linkname (th_buf r1)) = Some target)"
proof -
  let ?p = "named realname savename"
  have good: "tar_good fd (writable fd) (Some (g, w))" using assms(1,2) by (simp add: tar_good_def)
  obtain t2 where t2: "th_set_path (th_set_from_stat (ho_getpwuid ho) (ho_getgrgid ho) (t0\<lparr>th_buf := zero_header\<rparr>) s) ?p = Some t2"
    using assms(6) by (auto simp: th_set_path_def Let_def name_ok_def)
  let ?t3 = "attributes ho realname t2"
  obtain lk' where lk': "check_hardlink al (st_dev s) (st_ino s) ?p lk = Some (Link first, lk')"
    using check_hardlink_value [OF assms(8,9), of "st_dev s" "st_ino s" ?p] assms(10) by auto
  note h = symlink_ready [OF assms(6,5,7) t2]
  have l: "link_ok ?t3 first" "link_ok (as_link ?t3 first) target" "opt r TAR_CHECK_VERSION \<longrightarrow> \<not> opt (as_link ?t3 first) TAR_GNU"
    "tar_fd (as_link ?t3 first) = fd"
  proof -
    show 1: "link_ok ?t3 first" using assms(11) h(2) by (simp add: link_ok_def)
    note f = as_link_facts [OF h(1) 1]
    show "link_ok (as_link ?t3 first) target" "opt r TAR_CHECK_VERSION \<longrightarrow> \<not> opt (as_link ?t3 first) TAR_GNU"
      "tar_fd (as_link ?t3 first) = fd"
      using assms(3,14,16) h(2,3) f(4,5) by (simp_all add: link_ok_def)
  qed
  note f = as_link_facts [OF h(1) l(1)]
  note e = as_link_again [OF f(3), of target, symmetric]
  have "take (MAXPATHLEN - 1) target = target" using assms(13) by simp
  then have y: "set_symlink ho realname (as_link ?t3 first) = Some (as_link (as_link ?t3 first) target)"
    using linked_symlink [OF h(1) l(1) h(4) assms(5)] assms(12) e by (simp add: set_symlink_def)
  obtain t z' bytes hd where z: "append_to_disk ho al names src mem pjunk junk t0 lk realname savename (Some (g, w)) = Some (None, t, lk', z')"
    "tar_good fd (writable fd) z'" "tar_out (written fd) z' = tar_out (written fd) (Some (g, w)) @ bytes"
    "\<And>rest. \<exists>a. th_read (\<lambda>n. True) posix_read r (archive_file rfd (bytes @ rest)) = Some (ReadOk, r\<lparr>th_buf := hd\<rparr>, a) \<and> unread rfd a = rest"
    "TH_ISLNK hd" "cstr (th_get_linkname hd) = Some target" "th_name hd = th_name (th_buf (as_link ?t3 first))"
    "th_prefix hd = th_prefix (th_buf (as_link ?t3 first))" "gnu_longname hd = map_option pad512 (long_name (as_link ?t3 first) ?p)"
    by (rule link_appended [where names = names and src = src and mem = mem and pjunk = pjunk and junk = junk,
      OF good assms(3,4) t2 lk' y f(2) l(2,4) assms(15) l(3)]) (rule that; assumption)
  obtain g' w' where z': "z' = Some (g', w')" using z(2) by (auto simp: tar_good_def split: option.splits prod.splits)
  have F: "\<exists>r1 a. th_read (\<lambda>n. True) posix_read r (archive_file rfd (bytes @ rest)) = Some (ReadOk, r1, a) \<and> unread rfd a = rest
         \<and> TH_ISLNK (th_buf r1) \<and> cstr (th_get_linkname (th_buf r1)) = Some target" for rest
    using z(4) [of rest] z(5,6) by (metis TAR.select_convs(5) TAR.surjective TAR.update_convs(5))
  have o: "written fd w' @ buffered g' = written fd w @ buffered g @ bytes" using z(3) z' by (simp add: tar_out_def)
  show ?thesis
    by (rule exI [of _ t], rule exI [of _ lk'], rule exI [of _ g'], rule exI [of _ w'], rule exI [of _ bytes], intro conjI allI)
       (rule z(1) [unfolded z'], rule o, rule F)
qed

theorem hardlinked_symlink_witness:
  "\<exists>lk t lk' g' w' bytes. links_rep lk [(8, 77) \<mapsto> str ''/data/first'']
    \<and> append_to_disk (one_file_host 0xA1FF 6) small_allocator Map.empty 5 True [] [] (blank_tar TAR_GNU) lk (str ''/data/second'') None
        (Some (fresh_writer, empty_file 3 None)) = Some (None, t, lk', Some (g', w'))
    \<and> (\<exists>r1 a. th_read (\<lambda>n. True) posix_read (blank_tar 0) (archive_file 3 bytes) = Some (ReadOk, r1, a)
         \<and> TH_ISLNK (th_buf r1) \<and> cstr (th_get_linkname (th_buf r1)) = Some (str ''target''))"
proof -
  let ?ho = "one_file_host 0xA1FF 6" and ?p = "str ''/data/second''" and ?f = "str ''/data/first''" and ?t = "str ''target''"
  obtain s where s: "ho_lstat ?ho ?p = Some s" "st_mode s AND S_IFMT = S_IFLNK" "(st_dev s, st_ino s) = (8, 77)"
    by (simp add: one_file_host_def S_IFMT_def S_IFLNK_def)
  have "take (MAXPATHLEN - 1) ?f = ?f" by (simp add: MAXPATHLEN_def)
  then obtain lk where lk: "links_rep lk [(8, 77) \<mapsto> ?f]" "link_room small_allocator 2 (Suc 0) lk"
    using check_hardlink_value [OF no_links_rep, of small_allocator 2 1 8 77 ?f] small_room2 by auto
  have b: "writable 3 (empty_file 3 None)" "tar_fd (blank_tar TAR_GNU) = 3" "tar_fd (blank_tar 0) = 3"
    "name_ok (blank_tar TAR_GNU) (named ?p None)" "link_ok (blank_tar TAR_GNU) ?f" "link_ok (blank_tar TAR_GNU) ?t"
    "opt (blank_tar 0) TAR_CHECK_VERSION \<longrightarrow> \<not> opt (blank_tar TAR_GNU) TAR_GNU"
    "\<forall>c. file_context ?ho (blank_tar TAR_GNU) ?p = Some c \<longrightarrow> plain_context c" "ho_readlink ?ho ?p = Some ?t" "length ?t < MAXPATHLEN"
    by (simp_all add: writable_def empty_file_def blank_tar_def name_ok_def named_def opt_def str_def file_context_def
        TAR_GNU_def TAR_STORE_SELINUX_def link_ok_def one_file_host_def MAXPATHLEN_def)
  have "[(8, 77) \<mapsto> ?f] (st_dev s, st_ino s) = Some ?f" using s(3) by simp
  from hardlinked_symlink [where names = Map.empty and src = 5 and junk = "[]" and mem = True and pjunk = "[]",
        OF fresh_writer_inv(1) b(1,2) s(1,2) b(4,8) lk this b(5,9,10,6,3,7)]
  obtain t lk' g' w' bytes where t: "append_to_disk ?ho small_allocator Map.empty 5 True [] [] (blank_tar TAR_GNU) lk ?p None
        (Some (fresh_writer, empty_file 3 None)) = Some (None, t, lk', Some (g', w'))"
    "\<And>rest. \<exists>r1 a. th_read (\<lambda>n. True) posix_read (blank_tar 0) (archive_file 3 (bytes @ rest)) = Some (ReadOk, r1, a)
       \<and> TH_ISLNK (th_buf r1) \<and> cstr (th_get_linkname (th_buf r1)) = Some ?t"
    by blast
  have "\<exists>r1 a. th_read (\<lambda>n. True) posix_read (blank_tar 0) (archive_file 3 bytes) = Some (ReadOk, r1, a)
       \<and> TH_ISLNK (th_buf r1) \<and> cstr (th_get_linkname (th_buf r1)) = Some ?t" using t(2) [of "[]"] by simp
  then show ?thesis using lk(1) t(1) by blast
qed

end
