(* ===== verification/Oaes_Field.thy ===== *)
theory Oaes_Field
  imports Oaes_Tables
begin

section \<open>openaes: the S-box and the field GF(256)\<close>

text \<open>
  The S-box of FIPS-197 by its definition, the affine transformation of the multiplicative inverse in
  GF(256), and the proof that \<^verbatim>\<open>oaes_sub_byte_value\<close> is a table of it. Every byte but 0 is a power of the
  generator 3, whose powers are written out as a list; the inverse of \<open>3 ^ i\<close> is \<open>3 ^ (255 - i)\<close>.
\<close>

subsection \<open>The field\<close>

definition gf_mult :: "byte \<Rightarrow> byte \<Rightarrow> byte" where
  "gf_mult a b = foldr (\<lambda>i s. (if bit b i then (xtime ^^ i) a else 0) XOR s) [0..<8] 0"

primrec gf_power :: "byte \<Rightarrow> nat \<Rightarrow> byte" where
  "gf_power b 0 = 1"
| "gf_power b (Suc n) = gf_mult b (gf_power b n)"

text \<open>The inverse is \<open>b ^ 254\<close>, with 0 for 0.\<close>

definition gf_inverse :: "byte \<Rightarrow> byte" where
  "gf_inverse b = gf_power b 254"

definition turn :: "nat \<Rightarrow> byte \<Rightarrow> byte" where
  "turn n b = push_bit n b OR drop_bit (8 - n) b"

definition affine :: "byte \<Rightarrow> byte" where
  "affine b = b XOR turn 1 b XOR turn 2 b XOR turn 3 b XOR turn 4 b XOR 0x63"

definition fips_sbox :: "byte \<Rightarrow> byte" where
  "fips_sbox b = affine (gf_inverse b)"

subsection \<open>Powers of the generator\<close>

definition times3 :: "byte \<Rightarrow> byte" where
  "times3 a = xtime a XOR a"

text \<open>The powers 0 to 254 of 3 and then 0, as a square table, and the table of the exponents.\<close>

definition powers3 :: "byte list list" where
  "powers3 =
    [[0x01, 0x03, 0x05, 0x0f, 0x11, 0x33, 0x55, 0xff, 0x1a, 0x2e, 0x72, 0x96, 0xa1, 0xf8, 0x13, 0x35],
     [0x5f, 0xe1, 0x38, 0x48, 0xd8, 0x73, 0x95, 0xa4, 0xf7, 0x02, 0x06, 0x0a, 0x1e, 0x22, 0x66, 0xaa],
     [0xe5, 0x34, 0x5c, 0xe4, 0x37, 0x59, 0xeb, 0x26, 0x6a, 0xbe, 0xd9, 0x70, 0x90, 0xab, 0xe6, 0x31],
     [0x53, 0xf5, 0x04, 0x0c, 0x14, 0x3c, 0x44, 0xcc, 0x4f, 0xd1, 0x68, 0xb8, 0xd3, 0x6e, 0xb2, 0xcd],
     [0x4c, 0xd4, 0x67, 0xa9, 0xe0, 0x3b, 0x4d, 0xd7, 0x62, 0xa6, 0xf1, 0x08, 0x18, 0x28, 0x78, 0x88],
     [0x83, 0x9e, 0xb9, 0xd0, 0x6b, 0xbd, 0xdc, 0x7f, 0x81, 0x98, 0xb3, 0xce, 0x49, 0xdb, 0x76, 0x9a],
     [0xb5, 0xc4, 0x57, 0xf9, 0x10, 0x30, 0x50, 0xf0, 0x0b, 0x1d, 0x27, 0x69, 0xbb, 0xd6, 0x61, 0xa3],
     [0xfe, 0x19, 0x2b, 0x7d, 0x87, 0x92, 0xad, 0xec, 0x2f, 0x71, 0x93, 0xae, 0xe9, 0x20, 0x60, 0xa0],
     [0xfb, 0x16, 0x3a, 0x4e, 0xd2, 0x6d, 0xb7, 0xc2, 0x5d, 0xe7, 0x32, 0x56, 0xfa, 0x15, 0x3f, 0x41],
     [0xc3, 0x5e, 0xe2, 0x3d, 0x47, 0xc9, 0x40, 0xc0, 0x5b, 0xed, 0x2c, 0x74, 0x9c, 0xbf, 0xda, 0x75],
     [0x9f, 0xba, 0xd5, 0x64, 0xac, 0xef, 0x2a, 0x7e, 0x82, 0x9d, 0xbc, 0xdf, 0x7a, 0x8e, 0x89, 0x80],
     [0x9b, 0xb6, 0xc1, 0x58, 0xe8, 0x23, 0x65, 0xaf, 0xea, 0x25, 0x6f, 0xb1, 0xc8, 0x43, 0xc5, 0x54],
     [0xfc, 0x1f, 0x21, 0x63, 0xa5, 0xf4, 0x07, 0x09, 0x1b, 0x2d, 0x77, 0x99, 0xb0, 0xcb, 0x46, 0xca],
     [0x45, 0xcf, 0x4a, 0xde, 0x79, 0x8b, 0x86, 0x91, 0xa8, 0xe3, 0x3e, 0x42, 0xc6, 0x51, 0xf3, 0x0e],
     [0x12, 0x36, 0x5a, 0xee, 0x29, 0x7b, 0x8d, 0x8c, 0x8f, 0x8a, 0x85, 0x94, 0xa7, 0xf2, 0x0d, 0x17],
     [0x39, 0x4b, 0xdd, 0x7c, 0x84, 0x97, 0xa2, 0xfd, 0x1c, 0x24, 0x6c, 0xb4, 0xc7, 0x52, 0xf6, 0x00]]"

definition exponents :: "byte list list" where
  "exponents =
    [[0xff, 0x00, 0x19, 0x01, 0x32, 0x02, 0x1a, 0xc6, 0x4b, 0xc7, 0x1b, 0x68, 0x33, 0xee, 0xdf, 0x03],
     [0x64, 0x04, 0xe0, 0x0e, 0x34, 0x8d, 0x81, 0xef, 0x4c, 0x71, 0x08, 0xc8, 0xf8, 0x69, 0x1c, 0xc1],
     [0x7d, 0xc2, 0x1d, 0xb5, 0xf9, 0xb9, 0x27, 0x6a, 0x4d, 0xe4, 0xa6, 0x72, 0x9a, 0xc9, 0x09, 0x78],
     [0x65, 0x2f, 0x8a, 0x05, 0x21, 0x0f, 0xe1, 0x24, 0x12, 0xf0, 0x82, 0x45, 0x35, 0x93, 0xda, 0x8e],
     [0x96, 0x8f, 0xdb, 0xbd, 0x36, 0xd0, 0xce, 0x94, 0x13, 0x5c, 0xd2, 0xf1, 0x40, 0x46, 0x83, 0x38],
     [0x66, 0xdd, 0xfd, 0x30, 0xbf, 0x06, 0x8b, 0x62, 0xb3, 0x25, 0xe2, 0x98, 0x22, 0x88, 0x91, 0x10],
     [0x7e, 0x6e, 0x48, 0xc3, 0xa3, 0xb6, 0x1e, 0x42, 0x3a, 0x6b, 0x28, 0x54, 0xfa, 0x85, 0x3d, 0xba],
     [0x2b, 0x79, 0x0a, 0x15, 0x9b, 0x9f, 0x5e, 0xca, 0x4e, 0xd4, 0xac, 0xe5, 0xf3, 0x73, 0xa7, 0x57],
     [0xaf, 0x58, 0xa8, 0x50, 0xf4, 0xea, 0xd6, 0x74, 0x4f, 0xae, 0xe9, 0xd5, 0xe7, 0xe6, 0xad, 0xe8],
     [0x2c, 0xd7, 0x75, 0x7a, 0xeb, 0x16, 0x0b, 0xf5, 0x59, 0xcb, 0x5f, 0xb0, 0x9c, 0xa9, 0x51, 0xa0],
     [0x7f, 0x0c, 0xf6, 0x6f, 0x17, 0xc4, 0x49, 0xec, 0xd8, 0x43, 0x1f, 0x2d, 0xa4, 0x76, 0x7b, 0xb7],
     [0xcc, 0xbb, 0x3e, 0x5a, 0xfb, 0x60, 0xb1, 0x86, 0x3b, 0x52, 0xa1, 0x6c, 0xaa, 0x55, 0x29, 0x9d],
     [0x97, 0xb2, 0x87, 0x90, 0x61, 0xbe, 0xdc, 0xfc, 0xbc, 0x95, 0xcf, 0xcd, 0x37, 0x3f, 0x5b, 0xd1],
     [0x53, 0x39, 0x84, 0x3c, 0x41, 0xa2, 0x6d, 0x47, 0x14, 0x2a, 0x9e, 0x5d, 0x56, 0xf2, 0xd3, 0xab],
     [0x44, 0x11, 0x92, 0xd9, 0x23, 0x20, 0x2e, 0x89, 0xb4, 0x7c, 0xb8, 0x26, 0x77, 0x99, 0xe3, 0xa5],
     [0x67, 0x4a, 0xed, 0xde, 0xc5, 0x31, 0xfe, 0x18, 0x0d, 0x63, 0x8c, 0x80, 0xc0, 0xf7, 0x70, 0x07]]"

lemma powers3_square: "square powers3"
  by code_simp

lemma powers3_all: "map (entry_at powers3) (concat exponents) = all_bytes"
  by code_simp

lemma powers3_times: "map times3 (concat powers3) = tl (butlast (concat powers3)) @ [1, 0]"
  by code_simp

lemma powers3_sbox:
  "map oaes_sub_byte (butlast (concat powers3)) = map affine (1 # rev (tl (butlast (concat powers3))))"
  by code_simp

subsection \<open>Multiplication by a power\<close>

lemma xtime_0 [simp]: "xtime 0 = 0"
  by (simp add: xtime_def)

lemma gf_mult_linear:
  assumes "f 0 = 0" and "\<And>x y. f (x XOR y) = f x XOR f y" and "\<And>x. f (xtime x) = xtime (f x)"
  shows "gf_mult (f a) b = f (gf_mult a b)"
proof -
  have p: "(xtime ^^ i) (f a) = f ((xtime ^^ i) a)" for i by (induction i) (simp_all add: assms(3))
  have "foldr (\<lambda>i s. (if bit b i then (xtime ^^ i) (f a) else 0) XOR s) is (f 0)
      = f (foldr (\<lambda>i s. (if bit b i then (xtime ^^ i) a else 0) XOR s) is 0)" for "is"
    by (induction "is") (simp_all add: p assms)
  then show ?thesis by (simp add: gf_mult_def assms(1))
qed

lemma times3_linear: "times3 0 = 0" "times3 (x XOR y) = times3 x XOR times3 y" "times3 (xtime x) = xtime (times3 x)"
  by (simp_all add: times3_def xtime_xor ac_simps)

lemma xtime_one: "i < 8 \<Longrightarrow> (xtime ^^ i) 1 = push_bit i 1"
  by (auto simp: eval_nat_numeral less_Suc_eq xtime_def)

lemma sum_bits:
  assumes "distinct is" and "\<forall>i \<in> set is. i < 8" and "n < 8"
  shows "bit (foldr (\<lambda>i s. (if bit b i then (xtime ^^ i) 1 else 0) XOR s) is 0) n = (n \<in> set is \<and> bit (b :: byte) n)"
  using assms by (induction "is") (auto simp: xtime_one bit_xor_iff bit_exp_iff)

lemma gf_mult_1: "gf_mult 1 b = b"
  by (rule bit_word_eqI) (simp add: gf_mult_def sum_bits)

definition pow3 :: "nat \<Rightarrow> byte" where
  "pow3 i = (times3 ^^ i) 1"

lemma pow3_step: "pow3 0 = 1" "pow3 (Suc i) = times3 (pow3 i)"
  by (simp_all add: pow3_def)

lemma times3_shift: "gf_mult ((times3 ^^ i) a) x = (times3 ^^ i) (gf_mult a x)"
  by (induction i) (simp_all add: gf_mult_linear [of times3, OF times3_linear])

lemma pow3_mult: "gf_mult (pow3 i) (pow3 j) = pow3 (i + j)"
  by (simp add: pow3_def times3_shift gf_mult_1 funpow_add)

lemma pow3_power: "gf_power (pow3 i) n = pow3 (i * n)"
  by (induction n) (simp_all add: pow3_mult, simp add: pow3_def)

subsection \<open>The powers in the table\<close>

lemma powers3_length: "length (concat powers3) = 256"
  by (rule length_square) (rule powers3_square)

lemma pow3_nth: "i < 255 \<Longrightarrow> pow3 i = concat powers3 ! i"
proof (induction i)
  case 0
  then show ?case by (simp add: pow3_def powers3_def)
next
  case (Suc i)
  have "times3 (concat powers3 ! i) = map times3 (concat powers3) ! i" using Suc powers3_length by simp
  also have "\<dots> = concat powers3 ! Suc i"
    unfolding powers3_times using Suc.prems powers3_length by (simp add: nth_append nth_tl nth_butlast)
  finally show ?case using Suc by (simp add: pow3_step)
qed

lemma pow3_255: "pow3 255 = 1"
proof -
  have "pow3 255 = times3 (concat powers3 ! 254)"
    using pow3_step(2) [of 254] pow3_nth [of 254] by simp
  also have "\<dots> = map times3 (concat powers3) ! 254" using powers3_length by simp
  also have "\<dots> = 1" unfolding powers3_times using powers3_length by (simp add: nth_append)
  finally show ?thesis .
qed

lemma pow3_mod: "pow3 (i + 255 * k) = pow3 i"
proof (induction k)
  case (Suc k)
  have "pow3 (i + 255 * Suc k) = gf_mult (pow3 255) (pow3 (i + 255 * k))" by (simp add: pow3_mult ac_simps)
  then show ?case using Suc by (simp add: pow3_255 gf_mult_1)
qed simp

lemma byte_power:
  assumes "b \<noteq> 0"
  obtains i where "i < 255" and "b = pow3 i"
proof -
  have "b \<in> set all_bytes"
    using all_bytes_nth [of b] nth_mem [of "unat b" all_bytes] unsigned_less [of b, where 'a = nat]
    by (simp add: all_bytes_def)
  then have "b \<in> entry_at powers3 ` set (concat exponents)" unfolding powers3_all [symmetric] by simp
  then obtain l where "b = entry_at powers3 l" by blast
  then have l: "b = concat powers3 ! unat l" by (simp only: entry_at_concat [OF powers3_square])
  have "unat l < 256" using unsigned_less [of l, where 'a = nat] by simp
  moreover have "concat powers3 ! 255 = 0" by (simp add: powers3_def)
  ultimately have "unat l < 255" using assms l by (cases "unat l = 255") auto
  with l show ?thesis by (intro that [of "unat l"]) (simp_all add: pow3_nth)
qed

subsection \<open>Inverses and the S-box\<close>

lemma inverse_pow3:
  assumes "i < 255"
  shows "gf_inverse (pow3 i) = pow3 (255 - i)" and "gf_mult (pow3 i) (gf_inverse (pow3 i)) = 1"
proof -
  show *: "gf_inverse (pow3 i) = pow3 (255 - i)"
  proof (cases i)
    case 0
    then show ?thesis unfolding gf_inverse_def pow3_power using pow3_255 by (simp add: pow3_step)
  next
    case (Suc j)
    have "i * 254 = (255 - i) + 255 * j" using assms Suc by simp
    then show ?thesis unfolding gf_inverse_def pow3_power by (simp only: pow3_mod)
  qed
  show "gf_mult (pow3 i) (gf_inverse (pow3 i)) = 1" using assms by (simp add: * pow3_mult pow3_255)
qed

lemma sbox_pow3:
  assumes "i < 255"
  shows "oaes_sub_byte (pow3 i) = affine (pow3 (255 - i))"
proof -
  let ?p = "butlast (concat powers3)"
  have len: "length ?p = 255" using powers3_length by simp
  have p: "?p ! j = pow3 j" if "j < 255" for j using that powers3_length by (simp add: pow3_nth nth_butlast)
  have "oaes_sub_byte (?p ! i) = map oaes_sub_byte ?p ! i" using assms len by (simp only: nth_map)
  also have "\<dots> = affine ((1 # rev (tl ?p)) ! i)"
    unfolding powers3_sbox using assms len by (simp only: nth_map list.size length_rev length_tl)
  also have "(1 # rev (tl ?p)) ! i = pow3 (255 - i)"
  proof (cases i)
    case 0
    then show ?thesis using pow3_255 by simp
  next
    case (Suc j)
    then have "Suc (253 - j) = 254 - j" using assms by arith
    then show ?thesis using Suc assms len by (simp add: rev_nth nth_tl p)
  qed
  finally show ?thesis using p [OF assms] by simp
qed

lemma gf_inverse_0: "gf_inverse 0 = 0"
proof -
  have "gf_power 0 (Suc n) = 0" for n using gf_mult_linear [of "\<lambda>x. 0"] by simp
  from this [of 253] show ?thesis by (simp add: gf_inverse_def)
qed

lemma sub_byte_fips: "oaes_sub_byte b = fips_sbox b"
proof (cases "b = 0")
  case True
  have "oaes_sub_byte 0 = affine 0" by code_simp
  then show ?thesis using True by (simp add: fips_sbox_def gf_inverse_0)
next
  case False
  then obtain j where "j < 255" "b = pow3 j" by (rule byte_power)
  then show ?thesis by (simp add: fips_sbox_def sbox_pow3 inverse_pow3)
qed

lemma inverse_mult: "b \<noteq> 0 \<Longrightarrow> gf_mult b (gf_inverse b) = 1"
  by (erule byte_power) (use inverse_pow3(2) in blast)

text \<open>(C36) The S-box table holds what FIPS-197 defines: the affine transformation of the multiplicative
  inverse in GF(256), where 0 counts as its own inverse; and the inverse table undoes it.\<close>

theorem sbox_fips:
  "oaes_sub_byte b = affine (gf_inverse b) \<and> gf_inverse 0 = 0 \<and> (b = 0 \<or> gf_mult b (gf_inverse b) = 1)
    \<and> oaes_inv_sub_byte (oaes_sub_byte b) = b"
  using inverse_mult [of b] inv_sub_byte [of b] by (auto simp: sub_byte_fips fips_sbox_def gf_inverse_0)

end
