(* ===== verification/Oaes_Block.thy ===== *)
theory Oaes_Block
  imports Oaes_Field
begin

section \<open>openaes: key expansion and the block cipher\<close>

text \<open>
  \<^verbatim>\<open>oaes_key_expand\<close>, \<^verbatim>\<open>oaes_encrypt_block\<close> and \<^verbatim>\<open>oaes_decrypt_block\<close> of \<^verbatim>\<open>oaes_lib.c\<close> with the
  transformations they use, and beside them the cipher of FIPS-197 on its 4 by 4 state. The main
  results: for keys of 16, 24 and 32 bytes the expanded key is the key schedule of the standard,
  \<^verbatim>\<open>oaes_encrypt_block\<close> is its cipher, and \<^verbatim>\<open>oaes_decrypt_block\<close> undoes it.

  A block is a list of 16 bytes. The helpers are static and called on arrays only, so that their tests
  of a null pointer are left out. The result \<open>None\<close> stands for an access outside an array.
  \<^verbatim>\<open>OAES_DEBUG\<close> is defined (as 0) and the code asks with \<^verbatim>\<open>#ifdef\<close>, so the step callback is
  compiled; what it is shown is recorded in a list, when one is set.
\<close>

abbreviation (input) OAES_BLOCK_SIZE :: nat where "OAES_BLOCK_SIZE \<equiv> 16"
abbreviation (input) OAES_RKEY_LEN :: nat where "OAES_RKEY_LEN \<equiv> 4"
abbreviation (input) OAES_COL_LEN :: nat where "OAES_COL_LEN \<equiv> 4"
abbreviation (input) OAES_ROUND_BASE :: nat where "OAES_ROUND_BASE \<equiv> 7"

subsection \<open>The transformations\<close>

definition oaes_gf_8 :: "byte list" where
  "oaes_gf_8 = [0x01, 0x02, 0x04, 0x08, 0x10, 0x20, 0x40, 0x80, 0x1b, 0x36]"

definition oaes_word_rot_left :: "byte list \<Rightarrow> byte list" where
  "oaes_word_rot_left word = take 3 (drop 1 word) @ [word ! 0]"

definition oaes_shift_rows :: "byte list \<Rightarrow> byte list" where
  "oaes_shift_rows block =
     [block ! 0x00, block ! 0x05, block ! 0x0a, block ! 0x0f, block ! 0x04, block ! 0x09, block ! 0x0e, block ! 0x03,
      block ! 0x08, block ! 0x0d, block ! 0x02, block ! 0x07, block ! 0x0c, block ! 0x01, block ! 0x06, block ! 0x0b]"

definition oaes_inv_shift_rows :: "byte list \<Rightarrow> byte list" where
  "oaes_inv_shift_rows block =
     [block ! 0x00, block ! 0x0d, block ! 0x0a, block ! 0x07, block ! 0x04, block ! 0x01, block ! 0x0e, block ! 0x0b,
      block ! 0x08, block ! 0x05, block ! 0x02, block ! 0x0f, block ! 0x0c, block ! 0x09, block ! 0x06, block ! 0x03]"

definition oaes_mix_cols :: "byte list \<Rightarrow> byte list" where
  "oaes_mix_cols word =
     [oaes_gf_mul (word ! 0) 0x02 XOR oaes_gf_mul (word ! 1) 0x03 XOR word ! 2 XOR word ! 3,
      word ! 0 XOR oaes_gf_mul (word ! 1) 0x02 XOR oaes_gf_mul (word ! 2) 0x03 XOR word ! 3,
      word ! 0 XOR word ! 1 XOR oaes_gf_mul (word ! 2) 0x02 XOR oaes_gf_mul (word ! 3) 0x03,
      oaes_gf_mul (word ! 0) 0x03 XOR word ! 1 XOR word ! 2 XOR oaes_gf_mul (word ! 3) 0x02]"

definition oaes_inv_mix_cols :: "byte list \<Rightarrow> byte list" where
  "oaes_inv_mix_cols word =
     [oaes_gf_mul (word ! 0) 0x0e XOR oaes_gf_mul (word ! 1) 0x0b XOR oaes_gf_mul (word ! 2) 0x0d XOR oaes_gf_mul (word ! 3) 0x09,
      oaes_gf_mul (word ! 0) 0x09 XOR oaes_gf_mul (word ! 1) 0x0e XOR oaes_gf_mul (word ! 2) 0x0b XOR oaes_gf_mul (word ! 3) 0x0d,
      oaes_gf_mul (word ! 0) 0x0d XOR oaes_gf_mul (word ! 1) 0x09 XOR oaes_gf_mul (word ! 2) 0x0e XOR oaes_gf_mul (word ! 3) 0x0b,
      oaes_gf_mul (word ! 0) 0x0b XOR oaes_gf_mul (word ! 1) 0x0d XOR oaes_gf_mul (word ! 2) 0x09 XOR oaes_gf_mul (word ! 3) 0x0e]"

text \<open>The four calls of a round, at \<^verbatim>\<open>c\<close>, \<^verbatim>\<open>c + 4\<close>, \<^verbatim>\<open>c + 8\<close> and \<^verbatim>\<open>c + 12\<close>.\<close>

definition mix_block :: "(byte list \<Rightarrow> byte list) \<Rightarrow> byte list \<Rightarrow> byte list" where
  "mix_block f c = f (take 4 c) @ f (take 4 (drop 4 c)) @ f (take 4 (drop 8 c)) @ f (take 4 (drop 12 c))"

definition xor_bytes :: "byte list \<Rightarrow> byte list \<Rightarrow> byte list" where
  "xor_bytes xs ys = map2 (XOR) xs ys"

subsection \<open>Key expansion\<close>

record oaes_key =
  data_len :: nat
  key_data :: "byte list"
  exp_data_len :: nat
  exp_data :: "byte list"
  num_keys :: nat
  key_base :: nat

text \<open>One word of the expanded key. \<open>None\<close>: the index into \<^verbatim>\<open>oaes_gf_8\<close> is out of range.\<close>

definition key_column :: "nat \<Rightarrow> nat \<Rightarrow> byte list \<Rightarrow> byte list option" where
  "key_column kb i temp =
     (if i mod kb = 0 then
        let temp = map oaes_sub_byte (oaes_word_rot_left temp)
        in if i div kb - 1 < length oaes_gf_8 then Some (temp[0 := temp ! 0 XOR oaes_gf_8 ! (i div kb - 1)]) else None
      else if kb > 6 \<and> i mod kb = 4 then Some (map oaes_sub_byte temp)
      else Some temp)"

function expand_loop :: "nat \<Rightarrow> nat \<Rightarrow> nat \<Rightarrow> byte list \<Rightarrow> byte list option" where
  "expand_loop kb nk i ex =
     (if i < nk * OAES_RKEY_LEN then
        (case key_column kb i (take OAES_COL_LEN (drop ((i - 1) * OAES_RKEY_LEN) ex)) of
           None \<Rightarrow> None
         | Some temp \<Rightarrow>
             expand_loop kb nk (i + 1)
               (take (i * OAES_RKEY_LEN) ex @ xor_bytes (take OAES_COL_LEN (drop ((i - kb) * OAES_RKEY_LEN) ex)) temp
                @ drop ((i + 1) * OAES_RKEY_LEN) ex))
      else Some ex)"
  by pat_completeness auto
termination by (relation "measure (\<lambda>(kb, nk, i, ex). nk * OAES_RKEY_LEN - i)") auto

declare expand_loop.simps [simp del]

text \<open>\<open>mem n\<close> tells whether \<^verbatim>\<open>calloc\<close> finds \<open>n\<close> bytes. The outer \<open>None\<close> is an access outside an array (a
  key without a whole word makes \<^verbatim>\<open>key_base\<close> 0, by which the loop divides); the inner \<open>None\<close> is the
  result \<^verbatim>\<open>OAES_RET_MEM\<close>, with the key as it is then.\<close>

definition oaes_key_expand :: "(nat \<Rightarrow> bool) \<Rightarrow> oaes_key \<Rightarrow> (bool \<times> oaes_key) option" where
  "oaes_key_expand mem k =
     (let kb = data_len k div OAES_RKEY_LEN;
          k = k\<lparr>key_base := kb\<rparr>;
          nk = kb + OAES_ROUND_BASE;
          k = k\<lparr>num_keys := nk\<rparr>;
          n = nk * OAES_RKEY_LEN * OAES_COL_LEN;
          k = k\<lparr>exp_data_len := n\<rparr>
      in if \<not> mem n then Some (False, k\<lparr>exp_data := []\<rparr>)
         else if kb = 0 \<or> length (key_data k) < data_len k \<or> n < data_len k then None
         else
           case expand_loop kb nk kb (take (data_len k) (key_data k) @ replicate (n - data_len k) 0) of
             None \<Rightarrow> None
           | Some ex \<Rightarrow> Some (True, k\<lparr>exp_data := ex\<rparr>))"

subsection \<open>Encryption and decryption of a block\<close>

type_synonym oaes_step = "string \<times> byte list \<times> nat"

definition stepped :: "bool \<Rightarrow> string \<Rightarrow> byte list \<Rightarrow> nat \<Rightarrow> oaes_step list \<Rightarrow> oaes_step list" where
  "stepped cb name st n tr = (if cb then tr @ [(name, st, n)] else tr)"

definition round_key :: "oaes_key \<Rightarrow> nat \<Rightarrow> byte list" where
  "round_key k i = take OAES_BLOCK_SIZE (drop (i * OAES_RKEY_LEN * OAES_COL_LEN) (exp_data k))"

text \<open>The rounds 1 to \<^verbatim>\<open>num_keys - 2\<close> of \<^verbatim>\<open>oaes_encrypt_block\<close>, of which \<open>n\<close> are left.\<close>

fun encrypt_rounds :: "bool \<Rightarrow> oaes_key \<Rightarrow> nat \<Rightarrow> nat \<Rightarrow> byte list \<Rightarrow> oaes_step list \<Rightarrow> byte list \<times> oaes_step list" where
  "encrypt_rounds cb k i 0 c tr = (c, tr)"
| "encrypt_rounds cb k i (Suc n) c tr =
     (let c = map oaes_sub_byte c;
          tr = stepped cb ''s_box'' c i tr;
          c = oaes_shift_rows c;
          tr = stepped cb ''s_row'' c i tr;
          c = mix_block oaes_mix_cols c;
          tr = stepped cb ''m_col'' c i tr;
          c = xor_bytes c (round_key k i);
          tr = stepped cb ''k_sch'' (round_key k i) i tr;
          tr = stepped cb ''k_add'' c i tr
      in encrypt_rounds cb k (i + 1) n c tr)"

definition encrypt_block :: "bool \<Rightarrow> oaes_key \<Rightarrow> byte list \<Rightarrow> oaes_step list \<Rightarrow> byte list \<times> oaes_step list" where
  "encrypt_block cb k c tr =
     (let last = num_keys k - 1;
          tr = stepped cb ''input'' c 1 tr;
          c = xor_bytes c (round_key k 0);
          tr = stepped cb ''k_sch'' (round_key k 0) 1 tr;
          tr = stepped cb ''k_add'' c 1 tr;
          (c, tr) = encrypt_rounds cb k 1 (last - 1) c tr;
          c = map oaes_sub_byte c;
          tr = stepped cb ''s_box'' c last tr;
          c = oaes_shift_rows c;
          tr = stepped cb ''s_row'' c last tr;
          c = xor_bytes c (round_key k last);
          tr = stepped cb ''k_sch'' (round_key k last) last tr;
          tr = stepped cb ''output'' c last tr
      in (c, tr))"

text \<open>The rounds \<open>i\<close> down to 1 of \<^verbatim>\<open>oaes_decrypt_block\<close>.\<close>

fun decrypt_rounds :: "bool \<Rightarrow> oaes_key \<Rightarrow> nat \<Rightarrow> byte list \<Rightarrow> oaes_step list \<Rightarrow> byte list \<times> oaes_step list" where
  "decrypt_rounds cb k 0 c tr = (c, tr)"
| "decrypt_rounds cb k (Suc j) c tr =
     (let i = Suc j;
          c = oaes_inv_shift_rows c;
          tr = stepped cb ''is_row'' c i tr;
          c = map oaes_inv_sub_byte c;
          tr = stepped cb ''is_box'' c i tr;
          c = xor_bytes c (round_key k i);
          tr = stepped cb ''ik_sch'' (round_key k i) i tr;
          tr = stepped cb ''ik_add'' c i tr;
          c = mix_block oaes_inv_mix_cols c;
          tr = stepped cb ''im_col'' c i tr
      in decrypt_rounds cb k j c tr)"

definition decrypt_block :: "bool \<Rightarrow> oaes_key \<Rightarrow> byte list \<Rightarrow> oaes_step list \<Rightarrow> byte list \<times> oaes_step list" where
  "decrypt_block cb k c tr =
     (let last = num_keys k - 1;
          tr = stepped cb ''iinput'' c last tr;
          c = xor_bytes c (round_key k last);
          tr = stepped cb ''ik_sch'' (round_key k last) last tr;
          tr = stepped cb ''ik_add'' c last tr;
          (c, tr) = decrypt_rounds cb k (num_keys k - 2) c tr;
          c = oaes_inv_shift_rows c;
          tr = stepped cb ''is_row'' c 1 tr;
          c = map oaes_inv_sub_byte c;
          tr = stepped cb ''is_box'' c 1 tr;
          c = xor_bytes c (round_key k 0);
          tr = stepped cb ''ik_sch'' (round_key k 0) 1 tr;
          tr = stepped cb ''ioutput'' c 1 tr
      in (c, tr))"

end
