(* ===== verification/Oaes_Cipher.thy ===== *)
theory Oaes_Cipher
  imports Oaes_Block
begin

section \<open>openaes: the block cipher is the one of FIPS-197\<close>

text \<open>
  The key schedule and the cipher of FIPS-197, on a state of four rows and four columns and with its
  S-box and field multiplication by their definitions, and the proof that the transformations of
  \<^verbatim>\<open>oaes_lib.c\<close> on 16 bytes are those of the standard; and that the inverse ones undo them.
\<close>

subsection \<open>The standard\<close>

type_synonym aes_state = "nat \<Rightarrow> nat \<Rightarrow> byte"

definition state_of :: "byte list \<Rightarrow> aes_state" where
  "state_of bs = (\<lambda>r c. bs ! (r + 4 * c))"

definition bytes_of :: "aes_state \<Rightarrow> byte list" where
  "bytes_of s = map (\<lambda>k. s (k mod 4) (k div 4)) [0..<16]"

definition sub_bytes :: "aes_state \<Rightarrow> aes_state" where
  "sub_bytes s = (\<lambda>r c. fips_sbox (s r c))"

definition shift_rows :: "aes_state \<Rightarrow> aes_state" where
  "shift_rows s = (\<lambda>r c. s r ((c + r) mod 4))"

definition mix_columns :: "aes_state \<Rightarrow> aes_state" where
  "mix_columns s = (\<lambda>r c. gf_mult (s r c) 2 XOR gf_mult (s ((r + 1) mod 4) c) 3
     XOR s ((r + 2) mod 4) c XOR s ((r + 3) mod 4) c)"

definition add_round_key :: "(nat \<Rightarrow> byte list) \<Rightarrow> nat \<Rightarrow> aes_state \<Rightarrow> aes_state" where
  "add_round_key w i s = (\<lambda>r c. s r c XOR w (4 * i + c) ! r)"

text \<open>The cipher with \<open>nr\<close> rounds and the words \<open>w\<close> of the key schedule.\<close>

definition aes_round :: "(nat \<Rightarrow> byte list) \<Rightarrow> aes_state \<Rightarrow> nat \<Rightarrow> aes_state" where
  "aes_round w s i = add_round_key w i (mix_columns (shift_rows (sub_bytes s)))"

definition aes_cipher :: "(nat \<Rightarrow> byte list) \<Rightarrow> nat \<Rightarrow> byte list \<Rightarrow> byte list" where
  "aes_cipher w nr block =
     bytes_of (add_round_key w nr (shift_rows (sub_bytes (foldl (aes_round w) (add_round_key w 0 (state_of block)) [1..<nr]))))"

text \<open>The words of the key schedule for a key of \<open>nk\<close> words.\<close>

definition rcon :: "nat \<Rightarrow> byte list" where
  "rcon j = [gf_power 2 (j - 1), 0, 0, 0]"

function key_word :: "nat \<Rightarrow> byte list \<Rightarrow> nat \<Rightarrow> byte list" where
  "key_word nk key i =
     (if nk = 0 \<or> i < nk then take 4 (drop (4 * i) key)
      else
        let temp = key_word nk key (i - 1)
        in map2 (XOR) (key_word nk key (i - nk))
             (if i mod nk = 0 then map2 (XOR) (map fips_sbox (rotate1 temp)) (rcon (i div nk))
              else if nk > 6 \<and> i mod nk = 4 then map fips_sbox temp else temp))"
  by pat_completeness auto
termination by (relation "measure (\<lambda>(nk, key, i). i)") auto

declare key_word.simps [simp del]

subsection \<open>The transformations\<close>

lemma list4: "length xs = 4 \<Longrightarrow> xs = [xs ! 0, xs ! 1, xs ! 2, xs ! 3]"
  by (rule nth_equalityI) (auto simp: less_Suc_eq eval_nat_numeral)

lemma bytes_of_list:
  "bytes_of s = [s 0 0, s 1 0, s 2 0, s 3 0, s 0 1, s 1 1, s 2 1, s 3 1, s 0 2, s 1 2, s 2 2, s 3 2, s 0 3, s 1 3, s 2 3, s 3 3]"
  by (simp add: bytes_of_def upt_rec flip: numeral_2_eq_2)

lemma length_bytes_of [simp]: "length (bytes_of s) = 16"
  by (simp add: bytes_of_def)

lemma bytes_of_state: "length bs = 16 \<Longrightarrow> bytes_of (state_of bs) = bs"
  by (rule nth_equalityI) (simp_all add: bytes_of_def state_of_def)

lemma gf_mult_2: "gf_mult b 2 = xtime b"
  by (simp add: gf_mult_def upt_rec)

lemma gf_mult_3: "gf_mult b 3 = xtime b XOR b"
  by (simp add: gf_mult_def upt_rec xor.commute)

lemma sub_bytes_bytes: "map oaes_sub_byte (bytes_of s) = bytes_of (sub_bytes s)"
  by (simp add: bytes_of_def sub_bytes_def sub_byte_fips)

lemma shift_rows_bytes: "oaes_shift_rows (bytes_of s) = bytes_of (shift_rows s)"
  by (simp add: oaes_shift_rows_def bytes_of_list shift_rows_def flip: numeral_2_eq_2)

lemma mix_columns_bytes: "mix_block oaes_mix_cols (bytes_of s) = bytes_of (mix_columns s)"
  by (simp add: mix_block_def oaes_mix_cols_def bytes_of_list mix_columns_def gf_mul_simps gf_mult_2 gf_mult_3 ac_simps
    flip: numeral_2_eq_2)

definition schedule_at :: "oaes_key \<Rightarrow> (nat \<Rightarrow> byte list) \<Rightarrow> nat \<Rightarrow> bool" where
  "schedule_at k w i \<longleftrightarrow> (\<forall>c < 4. length (w (4 * i + c)) = 4)
     \<and> round_key k i = w (4 * i) @ w (4 * i + 1) @ w (4 * i + 2) @ w (4 * i + 3)"

lemma round_key_bytes:
  assumes "schedule_at k w i"
  shows "xor_bytes (bytes_of s) (round_key k i) = bytes_of (add_round_key w i s)"
proof -
  have l: "length (w (4 * i + c)) = 4" if "c < 4" for c using assms that by (simp add: schedule_at_def)
  have w: "w (4 * i + c) = [w (4 * i + c) ! 0, w (4 * i + c) ! 1, w (4 * i + c) ! 2, w (4 * i + c) ! 3]" if "c < 4" for c
    by (rule list4) (rule l [OF that])
  have "round_key k i = w (4 * i + 0) @ w (4 * i + 1) @ w (4 * i + 2) @ w (4 * i + 3)"
    using assms by (simp add: schedule_at_def)
  then have "round_key k i = bytes_of (\<lambda>r c. w (4 * i + c) ! r)"
    unfolding bytes_of_list by (subst (asm) (1 2 3 4) w) simp_all
  then show ?thesis by (simp add: xor_bytes_def bytes_of_list add_round_key_def)
qed

lemma encrypt_rounds_fips:
  assumes "\<forall>j \<in> {i..<i + n}. schedule_at k w j"
  shows "\<exists>tr'. encrypt_rounds cb k i n (bytes_of s) tr = (bytes_of (foldl (aes_round w) s [i..<i + n]), tr')"
  using assms
proof (induction n arbitrary: i s tr)
  case (Suc n)
  have "[i..<i + Suc n] = i # [Suc i..<Suc i + n]" by (simp add: upt_rec)
  moreover have "schedule_at k w i" "\<forall>j \<in> {Suc i..<Suc i + n}. schedule_at k w j" using Suc.prems by auto
  ultimately show ?case
    using Suc.IH [of "Suc i" "aes_round w s i"]
    by (simp add: Let_def sub_bytes_bytes shift_rows_bytes mix_columns_bytes round_key_bytes aes_round_def)
qed simp

lemma encrypt_block_fips:
  assumes "num_keys k = Suc nr" and "0 < nr" and "\<forall>i \<le> nr. schedule_at k w i" and "length c = 16"
  shows "\<exists>tr'. encrypt_block cb k c tr = (aes_cipher w nr c, tr')"
proof -
  let ?s = "add_round_key w 0 (state_of c)"
  have c: "xor_bytes c (round_key k 0) = bytes_of ?s"
    using round_key_bytes [of k w 0 "state_of c"] assms by (simp add: bytes_of_state)
  have r: "\<exists>tr'. encrypt_rounds cb k 1 (nr - 1) (bytes_of ?s) tr1 = (bytes_of (foldl (aes_round w) ?s [1..<nr]), tr')" for tr1
  proof -
    have "\<forall>j \<in> {1..<1 + (nr - 1)}. schedule_at k w j" using assms(2,3) by auto
    from encrypt_rounds_fips [OF this] show ?thesis using assms(2) by simp
  qed
  have "schedule_at k w nr" using assms(3) by simp
  then show ?thesis
    using r [of "stepped cb ''k_add'' (bytes_of ?s) 1 (stepped cb ''k_sch'' (round_key k 0) 1 (stepped cb ''input'' c 1 tr))"]
    by (auto simp add: encrypt_block_def Let_def assms(1) c aes_cipher_def sub_bytes_bytes shift_rows_bytes round_key_bytes)
qed

subsection \<open>The key schedule\<close>

lemma word_from_schedule:
  assumes "\<forall>j < i. length (w j) = 4" and "take (4 * i) ex = concat (map w [0..<i])" and "j < i"
  shows "take 4 (drop (j * 4) ex) = w j"
proof -
  have len: "length (concat (map w [0..<j])) = j * 4"
    using assms(1,3) by (induction j) auto
  have "[0..<i] = [0..<j] @ j # [Suc j..<i]" using assms(3) by (metis le_add1 less_imp_le_nat upt_add_eq_append upt_conv_Cons add_0 le_add_diff_inverse)
  then have c: "concat (map w [0..<i]) = concat (map w [0..<j]) @ w j @ concat (map w [Suc j..<i])" by simp
  have "take 4 (drop (j * 4) ex) = take 4 (drop (j * 4) (take (4 * i) ex))"
    using assms(3) by (simp add: drop_take min_def)
  also have "\<dots> = w j" unfolding assms(2) c using len assms(1,3) by simp
  finally show ?thesis .
qed

definition key_ok :: "nat \<Rightarrow> byte list \<Rightarrow> bool" where
  "key_ok kb key \<longleftrightarrow> kb \<in> {4, 6, 8} \<and> length key = 4 * kb"

lemma word_length: "key_ok kb key \<Longrightarrow> i < 4 * (kb + 7) \<Longrightarrow> length (key_word kb key i) = 4"
proof (induction i rule: less_induct)
  case (less i)
  have kb: "kb > 0" "length key = 4 * kb" using less.prems(1) by (auto simp: key_ok_def)
  show ?case
  proof (cases "i < kb")
    case True
    then show ?thesis using kb by (subst key_word.simps) simp
  next
    case False
    then have "i - 1 < i" "i - kb < i" using kb by auto
    then have "length (key_word kb key (i - 1)) = 4" "length (key_word kb key (i - kb)) = 4"
      using less.IH [OF _ less.prems(1)] less.prems(2) by (meson less_trans)+
    then show ?thesis using False using kb by (subst key_word.simps) (simp add: Let_def rcon_def)
  qed
qed

lemma rcon_list: "oaes_gf_8 = map (gf_power 2) [0..<10]"
  by code_simp

lemma rcon_table: "n < 10 \<Longrightarrow> oaes_gf_8 ! n = gf_power 2 n"
  by (simp add: rcon_list)

lemma rot_left_rotate: "length t = 4 \<Longrightarrow> oaes_word_rot_left t = rotate1 t"
  by (subst (1 2) list4) (simp_all add: oaes_word_rot_left_def)

lemma key_column_fips:
  assumes "length t = 4" and "i mod kb = 0 \<Longrightarrow> i div kb - 1 < 10"
  shows "key_column kb i t = Some (if i mod kb = 0 then map2 (XOR) (map fips_sbox (rotate1 t)) (rcon (i div kb))
     else if kb > 6 \<and> i mod kb = 4 then map fips_sbox t else t)"
proof -
  have t: "t = [t ! 0, t ! 1, t ! 2, t ! 3]" by (rule list4) (rule assms(1))
  have gf: "length oaes_gf_8 = 10" by (simp add: oaes_gf_8_def)
  show ?thesis
    using assms unfolding key_column_def rot_left_rotate [OF assms(1)]
    by (subst (1 2 3 4 5 6) t) (auto simp: Let_def rcon_def rcon_table gf sub_byte_fips)
qed

lemma expand_loop_fips:
  assumes "key_ok kb key" and "kb \<le> i" and "i \<le> 4 * (kb + 7)" and "length ex = 16 * (kb + 7)"
    and "take (4 * i) ex = concat (map (key_word kb key) [0..<i])"
  shows "expand_loop kb (kb + 7) i ex = Some (concat (map (key_word kb key) [0..<4 * (kb + 7)]))"
  using assms(2-5)
proof (induction "4 * (kb + 7) - i" arbitrary: i ex)
  case 0
  then show ?case by (subst expand_loop.simps) simp
next
  case (Suc n)
  let ?w = "key_word kb key"
  have i: "i < 4 * (kb + 7)" and kb: "kb > 0" using Suc.hyps(2) assms(1) by (auto simp: key_ok_def)
  have len: "\<forall>j < i. length (?w j) = 4" using word_length [OF assms(1)] i by simp
  have w1: "take 4 (drop ((i - 1) * 4) ex) = ?w (i - 1)" and w2: "take 4 (drop ((i - kb) * 4) ex) = ?w (i - kb)"
    by (rule word_from_schedule [OF len Suc.prems(4)], use Suc.prems(1) kb in linarith)+
  have "i div kb - 1 < 10" if "i mod kb = 0"
    using i assms(1) by (auto simp: key_ok_def less_mult_imp_div_less)
  moreover have "length (?w (i - 1)) = 4" using len Suc.prems(1) kb by simp
  ultimately have col: "xor_bytes (?w (i - kb)) (the (key_column kb i (?w (i - 1)))) = ?w i"
    and some: "\<exists>t. key_column kb i (?w (i - 1)) = Some t"
    using Suc.prems(1) kb by (simp_all add: key_column_fips key_word.simps [of kb key i] xor_bytes_def Let_def)
  from some obtain t where t: "key_column kb i (?w (i - 1)) = Some t" by blast
  have wi: "length (?w i) = 4" by (rule word_length [OF assms(1) i])
  have "length (take (4 * i) ex) = 4 * i" using Suc.prems(3) i by simp
  with Suc.prems(4) have c: "take (4 * i) ex = concat (map ?w [0..<i])" "length (concat (map ?w [0..<i])) = 4 * i"
    by (simp_all only:)
  let ?ex = "take (i * 4) ex @ ?w i @ drop ((i + 1) * 4) ex"
  have "expand_loop kb (kb + 7) (i + 1) ?ex = Some (concat (map ?w [0..<4 * (kb + 7)]))"
    by (rule Suc.hyps(1)) (use Suc.hyps(2) Suc.prems(1,3) i wi c in \<open>simp_all add: mult.commute [of i]\<close>)
  then show ?case using i col t by (subst expand_loop.simps) (simp add: w1 [unfolded One_nat_def] w2)
qed

lemma key_expand_fips:
  assumes "key_ok kb (key_data k)" and "data_len k = 4 * kb" and "mem (16 * (kb + 7))"
  shows "oaes_key_expand mem k = Some (True, k\<lparr>key_base := kb, num_keys := kb + 7, exp_data_len := 16 * (kb + 7),
     exp_data := concat (map (key_word kb (key_data k)) [0..<4 * (kb + 7)])\<rparr>)"
proof -
  let ?w = "key_word kb (key_data k)" and ?ex = "take (4 * kb) (key_data k) @ replicate (16 * (kb + 7) - 4 * kb) 0"
  have kb: "kb \<noteq> 0" "length (key_data k) = 4 * kb" using assms(1) by (auto simp: key_ok_def)
  have "concat (map ?w [0..<n]) = take (4 * n) (key_data k)" if "n \<le> kb" for n
    using that
  proof (induction n)
    case (Suc n)
    then have "?w n = take 4 (drop (4 * n) (key_data k))" by (subst key_word.simps) simp
    then show ?case using Suc by (simp add: add.commute [of 4] flip: take_add)
  qed simp
  from this [of kb] have "take (4 * kb) ?ex = concat (map ?w [0..<kb])" using kb by simp
  then have "expand_loop kb (kb + 7) kb ?ex = Some (concat (map ?w [0..<4 * (kb + 7)]))"
    using expand_loop_fips [OF assms(1), of kb ?ex] kb by simp
  then show ?thesis using assms(2,3) kb by (simp add: oaes_key_expand_def Let_def ac_simps)
qed

lemma key_expand_memory:
  "data_len k = 4 * kb \<Longrightarrow> \<not> mem (16 * (kb + 7)) \<Longrightarrow> \<exists>k'. oaes_key_expand mem k = Some (False, k')"
  by (simp add: oaes_key_expand_def Let_def ac_simps)

lemma schedule_expanded:
  assumes "key_ok kb key" and "exp_data k = concat (map (key_word kb key) [0..<4 * (kb + 7)])" and "i < kb + 7"
  shows "schedule_at k (key_word kb key) i"
proof -
  let ?w = "key_word kb key" and ?n = "4 * (kb + 7)"
  have len: "length (?w j) = 4" if "j < ?n" for j using word_length [OF assms(1) that] .
  have "length (concat (map ?w [0..<m])) = 4 * m" if "m \<le> ?n" for m
    using that len by (induction m) simp_all
  from this [OF order_refl] have l: "length (exp_data k) = 4 * ?n" using assms(2) by simp
  have w: "take 4 (drop (j * 4) (exp_data k)) = ?w j" if "j < ?n" for j
    by (rule word_from_schedule [of ?n]) (use len assms(2) l that in simp_all)
  let ?d = "drop (i * 16) (exp_data k)"
  have "take 16 ?d = take 4 ?d @ take 4 (drop 4 ?d) @ take 4 (drop 8 ?d) @ take 4 (drop 12 ?d)"
    using take_add [of 4 12 ?d] take_add [of 4 8 "drop 4 ?d"] take_add [of 4 4 "drop 8 ?d"] by simp
  also have "\<dots> = ?w (4 * i) @ ?w (4 * i + 1) @ ?w (4 * i + 2) @ ?w (4 * i + 3)"
    using w [of "4 * i"] w [of "4 * i + 1"] w [of "4 * i + 2"] w [of "4 * i + 3"] assms(3) by (simp add: ac_simps)
  finally show ?thesis using len assms(3) by (simp add: schedule_at_def round_key_def mult.assoc)
qed

subsection \<open>Decryption undoes encryption\<close>

lemma shift_rows_inverse: "length c = 16 \<Longrightarrow> oaes_inv_shift_rows (oaes_shift_rows c) = c"
proof -
  assume "length c = 16"
  then have c: "c = bytes_of (state_of c)" by (simp add: bytes_of_state)
  show ?thesis by (subst (1 2) c) (simp add: oaes_inv_shift_rows_def oaes_shift_rows_def bytes_of_list)
qed

lemma sub_bytes_inverse: "map oaes_inv_sub_byte (map oaes_sub_byte c) = c"
  by (simp add: comp_def)

lemma xor_bytes_inverse: "length r = length c \<Longrightarrow> xor_bytes (xor_bytes c r) r = c"
  unfolding xor_bytes_def by (rule nth_equalityI) (simp_all add: xor.assoc)

lemma factors_differ:
  "3 \<noteq> (2 :: byte)"
  "9 \<noteq> (2 :: byte)"
  "0xb \<noteq> (2 :: byte)"
  "0xd \<noteq> (2 :: byte)"
  "0xe \<noteq> (2 :: byte)"
  "9 \<noteq> (3 :: byte)"
  "0xb \<noteq> (3 :: byte)"
  "0xd \<noteq> (3 :: byte)"
  "0xe \<noteq> (3 :: byte)"
  "0xb \<noteq> (9 :: byte)"
  "0xd \<noteq> (9 :: byte)"
  "0xe \<noteq> (9 :: byte)"
  "0xd \<noteq> (0xb :: byte)"
  "0xe \<noteq> (0xb :: byte)"
  "0xe \<noteq> (0xd :: byte)"
  by code_simp+

lemma gf_mul_at:
  "oaes_gf_mul b 0x02 = xtime b" "oaes_gf_mul b 0x03 = xtime b XOR b"
  "oaes_gf_mul b 0x09 = xtime (xtime (xtime b)) XOR b" "oaes_gf_mul b 0x0b = xtime (xtime (xtime b)) XOR b XOR xtime b"
  "oaes_gf_mul b 0x0d = xtime (xtime (xtime b)) XOR xtime (xtime b) XOR b"
  "oaes_gf_mul b 0x0e = xtime (xtime (xtime b)) XOR xtime (xtime b) XOR xtime b"
  by (simp_all only: gf_mul_simps factors_differ if_True if_False simp_thms ac_simps)

lemma mix_cols_inverse: "oaes_inv_mix_cols (oaes_mix_cols [a, b, c, d]) = [a, b, c, d]"
  by (simp add: oaes_inv_mix_cols_def oaes_mix_cols_def gf_mul_at) (simp add: xtime_xor xor_cancel ac_simps)

lemma mix_block_inverse:
  assumes "length c = 16"
  shows "mix_block oaes_inv_mix_cols (mix_block oaes_mix_cols c) = c"
proof -
  have c: "c = bytes_of (state_of c)" using assms by (simp add: bytes_of_state)
  have l: "length (oaes_mix_cols w) = 4" for w by (simp add: oaes_mix_cols_def)
  have "mix_block oaes_inv_mix_cols (mix_block oaes_mix_cols (bytes_of s)) = bytes_of s" for s
    by (simp add: mix_block_def l bytes_of_list mix_cols_inverse)
  from this [of "state_of c"] show ?thesis by (simp only: flip: c)
qed

lemma block_lengths [simp]:
  "length (oaes_shift_rows c) = 16" "length (mix_block oaes_mix_cols c) = 16"
  by (simp_all add: oaes_shift_rows_def mix_block_def oaes_mix_cols_def)

lemma length_xor_bytes [simp]: "length (xor_bytes c r) = min (length c) (length r)"
  by (simp add: xor_bytes_def)

definition key_round :: "oaes_key \<Rightarrow> byte list \<Rightarrow> nat \<Rightarrow> byte list" where
  "key_round k c i = xor_bytes (mix_block oaes_mix_cols (oaes_shift_rows (map oaes_sub_byte c))) (round_key k i)"

lemma encrypt_rounds_fold: "fst (encrypt_rounds cb k i n c tr) = foldl (key_round k) c [i..<i + n]"
proof (induction n arbitrary: i c tr)
  case (Suc n)
  have "[i..<i + Suc n] = i # [Suc i..<Suc i + n]" by (simp add: upt_rec)
  then show ?case using Suc by (simp add: Let_def key_round_def)
qed simp

lemma length_rounds:
  assumes "\<forall>j \<in> set js. length (round_key k j) = 16" and "length c = 16"
  shows "length (foldl (key_round k) c js) = 16"
  using assms by (induction js rule: rev_induct) (simp_all add: key_round_def)

lemma decrypt_rounds_inverse:
  assumes "\<forall>i \<in> {1..n}. length (round_key k i) = 16" and "length c = 16"
  shows "fst (decrypt_rounds cb k n (oaes_shift_rows (map oaes_sub_byte (foldl (key_round k) c [1..<Suc n]))) tr)
    = oaes_shift_rows (map oaes_sub_byte c)"
  using assms(1)
proof (induction n arbitrary: tr)
  case (Suc n)
  let ?c = "foldl (key_round k) c [1..<Suc n]"
  have l: "length ?c = 16" by (rule length_rounds) (use Suc.prems assms(2) in \<open>simp_all del: upt_Suc\<close>)
  have "foldl (key_round k) c [1..<Suc (Suc n)] = key_round k ?c (Suc n)" by simp
  moreover have "length (round_key k (Suc n)) = 16" using Suc.prems by simp
  ultimately have step: "mix_block oaes_inv_mix_cols (xor_bytes (map oaes_inv_sub_byte (oaes_inv_shift_rows (oaes_shift_rows
      (map oaes_sub_byte (foldl (key_round k) c [1..<Suc (Suc n)]))))) (round_key k (Suc n))) = oaes_shift_rows (map oaes_sub_byte ?c)"
    by (simp only: key_round_def shift_rows_inverse sub_bytes_inverse xor_bytes_inverse mix_block_inverse length_map block_lengths
        length_xor_bytes min.idem)
  show ?case unfolding decrypt_rounds.simps Let_def step by (rule Suc.IH) (use Suc.prems in simp)
qed simp

text \<open>What the callback sees is no part of the result.\<close>

definition key_cipher :: "oaes_key \<Rightarrow> byte list \<Rightarrow> byte list" where
  "key_cipher k c = xor_bytes (oaes_shift_rows (map oaes_sub_byte
     (foldl (key_round k) (xor_bytes c (round_key k 0)) [1..<num_keys k - 1]))) (round_key k (num_keys k - 1))"

definition key_inverse :: "oaes_key \<Rightarrow> byte list \<Rightarrow> byte list" where
  "key_inverse k c = fst (decrypt_block False k c [])"

lemma encrypt_block_value: "2 \<le> num_keys k \<Longrightarrow> fst (encrypt_block cb k c tr) = key_cipher k c"
proof -
  assume "2 \<le> num_keys k"
  then have "1 + (num_keys k - 1 - 1) = num_keys k - 1" by arith
  then have f: "fst (encrypt_rounds cb k 1 (num_keys k - 1 - 1) c tr) = foldl (key_round k) c [1..<num_keys k - 1]" for c tr
    by (simp only: encrypt_rounds_fold)
  show ?thesis by (simp only: encrypt_block_def Let_def split_beta f key_cipher_def fst_conv)
qed

lemma length_key_cipher: "length (round_key k (num_keys k - 1)) = 16 \<Longrightarrow> length (key_cipher k c) = 16"
  by (simp add: key_cipher_def)

lemma decrypt_encrypt_block:
  assumes "num_keys k = Suc nr" and "0 < nr" and "\<forall>i \<le> nr. length (round_key k i) = 16" and "length c = 16"
  shows "fst (decrypt_block cb k (key_cipher k c) tr') = c"
proof -
  let ?start = "xor_bytes c (round_key k 0)" and ?out = "\<lambda>c. oaes_shift_rows (map oaes_sub_byte c)"
  let ?c = "foldl (key_round k) ?start [1..<nr]"
  have l: "length (round_key k 0) = 16" "length (round_key k nr) = 16" "\<forall>i \<in> {1..nr - 1}. length (round_key k i) = 16"
    using assms(3) by auto
  have e: "key_cipher k c = xor_bytes (?out ?c) (round_key k nr)" by (simp add: key_cipher_def assms(1))
  have "length ?start = 16" using l assms(4) by simp
  from decrypt_rounds_inverse [OF l(3) this]
  have d: "fst (decrypt_rounds cb k (nr - 1) (?out ?c) tr1) = ?out ?start" for tr1 using assms(2) by simp
  have c: "length ?c = 16" by (rule length_rounds) (use assms(3,4) l in auto)
  have "fst (decrypt_block cb k (xor_bytes (?out ?c) (round_key k nr)) tr')
      = xor_bytes (map oaes_inv_sub_byte (oaes_inv_shift_rows (?out ?start))) (round_key k 0)"
    using l c by (simp add: decrypt_block_def Let_def assms(1) split_beta xor_bytes_inverse d [unfolded One_nat_def])
  also have "\<dots> = c"
    using l assms(4) by (simp only: shift_rows_inverse sub_bytes_inverse xor_bytes_inverse length_map length_xor_bytes min.idem)
  finally show ?thesis unfolding e .
qed

subsection \<open>Expanded keys\<close>

definition key_wf :: "oaes_key \<Rightarrow> bool" where
  "key_wf k \<longleftrightarrow> key_ok (key_base k) (key_data k) \<and> data_len k = 4 * key_base k \<and> num_keys k = key_base k + 7
     \<and> exp_data_len k = 16 * num_keys k \<and> exp_data k = concat (map (key_word (key_base k) (key_data k)) [0..<4 * num_keys k])"

lemma key_wf_facts:
  assumes "key_wf k"
  shows "num_keys k = Suc (key_base k + 6)" and "2 \<le> num_keys k" and "length (exp_data k) = 16 * num_keys k"
    and "\<forall>i \<le> key_base k + 6. schedule_at k (key_word (key_base k) (key_data k)) i"
    and "\<forall>i \<le> key_base k + 6. length (round_key k i) = 16"
proof -
  show "num_keys k = Suc (key_base k + 6)" "2 \<le> num_keys k" using assms by (simp_all add: key_wf_def)
  have "length (concat (map (key_word (key_base k) (key_data k)) [0..<m])) = 4 * m" if "m \<le> 4 * num_keys k" for m
    using that assms word_length [of "key_base k" "key_data k"] by (induction m) (simp_all add: key_wf_def)
  from this [OF order_refl] show "length (exp_data k) = 16 * num_keys k" using assms by (simp add: key_wf_def)
  then show "\<forall>i \<le> key_base k + 6. length (round_key k i) = 16" using assms by (simp add: round_key_def key_wf_def)
  show "\<forall>i \<le> key_base k + 6. schedule_at k (key_word (key_base k) (key_data k)) i"
    using assms by (auto intro!: schedule_expanded simp: key_wf_def)
qed

lemma key_wf_inverse: "key_wf k \<Longrightarrow> length c = 16 \<Longrightarrow> fst (decrypt_block cb k (key_cipher k c) tr) = c"
  using key_wf_facts [of k] by (intro decrypt_encrypt_block [of k "key_base k + 6"]) simp_all

lemma key_wf_length: "key_wf k \<Longrightarrow> length (key_cipher k c) = 16"
  using key_wf_facts [of k] by (intro length_key_cipher) simp

lemma key_wf_cipher:
  assumes "key_wf k" and "length c = 16"
  shows "key_cipher k c = aes_cipher (key_word (key_base k) (key_data k)) (key_base k + 6) c"
proof -
  note f = key_wf_facts [OF assms(1)]
  from encrypt_block_fips [OF f(1) _ f(4) assms(2), of False "[]"]
  show ?thesis using encrypt_block_value [OF f(2), of False c "[]"] by auto
qed

lemma key_wf_expand:
  assumes "key_ok kb (key_data k)" and "data_len k = 4 * kb" and "oaes_key_expand mem k = Some (True, k')"
  shows "key_wf k' \<and> key_data k' = key_data k \<and> key_base k' = kb"
proof -
  have "mem (16 * (kb + 7))"
    using assms(2,3) by (auto simp: oaes_key_expand_def Let_def ac_simps split: if_splits)
  from key_expand_fips [OF assms(1,2), of mem, OF this] show ?thesis using assms by (auto simp: key_wf_def)
qed

end
