(* ===== verification/Oaes_Random.thy ===== *)
theory Oaes_Random
  imports Prelude
begin

section \<open>openaes: the random number generator ISAAC\<close>

text \<open>
  \<^verbatim>\<open>isaac/rand.c\<close> and the macro \<^verbatim>\<open>rand\<close> of \<^verbatim>\<open>isaac/rand.h\<close>, from which keys and initialisation vectors are
  drawn. \<^verbatim>\<open>ub4\<close> is \<^verbatim>\<open>unsigned long int\<close>, 64 bits on the machines this development is about (as for
  \<^verbatim>\<open>size_t\<close>), although the generator is made for 32; the byte offset of \<^verbatim>\<open>ind\<close> is then one into
  words of 8 bytes, so that every other one lies across two words, read in little-endian order.
\<close>

abbreviation (input) RANDSIZ :: nat where "RANDSIZ \<equiv> 256"

record randctx =
  randcnt :: u64
  randrsl :: "u64 list"
  randmem :: "u64 list"
  randa :: u64
  randb :: u64
  randc :: u64

definition ind :: "u64 list \<Rightarrow> u64 \<Rightarrow> u64" where
  "ind mm x =
     (let d = unat (x AND 0x3fc)
      in if d mod 8 = 0 then mm ! (d div 8)
         else drop_bit 32 (mm ! (d div 8)) OR push_bit 32 (mm ! (d div 8 + 1)))"

text \<open>The state of \<^verbatim>\<open>isaac\<close>: the memory, the results, \<^verbatim>\<open>a\<close>, \<^verbatim>\<open>b\<close> and the positions \<^verbatim>\<open>m\<close> (which is that of
  \<^verbatim>\<open>r\<close> as well) and \<^verbatim>\<open>m2\<close>.\<close>

type_synonym isaac_state = "u64 list \<times> u64 list \<times> u64 \<times> u64 \<times> nat \<times> nat"

definition rngstep :: "(u64 \<Rightarrow> u64) \<Rightarrow> isaac_state \<Rightarrow> isaac_state" where
  "rngstep mix = (\<lambda>(mm, r, a, b, m, m2).
     let x = mm ! m;
         a = (a XOR mix a) + mm ! m2;
         y = ind mm x + a + b;
         mm = mm[m := y];
         b = ind mm (drop_bit 8 y) + x
     in (mm, r[m := b], a, b, m + 1, m2 + 1))"

definition isaac_step :: "isaac_state \<Rightarrow> isaac_state" where
  "isaac_step s = rngstep (drop_bit 16) (rngstep (push_bit 2) (rngstep (drop_bit 6) (rngstep (push_bit 13) s)))"

fun isaac_loop :: "nat \<Rightarrow> isaac_state \<Rightarrow> isaac_state" where
  "isaac_loop 0 s = s"
| "isaac_loop (Suc n) s = isaac_loop n (isaac_step s)"

definition isaac :: "randctx \<Rightarrow> randctx" where
  "isaac ctx =
     (let ctx = ctx\<lparr>randc := randc ctx + 1\<rparr>;
          (mm, r, a, b, m, m2) = isaac_loop 32 (randmem ctx, randrsl ctx, randa ctx, randb ctx + randc ctx, 0, RANDSIZ div 2);
          (mm, r, a, b, m, m2) = isaac_loop 32 (mm, r, a, b, m, 0)
      in ctx\<lparr>randmem := mm, randrsl := r, randb := b, randa := a\<rparr>)"

type_synonym mixed = "u64 \<times> u64 \<times> u64 \<times> u64 \<times> u64 \<times> u64 \<times> u64 \<times> u64"

definition mix :: "mixed \<Rightarrow> mixed" where
  "mix = (\<lambda>(a, b, c, d, e, f, g, h).
     let a = a XOR push_bit 11 b; d = d + a; b = b + c;
         b = b XOR drop_bit 2 c;  e = e + b; c = c + d;
         c = c XOR push_bit 8 d;  f = f + c; d = d + e;
         d = d XOR drop_bit 16 e; g = g + d; e = e + f;
         e = e XOR push_bit 10 f; h = h + e; f = f + g;
         f = f XOR drop_bit 4 g;  a = a + f; g = g + h;
         g = g XOR push_bit 8 h;  b = b + g; h = h + a;
         h = h XOR drop_bit 9 a;  c = c + h; a = a + b
     in (a, b, c, d, e, f, g, h))"

definition add_words :: "u64 list \<Rightarrow> nat \<Rightarrow> mixed \<Rightarrow> mixed" where
  "add_words r i = (\<lambda>(a, b, c, d, e, f, g, h).
     (a + r ! i, b + r ! (i + 1), c + r ! (i + 2), d + r ! (i + 3), e + r ! (i + 4), f + r ! (i + 5), g + r ! (i + 6), h + r ! (i + 7)))"

definition store_words :: "u64 list \<Rightarrow> nat \<Rightarrow> mixed \<Rightarrow> u64 list" where
  "store_words m i = (\<lambda>(a, b, c, d, e, f, g, h).
     m[i := a, i + 1 := b, i + 2 := c, i + 3 := d, i + 4 := e, i + 5 := f, i + 6 := g, i + 7 := h])"

text \<open>One pass over the memory, of which \<open>n\<close> groups of eight words are left: the words of \<open>src\<close> go in
  first, where there is one; the second pass reads the memory itself.\<close>

fun seed_pass :: "u64 list option \<Rightarrow> nat \<Rightarrow> nat \<Rightarrow> u64 list \<Rightarrow> mixed \<Rightarrow> u64 list \<times> mixed" where
  "seed_pass src 0 i m w = (m, w)"
| "seed_pass src (Suc n) i m w =
     (let w = (case src of None \<Rightarrow> w | Some r \<Rightarrow> add_words r i w);
          w = mix w
      in seed_pass src n (i + 8) (store_words m i w) w)"

fun remix_pass :: "nat \<Rightarrow> nat \<Rightarrow> u64 list \<Rightarrow> mixed \<Rightarrow> u64 list \<times> mixed" where
  "remix_pass 0 i m w = (m, w)"
| "remix_pass (Suc n) i m w =
     (let w = mix (add_words m i w)
      in remix_pass n (i + 8) (store_words m i w) w)"

definition randinit :: "randctx \<Rightarrow> bool \<Rightarrow> randctx" where
  "randinit ctx flag =
     (let ctx = ctx\<lparr>randc := 0, randb := 0, randa := 0\<rparr>;
          g = 0x9e3779b9;
          w = mix (mix (mix (mix (g, g, g, g, g, g, g, g))));
          m = (if flag then
                 (let (m, w) = seed_pass (Some (randrsl ctx)) 32 0 (randmem ctx) w
                  in fst (remix_pass 32 0 m w))
               else fst (seed_pass None 32 0 (randmem ctx) w));
          ctx = isaac (ctx\<lparr>randmem := m\<rparr>)
      in ctx\<lparr>randcnt := of_nat RANDSIZ\<rparr>)"

text \<open>The macro \<^verbatim>\<open>rand\<close>; \<^verbatim>\<open>randcnt--\<close> wraps around when it was 0.\<close>

definition rand :: "randctx \<Rightarrow> u64 \<times> randctx" where
  "rand r =
     (let r' = r\<lparr>randcnt := randcnt r - 1\<rparr>
      in if randcnt r = 0 then
           let r' = (isaac r')\<lparr>randcnt := of_nat RANDSIZ - 1\<rparr>
           in (randrsl r' ! unat (randcnt r'), r')
         else (randrsl r' ! unat (randcnt r'), r'))"

text \<open>\<open>n\<close> draws, in order.\<close>

fun draws :: "nat \<Rightarrow> randctx \<Rightarrow> u64 list \<times> randctx" where
  "draws 0 r = ([], r)"
| "draws (Suc n) r =
     (let (x, r) = rand r;
          (xs, r) = draws n r
      in (x # xs, r))"

subsection \<open>The arrays\<close>

definition rand_ok :: "randctx \<Rightarrow> bool" where
  "rand_ok r \<longleftrightarrow> length (randrsl r) = RANDSIZ \<and> length (randmem r) = RANDSIZ \<and> randcnt r \<le> of_nat RANDSIZ"

definition at_step :: "nat \<Rightarrow> nat \<Rightarrow> isaac_state \<Rightarrow> bool" where
  "at_step i j = (\<lambda>(mm, r, a, b, m, m2). length mm = RANDSIZ \<and> length r = RANDSIZ \<and> m = i \<and> m2 = j)"

lemma isaac_loop_keeps: "at_step i j s \<Longrightarrow> at_step (i + 4 * n) (j + 4 * n) (isaac_loop n s)"
proof (induction n arbitrary: i j s)
  case (Suc n)
  have "at_step (i + 1) (j + 1) (rngstep f s)" if "at_step i j s" for f i j s
    using that by (cases s) (simp add: at_step_def rngstep_def Let_def)
  then have "at_step (i + 4) (j + 4) (isaac_step s)"
    using Suc.prems unfolding isaac_step_def by (metis (no_types) add.assoc numeral_Bit0 one_add_one)
  from Suc.IH [OF this] show ?case by (simp add: ac_simps)
qed simp

lemma isaac_keeps:
  assumes "length (randrsl r) = RANDSIZ" and "length (randmem r) = RANDSIZ"
  shows "length (randrsl (isaac r)) = RANDSIZ" and "length (randmem (isaac r)) = RANDSIZ"
proof -
  let ?s = "(randmem r, randrsl r, randa r, randb r + (randc r + 1), 0, RANDSIZ div 2)"
  obtain mm rs a b m m2 where s: "isaac_loop 32 ?s = (mm, rs, a, b, m, m2)" by (metis prod_cases6)
  obtain mm' rs' a' b' m' m2' where t: "isaac_loop 32 (mm, rs, a, b, m, 0) = (mm', rs', a', b', m', m2')" by (metis prod_cases6)
  have "at_step 0 128 ?s" using assms by (simp add: at_step_def)
  from isaac_loop_keeps [OF this, of 32] have "at_step m 0 (mm, rs, a, b, m, 0)" unfolding s by (simp add: at_step_def)
  from isaac_loop_keeps [OF this, of 32]
  show "length (randrsl (isaac r)) = RANDSIZ" "length (randmem (isaac r)) = RANDSIZ"
    using s t by (simp_all add: at_step_def isaac_def Let_def)
qed

lemma seed_pass_length: "length (fst (seed_pass src n i m w)) = length m"
  by (induction n arbitrary: i m w) (simp_all add: Let_def store_words_def split_beta)

lemma remix_pass_length: "length (fst (remix_pass n i m w)) = length m"
  by (induction n arbitrary: i m w) (simp_all add: Let_def store_words_def split_beta)

lemma randinit_ok:
  assumes "length (randrsl r) = RANDSIZ" and "length (randmem r) = RANDSIZ"
  shows "rand_ok (randinit r flag) \<and> randcnt (randinit r flag) = 256"
  using assms by (auto simp: rand_ok_def randinit_def Let_def split_beta isaac_keeps seed_pass_length remix_pass_length)

lemma rand_below:
  "rand_ok r \<Longrightarrow> randcnt r \<noteq> 0 \<Longrightarrow> rand r = (randrsl r ! unat (randcnt r - 1), r\<lparr>randcnt := randcnt r - 1\<rparr>)"
  by (simp add: rand_def Let_def)

lemma unat_minus_1: "x \<noteq> 0 \<Longrightarrow> unat (x - 1 :: u64) = unat x - 1"
  by (simp add: unat_minus_one)

lemma rand_keeps: "rand_ok r \<Longrightarrow> rand_ok (snd (rand r))"
proof (cases "randcnt r = 0")
  case False
  assume r: "rand_ok r"
  have "randcnt r - 1 \<le> 256"
    using r unat_minus_1 [OF False] by (auto simp: rand_ok_def word_le_nat_alt)
  then show ?thesis using r False by (simp add: rand_below rand_ok_def)
qed (simp add: rand_def Let_def rand_ok_def isaac_keeps)

lemma draws_batch:
  assumes "rand_ok r" and "unat (randcnt r) = n"
  shows "draws n r = (rev (take n (randrsl r)), r\<lparr>randcnt := 0\<rparr>)"
  using assms
proof (induction n arbitrary: r)
  case 0
  then show ?case by (simp add: unat_eq_0)
next
  case (Suc n)
  let ?r = "r\<lparr>randcnt := randcnt r - 1\<rparr>"
  have nz: "randcnt r \<noteq> 0" using Suc.prems by auto
  then have n: "unat (randcnt r - 1) = n" using unat_minus_1 Suc.prems by simp
  have "rand_ok ?r" using rand_keeps [OF Suc.prems(1)] rand_below [OF Suc.prems(1) nz] by simp
  from Suc.IH [OF this] have "draws n ?r = (rev (take n (randrsl r)), ?r\<lparr>randcnt := 0\<rparr>)" using n by simp
  moreover have "n < length (randrsl r)"
    using Suc.prems by (simp add: rand_ok_def word_le_nat_alt)
  ultimately show ?case
    by (simp add: rand_below [OF Suc.prems(1) nz] n take_Suc_conv_app_nth)
qed

subsection \<open>Properties\<close>

text \<open>The arrays of the generator keep their 256 words and the counter its range whatever is drawn. A
  batch of results is handed out from the last to the first, each once, and the draw after it runs
  \<^verbatim>\<open>isaac\<close> and takes the last word of the new batch, leaving 255.\<close>

theorem rand_batches:
  assumes "rand_ok r"
  shows "rand_ok (snd (rand r))
    \<and> draws (unat (randcnt r)) r = (rev (take (unat (randcnt r)) (randrsl r)), r\<lparr>randcnt := 0\<rparr>)
    \<and> (let r' = isaac (r\<lparr>randcnt := - 1\<rparr>) in rand (r\<lparr>randcnt := 0\<rparr>) = (last (randrsl r'), r'\<lparr>randcnt := 255\<rparr>))"
proof -
  let ?i = "isaac (r\<lparr>randcnt := - 1\<rparr>)"
  have "length (randrsl ?i) = 256" using assms by (simp add: isaac_keeps rand_ok_def)
  then have "last (randrsl ?i) = randrsl ?i ! 255" by (subst last_conv_nth) auto
  then show ?thesis
    using rand_keeps [OF assms] draws_batch [OF assms] by (simp add: rand_def Let_def)
qed

definition zero_rand :: randctx where
  "zero_rand = \<lparr>randcnt = 0, randrsl = replicate 256 0, randmem = replicate 256 0, randa = 0, randb = 0, randc = 0\<rparr>"

theorem rand_batches_witness:
  "draws 256 (randinit zero_rand True) = (rev (randrsl (randinit zero_rand True)), (randinit zero_rand True)\<lparr>randcnt := 0\<rparr>)"
proof -
  have "rand_ok (randinit zero_rand True) \<and> randcnt (randinit zero_rand True) = 256"
    by (rule randinit_ok) (simp_all add: zero_rand_def)
  then show ?thesis using rand_batches [of "randinit zero_rand True"] by (simp add: rand_ok_def)
qed

end
