(* ===== verification/Oaes.thy ===== *)
theory Oaes
  imports Oaes_Cipher Oaes_Random "HOL-Library.Monad_Syntax"
begin

section \<open>openaes: contexts, keys and messages\<close>

text \<open>
  The interface of \<^verbatim>\<open>oaes_lib.c\<close>: contexts and their options, generation, export and import of keys,
  encryption and decryption of messages with the header and the padding of the library. A pointer
  argument is an option, \<open>None\<close> for the null pointer, and so is the memory it points to when the
  operation writes it. Lengths are \<^verbatim>\<open>size_t\<close>, \<open>u64\<close>; those of keys are \<open>nat\<close>. The outer \<open>None\<close> of a
  result stands for an access outside the memory given, \<open>mem n\<close> tells whether \<^verbatim>\<open>calloc\<close> finds \<open>n\<close> bytes.
  As built, \<^verbatim>\<open>OAES_HAVE_ISAAC\<close> and \<^verbatim>\<open>OAES_DEBUG\<close> are defined.
\<close>

datatype OAES_RET = OAES_RET_SUCCESS | OAES_RET_UNKNOWN | OAES_RET_ARG1 | OAES_RET_ARG2 | OAES_RET_ARG3 | OAES_RET_ARG4
  | OAES_RET_ARG5 | OAES_RET_NOKEY | OAES_RET_MEM | OAES_RET_BUF | OAES_RET_HEADER

type_synonym u16 = "16 word"

definition OAES_OPTION_ECB :: u16 where "OAES_OPTION_ECB = 1"
definition OAES_OPTION_CBC :: u16 where "OAES_OPTION_CBC = 2"
definition OAES_OPTION_STEP_ON :: u16 where "OAES_OPTION_STEP_ON = 4"
definition OAES_OPTION_STEP_OFF :: u16 where "OAES_OPTION_STEP_OFF = 8"
definition OAES_FLAG_PAD :: byte where "OAES_FLAG_PAD = 0x01"

definition oaes_header :: "byte list" where
  "oaes_header = [0x4f, 0x41, 0x45, 0x53, 0x01, 0x02, 0x00, 0x00, 0x00, 0x00, 0x00, 0x00, 0x00, 0x00, 0x00, 0x00]"

text \<open>Of the step callback only whether one is set is kept.\<close>

record oaes_ctx =
  rctx :: randctx
  step_cb :: bool
  ctx_key :: "oaes_key option"
  options :: u16
  ctx_iv :: "byte list"

text \<open>The result of \<^verbatim>\<open>_rc || r\<close> as a return code.\<close>

definition rc_or :: "OAES_RET \<Rightarrow> OAES_RET \<Rightarrow> OAES_RET" where
  "rc_or rc r = (if rc \<noteq> OAES_RET_SUCCESS \<or> r \<noteq> OAES_RET_SUCCESS then OAES_RET_UNKNOWN else OAES_RET_SUCCESS)"

definition copy_to :: "byte list \<Rightarrow> nat \<Rightarrow> byte list \<Rightarrow> byte list" where
  "copy_to buf i bs = take i buf @ bs @ drop (i + length bs) buf"

subsection \<open>Contexts\<close>

text \<open>\<open>n\<close> random bytes, each the low byte of a draw.\<close>

definition random_bytes :: "nat \<Rightarrow> randctx \<Rightarrow> byte list \<times> randctx" where
  "random_bytes n r = (let (xs, r) = draws n r in (map ucast xs, r))"

text \<open>\<open>value\<close> is the memory of the initialisation vector of CBC, or any other than \<open>None\<close> for the callback
  of STEP_ON.\<close>

definition oaes_set_option :: "oaes_ctx option \<Rightarrow> u16 \<Rightarrow> byte list option \<Rightarrow> (OAES_RET \<times> oaes_ctx option) option" where
  "oaes_set_option ctx opt value =
     (case ctx of
        None \<Rightarrow> Some (OAES_RET_ARG1, None)
      | Some c \<Rightarrow>
          let added = (\<lambda>c. Some (OAES_RET_SUCCESS, Some (c\<lparr>options := options c OR opt\<rparr>)))
          in if opt = OAES_OPTION_ECB then
               added (c\<lparr>options := options c AND NOT OAES_OPTION_CBC, ctx_iv := replicate OAES_BLOCK_SIZE 0\<rparr>)
             else if opt = OAES_OPTION_CBC then
               (let c = c\<lparr>options := options c AND NOT OAES_OPTION_ECB\<rparr>
                in case value of
                     Some v \<Rightarrow> if length v < OAES_BLOCK_SIZE then None else added (c\<lparr>ctx_iv := take OAES_BLOCK_SIZE v\<rparr>)
                   | None \<Rightarrow>
                       let (bs, r) = random_bytes OAES_BLOCK_SIZE (rctx c)
                       in added (c\<lparr>ctx_iv := bs, rctx := r\<rparr>))
             else if opt = OAES_OPTION_STEP_ON then
               (if value \<noteq> None then
                  added (c\<lparr>options := options c AND NOT OAES_OPTION_STEP_OFF, step_cb := True\<rparr>)
                else
                  Some (OAES_RET_ARG3, Some (c\<lparr>options := (options c AND NOT OAES_OPTION_STEP_ON) OR OAES_OPTION_STEP_OFF, step_cb := False\<rparr>)))
             else if opt = OAES_OPTION_STEP_OFF then
               added (c\<lparr>options := options c AND NOT OAES_OPTION_STEP_ON, step_cb := False\<rparr>)
             else Some (OAES_RET_ARG2, Some c))"

text \<open>\<open>seed\<close> is the 256 bytes \<^verbatim>\<open>oaes_get_seed\<close> leaves in its buffer; they go into the first bytes of the
  results of a generator of zeros, before \<^verbatim>\<open>randinit\<close>. The sizes are those of the two structures.\<close>

definition le_word :: "byte list \<Rightarrow> u64" where
  "le_word bs = foldr (\<lambda>b w. push_bit 8 w OR ucast b) bs 0"

definition seed_words :: "byte list \<Rightarrow> u64 list" where
  "seed_words seed = map (\<lambda>i. le_word (take 8 (drop (8 * i) (take RANDSIZ seed)))) [0..<RANDSIZ div 8]"

definition oaes_alloc :: "(nat \<Rightarrow> bool) \<Rightarrow> byte list \<Rightarrow> oaes_ctx option option" where
  "oaes_alloc mem seed =
     (if \<not> mem 48 then Some None
      else if \<not> mem 4128 then Some None
      else
        let r = \<lparr>randcnt = 0, randrsl = replicate RANDSIZ 0, randmem = replicate RANDSIZ 0, randa = 0, randb = 0, randc = 0\<rparr>;
            r = r\<lparr>randrsl := seed_words seed @ drop (RANDSIZ div 8) (randrsl r)\<rparr>;
            r = randinit r True;
            ctx = Some \<lparr>rctx = r, step_cb = False, ctx_key = None, options = 0, ctx_iv = replicate OAES_BLOCK_SIZE 0\<rparr>
        in do {
             (rc, ctx) \<leftarrow> oaes_set_option ctx OAES_OPTION_CBC None;
             (rc, ctx) \<leftarrow> oaes_set_option ctx OAES_OPTION_STEP_OFF None;
             Some ctx
           })"

text \<open>A key is gone with its context; the context pointer itself may be null, or point to a null pointer.\<close>

definition oaes_key_destroy :: "oaes_key option \<Rightarrow> oaes_key option" where
  "oaes_key_destroy key = None"

definition oaes_free :: "oaes_ctx option option \<Rightarrow> OAES_RET \<times> oaes_ctx option option" where
  "oaes_free ctx =
     (case ctx of
        None \<Rightarrow> (OAES_RET_ARG1, None)
      | Some None \<Rightarrow> (OAES_RET_SUCCESS, Some None)
      | Some (Some c) \<Rightarrow> (OAES_RET_SUCCESS, Some None))"

subsection \<open>Keys\<close>

definition fresh_key :: "nat \<Rightarrow> byte list \<Rightarrow> oaes_key" where
  "fresh_key n bs = \<lparr>data_len = n, key_data = bs, exp_data_len = 0, exp_data = [], num_keys = 0, key_base = 0\<rparr>"

text \<open>The end of \<^verbatim>\<open>oaes_key_gen\<close> and of the imports: the new key is expanded, or destroyed.\<close>

definition set_key :: "(nat \<Rightarrow> bool) \<Rightarrow> oaes_ctx \<Rightarrow> oaes_key \<Rightarrow> (OAES_RET \<times> oaes_ctx) option" where
  "set_key mem c k =
     (case oaes_key_expand mem k of
        None \<Rightarrow> None
      | Some (ok, k) \<Rightarrow>
          let rc = rc_or OAES_RET_SUCCESS (if ok then OAES_RET_SUCCESS else OAES_RET_MEM);
              c = c\<lparr>ctx_key := Some k\<rparr>
          in if rc \<noteq> OAES_RET_SUCCESS then Some (rc, c\<lparr>ctx_key := oaes_key_destroy (ctx_key c)\<rparr>)
             else Some (OAES_RET_SUCCESS, c))"

text \<open>When there is no memory for the new key's bytes the old key is already destroyed.\<close>

definition oaes_key_gen :: "(nat \<Rightarrow> bool) \<Rightarrow> oaes_ctx option \<Rightarrow> nat \<Rightarrow> (OAES_RET \<times> oaes_ctx option) option" where
  "oaes_key_gen mem ctx key_size =
     (case ctx of
        None \<Rightarrow> Some (OAES_RET_ARG1, None)
      | Some c \<Rightarrow>
          if \<not> mem 48 then Some (OAES_RET_MEM, Some c)
          else
            let c = c\<lparr>ctx_key := oaes_key_destroy (ctx_key c)\<rparr>
            in if \<not> mem key_size then Some (OAES_RET_MEM, Some c)
               else
                 let (bs, r) = random_bytes key_size (rctx c);
                     c = c\<lparr>rctx := r\<rparr>
                 in map_option (map_prod id Some) (set_key mem c (fresh_key key_size bs)))"

definition oaes_key_gen_128 :: "(nat \<Rightarrow> bool) \<Rightarrow> oaes_ctx option \<Rightarrow> (OAES_RET \<times> oaes_ctx option) option" where
  "oaes_key_gen_128 mem ctx = oaes_key_gen mem ctx 16"

definition oaes_key_gen_192 :: "(nat \<Rightarrow> bool) \<Rightarrow> oaes_ctx option \<Rightarrow> (OAES_RET \<times> oaes_ctx option) option" where
  "oaes_key_gen_192 mem ctx = oaes_key_gen mem ctx 24"

definition oaes_key_gen_256 :: "(nat \<Rightarrow> bool) \<Rightarrow> oaes_ctx option \<Rightarrow> (OAES_RET \<times> oaes_ctx option) option" where
  "oaes_key_gen_256 mem ctx = oaes_key_gen mem ctx 32"

text \<open>The two exports; the result has the new \<^verbatim>\<open>*data_len\<close> and the buffer.\<close>

type_synonym exported = "OAES_RET \<times> u64 option \<times> byte list option"

definition oaes_key_export :: "oaes_ctx option \<Rightarrow> byte list option \<Rightarrow> u64 option \<Rightarrow> exported option" where
  "oaes_key_export ctx data len =
     (case ctx of
        None \<Rightarrow> Some (OAES_RET_ARG1, len, data)
      | Some c \<Rightarrow>
        case ctx_key c of
          None \<Rightarrow> Some (OAES_RET_NOKEY, len, data)
        | Some k \<Rightarrow>
          case len of
            None \<Rightarrow> Some (OAES_RET_ARG3, len, data)
          | Some len_in \<Rightarrow>
              let out = of_nat (data_len k) + of_nat OAES_BLOCK_SIZE
              in case data of
                   None \<Rightarrow> Some (OAES_RET_SUCCESS, Some out, None)
                 | Some d \<Rightarrow>
                     if len_in < out then Some (OAES_RET_BUF, Some out, Some d)
                     else if length d < OAES_BLOCK_SIZE + data_len k \<or> length (key_data k) < data_len k then None
                     else
                       let d = copy_to d 0 oaes_header;
                           d = d[5 := 0x01];
                           d = d[7 := of_nat (data_len k)];
                           d = copy_to d OAES_BLOCK_SIZE (take (data_len k) (key_data k))
                       in Some (OAES_RET_SUCCESS, Some out, Some d))"

definition oaes_key_export_data :: "oaes_ctx option \<Rightarrow> byte list option \<Rightarrow> u64 option \<Rightarrow> exported option" where
  "oaes_key_export_data ctx data len =
     (case ctx of
        None \<Rightarrow> Some (OAES_RET_ARG1, len, data)
      | Some c \<Rightarrow>
        case ctx_key c of
          None \<Rightarrow> Some (OAES_RET_NOKEY, len, data)
        | Some k \<Rightarrow>
          case len of
            None \<Rightarrow> Some (OAES_RET_ARG3, len, data)
          | Some len_in \<Rightarrow>
              let out = of_nat (data_len k)
              in case data of
                   None \<Rightarrow> Some (OAES_RET_SUCCESS, Some out, None)
                 | Some d \<Rightarrow>
                     if len_in < out then Some (OAES_RET_BUF, Some out, Some d)
                     else if length d < data_len k \<or> length (key_data k) < data_len k then None
                     else Some (OAES_RET_SUCCESS, Some out, Some (copy_to d 0 (take (data_len k) (key_data k)))))"

text \<open>The last part of the two imports, for the key in \<open>bs\<close>.\<close>

definition import_key :: "(nat \<Rightarrow> bool) \<Rightarrow> oaes_ctx \<Rightarrow> byte list \<Rightarrow> (OAES_RET \<times> oaes_ctx option) option" where
  "import_key mem c bs =
     (let c = c\<lparr>ctx_key := oaes_key_destroy (ctx_key c)\<rparr>
      in if \<not> mem 48 then Some (OAES_RET_MEM, Some c)
         else if \<not> mem (length bs) then Some (OAES_RET_MEM, Some c)
         else map_option (map_prod id Some) (set_key mem c (fresh_key (length bs) bs)))"

definition oaes_key_import :: "(nat \<Rightarrow> bool) \<Rightarrow> oaes_ctx option \<Rightarrow> byte list option \<Rightarrow> u64 \<Rightarrow> (OAES_RET \<times> oaes_ctx option) option" where
  "oaes_key_import mem ctx data len =
     (case ctx of
        None \<Rightarrow> Some (OAES_RET_ARG1, None)
      | Some c \<Rightarrow>
        case data of
          None \<Rightarrow> Some (OAES_RET_ARG2, Some c)
        | Some d \<Rightarrow>
          if \<not> (len = 16 + 16 \<or> len = 24 + 16 \<or> len = 32 + 16) then Some (OAES_RET_ARG3, Some c)
          else if length d < unat len then None
          else if take 4 d \<noteq> take 4 oaes_header then Some (OAES_RET_HEADER, Some c)
          else if d ! 4 \<noteq> 0x01 then Some (OAES_RET_HEADER, Some c)
          else if d ! 5 \<noteq> 0x01 then Some (OAES_RET_HEADER, Some c)
          else
            let key_length = unat (d ! 7)
            in if \<not> (key_length = 16 \<or> key_length = 24 \<or> key_length = 32) then Some (OAES_RET_HEADER, Some c)
               else if unat len \<noteq> key_length + OAES_BLOCK_SIZE then Some (OAES_RET_ARG3, Some c)
               else import_key mem c (take key_length (drop OAES_BLOCK_SIZE d)))"

definition oaes_key_import_data :: "(nat \<Rightarrow> bool) \<Rightarrow> oaes_ctx option \<Rightarrow> byte list option \<Rightarrow> u64 \<Rightarrow> (OAES_RET \<times> oaes_ctx option) option" where
  "oaes_key_import_data mem ctx data len =
     (case ctx of
        None \<Rightarrow> Some (OAES_RET_ARG1, None)
      | Some c \<Rightarrow>
        case data of
          None \<Rightarrow> Some (OAES_RET_ARG2, Some c)
        | Some d \<Rightarrow>
          if \<not> (len = 16 \<or> len = 24 \<or> len = 32) then Some (OAES_RET_ARG3, Some c)
          else if length d < unat len then None
          else import_key mem c (take (unat len) d))"

subsection \<open>Messages\<close>

text \<open>One block, at the start of \<open>c\<close>; the last result is what the step callback has been shown. An
  expanded key has at least two round keys and all of them in \<^verbatim>\<open>exp_data\<close>.\<close>

type_synonym block_result = "OAES_RET \<times> byte list option \<times> oaes_step list"

definition expanded :: "oaes_key \<Rightarrow> bool" where
  "expanded k \<longleftrightarrow> 2 \<le> num_keys k \<and> num_keys k * OAES_RKEY_LEN * OAES_COL_LEN \<le> length (exp_data k)"

definition crypt_block :: "(bool \<Rightarrow> oaes_key \<Rightarrow> byte list \<Rightarrow> oaes_step list \<Rightarrow> byte list \<times> oaes_step list)
    \<Rightarrow> oaes_ctx option \<Rightarrow> byte list option \<Rightarrow> nat \<Rightarrow> oaes_step list \<Rightarrow> block_result option" where
  "crypt_block f ctx c c_len tr =
     (case ctx of
        None \<Rightarrow> Some (OAES_RET_ARG1, c, tr)
      | Some x \<Rightarrow>
        case c of
          None \<Rightarrow> Some (OAES_RET_ARG2, c, tr)
        | Some b \<Rightarrow>
          if c_len \<noteq> OAES_BLOCK_SIZE then Some (OAES_RET_ARG3, c, tr)
          else
            case ctx_key x of
              None \<Rightarrow> Some (OAES_RET_NOKEY, c, tr)
            | Some k \<Rightarrow>
                if length b < OAES_BLOCK_SIZE \<or> \<not> expanded k then None
                else
                  let (d, tr) = f (step_cb x) k (take OAES_BLOCK_SIZE b) tr
                  in Some (OAES_RET_SUCCESS, Some (copy_to b 0 d), tr))"

definition oaes_encrypt_block :: "oaes_ctx option \<Rightarrow> byte list option \<Rightarrow> nat \<Rightarrow> oaes_step list \<Rightarrow> block_result option" where
  "oaes_encrypt_block = crypt_block encrypt_block"

definition oaes_decrypt_block :: "oaes_ctx option \<Rightarrow> byte list option \<Rightarrow> nat \<Rightarrow> oaes_step list \<Rightarrow> block_result option" where
  "oaes_decrypt_block = crypt_block decrypt_block"

text \<open>The two bytes of the options, in little-endian order, and back.\<close>

definition option_bytes :: "u16 \<Rightarrow> byte list" where
  "option_bytes x = [ucast x, ucast (drop_bit 8 x)]"

definition bytes_option :: "byte list \<Rightarrow> u16" where
  "bytes_option bs = ucast (bs ! 0) OR push_bit 8 (ucast (bs ! 1))"

text \<open>The loop of \<^verbatim>\<open>oaes_encrypt\<close> from position \<open>i\<close> on. Once \<^verbatim>\<open>_rc\<close> is not 0, \<^verbatim>\<open>||\<close> leaves out the call.\<close>

function encrypt_loop :: "nat \<Rightarrow> nat \<Rightarrow> nat \<Rightarrow> oaes_ctx \<Rightarrow> byte list \<Rightarrow> OAES_RET \<Rightarrow> oaes_step list
    \<Rightarrow> (oaes_ctx \<times> byte list \<times> OAES_RET \<times> oaes_step list) option" where
  "encrypt_loop m_len c_data_len i x c rc tr =
     (if i < c_data_len then do {
        let block_size = min (m_len - i) OAES_BLOCK_SIZE;
        let cbc = (options x AND OAES_OPTION_CBC \<noteq> 0);
        let block = take block_size (drop (2 * OAES_BLOCK_SIZE + i) c)
              @ map (\<lambda>j. of_nat (j + 1)) [0..<OAES_BLOCK_SIZE - block_size];
        let block = (if cbc then xor_bytes block (ctx_iv x) else block);
        (rc, b, tr) \<leftarrow> (if rc \<noteq> OAES_RET_SUCCESS then Some (rc_or rc rc, Some block, tr)
            else map_option (\<lambda>(r, b, tr). (rc_or rc r, b, tr)) (oaes_encrypt_block (Some x) (Some block) OAES_BLOCK_SIZE tr));
        block \<leftarrow> b;
        let c = copy_to c (2 * OAES_BLOCK_SIZE + i) block;
        let x = (if cbc then x\<lparr>ctx_iv := block\<rparr> else x);
        encrypt_loop m_len c_data_len (i + OAES_BLOCK_SIZE) x c rc tr
      }
      else Some (x, c, rc, tr))"
  by pat_completeness auto
termination by (relation "measure (\<lambda>(m_len, n, i, _). n - i)") auto

declare encrypt_loop.simps [simp del]

text \<open>The result: the return code, the context, the buffer, \<^verbatim>\<open>*c_len\<close> and the steps shown.\<close>

type_synonym crypt_result = "OAES_RET \<times> oaes_ctx option \<times> byte list option \<times> u64 option \<times> oaes_step list"

definition oaes_encrypt :: "oaes_ctx option \<Rightarrow> byte list option \<Rightarrow> u64 \<Rightarrow> byte list option \<Rightarrow> u64 option \<Rightarrow> oaes_step list
    \<Rightarrow> crypt_result option" where
  "oaes_encrypt ctx m m_len c c_len tr =
     (let pad_len = (if m_len mod 16 = 0 then 0 else 16 - m_len mod 16);
          flags = (if pad_len \<noteq> 0 then OAES_FLAG_PAD else 0)
      in case ctx of
           None \<Rightarrow> Some (OAES_RET_ARG1, None, c, c_len, tr)
         | Some x \<Rightarrow>
           case m of
             None \<Rightarrow> Some (OAES_RET_ARG2, Some x, c, c_len, tr)
           | Some mb \<Rightarrow>
             case c_len of
               None \<Rightarrow> Some (OAES_RET_ARG5, Some x, c, None, tr)
             | Some c_len_in \<Rightarrow>
                 let c_data_len = m_len + pad_len;
                     out = 2 * 16 + m_len + pad_len
                 in case c of
                      None \<Rightarrow> Some (OAES_RET_SUCCESS, Some x, None, Some out, tr)
                    | Some cb \<Rightarrow>
                        if c_len_in < out then Some (OAES_RET_BUF, Some x, Some cb, Some out, tr)
                        else if ctx_key x = None then Some (OAES_RET_NOKEY, Some x, Some cb, Some out, tr)
                        else if length cb < unat out \<or> length cb < 2 * OAES_BLOCK_SIZE + unat m_len \<or> length mb < unat m_len then None
                        else
                          let cb = copy_to cb 0 oaes_header;
                              cb = copy_to cb 6 (option_bytes (options x));
                              cb = copy_to cb 8 [flags];
                              cb = copy_to cb OAES_BLOCK_SIZE (ctx_iv x);
                              cb = copy_to cb (2 * OAES_BLOCK_SIZE) (take (unat m_len) mb)
                          in do {
                               (x, cb, rc, tr) \<leftarrow> encrypt_loop (unat m_len) (unat c_data_len) 0 x cb OAES_RET_SUCCESS tr;
                               Some (rc, Some x, Some cb, Some out, tr)
                             })"

text \<open>The loop of \<^verbatim>\<open>oaes_decrypt\<close>; its result has \<^verbatim>\<open>_rc\<close>, which the function does not look at again.\<close>

function decrypt_loop :: "bool \<Rightarrow> byte list \<Rightarrow> nat \<Rightarrow> nat \<Rightarrow> oaes_ctx \<Rightarrow> byte list \<Rightarrow> byte list \<Rightarrow> OAES_RET \<Rightarrow> oaes_step list
    \<Rightarrow> (byte list \<times> OAES_RET \<times> oaes_step list) option" where
  "decrypt_loop cbc c m_len i x iv m rc tr =
     (if i < m_len then do {
        let iv = (if cbc \<and> i > 0 then take OAES_BLOCK_SIZE (drop (OAES_BLOCK_SIZE + i) c) else iv);
        let n = min (m_len - i) OAES_BLOCK_SIZE;
        (rc, b, tr) \<leftarrow> (if rc \<noteq> OAES_RET_SUCCESS then Some (rc_or rc rc, Some (drop i m), tr)
            else map_option (\<lambda>(r, b, tr). (rc_or rc r, b, tr)) (oaes_decrypt_block (Some x) (Some (drop i m)) n tr));
        rest \<leftarrow> b;
        let m = take i m @ rest;
        (if cbc \<and> length m < i + OAES_BLOCK_SIZE then None
         else
           let m = (if cbc then copy_to m i (xor_bytes (take OAES_BLOCK_SIZE (drop i m)) iv) else m)
           in decrypt_loop cbc c m_len (i + OAES_BLOCK_SIZE) x iv m rc tr)
      }
      else Some (m, rc, tr))"
  by pat_completeness auto
termination by (relation "measure (\<lambda>(cbc, c, n, i, _). n - i)") auto

declare decrypt_loop.simps [simp del]

text \<open>The removal of the padding from the first \<open>len\<close> bytes of \<open>m\<close>; for no byte at all it reads before
  the buffer.\<close>

definition remove_pad :: "byte list \<Rightarrow> nat \<Rightarrow> (OAES_RET \<times> byte list \<times> nat) option" where
  "remove_pad m len =
     (if len = 0 then None
      else
        let temp = unat (m ! (len - 1))
        in if temp \<le> 0 \<or> temp > 0x0f then Some (OAES_RET_HEADER, m, len)
           else if len < temp then None
           else if \<forall>i \<in> {0..<temp}. unat (m ! (len - 1 - i)) = temp - i
           then Some (OAES_RET_SUCCESS, copy_to m (len - temp) (replicate temp 0), len - temp)
           else Some (OAES_RET_HEADER, m, len))"

text \<open>The tests of the header: everything from the magic to the flags.\<close>

definition header_ok :: "byte list \<Rightarrow> bool" where
  "header_ok c =
     (let opts = bytes_option (take 2 (drop 6 c)); flags = c ! 8
      in take 4 c = take 4 oaes_header \<and> c ! 4 = 0x01 \<and> c ! 5 = 0x02
         \<and> opts AND NOT (OAES_OPTION_ECB OR OAES_OPTION_CBC OR OAES_OPTION_STEP_ON OR OAES_OPTION_STEP_OFF) = 0
         \<and> \<not> (opts AND OAES_OPTION_ECB \<noteq> 0 \<and> opts AND OAES_OPTION_CBC \<noteq> 0)
         \<and> opts \<noteq> 0
         \<and> flags AND NOT OAES_FLAG_PAD = 0)"

definition oaes_decrypt :: "oaes_ctx option \<Rightarrow> byte list option \<Rightarrow> u64 \<Rightarrow> byte list option \<Rightarrow> u64 option \<Rightarrow> oaes_step list
    \<Rightarrow> crypt_result option" where
  "oaes_decrypt ctx c c_len m m_len tr =
     (case ctx of
        None \<Rightarrow> Some (OAES_RET_ARG1, None, m, m_len, tr)
      | Some x \<Rightarrow>
        case c of
          None \<Rightarrow> Some (OAES_RET_ARG2, Some x, m, m_len, tr)
        | Some cb \<Rightarrow>
          if c_len mod 16 \<noteq> 0 then Some (OAES_RET_ARG3, Some x, m, m_len, tr)
          else
            case m_len of
              None \<Rightarrow> Some (OAES_RET_ARG5, Some x, m, None, tr)
            | Some m_len_in \<Rightarrow>
                let out = c_len - 2 * 16
                in case m of
                     None \<Rightarrow> Some (OAES_RET_SUCCESS, Some x, None, Some out, tr)
                   | Some mb \<Rightarrow>
                       if m_len_in < out then Some (OAES_RET_BUF, Some x, Some mb, Some out, tr)
                       else if ctx_key x = None then Some (OAES_RET_NOKEY, Some x, Some mb, Some out, tr)
                       else if length cb < 2 * OAES_BLOCK_SIZE then None
                       else if \<not> header_ok cb then Some (OAES_RET_HEADER, Some x, Some mb, Some out, tr)
                       else if length cb < 2 * OAES_BLOCK_SIZE + unat out \<or> length mb < unat out then None
                       else do {
                         let opts = bytes_option (take 2 (drop 6 cb));
                         let mb = copy_to mb 0 (take (unat out) (drop (2 * OAES_BLOCK_SIZE) cb));
                         (mb, rc, tr) \<leftarrow> decrypt_loop (opts AND OAES_OPTION_CBC \<noteq> 0) cb (unat out) 0 x
                           (take OAES_BLOCK_SIZE (drop OAES_BLOCK_SIZE cb)) mb OAES_RET_SUCCESS tr;
                         (if cb ! 8 AND OAES_FLAG_PAD \<noteq> 0 then do {
                            (r, mb, n) \<leftarrow> remove_pad mb (unat out);
                            Some (r, Some x, Some mb, Some (of_nat n), tr)
                          }
                          else Some (OAES_RET_SUCCESS, Some x, Some mb, Some out, tr))
                       })"

text \<open>\<^verbatim>\<open>oaes_sprintf\<close>: every byte as two hexadecimal digits and a space, and a line break after sixteen.\<close>

definition hex_digit :: "nat \<Rightarrow> byte" where
  "hex_digit d = (if d < 10 then 0x30 + of_nat d else 0x61 + of_nat (d - 10))"

fun sprintf_loop :: "nat \<Rightarrow> byte list \<Rightarrow> byte list" where
  "sprintf_loop i [] = []"
| "sprintf_loop i (b # data) =
     [hex_digit (unat b div 16), hex_digit (unat b mod 16), 0x20]
     @ (if i \<noteq> 0 \<and> (i + 1) mod OAES_BLOCK_SIZE = 0 then [0x0a] else []) @ sprintf_loop (i + 1) data"

definition oaes_sprintf :: "byte list option \<Rightarrow> u64 option \<Rightarrow> byte list option \<Rightarrow> u64 \<Rightarrow> exported option" where
  "oaes_sprintf buf buf_len data len =
     (case buf_len of
        None \<Rightarrow> Some (OAES_RET_ARG2, None, buf)
      | Some buf_len_in \<Rightarrow>
          let out = len * 3 + len div 16 + 1
          in case buf of
               None \<Rightarrow> Some (OAES_RET_SUCCESS, Some out, None)
             | Some b \<Rightarrow>
                 if out > buf_len_in then Some (OAES_RET_BUF, Some out, Some b)
                 else
                   case data of
                     None \<Rightarrow> Some (OAES_RET_ARG3, Some out, Some b)
                   | Some d \<Rightarrow>
                       let text = sprintf_loop 0 (take (unat len) d) @ [0]
                       in if length d < unat len \<or> length b < length text then None
                          else Some (OAES_RET_SUCCESS, Some out, Some (copy_to b 0 text)))"

end
