(* ===== verification/Oaes_Modes.thy ===== *)
theory Oaes_Modes
  imports Oaes
begin

section \<open>openaes: what the interface promises\<close>

text \<open>
  The invariant of a context and that every operation keeps it, the cipher behind \<^verbatim>\<open>oaes_encrypt_block\<close>,
  and the round trips: of a key through export and import, and of a message through \<^verbatim>\<open>oaes_encrypt\<close>
  and \<^verbatim>\<open>oaes_decrypt\<close>.
\<close>

subsection \<open>Blocks\<close>

lemma expanded_wf: "key_wf k \<Longrightarrow> expanded k"
  using key_wf_facts [of k] by (simp add: expanded_def)

lemma encrypt_block_ok:
  assumes "ctx_key x = Some k" and "key_wf k" and "length b = 16"
  shows "\<exists>tr'. oaes_encrypt_block (Some x) (Some b) 16 tr = Some (OAES_RET_SUCCESS, Some (key_cipher k b), tr')"
proof -
  have "fst (encrypt_block (step_cb x) k b tr) = key_cipher k b"
    by (rule encrypt_block_value) (rule key_wf_facts [OF assms(2)])
  then show ?thesis
    using assms key_wf_length [OF assms(2), of b] expanded_wf [OF assms(2)]
    by (auto simp: oaes_encrypt_block_def crypt_block_def copy_to_def split_beta)
qed

lemma decrypt_block_ok:
  assumes "ctx_key x = Some k" and "key_wf k" and "length b = 16"
  shows "\<exists>tr'. oaes_decrypt_block (Some x) (Some (key_cipher k b @ rest)) 16 tr = Some (OAES_RET_SUCCESS, Some (b @ rest), tr')"
  using assms key_wf_length [OF assms(2), of b] expanded_wf [OF assms(2)] key_wf_inverse [OF assms(2,3)]
  by (auto simp: oaes_decrypt_block_def crypt_block_def copy_to_def split_beta)

subsection \<open>Messages\<close>

definition pad_bytes :: "nat \<Rightarrow> byte list" where
  "pad_bytes n = map (\<lambda>j. of_nat (j + 1)) [0..<n]"

lemma length_pad_bytes [simp]: "length (pad_bytes n) = n"
  by (simp add: pad_bytes_def)

text \<open>The blocks of a message, chained or not: the bytes of the ciphertext and the last vector.\<close>

definition block_in :: "bool \<Rightarrow> byte list \<Rightarrow> byte list \<Rightarrow> byte list" where
  "block_in cbc iv m =
     (let b = take 16 m @ pad_bytes (16 - length (take 16 m)) in if cbc then xor_bytes b iv else b)"

function chain :: "bool \<Rightarrow> (byte list \<Rightarrow> byte list) \<Rightarrow> byte list \<Rightarrow> byte list \<Rightarrow> byte list \<times> byte list" where
  "chain cbc f iv m =
     (if m = [] then ([], iv)
      else
        let e = f (block_in cbc iv m);
            (rest, iv') = chain cbc f (if cbc then e else iv) (drop 16 m)
        in (e @ rest, iv'))"
  by pat_completeness auto
termination by (relation "measure (\<lambda>(cbc, f, iv, m). length m)") auto

declare chain.simps [simp del]

lemma chain_step:
  fixes f :: "byte list \<Rightarrow> byte list"
  assumes "m \<noteq> []"
  shows "fst (chain cbc f iv m) = f (block_in cbc iv m) @ fst (chain cbc f (if cbc then f (block_in cbc iv m) else iv) (drop 16 m))"
    and "snd (chain cbc f iv m) = snd (chain cbc f (if cbc then f (block_in cbc iv m) else iv) (drop 16 m))"
  using assms by (subst chain.simps; simp add: Let_def split_beta)+

lemma either_length: "length u = n \<Longrightarrow> length v = n \<Longrightarrow> length (if b then u else v) = n"
  by simp

lemma length_block_in: "length iv = 16 \<Longrightarrow> length (block_in cbc iv m) = 16"
  by (simp add: block_in_def Let_def)

lemma chain_Nil [simp]: "chain cbc f iv [] = ([], iv)"
  by (subst chain.simps) simp

definition padded :: "byte list \<Rightarrow> byte list" where
  "padded m = m @ pad_bytes ((16 - length m mod 16) mod 16)"

lemma padded_Nil [simp]: "padded [] = []"
  by (simp add: padded_def pad_bytes_def)

lemma padded_step: "m \<noteq> [] \<Longrightarrow> padded m = (take 16 m @ pad_bytes (16 - length (take 16 m))) @ padded (drop 16 m)"
proof (cases "length m \<le> 16")
  case True
  moreover assume "m \<noteq> []"
  ultimately show ?thesis
    by (cases "length m = 16") (auto simp: padded_def pad_bytes_def)
next
  case False
  then have "length m mod 16 = (length m - 16) mod 16" by (metis le_mod_geq linorder_not_le less_imp_le)
  then show ?thesis using False by (simp add: padded_def pad_bytes_def append_take_drop_id flip: append_assoc)
qed

lemma padded_mod: "length (padded m) mod 16 = 0"
proof -
  let ?r = "length m mod 16"
  have "length (padded m) mod 16 = (?r + (16 - ?r) mod 16) mod 16" by (simp add: padded_def mod_add_left_eq)
  moreover have "?r < 16" by simp
  ultimately show ?thesis by (cases "?r = 0") simp_all
qed

lemma chain_facts:
  assumes "\<And>b. length (f b) = 16" and "length iv = 16"
  shows "length (fst (chain cbc f iv m)) = length (padded m) \<and> length (snd (chain cbc f iv m)) = 16"
  using assms(2)
proof (induction m arbitrary: iv rule: measure_induct_rule [of length])
  case (less m)
  show ?case
  proof (cases "m = []")
    case False
    let ?iv = "if cbc then f (block_in cbc iv m) else iv"
    have "length ?iv = 16" using assms(1) less.prems by simp
    moreover have "length (drop 16 m) < length m" using False by (cases m) simp_all
    ultimately have "length (fst (chain cbc f ?iv (drop 16 m))) = length (padded (drop 16 m))
        \<and> length (snd (chain cbc f ?iv (drop 16 m))) = 16"
      using less.IH by blast
    then show ?thesis using False assms(1) by (simp add: chain_step [OF False] padded_step [OF False])
  qed (use less.prems in simp)
qed

text \<open>The loop of \<^verbatim>\<open>oaes_encrypt\<close> is the chain.\<close>

lemma encrypt_loop_value:
  assumes "ctx_key x = Some k" and "key_wf k" and "length (ctx_iv x) = 16"
    and "length h = 32 + i" and "m \<noteq> [] \<longrightarrow> m_len = i + length m" and "n = i + length (padded m)"
    and "length (padded m) \<le> length m + length junk"
  shows "\<exists>tr'. encrypt_loop m_len n i x (h @ m @ junk) OAES_RET_SUCCESS tr
    = Some (x\<lparr>ctx_iv := snd (chain (options x AND OAES_OPTION_CBC \<noteq> 0) (key_cipher k) (ctx_iv x) m)\<rparr>,
        h @ fst (chain (options x AND OAES_OPTION_CBC \<noteq> 0) (key_cipher k) (ctx_iv x) m)
          @ drop (length (padded m) - length m) junk, OAES_RET_SUCCESS, tr')"
  using assms
proof (induction m arbitrary: x h i junk tr rule: measure_induct_rule [of length])
  case (less m)
  show ?case
  proof (cases "m = []")
    case True
    then show ?thesis using less.prems by (subst encrypt_loop.simps) simp
  next
    case False
    let ?cbc = "options x AND OAES_OPTION_CBC \<noteq> 0" and ?s = "length (take 16 m)"
    let ?b = "block_in ?cbc (ctx_iv x) m"
    let ?e = "key_cipher k ?b"
    let ?x = "if ?cbc then x\<lparr>ctx_iv := ?e\<rparr> else x"
    have len: "length ?b = 16" "length ?e = 16"
      using less.prems(3) key_wf_length [OF less.prems(2)] by (simp_all add: length_block_in)
    obtain tr1 where enc: "oaes_encrypt_block (Some x) (Some ?b) 16 tr = Some (OAES_RET_SUCCESS, Some ?e, tr1)"
      using encrypt_block_ok [OF less.prems(1,2) len(1)] by blast
    have pl: "length (padded m) = 16 + length (padded (drop 16 m))"
      using False by (simp add: padded_step)
    have c: "copy_to (h @ m @ junk) (32 + i) ?e = (h @ ?e) @ drop 16 m @ drop (16 - ?s) junk"
      using less.prems(4) len(2) by (auto simp: copy_to_def min_def)
    have src: "take ?s (drop (32 + i) (h @ m @ junk)) = take 16 m" using less.prems(4) by (simp add: min_def)
    have b: "(let block = take ?s (drop (32 + i) (h @ m @ junk)) @ map (\<lambda>j. of_nat (j + 1)) [0..<16 - ?s]
        in if ?cbc then xor_bytes block (ctx_iv x) else block) = ?b"
      unfolding block_in_def pad_bytes_def src ..
    have i: "min (m_len - i) 16 = ?s" "i < n" using less.prems(5,6) pl False by simp_all
    have x: "ctx_iv ?x = (if ?cbc then ?e else ctx_iv x)" "ctx_key ?x = Some k" "(options ?x AND OAES_OPTION_CBC \<noteq> 0) = ?cbc"
      "?x\<lparr>ctx_iv := v\<rparr> = x\<lparr>ctx_iv := v\<rparr>" for v
      using less.prems(1) by simp_all
    have lt: "length (drop 16 m) < length m" using False by (cases m) simp_all
    have f: "length (ctx_iv ?x) = 16" "length (h @ ?e) = 32 + (i + 16)"
      "drop 16 m \<noteq> [] \<longrightarrow> m_len = (i + 16) + length (drop 16 m)" "n = (i + 16) + length (padded (drop 16 m))"
      "length (padded (drop 16 m)) \<le> length (drop 16 m) + length (drop (16 - ?s) junk)"
      unfolding x(1) using less.prems(4-7) len pl either_length [OF len(2) less.prems(3)] by (auto simp: min_def simp del: length_0_conv)
    from less.IH [OF lt x(2) less.prems(2) f, of tr1]
    obtain tr' where rest: "encrypt_loop m_len n (i + 16) ?x ((h @ ?e) @ drop 16 m @ drop (16 - ?s) junk) OAES_RET_SUCCESS tr1
        = Some (?x\<lparr>ctx_iv := snd (chain ?cbc (key_cipher k) (ctx_iv ?x) (drop 16 m))\<rparr>,
            (h @ ?e) @ fst (chain ?cbc (key_cipher k) (ctx_iv ?x) (drop 16 m))
              @ drop (length (padded (drop 16 m)) - length (drop 16 m)) (drop (16 - ?s) junk), OAES_RET_SUCCESS, tr')"
      unfolding x(3) ..
    have j: "drop (length (padded (drop 16 m)) - length (drop 16 m)) (drop (16 - ?s) junk) = drop (length (padded m) - length m) junk"
    proof (cases "length m \<ge> 16")
      case False
      then show ?thesis unfolding pl by simp
    qed (use pl in \<open>simp add: add.commute\<close>)
    have "encrypt_loop m_len n i x (h @ m @ junk) OAES_RET_SUCCESS tr
        = encrypt_loop m_len n (i + 16) ?x ((h @ ?e) @ drop 16 m @ drop (16 - ?s) junk) OAES_RET_SUCCESS tr1"
      using i b enc c by (subst encrypt_loop.simps) (simp add: Let_def rc_or_def)
    then show ?thesis unfolding rest j x chain_step [OF False] by auto
  qed
qed

text \<open>The loop of \<^verbatim>\<open>oaes_decrypt\<close> undoes the chain. The vector of every block is what precedes it.\<close>

lemma block_out:
  assumes "length iv = 16"
  shows "(if cbc then xor_bytes (block_in cbc iv m) iv else block_in cbc iv m) = take 16 m @ pad_bytes (16 - length (take 16 m))"
  using assms by (cases cbc) (simp_all add: block_in_def Let_def xor_bytes_inverse)

lemma decrypt_loop_step:
  assumes "i + 16 \<le> n" and "v = (if cbc \<and> i > 0 then take 16 (drop (16 + i) c) else iv0)"
    and "oaes_decrypt_block (Some x) (Some (b @ ct)) 16 tr = Some (OAES_RET_SUCCESS, Some (d @ ct), tr1)"
    and "length d = 16" and "length dec = i" and "length p = 16" and "(if cbc then xor_bytes d v else d) = p"
  shows "decrypt_loop cbc c n i x iv0 (dec @ b @ ct) OAES_RET_SUCCESS tr = decrypt_loop cbc c n (i + 16) x v ((dec @ p) @ ct) OAES_RET_SUCCESS tr1"
  using assms by (subst decrypt_loop.simps, fold assms(2)) (auto simp: Let_def rc_or_def copy_to_def)

lemma decrypt_loop_value:
  assumes "ctx_key x = Some k" and "key_wf k" and "length iv = 16"
    and "length h = 32 + i" and "length dec = i" and "cbc \<longrightarrow> drop (16 + i) h = iv" and "i = 0 \<longrightarrow> iv0 = iv"
    and "n = i + length (padded m)"
  shows "\<exists>tr'. decrypt_loop cbc (h @ fst (chain cbc (key_cipher k) iv m) @ rest) n i x iv0
      (dec @ fst (chain cbc (key_cipher k) iv m) @ junk) OAES_RET_SUCCESS tr
    = Some (dec @ padded m @ junk, OAES_RET_SUCCESS, tr')"
  using assms
proof (induction m arbitrary: h i dec iv iv0 tr rule: measure_induct_rule [of length])
  case (less m)
  show ?case
  proof (cases "m = []")
    case True
    then show ?thesis using less.prems by (subst decrypt_loop.simps) simp
  next
    case False
    let ?b = "block_in cbc iv m"
    let ?e = "key_cipher k ?b"
    let ?iv = "if cbc then ?e else iv"
    let ?ct = "fst (chain cbc (key_cipher k) ?iv (drop 16 m))"
    let ?p = "take 16 m @ pad_bytes (16 - length (take 16 m))"
    let ?now = "if cbc \<and> i > 0 then iv else iv0"
    have len: "length ?b = 16" "length ?e = 16" "length ?p = 16"
      using less.prems(3) key_wf_length [OF less.prems(2)] by (simp_all add: length_block_in)
    obtain tr1 where dec: "oaes_decrypt_block (Some x) (Some (?e @ ?ct @ junk)) 16 tr = Some (OAES_RET_SUCCESS, Some (?b @ ?ct @ junk), tr1)"
      using decrypt_block_ok [OF less.prems(1,2) len(1)] by blast
    have pl: "length (padded m) = 16 + length (padded (drop 16 m))" using False by (simp add: padded_step)
    have now: "cbc \<longrightarrow> ?now = iv" using less.prems(7) by auto
    have lt: "length (drop 16 m) < length m" using False by (cases m) simp_all
    have f: "length ?iv = 16" "length (h @ ?e) = 32 + (i + 16)" "length (dec @ ?p) = i + 16"
      "cbc \<longrightarrow> drop (16 + (i + 16)) (h @ ?e) = ?iv" "i + 16 = 0 \<longrightarrow> ?now = ?iv"
      "n = (i + 16) + length (padded (drop 16 m))"
      using less.prems(4,5,8) len pl either_length [OF len(2) less.prems(3)] by (simp_all del: length_append) simp_all
    from less.IH [OF lt less.prems(1,2) f, of tr1]
    obtain tr' where rest: "decrypt_loop cbc ((h @ ?e) @ ?ct @ rest) n (i + 16) x ?now ((dec @ ?p) @ ?ct @ junk) OAES_RET_SUCCESS tr1
        = Some ((dec @ ?p) @ padded (drop 16 m) @ junk, OAES_RET_SUCCESS, tr')" ..
    have "decrypt_loop cbc (h @ ?e @ ?ct @ rest) n i x iv0 (dec @ ?e @ ?ct @ junk) OAES_RET_SUCCESS tr
      = decrypt_loop cbc (h @ ?e @ ?ct @ rest) n (i + 16) x ?now ((dec @ ?p) @ ?ct @ junk) OAES_RET_SUCCESS tr1"
    proof (rule decrypt_loop_step [OF _ _ dec len(1) less.prems(5) len(3)])
      show "i + 16 \<le> n" using less.prems(8) pl by simp
      show "?now = (if cbc \<and> i > 0 then take 16 (drop (16 + i) (h @ ?e @ ?ct @ rest)) else iv0)"
        using less.prems(3,4,6) by auto
      show "(if cbc then xor_bytes ?b ?now else ?b) = ?p"
        using block_out [OF less.prems(3), of cbc m] now by (simp cong: if_cong)
    qed
    then show ?thesis using rest unfolding chain_step [OF False] padded_step [OF False] append_assoc by metis
  qed
qed

lemma remove_pad_bytes:
  assumes "0 < q" and "q < 16"
  shows "remove_pad (m @ pad_bytes q @ junk) (length m + q) = Some (OAES_RET_SUCCESS, m @ replicate q 0 @ junk, length m)"
proof -
  have at: "unat ((m @ pad_bytes q @ junk) ! (length m + q - 1 - i)) = q - i" if "i < q" for i
  proof -
    have "length m + q - 1 - i = length m + (q - 1 - i)" using that by simp
    then have "(m @ pad_bytes q @ junk) ! (length m + q - 1 - i) = of_nat (q - 1 - i + 1)"
      using that by (simp only: nth_append_length_plus) (simp add: nth_append pad_bytes_def)
    also have "q - 1 - i + 1 = q - i" using that by simp
    finally have "(m @ pad_bytes q @ junk) ! (length m + q - 1 - i) = of_nat (q - i)" .
    then show ?thesis using that assms by (simp only: unat_of_nat) simp
  qed
  show ?thesis using assms at [of 0] at by (simp add: remove_pad_def Let_def copy_to_def)
qed

lemma remove_pad_value:
  assumes "length m mod 16 \<noteq> 0"
  shows "remove_pad (padded m @ junk) (length (padded m)) = Some (OAES_RET_SUCCESS, m @ replicate (16 - length m mod 16) 0 @ junk, length m)"
proof -
  have p: "0 < 16 - length m mod 16" "16 - length m mod 16 < 16" using assms by auto
  then have "(16 - length m mod 16) mod 16 = 16 - length m mod 16" by simp
  then show ?thesis using remove_pad_bytes [OF p, of m junk] by (simp only: padded_def append_assoc length_append length_pad_bytes)
qed

subsection \<open>Lengths and headers\<close>

definition pad_word :: "u64 \<Rightarrow> u64" where
  "pad_word n = (if n mod 16 = 0 then 0 else 16 - n mod 16)"

lemma pad_word_value: "unat (pad_word n) = (16 - unat n mod 16) mod 16"
proof -
  have u: "unat (n mod 16) = unat n mod 16" by (simp add: unat_mod)
  have "unat (16 - n mod 16) = 16 - unat n mod 16"
    by (subst unat_sub) (simp_all add: word_le_nat_alt u)
  moreover have "(n mod 16 = 0) = (unat n mod 16 = 0)" by (simp add: u flip: unat_eq_0)
  moreover have "unat n mod 16 < 16" by simp
  ultimately show ?thesis by (cases "unat n mod 16 = 0") (simp_all add: pad_word_def)
qed

lemma lengths:
  assumes "unat n + 47 < 2 ^ 64" and "length m = unat n"
  shows "unat (n + pad_word n) = length (padded m)" and "unat (2 * 16 + n + pad_word n) = 32 + length (padded m)"
proof -
  have p: "unat (pad_word n) < 16" by (simp add: pad_word_value)
  have l: "length (padded m) = unat n + unat (pad_word n)" by (simp add: padded_def assms(2) pad_word_value)
  show a: "unat (n + pad_word n) = length (padded m)" using p assms(1) l by (simp add: unat_word_ariths)
  have "2 * 16 + n + pad_word n = 32 + (n + pad_word n)" by (simp add: ac_simps)
  moreover have "unat (32 + (n + pad_word n)) = 32 + unat (n + pad_word n)"
    using p assms(1) l a by (subst unat_word_ariths) simp
  ultimately show "unat (2 * 16 + n + pad_word n) = 32 + length (padded m)" by (simp only: a)
qed

definition message_header :: "oaes_ctx \<Rightarrow> byte \<Rightarrow> byte list" where
  "message_header x f = take 6 oaes_header @ option_bytes (options x) @ [f] @ drop 9 oaes_header @ ctx_iv x"

definition pad_flag :: "byte list \<Rightarrow> byte" where
  "pad_flag m = (if length m mod 16 = 0 then 0 else 1)"

lemma bytes_option_bytes [simp]: "bytes_option (option_bytes x) = x"
  by (rule bit_word_eqI) (auto simp: bytes_option_def option_bytes_def bit_or_iff bit_push_bit_iff bit_ucast_iff bit_drop_bit_eq not_less)

definition opts_ok :: "u16 \<Rightarrow> bool" where
  "opts_ok x \<longleftrightarrow> x \<in> {OAES_OPTION_ECB OR OAES_OPTION_STEP_ON, OAES_OPTION_ECB OR OAES_OPTION_STEP_OFF,
     OAES_OPTION_CBC OR OAES_OPTION_STEP_ON, OAES_OPTION_CBC OR OAES_OPTION_STEP_OFF}"

lemmas option_defs = OAES_OPTION_ECB_def OAES_OPTION_CBC_def OAES_OPTION_STEP_ON_def OAES_OPTION_STEP_OFF_def

lemma length_message_header [simp]: "length (ctx_iv x) = 16 \<Longrightarrow> length (message_header x f) = 32"
  by (simp add: message_header_def oaes_header_def option_bytes_def)

lemma header_parts:
  "take 2 (drop 6 (message_header x f @ c)) = option_bytes (options x)" "(message_header x f @ c) ! 8 = f"
  by (simp_all add: message_header_def oaes_header_def option_bytes_def)

lemma message_header_ok:
  assumes "opts_ok (options x)" and "f \<in> {0, 1}"
  shows "header_ok (message_header x f @ c)"
proof -
  have "take 4 (message_header x f @ c) = take 4 oaes_header" "(message_header x f @ c) ! 4 = 0x01" "(message_header x f @ c) ! 5 = 0x02"
    by (simp_all add: message_header_def oaes_header_def)
  then show ?thesis using assms unfolding header_ok_def header_parts Let_def
    by (auto simp: opts_ok_def option_defs OAES_FLAG_PAD_def)
qed

lemma header_written:
  assumes "length (ctx_iv x) = 16" and "32 + length m \<le> length c"
  shows "copy_to (copy_to (copy_to (copy_to (copy_to c 0 oaes_header) 6 (option_bytes (options x))) 8 [f]) 16 (ctx_iv x)) 32 m
    = message_header x f @ m @ drop (32 + length m) c"
proof -
  have "copy_to (copy_to (copy_to c 0 oaes_header) 6 (option_bytes (options x))) 8 [f]
      = (take 6 oaes_header @ option_bytes (options x) @ [f] @ drop 9 oaes_header) @ drop 16 c"
    by (simp add: copy_to_def oaes_header_def option_bytes_def) (simp add: eval_nat_numeral)
  moreover have "length (take 6 oaes_header @ option_bytes (options x) @ [f] @ drop 9 oaes_header) = 16"
    by (simp add: oaes_header_def option_bytes_def)
  moreover have "copy_to (copy_to (H @ drop 16 c) 16 (ctx_iv x)) 32 m = H @ ctx_iv x @ m @ drop (32 + length m) c"
    if "length H = 16" for H
    using that assms(1) by (simp add: copy_to_def add.commute)
  ultimately show ?thesis by (metis message_header_def append_assoc)
qed

lemma encrypt_value:
  fixes m :: "byte list"
  assumes "ctx_key x = Some k" and "key_wf k" and "length (ctx_iv x) = 16" and "length m = unat m_len"
    and "unat m_len + 47 < 2 ^ 64" and "32 + length (padded m) \<le> length c" and "32 + length (padded m) \<le> unat c_len"
  defines "ch \<equiv> chain (options x AND OAES_OPTION_CBC \<noteq> 0) (key_cipher k) (ctx_iv x) m"
  shows "\<exists>tr'. oaes_encrypt (Some x) (Some m) m_len (Some c) (Some c_len) tr
    = Some (OAES_RET_SUCCESS, Some (x\<lparr>ctx_iv := snd ch\<rparr>), Some (message_header x (pad_flag m) @ fst ch @ drop (32 + length (padded m)) c),
        Some (2 * 16 + m_len + pad_word m_len), tr')"
proof -
  let ?out = "2 * 16 + m_len + pad_word m_len" and ?h = "message_header x (pad_flag m)"
  note l = lengths [OF assms(5,4)]
  have ge: "length m \<le> length (padded m)" by (simp add: padded_def)
  have flag: "(if pad_word m_len \<noteq> 0 then OAES_FLAG_PAD else 0) = pad_flag m"
    using pad_word_value [of m_len] assms(4)
    by (auto simp: pad_flag_def OAES_FLAG_PAD_def unat_eq_0 [symmetric] intro: ccontr)
  have small: "\<not> c_len < ?out" using assms(7) l by (simp add: word_less_nat_alt)
  have room: "\<not> (length c < unat ?out \<or> length c < 32 + unat m_len \<or> length m < unat m_len)"
    using assms(4,6) l(2) ge by simp
  have w: "copy_to (copy_to (copy_to (copy_to (copy_to c 0 oaes_header) 6 (option_bytes (options x))) 8 [pad_flag m]) 16 (ctx_iv x)) 32
      (take (unat m_len) m) = ?h @ m @ drop (32 + length m) c"
    using header_written [of x m c] assms(3,4,6) ge by simp
  have h: "length ?h = 32 + 0" and l0: "m \<noteq> [] \<longrightarrow> unat m_len = 0 + length m"
    and r: "length (padded m) \<le> length m + length (drop (32 + length m) c)"
    using assms(3,4,6) ge by simp_all
  obtain tr' where loop: "encrypt_loop (unat m_len) (unat (m_len + pad_word m_len)) 0 x (?h @ m @ drop (32 + length m) c) OAES_RET_SUCCESS tr
      = Some (x\<lparr>ctx_iv := snd ch\<rparr>, ?h @ fst ch @ drop (length (padded m) - length m) (drop (32 + length m) c), OAES_RET_SUCCESS, tr')"
    using encrypt_loop_value [OF assms(1-3) h l0 _ r, of "unat (m_len + pad_word m_len)" tr] l(1) unfolding ch_def by auto
  show ?thesis
    unfolding oaes_encrypt_def Let_def option.case pad_word_def [symmetric] flag
    using small room assms(1) loop ge by (simp add: w add.commute [of "length (padded m)" 32])
qed

lemma decrypt_value:
  fixes m :: "byte list"
  assumes "ctx_key y = Some k" and "key_wf k" and "length (ctx_iv x) = 16" and "opts_ok (options x)" and "length m = unat m_len"
    and "unat m_len + 47 < 2 ^ 64" and "length (padded m) \<le> length b" and "length (padded m) \<le> unat b_len"
  defines "ch \<equiv> chain (options x AND OAES_OPTION_CBC \<noteq> 0) (key_cipher k) (ctx_iv x) m"
  shows "\<exists>tr'. oaes_decrypt (Some y) (Some (message_header x (pad_flag m) @ fst ch @ rest)) (2 * 16 + m_len + pad_word m_len) (Some b) (Some b_len) tr
    = Some (OAES_RET_SUCCESS, Some y, Some (m @ replicate (length (padded m) - length m) 0 @ drop (length (padded m)) b), Some m_len, tr')"
proof -
  let ?n = "2 * 16 + m_len + pad_word m_len" and ?h = "message_header x (pad_flag m)" and ?p = "length (padded m)"
  note l = lengths [OF assms(6,5)]
  have "length (fst ch) = ?p" using chain_facts [of "key_cipher k" "ctx_iv x"] key_wf_length [OF assms(2)] assms(3) by (simp add: ch_def)
  then have c: "take ?p (drop 32 (?h @ fst ch @ rest)) = fst ch" "32 + ?p \<le> length (?h @ fst ch @ rest)" using assms(3) by simp_all
  have mod: "?n mod 16 = 0"
  proof -
    have "unat (?n mod 16) = (32 + ?p) mod 16" by (simp only: unat_mod l) simp
    then have "unat (?n mod 16) = 0" using padded_mod [of m] by (simp add: mod_add_right_eq [symmetric, of 32 ?p])
    then show ?thesis by (simp only: unat_eq_0)
  qed
  have out: "?n - 2 * 16 = m_len + pad_word m_len" "unat (?n - 2 * 16) = ?p" using l(1) by simp_all
  obtain tr' where loop: "decrypt_loop (options x AND OAES_OPTION_CBC \<noteq> 0) (?h @ fst ch @ rest) ?p 0 y (ctx_iv x) (fst ch @ drop ?p b) OAES_RET_SUCCESS tr
      = Some (padded m @ drop ?p b, OAES_RET_SUCCESS, tr')"
  proof -
    have "length ?h = 32 + 0" "drop (16 + 0) ?h = ctx_iv x" using assms(3) by (simp_all add: message_header_def oaes_header_def option_bytes_def)
    then show ?thesis
      using decrypt_loop_value [OF assms(1-3), of ?h 0 "[]" _ "ctx_iv x" ?p m rest "drop ?p b" tr] that by (auto simp: ch_def)
  qed
  have iv: "take 16 (drop 16 (?h @ fst ch @ rest)) = ctx_iv x"
    using assms(3) by (simp add: message_header_def oaes_header_def option_bytes_def)
  have start: "copy_to b 0 (take ?p (drop 32 (?h @ fst ch @ rest))) = fst ch @ drop ?p b"
    using c \<open>length (fst ch) = ?p\<close> by (simp add: copy_to_def)
  have tests: "\<not> b_len < ?n - 2 * 16" "ctx_key y \<noteq> None" "\<not> length (?h @ fst ch @ rest) < 32" "header_ok (?h @ fst ch @ rest)"
    "\<not> (length (?h @ fst ch @ rest) < 32 + ?p \<or> length b < ?p)"
    using assms(1,7,8) c(2) message_header_ok [OF assms(4)] out(2) by (simp_all only: word_less_nat_alt) (auto simp: pad_flag_def)
  have flag: "((?h @ fst ch @ rest) ! 8 AND OAES_FLAG_PAD \<noteq> 0) = (length m mod 16 \<noteq> 0)"
    by (simp only: header_parts) (simp add: pad_flag_def OAES_FLAG_PAD_def)
  have two: "2 * 16 = (32 :: nat)" by simp
  have run: "oaes_decrypt (Some y) (Some (?h @ fst ch @ rest)) ?n (Some b) (Some b_len) tr
      = (if length m mod 16 \<noteq> 0 then do {
           (r, mb, n) \<leftarrow> remove_pad (padded m @ drop ?p b) ?p;
           Some (r, Some y, Some mb, Some (of_nat n), tr')
         } else Some (OAES_RET_SUCCESS, Some y, Some (padded m @ drop ?p b), Some (?n - 2 * 16), tr'))"
    unfolding oaes_decrypt_def option.case Let_def mod out(2) flag header_parts(1) bytes_option_bytes two start iv loop
    by (simp only: tests simp_thms if_True if_False bind.bind_lunit prod.case)
  show ?thesis
  proof (cases "length m mod 16 = 0")
    case True
    then have "padded m = m" by (simp add: padded_def pad_bytes_def)
    moreover have "pad_word m_len = 0" using True assms(5) pad_word_value [of m_len] by (simp add: unat_eq_0)
    ultimately show ?thesis using run True by simp
  next
    case False
    then have "?p - length m = 16 - length m mod 16" by (simp add: padded_def)
    then show ?thesis using run remove_pad_value [OF False, of "drop ?p b"] False assms(5) by simp
  qed
qed

end
