(* ===== verification/Oaes_Properties.thy ===== *)
theory Oaes_Properties
  imports Oaes_Modes
begin

section \<open>openaes: properties of the interface\<close>

text \<open>
  The contexts a caller can reach, their invariant, and the theorems about the interface that rest on it.
\<close>

subsection \<open>The invariant of a context\<close>

definition ctx_ok :: "oaes_ctx \<Rightarrow> bool" where
  "ctx_ok x \<longleftrightarrow> rand_ok (rctx x) \<and> opts_ok (options x) \<and> (step_cb x \<longleftrightarrow> options x AND OAES_OPTION_STEP_ON \<noteq> 0)
     \<and> length (ctx_iv x) = 16 \<and> (\<forall>k. ctx_key x = Some k \<longrightarrow> key_wf k)"

lemma draws_keeps: "rand_ok r \<Longrightarrow> length (fst (draws n r)) = n \<and> rand_ok (snd (draws n r))"
proof (induction n arbitrary: r)
  case (Suc n)
  then show ?case using rand_keeps [OF Suc.prems] by (simp add: Let_def split_beta)
qed simp

lemma random_bytes_keeps:
  assumes "rand_ok r" and "random_bytes n r = (bs, r')"
  shows "length bs = n" and "rand_ok r'"
  using assms draws_keeps [OF assms(1), of n] by (auto simp: random_bytes_def split_beta)

lemma key_wf_unique:
  assumes "key_wf k" and "key_wf k'" and "key_data k = key_data k'"
  shows "k = k'"
proof -
  have "length (key_data k) = 4 * key_base k" "length (key_data k') = 4 * key_base k'"
    using assms(1,2) by (simp_all add: key_wf_def key_ok_def)
  then have "key_base k = key_base k'" using assms(3) by simp
  then show ?thesis using assms by (intro oaes_key.equality) (auto simp: key_wf_def)
qed

text \<open>A failing \<^verbatim>\<open>calloc\<close> in the expansion is reported as \<^verbatim>\<open>OAES_RET_UNKNOWN\<close>.\<close>

lemma set_key_cases:
  assumes "length bs \<in> {16, 24, 32}"
  obtains k where "key_wf k" and "key_data k = bs" and "data_len k = length bs"
    and "set_key mem c (fresh_key (length bs) bs) = (if mem (4 * length bs + 112) then Some (OAES_RET_SUCCESS, c\<lparr>ctx_key := Some k\<rparr>)
      else Some (OAES_RET_UNKNOWN, c\<lparr>ctx_key := None\<rparr>))"
proof -
  let ?kb = "length bs div 4" and ?f = "fresh_key (length bs) bs"
  have ok: "key_ok ?kb (key_data ?f)" "data_len ?f = 4 * ?kb" using assms by (auto simp: fresh_key_def key_ok_def)
  have n: "16 * (?kb + 7) = 4 * length bs + 112" using assms by auto
  define k where "k = ?f\<lparr>key_base := ?kb, num_keys := ?kb + 7, exp_data_len := 16 * (?kb + 7),
     exp_data := concat (map (key_word ?kb (key_data ?f)) [0..<4 * (?kb + 7)])\<rparr>"
  have e: "oaes_key_expand mem ?f = Some (True, k)" if "mem (4 * length bs + 112)" for mem
    unfolding k_def by (rule key_expand_fips [OF ok]) (simp only: n that)
  from key_wf_expand [OF ok e [of "\<lambda>n. True"]] have k: "key_wf k" "key_data k = bs" by (simp_all add: fresh_key_def)
  have "data_len k = length bs" by (simp add: k_def fresh_key_def)
  moreover have "set_key mem c ?f = (if mem (4 * length bs + 112) then Some (OAES_RET_SUCCESS, c\<lparr>ctx_key := Some k\<rparr>)
      else Some (OAES_RET_UNKNOWN, c\<lparr>ctx_key := None\<rparr>))"
  proof (cases "mem (4 * length bs + 112)")
    case True
    then show ?thesis using e [of mem] by (simp add: set_key_def rc_or_def)
  next
    case False
    then obtain k' where "oaes_key_expand mem ?f = Some (False, k')"
      using key_expand_memory [OF ok(2)] n by metis
    then show ?thesis using False by (simp add: set_key_def rc_or_def oaes_key_destroy_def)
  qed
  ultimately show ?thesis using k that by blast
qed

subsection \<open>Operations keep the invariant\<close>

lemma set_option_keeps:
  assumes "ctx_ok x" and "oaes_set_option (Some x) opt v = Some (rc, Some y)"
  shows "ctx_ok y"
proof -
  have o: "options x \<in> {5, 9, 6, 10}" using assms(1) by (auto simp: ctx_ok_def opts_ok_def option_defs)
  have r: "length bs = 16 \<and> rand_ok r" if "random_bytes 16 (rctx x) = (bs, r)" for bs r
    using random_bytes_keeps that assms(1) by (auto simp: ctx_ok_def)
  show ?thesis
    using assms o r
    by (auto simp: oaes_set_option_def Let_def option_defs ctx_ok_def opts_ok_def split: if_splits option.splits prod.splits)
qed

lemma encrypt_block_cases:
  assumes "ctx_key x = Some k" and "key_wf k" and "oaes_encrypt_block (Some x) (Some b) 16 tr = Some (rc, b', tr')"
  shows "rc = OAES_RET_SUCCESS" and "16 \<le> length b" and "b' = Some (copy_to b 0 (key_cipher k (take 16 b)))"
proof -
  have "fst (encrypt_block (step_cb x) k (take 16 b) tr) = key_cipher k (take 16 b)"
    by (rule encrypt_block_value) (rule key_wf_facts [OF assms(2)])
  then show "rc = OAES_RET_SUCCESS" "16 \<le> length b" "b' = Some (copy_to b 0 (key_cipher k (take 16 b)))"
    using assms by (auto simp: oaes_encrypt_block_def crypt_block_def split: if_splits prod.splits)
qed

lemma encrypt_loop_keeps:
  assumes "ctx_key x = Some k" and "key_wf k" and "length (ctx_iv x) = 16"
    and "encrypt_loop m_len n i x c OAES_RET_SUCCESS tr = Some (y, c', rc, tr')"
  shows "\<exists>v. length v = 16 \<and> y = x\<lparr>ctx_iv := v\<rparr>"
  using assms(1,3,4)
proof (induction "n - i" arbitrary: i x c tr rule: less_induct)
  case less
  show ?case
  proof (cases "i < n")
    case False
    then show ?thesis using less.prems by (subst (asm) encrypt_loop.simps) auto
  next
    case True
    let ?b = "take (min (m_len - i) 16) (drop (2 * 16 + i) c) @ map (\<lambda>j. of_nat (j + 1)) [0..<16 - min (m_len - i) 16]"
    let ?cbc = "options x AND OAES_OPTION_CBC \<noteq> 0"
    define b where "b = (if ?cbc then xor_bytes ?b (ctx_iv x) else ?b)"
    have lb: "length b \<le> 16" using less.prems(2) by (auto simp: b_def min_def)
    from less.prems(3) True obtain rc1 b1 tr1 where
      e: "oaes_encrypt_block (Some x) (Some b) 16 tr = Some (rc1, Some b1, tr1)"
      and rest: "encrypt_loop m_len n (i + 16) (if ?cbc then x\<lparr>ctx_iv := b1\<rparr> else x) (copy_to c (2 * 16 + i) b1) (rc_or OAES_RET_SUCCESS rc1) tr1
        = Some (y, c', rc, tr')"
      by (subst (asm) encrypt_loop.simps) (auto simp: b_def Let_def bind_eq_Some_conv split: if_splits)
    note cs = encrypt_block_cases [OF less.prems(1) assms(2) e]
    have "length b1 = 16" using cs lb key_wf_length [OF assms(2)] by (simp add: copy_to_def)
    then have l: "length (ctx_iv (if ?cbc then x\<lparr>ctx_iv := b1\<rparr> else x)) = 16"
      and k: "ctx_key (if ?cbc then x\<lparr>ctx_iv := b1\<rparr> else x) = Some k" using less.prems(1,2) by simp_all
    have "n - (i + 16) < n - i" using True by simp
    moreover have "rc_or OAES_RET_SUCCESS rc1 = OAES_RET_SUCCESS" using cs(1) by (simp add: rc_or_def)
    ultimately show ?thesis using less.hyps [OF _ k l] rest by (auto split: if_splits)
  qed
qed

lemma encrypt_keeps:
  assumes "ctx_ok x" and "oaes_encrypt (Some x) m m_len c c_len tr = Some (rc, Some y, c', c_len', tr')"
  shows "ctx_ok y"
proof (cases "y = x")
  case False
  then obtain k n cb cb' rc' where "ctx_key x = Some k" and "encrypt_loop (unat m_len) n 0 x cb OAES_RET_SUCCESS tr = Some (y, cb', rc', tr')"
    using assms(2) by (auto simp: oaes_encrypt_def Let_def bind_eq_Some_conv split: option.splits if_splits)
  then show ?thesis using encrypt_loop_keeps assms(1) by (fastforce simp: ctx_ok_def)
qed (use assms in simp)

lemma set_key_keeps:
  assumes "ctx_ok x" and "length bs \<in> {16, 24, 32}" and "set_key mem x (fresh_key (length bs) bs) = Some (rc, y)"
  shows "ctx_ok y"
proof -
  obtain k where "key_wf k" and "set_key mem x (fresh_key (length bs) bs) = (if mem (4 * length bs + 112)
      then Some (OAES_RET_SUCCESS, x\<lparr>ctx_key := Some k\<rparr>) else Some (OAES_RET_UNKNOWN, x\<lparr>ctx_key := None\<rparr>))"
    by (rule set_key_cases [OF assms(2)])
  then show ?thesis using assms(1,3) by (auto simp: ctx_ok_def split: if_splits)
qed

lemma key_gen_keeps:
  assumes "ctx_ok x" and "n \<in> {16, 24, 32}" and "oaes_key_gen mem (Some x) n = Some (rc, Some y)"
  shows "ctx_ok y"
proof -
  obtain bs r where b: "random_bytes n (rctx x) = (bs, r)" by (metis surj_pair)
  then have l: "length bs = n" "rand_ok r" using random_bytes_keeps assms(1) by (auto simp: ctx_ok_def)
  then have "ctx_ok (x\<lparr>ctx_key := None, rctx := r\<rparr>)" using assms(1) by (simp add: ctx_ok_def)
  then have "ctx_ok z" if "set_key mem (x\<lparr>ctx_key := None, rctx := r\<rparr>) (fresh_key n bs) = Some (rc, z)" for z
    using set_key_keeps [of _ bs mem rc z] that assms(2) l(1) by simp
  then show ?thesis using assms(1,3) b
    by (auto simp: oaes_key_gen_def oaes_key_destroy_def Let_def ctx_ok_def split: if_splits)
qed

lemma import_key_keeps:
  assumes "ctx_ok x" and "length bs \<in> {16, 24, 32}" and "import_key mem x bs = Some (rc, Some y)"
  shows "ctx_ok y"
proof -
  have "ctx_ok (x\<lparr>ctx_key := None\<rparr>)" using assms(1) by (simp add: ctx_ok_def)
  then show ?thesis using assms set_key_keeps [of "x\<lparr>ctx_key := None\<rparr>" bs mem rc y]
    by (auto simp: import_key_def oaes_key_destroy_def Let_def split: if_splits)
qed

lemma import_data_cases:
  assumes "oaes_key_import_data mem (Some x) d len = Some r"
  shows "(\<exists>rc. r = (rc, Some x)) \<or> (\<exists>bs. length bs \<in> {16, 24, 32} \<and> import_key mem x bs = Some r)"
proof (cases "d = None \<or> \<not> (len = 16 \<or> len = 24 \<or> len = 32)")
  case True
  then show ?thesis using assms by (cases r; cases d) (auto simp: oaes_key_import_data_def)
next
  case False
  then obtain d' where d: "d = Some d'" "unat len \<in> {16, 24, 32}" by auto
  then have "unat len \<le> length d'" "import_key mem x (take (unat len) d') = Some r"
    using assms False by (simp_all add: oaes_key_import_data_def split: if_splits)
  then show ?thesis using d(2) by (intro disjI2 exI [of _ "take (unat len) d'"]) simp
qed

lemma import_cases:
  assumes "oaes_key_import mem (Some x) d len = Some r"
  shows "(\<exists>rc. r = (rc, Some x)) \<or> (\<exists>bs. length bs \<in> {16, 24, 32} \<and> import_key mem x bs = Some r)"
proof (cases d)
  case None
  then show ?thesis using assms by (cases r) (simp add: oaes_key_import_def)
next
  case (Some d')
  let ?n = "unat (d' ! 7)"
  show ?thesis
  proof (cases "(len = 16 + 16 \<or> len = 24 + 16 \<or> len = 32 + 16) \<and> take 4 d' = take 4 oaes_header \<and> d' ! 4 = 0x01 \<and> d' ! 5 = 0x01
      \<and> (?n = 16 \<or> ?n = 24 \<or> ?n = 32) \<and> unat len = ?n + 16")
    case True
    then have "unat len \<le> length d'" "import_key mem x (take ?n (drop 16 d')) = Some r"
      using assms Some by (simp_all add: oaes_key_import_def Let_def split: if_splits)
    then show ?thesis using True by (intro disjI2 exI [of _ "take ?n (drop 16 d')"]) auto
  next
    case False
    then show ?thesis using assms Some
      by (simp add: oaes_key_import_def Let_def split: if_split_asm) (blast+)?
  qed
qed

lemma import_keeps:
  assumes "ctx_ok x" and "oaes_key_import mem (Some x) d len = Some (rc, Some y) \<or> oaes_key_import_data mem (Some x) d len = Some (rc, Some y)"
  shows "ctx_ok y"
  using assms(2) import_cases [of mem x d len "(rc, Some y)"] import_data_cases [of mem x d len "(rc, Some y)"]
    import_key_keeps [OF assms(1)] assms(1) by blast

lemma alloc_ok:
  assumes "oaes_alloc mem seed = Some (Some x)"
  shows "ctx_ok x"
proof -
  let ?r = "\<lparr>randcnt = 0, randrsl = seed_words seed @ drop (256 div 8) (replicate 256 0), randmem = replicate 256 0, randa = 0, randb = 0, randc = 0\<rparr>"
  obtain bs r where b: "random_bytes 16 (randinit ?r True) = (bs, r)" by (metis surj_pair)
  have "rand_ok (randinit ?r True)" using randinit_ok [of ?r] by (simp add: seed_words_def)
  from random_bytes_keeps [OF this b] have "length bs = 16" "rand_ok r" by simp_all
  then show ?thesis using assms b
    by (auto simp: oaes_alloc_def oaes_set_option_def Let_def option_defs ctx_ok_def opts_ok_def split: if_splits)
qed

lemma import_key_success:
  assumes "length bs \<in> {16, 24, 32}" and "import_key mem x bs = Some (OAES_RET_SUCCESS, z)"
  shows "\<exists>k. key_wf k \<and> key_data k = bs \<and> z = Some (x\<lparr>ctx_key := Some k\<rparr>)"
proof -
  obtain k where k: "key_wf k" "key_data k = bs" and s: "set_key mem (x\<lparr>ctx_key := None\<rparr>) (fresh_key (length bs) bs)
      = (if mem (4 * length bs + 112) then Some (OAES_RET_SUCCESS, x\<lparr>ctx_key := None\<rparr>\<lparr>ctx_key := Some k\<rparr>)
         else Some (OAES_RET_UNKNOWN, x\<lparr>ctx_key := None\<rparr>\<lparr>ctx_key := None\<rparr>))"
    by (rule set_key_cases [OF assms(1)])
  then show ?thesis using assms(2) by (auto simp: import_key_def oaes_key_destroy_def Let_def split: if_splits)
qed

lemma import_key_works:
  assumes "key_wf k" and "\<And>n. mem n"
  shows "import_key mem x (key_data k) = Some (OAES_RET_SUCCESS, Some (x\<lparr>ctx_key := Some k\<rparr>))"
proof -
  have l: "length (key_data k) \<in> {16, 24, 32}" using assms(1) by (auto simp: key_wf_def key_ok_def)
  obtain k' where "key_wf k'" "key_data k' = key_data k" and s: "set_key mem (x\<lparr>ctx_key := None\<rparr>) (fresh_key (length (key_data k)) (key_data k))
      = (if mem (4 * length (key_data k) + 112) then Some (OAES_RET_SUCCESS, x\<lparr>ctx_key := None\<rparr>\<lparr>ctx_key := Some k'\<rparr>)
         else Some (OAES_RET_UNKNOWN, x\<lparr>ctx_key := None\<rparr>\<lparr>ctx_key := None\<rparr>))"
    by (rule set_key_cases [OF l])
  then have "k' = k" using key_wf_unique assms(1) by blast
  then show ?thesis using s assms(2) by (simp add: import_key_def oaes_key_destroy_def)
qed

lemma import_data_success:
  assumes "oaes_key_import_data mem (Some x) (Some key) len = Some (OAES_RET_SUCCESS, Some y)"
  shows "\<exists>k. key_wf k \<and> key_data k = take (unat len) key \<and> unat len \<le> length key \<and> y = x\<lparr>ctx_key := Some k\<rparr>"
proof -
  have len: "len = 16 \<or> len = 24 \<or> len = 32" and l: "unat len \<le> length key"
    and i: "import_key mem x (take (unat len) key) = Some (OAES_RET_SUCCESS, Some y)"
    using assms by (simp_all add: oaes_key_import_data_def split: if_splits)
  from import_key_success [OF _ i] len l show ?thesis by auto
qed

subsection \<open>Properties\<close>

text \<open>The contexts that calls of the interface lead to. Export and decryption leave a context as it is.\<close>

inductive reachable :: "oaes_ctx \<Rightarrow> bool" where
  alloc: "oaes_alloc mem seed = Some (Some x) \<Longrightarrow> reachable x"
| set_option: "reachable x \<Longrightarrow> oaes_set_option (Some x) opt v = Some (rc, Some y) \<Longrightarrow> reachable y"
| gen: "reachable x \<Longrightarrow> n \<in> {16, 24, 32} \<Longrightarrow> oaes_key_gen mem (Some x) n = Some (rc, Some y) \<Longrightarrow> reachable y"
| import_key: "reachable x \<Longrightarrow> oaes_key_import mem (Some x) d len = Some (rc, Some y) \<Longrightarrow> reachable y"
| import_data: "reachable x \<Longrightarrow> oaes_key_import_data mem (Some x) d len = Some (rc, Some y) \<Longrightarrow> reachable y"
| encrypt: "reachable x \<Longrightarrow> oaes_encrypt (Some x) m m_len c c_len tr = Some (rc, Some y, c', c_len', tr') \<Longrightarrow> reachable y"

lemma reachable_ok: "reachable x \<Longrightarrow> ctx_ok x"
proof (induction rule: reachable.induct)
  case (import_data x mem d len rc y)
  then show ?case using import_keeps by blast
next
  case (import_key x mem d len rc y)
  then show ?case using import_keeps by blast
qed (rule alloc_ok set_option_keeps key_gen_keeps encrypt_keeps; assumption)+

text \<open>(C17) In every context that calls of the interface lead to, whatever succeeds or fails on the way:
  exactly one of ECB and CBC and one of STEP_ON and STEP_OFF is set and no other option, the step callback
  is set exactly with STEP_ON, the vector has 16 bytes, the generator is in order, and the key, if any, is
  16, 24 or 32 bytes long with the whole key schedule of FIPS-197 beside it.\<close>

theorem reachable_contexts:
  assumes "reachable x"
  shows "rand_ok (rctx x) \<and> length (ctx_iv x) = 16
    \<and> options x \<in> {OAES_OPTION_ECB OR OAES_OPTION_STEP_ON, OAES_OPTION_ECB OR OAES_OPTION_STEP_OFF,
        OAES_OPTION_CBC OR OAES_OPTION_STEP_ON, OAES_OPTION_CBC OR OAES_OPTION_STEP_OFF}
    \<and> (step_cb x \<longleftrightarrow> options x AND OAES_OPTION_STEP_ON \<noteq> 0)
    \<and> (\<forall>k. ctx_key x = Some k \<longrightarrow> length (key_data k) \<in> {16, 24, 32} \<and> data_len k = length (key_data k) \<and> num_keys k = data_len k div 4 + 7
        \<and> exp_data k = concat (map (key_word (data_len k div 4) (key_data k)) [0..<4 * num_keys k]))"
  using reachable_ok [OF assms] by (auto simp: ctx_ok_def opts_ok_def key_wf_def key_ok_def)

text \<open>(C4) With a key imported, \<^verbatim>\<open>oaes_encrypt_block\<close> is the cipher of FIPS-197 for that key, with 10, 12 or
  14 rounds, and \<^verbatim>\<open>oaes_decrypt_block\<close> is its inverse, whatever the step callback does not change.\<close>

theorem block_is_aes:
  assumes "oaes_key_import_data mem (Some x) (Some key) len = Some (OAES_RET_SUCCESS, Some y)" and "length b = 16"
  defines "nk \<equiv> unat len div 4"
  defines "c \<equiv> aes_cipher (key_word nk (take (unat len) key)) (nk + 6) b"
  shows "\<exists>tr1 tr2. oaes_encrypt_block (Some y) (Some b) 16 tr = Some (OAES_RET_SUCCESS, Some c, tr1)
    \<and> oaes_decrypt_block (Some y) (Some c) 16 tr = Some (OAES_RET_SUCCESS, Some b, tr2)"
proof -
  obtain k where k: "key_wf k" "key_data k = take (unat len) key" "unat len \<le> length key" and y: "ctx_key y = Some k"
    using import_data_success [OF assms(1)] by auto
  have "4 * key_base k = unat len" using k by (simp add: key_wf_def key_ok_def)
  then have "key_base k = nk" unfolding nk_def by simp
  then have c: "key_cipher k b = c" using key_wf_cipher [OF k(1) assms(2)] by (simp only: c_def k(2))
  show ?thesis
    using encrypt_block_ok [OF y k(1) assms(2), of tr] decrypt_block_ok [OF y k(1) assms(2), of "[]" tr] by (auto simp: c)
qed

definition sample_key :: oaes_key where
  "sample_key = \<lparr>data_len = 16, key_data = replicate 16 0, exp_data_len = 176,
     exp_data = concat (map (key_word 4 (replicate 16 0)) [0..<44]), num_keys = 11, key_base = 4\<rparr>"

definition sample_ctx :: oaes_ctx where
  "sample_ctx = \<lparr>rctx = randinit zero_rand True, step_cb = False, ctx_key = Some sample_key, options = 10, ctx_iv = replicate 16 7\<rparr>"

lemma sample_key_wf: "key_wf sample_key"
  by (simp add: key_wf_def key_ok_def sample_key_def)

lemma sample_ctx_ok: "ctx_ok sample_ctx"
  using randinit_ok [of zero_rand True] sample_key_wf
  by (simp add: ctx_ok_def sample_ctx_def zero_rand_def opts_ok_def option_defs)

lemma import_zero_key:
  "oaes_key_import_data (\<lambda>n. True) (Some x) (Some (replicate 16 0)) 16 = Some (OAES_RET_SUCCESS, Some (x\<lparr>ctx_key := Some sample_key\<rparr>))"
  using import_key_works [OF sample_key_wf, of "\<lambda>n. True" x] by (simp add: oaes_key_import_data_def sample_key_def)

theorem block_is_aes_witness:
  "\<exists>y tr1. oaes_key_import_data (\<lambda>n. True) (Some sample_ctx) (Some (replicate 16 0)) 16 = Some (OAES_RET_SUCCESS, Some y)
    \<and> oaes_encrypt_block (Some y) (Some (replicate 16 0)) 16 [] = Some (OAES_RET_SUCCESS, Some (aes_cipher (key_word 4 (replicate 16 0)) 10 (replicate 16 0)), tr1)"
  using block_is_aes [OF import_zero_key [of sample_ctx], of "replicate 16 0" "[]"] import_zero_key [of sample_ctx] by auto

theorem reachable_contexts_witness:
  "\<exists>x. reachable x \<and> ctx_key x = Some sample_key \<and> length (ctx_iv x) = 16"
proof -
  obtain x where "oaes_alloc (\<lambda>n. True) [] = Some (Some x)"
    by (simp add: oaes_alloc_def oaes_set_option_def Let_def option_defs split_beta)
  then have "reachable (x\<lparr>ctx_key := Some sample_key\<rparr>)"
    using reachable.alloc reachable.import_data import_zero_key by blast
  with reachable_contexts [OF this] show ?thesis by (intro exI [of _ "x\<lparr>ctx_key := Some sample_key\<rparr>"]) simp
qed

text \<open>(C3) What \<^verbatim>\<open>oaes_encrypt\<close> makes of a message, \<^verbatim>\<open>oaes_decrypt\<close> makes the message again, in any context
  with the same key and whatever its options: for every message of less than \<open>2 ^ 64 - 47\<close> bytes,
  in ECB and CBC, with the padding a length that is no multiple of 16 takes. Both succeed whenever their
  buffers are large enough.\<close>

theorem message_round_trip:
  fixes m :: "byte list"
  assumes "ctx_ok x" and "ctx_ok y" and "ctx_key x = Some k" and "ctx_key y = Some k"
    and "length m = unat m_len" and "unat m_len + 47 < 2 ^ 64"
    and "length m + 47 \<le> length c" and "length m + 47 \<le> unat c_len"
  shows "\<exists>x' c' out tr'. oaes_encrypt (Some x) (Some m) m_len (Some c) (Some c_len) tr = Some (OAES_RET_SUCCESS, Some x', Some c', Some out, tr')
    \<and> unat out = 32 + 16 * ((length m + 15) div 16)
    \<and> (\<forall>b b_len tr. length m + 15 \<le> length b \<and> length m + 15 \<le> unat b_len \<longrightarrow>
         (\<exists>b' tr'. oaes_decrypt (Some y) (Some c') out (Some b) (Some b_len) tr = Some (OAES_RET_SUCCESS, Some y, Some b', Some m_len, tr')
            \<and> take (length m) b' = m))"
proof -
  let ?out = "2 * 16 + m_len + pad_word m_len" and ?ch = "chain (options x AND OAES_OPTION_CBC \<noteq> 0) (key_cipher k) (ctx_iv x) m"
  let ?c = "message_header x (pad_flag m) @ fst ?ch @ drop (32 + length (padded m)) c"
  have k: "key_wf k" and iv: "length (ctx_iv x) = 16" and o: "opts_ok (options x)" using assms(1,3) by (simp_all add: ctx_ok_def)
  have pl: "length (padded m) = 16 * ((length m + 15) div 16)"
  proof -
    obtain q r where m: "length m = 16 * q + r" "r < 16" using mod_less_divisor [of 16 "length m"] by (metis mult_div_mod_eq zero_less_numeral)
    then have "length m mod 16 = r" by simp
    moreover have "(length m + 15) div 16 = (if r = 0 then q else q + 1)" using m by auto
    ultimately show ?thesis using m by (simp add: padded_def)
  qed
  then have pm: "length (padded m) \<le> length m + 15" by simp
  have out: "unat ?out = 32 + 16 * ((length m + 15) div 16)" using lengths [OF assms(6,5)] pl by simp
  have "\<exists>tr'. oaes_encrypt (Some x) (Some m) m_len (Some c) (Some c_len) tr
      = Some (OAES_RET_SUCCESS, Some (x\<lparr>ctx_iv := snd ?ch\<rparr>), Some ?c, Some ?out, tr')"
    by (rule encrypt_value [OF assms(3) k iv assms(5,6)]) (use pm assms(7,8) in simp_all)
  moreover have "\<exists>b' tr'. oaes_decrypt (Some y) (Some ?c) ?out (Some b) (Some b_len) tr = Some (OAES_RET_SUCCESS, Some y, Some b', Some m_len, tr')
      \<and> take (length m) b' = m" if "length m + 15 \<le> length b" "length m + 15 \<le> unat b_len" for b b_len tr
    using decrypt_value [OF assms(4) k iv o assms(5,6), of b b_len "drop (32 + length (padded m)) c" tr] pm that by auto
  ultimately show ?thesis using out by blast
qed

theorem message_round_trip_witness:
  "\<exists>x' c' out tr'. oaes_encrypt (Some sample_ctx) (Some (str ''attack at dawn'')) 14 (Some (replicate 64 0)) (Some 64) []
      = Some (OAES_RET_SUCCESS, Some x', Some c', Some out, tr')
    \<and> (\<exists>b' tr'. oaes_decrypt (Some sample_ctx) (Some c') out (Some (replicate 32 0)) (Some 32) [] = Some (OAES_RET_SUCCESS, Some sample_ctx, Some b', Some 14, tr')
         \<and> take 14 b' = str ''attack at dawn'')"
proof -
  have k: "ctx_key sample_ctx = Some sample_key" by (simp add: sample_ctx_def)
  have l: "length (str ''attack at dawn'') = unat (14 :: u64)" by simp
  have n14: "length (str ''attack at dawn'') = 14" by simp
  have small: "unat (14 :: u64) + 47 < 2 ^ 64" "length (str ''attack at dawn'') + 47 \<le> length (replicate 64 (0 :: byte))"
    "length (str ''attack at dawn'') + 47 \<le> unat (64 :: u64)"
    by simp_all
  from message_round_trip [OF sample_ctx_ok sample_ctx_ok k k l small, of "[]"]
  obtain x' c' out tr' where e: "oaes_encrypt (Some sample_ctx) (Some (str ''attack at dawn'')) 14 (Some (replicate 64 0)) (Some 64) []
      = Some (OAES_RET_SUCCESS, Some x', Some c', Some out, tr')"
    and d: "\<forall>b b_len tr. length (str ''attack at dawn'') + 15 \<le> length b \<and> length (str ''attack at dawn'') + 15 \<le> unat b_len \<longrightarrow>
      (\<exists>b' tr'. oaes_decrypt (Some sample_ctx) (Some c') out (Some b) (Some b_len) tr = Some (OAES_RET_SUCCESS, Some sample_ctx, Some b', Some 14, tr')
        \<and> take (length (str ''attack at dawn'')) b' = str ''attack at dawn'')"
    by blast
  from d [unfolded n14, rule_format, of "replicate 32 0" 32 "[]"] e show ?thesis by auto
qed

text \<open>(C35) A key exported with \<^verbatim>\<open>oaes_key_export\<close> or \<^verbatim>\<open>oaes_key_export_data\<close> is imported again as the same
  key with the same key schedule, into any context.\<close>

theorem key_round_trip:
  assumes "ctx_ok x" and "ctx_key x = Some k" and "\<forall>n. mem n"
    and "16 + data_len k \<le> length d" and "16 + data_len k \<le> unat len"
  shows "(\<exists>d'. oaes_key_export (Some x) (Some d) (Some len) = Some (OAES_RET_SUCCESS, Some (of_nat (16 + data_len k)), Some d')
      \<and> oaes_key_import mem (Some y) (Some d') (of_nat (16 + data_len k)) = Some (OAES_RET_SUCCESS, Some (y\<lparr>ctx_key := Some k\<rparr>)))
    \<and> (\<exists>d'. oaes_key_export_data (Some x) (Some d) (Some len) = Some (OAES_RET_SUCCESS, Some (of_nat (data_len k)), Some d')
      \<and> oaes_key_import_data mem (Some y) (Some d') (of_nat (data_len k)) = Some (OAES_RET_SUCCESS, Some (y\<lparr>ctx_key := Some k\<rparr>)))"
proof -
  have k: "key_wf k" using assms(1,2) by (simp add: ctx_ok_def)
  then have n: "data_len k \<in> {16, 24, 32}" and l: "length (key_data k) = data_len k" by (auto simp: key_wf_def key_ok_def)
  let ?h = "[0x4f, 0x41, 0x45, 0x53, 0x01, 0x01, 0x00, of_nat (data_len k), 0, 0, 0, 0, 0, 0, 0, 0] :: byte list"
  have "copy_to (((copy_to d 0 oaes_header)[5 := 0x01])[7 := of_nat (data_len k)]) 16 (take (data_len k) (key_data k))
      = ?h @ key_data k @ drop (16 + data_len k) d"
    using l by (simp add: copy_to_def oaes_header_def eval_nat_numeral)
  moreover have "\<not> len < of_nat (data_len k) + 16" "\<not> len < of_nat (data_len k)"
    using n assms(5) by (auto simp: word_less_nat_alt)
  ultimately have e: "oaes_key_export (Some x) (Some d) (Some len)
      = Some (OAES_RET_SUCCESS, Some (of_nat (16 + data_len k)), Some (?h @ key_data k @ drop (16 + data_len k) d))"
    "oaes_key_export_data (Some x) (Some d) (Some len)
      = Some (OAES_RET_SUCCESS, Some (of_nat (data_len k)), Some (key_data k @ drop (data_len k) d))"
    using assms(2,4) l by (simp_all add: oaes_key_export_def oaes_key_export_data_def Let_def add.commute copy_to_def)
  have i: "oaes_key_import mem (Some y) (Some (?h @ key_data k @ drop (16 + data_len k) d)) (of_nat (16 + data_len k))
      = import_key mem y (key_data k)"
    "oaes_key_import_data mem (Some y) (Some (key_data k @ drop (data_len k) d)) (of_nat (data_len k)) = import_key mem y (key_data k)"
    using n l by (auto simp: oaes_key_import_def oaes_key_import_data_def oaes_header_def)
  show ?thesis using e i import_key_works [OF k, of mem y] assms(3) by simp
qed

theorem key_round_trip_witness:
  "\<exists>d'. oaes_key_export (Some sample_ctx) (Some (replicate 48 0)) (Some 48) = Some (OAES_RET_SUCCESS, Some 32, Some d')
      \<and> oaes_key_import (\<lambda>n. True) (Some sample_ctx) (Some d') 32 = Some (OAES_RET_SUCCESS, Some sample_ctx)"
  using key_round_trip [OF sample_ctx_ok, of sample_key "\<lambda>n. True" "replicate 48 0" 48 sample_ctx]
  by (simp add: sample_ctx_def sample_key_def)

lemma count_line: "q \<le> n \<Longrightarrow> (c \<longrightarrow> q + 1 \<le> n) \<Longrightarrow>
    3 + (if c then 1 else 0) + (3 * l + (n - (if c then q + 1 else q))) = 3 * Suc l + (n - q :: nat)"
  by auto

lemma sprintf_length: "length (sprintf_loop i data) = 3 * length data + ((i + length data) div 16 - i div 16)"
proof (induction i data rule: sprintf_loop.induct)
  case (2 i b data)
  let ?c = "(i + 1) mod 16 = 0" and ?n = "(i + 1 + length data) div 16"
  have nz: "(i \<noteq> 0 \<and> ?c) = ?c" by (cases i) auto
  have q: "(i + 1) div 16 = (if ?c then i div 16 + 1 else i div 16)" by (simp add: div_Suc)
  have le: "(i + 1) div 16 \<le> ?n" "i div 16 \<le> ?n" by (rule div_le_mono, simp)+
  have "length (sprintf_loop i (b # data)) = 3 + (if ?c then 1 else 0) + (3 * length data + (?n - (if ?c then i div 16 + 1 else i div 16)))"
    unfolding sprintf_loop.simps length_append 2 q using nz by (cases ?c) simp_all
  also have "\<dots> = 3 * Suc (length data) + (?n - i div 16)" by (rule count_line) (use le q in auto)
  finally show ?case by simp
qed simp

text \<open>The dump of \<^verbatim>\<open>oaes_sprintf\<close> takes exactly the length it announces, with its NUL, and nothing of the
  buffer beyond it is written; for a shorter buffer it only announces it.\<close>

theorem sprintf_bounds:
  assumes "3 * unat len + unat len div 16 + 1 < 2 ^ 64" and "length data = unat len"
  shows "\<exists>out. unat out = length (sprintf_loop 0 data) + 1 \<and> oaes_sprintf None (Some buf_len) (Some data) len = Some (OAES_RET_SUCCESS, Some out, None)
    \<and> (buf_len < out \<longrightarrow> oaes_sprintf (Some b) (Some buf_len) (Some data) len = Some (OAES_RET_BUF, Some out, Some b))
    \<and> (buf_len \<ge> out \<and> length b = unat buf_len \<longrightarrow> oaes_sprintf (Some b) (Some buf_len) (Some data) len
         = Some (OAES_RET_SUCCESS, Some out, Some (sprintf_loop 0 data @ 0 # drop (unat out) b)))"
proof -
  let ?out = "len * 3 + len div 16 + 1"
  have "unat (len * 3 + len div 16 + 1) = 3 * unat len + unat len div 16 + 1"
    using assms(1) by (simp add: unat_word_ariths unat_div)
  then have u: "unat ?out = length (sprintf_loop 0 data) + 1" using assms(2) by (simp add: sprintf_length)
  then show ?thesis using assms(2)
    by (intro exI [of _ ?out]) (auto simp: oaes_sprintf_def Let_def copy_to_def word_less_nat_alt word_le_nat_alt)
qed

theorem sprintf_bounds_witness:
  "\<exists>out. unat out = 4 \<and> oaes_sprintf (Some (replicate 4 9)) (Some 4) (Some [0xa5]) 1 = Some (OAES_RET_SUCCESS, Some out, Some [0x61, 0x35, 0x20, 0])
    \<and> oaes_sprintf (Some (replicate 4 9)) (Some 3) (Some [0xa5]) 1 = Some (OAES_RET_BUF, Some out, Some (replicate 4 9))"
proof -
  have four: "Suc (Suc (Suc (Suc 0))) = 4" by simp
  from sprintf_bounds [of 1 "[0xa5]" 4 "replicate 4 9"]
  obtain out where o: "unat out = 4" "oaes_sprintf (Some (replicate 4 9)) (Some 4) (Some [0xa5]) 1 = Some (OAES_RET_SUCCESS, Some out, Some [0x61, 0x35, 0x20, 0])"
    by (auto simp: hex_digit_def word_le_nat_alt four)
  from sprintf_bounds [of 1 "[0xa5]" 3 "replicate 4 9"]
  obtain out' where o': "unat out' = 4" "oaes_sprintf (Some (replicate 4 9)) (Some 3) (Some [0xa5]) 1 = Some (OAES_RET_BUF, Some out', Some (replicate 4 9))"
    by (auto simp: word_less_nat_alt four)
  have "out' = out" using o(1) o'(1) by (simp add: word_unat_eq_iff)
  then show ?thesis using o o' by auto
qed

end
