(* ===== verification/Range_Set.thy ===== *)
theory Range_Set
  imports Prelude "HOL-Library.Product_Lexorder"
begin

section \<open>otautil: range sets\<close>

text \<open>
  \<^verbatim>\<open>RangeSet\<close> and \<^verbatim>\<open>SortedRangeSet\<close> of \<^verbatim>\<open>rangeset.cpp\<close>, the block ranges of block-based updates. A range is
  half-open, its ends are \<^verbatim>\<open>size_t\<close>. The abstract value of a set is the list of its blocks in order.
  A failing \<^verbatim>\<open>CHECK\<close>, a division by 0 and an iterator moved past the end are the result \<open>None\<close>.
  \<^verbatim>\<open>Split\<close> and \<^verbatim>\<open>ParseUint\<close> of libbase, which is not part of the repository, are parameters.
\<close>

type_synonym range = "u64 \<times> u64"

record RangeSet =
  rs_ranges :: "range list"
  rs_blocks :: u64

definition no_ranges :: RangeSet where
  "no_ranges = \<lparr>rs_ranges = [], rs_blocks = 0\<rparr>"

subsection \<open>RangeSet\<close>

definition PushBack :: "RangeSet \<Rightarrow> range \<Rightarrow> bool \<times> RangeSet" where
  "PushBack rs r =
     (if fst r \<ge> snd r then (False, rs)
      else
        let sz = snd r - fst r
        in if rs_blocks rs \<ge> - 1 - sz then (False, rs)
           else (True, rs\<lparr>rs_ranges := rs_ranges rs @ [r], rs_blocks := rs_blocks rs + sz\<rparr>))"

definition Clear :: "RangeSet \<Rightarrow> RangeSet" where
  "Clear rs = rs\<lparr>rs_ranges := [], rs_blocks := 0\<rparr>"

fun push_all :: "RangeSet \<Rightarrow> range list \<Rightarrow> RangeSet" where
  "push_all rs [] = rs"
| "push_all rs (r # pairs) =
     (let (ok, rs) = PushBack rs r
      in if \<not> ok then Clear rs else push_all rs pairs)"

definition RangeSet_of :: "range list \<Rightarrow> RangeSet" where
  "RangeSet_of pairs = (if pairs = [] then no_ranges else push_all no_ranges pairs)"

text \<open>\<open>split\<close> is \<^verbatim>\<open>Split(text, ",")\<close>, \<open>parse s max\<close> is the number \<^verbatim>\<open>ParseUint\<close> stores, if it succeeds.\<close>

definition INT_MAX :: u64 where "INT_MAX = 0x7fffffff"

fun parse_pairs :: "(byte list \<Rightarrow> u64 \<Rightarrow> u64 option) \<Rightarrow> byte list list \<Rightarrow> range list option" where
  "parse_pairs parse (a # b # pieces) =
     (case (parse a INT_MAX, parse b INT_MAX) of
        (Some first, Some second) \<Rightarrow> map_option ((#) (first, second)) (parse_pairs parse pieces)
      | _ \<Rightarrow> None)"
| "parse_pairs parse pieces = Some []"

definition Parse :: "(byte list \<Rightarrow> byte list list) \<Rightarrow> (byte list \<Rightarrow> u64 \<Rightarrow> u64 option) \<Rightarrow> byte list \<Rightarrow> RangeSet" where
  "Parse split parse range_text =
     (let pieces = split range_text
      in if length pieces < 3 then no_ranges
         else
           case parse (pieces ! 0) INT_MAX of
             None \<Rightarrow> no_ranges
           | Some num \<Rightarrow>
               if num = 0 then no_ranges
               else if num mod 2 \<noteq> 0 then no_ranges
               else if unat num \<noteq> length pieces - 1 then no_ranges
               else
                 case parse_pairs parse (tl pieces) of
                   None \<Rightarrow> no_ranges
                 | Some pairs \<Rightarrow> RangeSet_of pairs)"

text \<open>The filling of one group: \<open>its\<close> are the ranges from the iterator on, \<open>cur\<close> what is left of the
  first of them.\<close>

function fill_group :: "range \<Rightarrow> range list \<Rightarrow> u64 \<Rightarrow> RangeSet \<Rightarrow> (RangeSet \<times> range \<times> range list) option" where
  "fill_group cur its needed buffer =
     (if needed > 0 then
        let range_blocks = snd cur - fst cur
        in if range_blocks > needed then
             Some (snd (PushBack buffer (fst cur, fst cur + needed)), (fst cur + needed, snd cur), its)
           else
             let buffer = snd (PushBack buffer cur)
             in case its of
                  [] \<Rightarrow> None
                | r # its \<Rightarrow> fill_group (if its \<noteq> [] then hd its else cur) its (needed - range_blocks) buffer
      else Some (buffer, cur, its))"
  by pat_completeness auto
termination by (relation "measure (\<lambda>(cur, its, needed, buffer). length its)") auto

declare fill_group.simps [simp del]

fun fill_groups :: "u64 list \<Rightarrow> range \<Rightarrow> range list \<Rightarrow> RangeSet list option" where
  "fill_groups [] cur its = Some []"
| "fill_groups (blocks # blocks_per_group) cur its =
     (case fill_group cur its blocks no_ranges of
        None \<Rightarrow> None
      | Some (buffer, cur, its) \<Rightarrow> map_option ((#) buffer) (fill_groups blocks_per_group cur its))"

definition Split :: "RangeSet \<Rightarrow> u64 \<Rightarrow> RangeSet list option" where
  "Split rs groups =
     (if rs_ranges rs = [] \<or> groups = 0 then Some []
      else
        let groups = (if rs_blocks rs < groups then rs_blocks rs else groups)
        in if groups = 0 then None
           else
             let mean = rs_blocks rs div groups;
                 more = unat (rs_blocks rs mod groups);
                 blocks_per_group = replicate more (mean + 1) @ replicate (unat groups - more) mean
             in fill_groups blocks_per_group (hd (rs_ranges rs)) (rs_ranges rs))"

definition range_text :: "range \<Rightarrow> byte list" where
  "range_text r = str '','' @ decimal (unat (fst r)) @ str '','' @ decimal (unat (snd r))"

definition ToString :: "RangeSet \<Rightarrow> byte list" where
  "ToString rs =
     (if rs_ranges rs = [] then []
      else decimal (length (rs_ranges rs) * 2) @ concat (map range_text (rs_ranges rs)))"

fun find_block :: "range list \<Rightarrow> u64 \<Rightarrow> u64 option" where
  "find_block [] idx = None"
| "find_block ((b, e) # ranges) idx =
     (if idx < e - b then Some (b + idx) else find_block ranges (idx - (e - b)))"

definition GetBlockNumber :: "RangeSet \<Rightarrow> u64 \<Rightarrow> u64 option" where
  "GetBlockNumber rs idx = (if \<not> idx < rs_blocks rs then None else find_block (rs_ranges rs) idx)"

definition Overlaps :: "RangeSet \<Rightarrow> RangeSet \<Rightarrow> bool" where
  "Overlaps rs other =
     list_ex (\<lambda>(b, e). list_ex (\<lambda>(other_begin, other_end). \<not> (other_begin \<ge> e \<or> b \<ge> other_end)) (rs_ranges other))
       (rs_ranges rs)"

fun sub_ranges :: "range list \<Rightarrow> u64 \<Rightarrow> u64 \<Rightarrow> u64 \<Rightarrow> RangeSet \<Rightarrow> RangeSet option option" where
  "sub_ranges [] current start_index end_index result = Some None"
| "sub_ranges ((range_start, range_end) # ranges) current start_index end_index result =
     (if \<not> range_start < range_end then None
      else
        let blocks_in_range = range_end - range_start
        in if current + blocks_in_range \<le> start_index then sub_ranges ranges (current + blocks_in_range) start_index end_index result
           else
             let trimmed_start = (if current < start_index then range_start + (start_index - current) else range_start)
             in if current + blocks_in_range \<ge> end_index then
                  let trimmed_end = range_end - (current + blocks_in_range - end_index);
                      (ok, result) = PushBack result (trimmed_start, trimmed_end)
                  in Some (if \<not> ok then None else Some result)
                else
                  let (ok, result) = PushBack result (trimmed_start, range_end)
                  in if \<not> ok then Some None
                     else sub_ranges ranges (current + blocks_in_range) start_index end_index result)"

definition GetSubRanges :: "RangeSet \<Rightarrow> u64 \<Rightarrow> u64 \<Rightarrow> RangeSet option option" where
  "GetSubRanges rs start_index num_of_blocks =
     (let end_index = start_index + num_of_blocks
      in if start_index > end_index \<or> end_index > rs_blocks rs then Some None
         else if num_of_blocks = 0 then Some (Some no_ranges)
         else sub_ranges (rs_ranges rs) 0 start_index end_index no_ranges)"

subsection \<open>SortedRangeSet\<close>

abbreviation (input) kBlockSize :: u64 where "kBlockSize \<equiv> 4096"

definition SortedRangeSet_of :: "range list \<Rightarrow> RangeSet" where
  "SortedRangeSet_of pairs = (let rs = RangeSet_of pairs in rs\<lparr>rs_ranges := sort (rs_ranges rs)\<rparr>)"

fun merge_ranges :: "RangeSet \<Rightarrow> range \<Rightarrow> range list \<Rightarrow> RangeSet" where
  "merge_ranges rs to_insert [] =
     rs\<lparr>rs_ranges := rs_ranges rs @ [to_insert], rs_blocks := rs_blocks rs + (snd to_insert - fst to_insert)\<rparr>"
| "merge_ranges rs to_insert (it # its) =
     (if fst it \<le> snd to_insert then merge_ranges rs (fst to_insert, max (snd to_insert) (snd it)) its
      else
        merge_ranges (rs\<lparr>rs_ranges := rs_ranges rs @ [to_insert], rs_blocks := rs_blocks rs + (snd to_insert - fst to_insert)\<rparr>) it its)"

definition Insert_set :: "RangeSet \<Rightarrow> RangeSet \<Rightarrow> RangeSet" where
  "Insert_set this rs =
     (if length (rs_ranges rs) = 0 then this
      else
        let temp = sort (rs_ranges this @ rs_ranges rs)
        in merge_ranges (Clear this) (hd temp) (tl temp))"

definition Insert_range :: "RangeSet \<Rightarrow> range \<Rightarrow> RangeSet" where
  "Insert_range this to_insert = Insert_set this (SortedRangeSet_of [to_insert])"

definition file_blocks :: "u64 \<Rightarrow> u64 \<Rightarrow> range" where
  "file_blocks start len = (start div kBlockSize, (start + len - 1) div kBlockSize + 1)"

definition Insert_file :: "RangeSet \<Rightarrow> u64 \<Rightarrow> u64 \<Rightarrow> RangeSet" where
  "Insert_file this start len = Insert_range this (file_blocks start len)"

definition Overlaps_file :: "RangeSet \<Rightarrow> u64 \<Rightarrow> u64 \<Rightarrow> bool" where
  "Overlaps_file this start len = Overlaps this (RangeSet_of [file_blocks start len])"

fun find_offset :: "range list \<Rightarrow> u64 \<Rightarrow> u64 \<Rightarrow> u64 \<Rightarrow> u64 option" where
  "find_offset [] old_block old_offset new_block = None"
| "find_offset ((start, e) # ranges) old_block old_offset new_block =
     (if old_block \<ge> e then find_offset ranges old_block old_offset (new_block + (e - start))
      else if old_block \<ge> start then Some ((new_block + (old_block - start)) * kBlockSize + old_offset mod kBlockSize)
      else None)"

definition GetOffsetInRangeSet :: "RangeSet \<Rightarrow> u64 \<Rightarrow> u64 option" where
  "GetOffsetInRangeSet rs old_offset = find_offset (rs_ranges rs) (old_offset div kBlockSize) old_offset 0"

subsection \<open>The blocks of a set\<close>

definition nums :: "range \<Rightarrow> nat list" where
  "nums r = [unat (fst r)..<unat (snd r)]"

definition blocks_of :: "range list \<Rightarrow> nat list" where
  "blocks_of rs = concat (map nums rs)"

definition range_ok :: "range \<Rightarrow> bool" where
  "range_ok r \<longleftrightarrow> fst r < snd r"

definition set_ok :: "RangeSet \<Rightarrow> bool" where
  "set_ok rs \<longleftrightarrow> list_all range_ok (rs_ranges rs) \<and> unat (rs_blocks rs) = length (blocks_of (rs_ranges rs))"

lemma blocks_of_simps [simp]:
  "blocks_of [] = []" "blocks_of (r # rs) = nums r @ blocks_of rs" "blocks_of (rs @ rs') = blocks_of rs @ blocks_of rs'"
  by (simp_all add: blocks_of_def)

lemma length_nums: "length (nums r) = unat (snd r) - unat (fst r)"
  by (simp add: nums_def)

lemma range_size: "range_ok r \<Longrightarrow> unat (snd r - fst r) = length (nums r)"
  by (simp add: range_ok_def nums_def unat_sub less_imp_le)

lemma range_positive: "range_ok r \<Longrightarrow> 0 < length (nums r)"
  by (simp add: range_ok_def nums_def word_less_nat_alt)

lemma no_ranges_ok: "set_ok no_ranges" "rs_ranges no_ranges = []" "rs_blocks no_ranges = 0"
  by (simp_all add: no_ranges_def set_ok_def)

text \<open>Ranges are only refused when they are empty or the total would not stay below \<^verbatim>\<open>SIZE_MAX\<close>.\<close>

lemma push_back_value:
  assumes "set_ok rs" and "range_ok r"
  shows "PushBack rs r = (if length (blocks_of (rs_ranges rs)) + length (nums r) < 2 ^ 64 - 1
      then (True, rs\<lparr>rs_ranges := rs_ranges rs @ [r], rs_blocks := rs_blocks rs + (snd r - fst r)\<rparr>) else (False, rs))"
proof -
  have b: "unat (rs_blocks rs) = length (blocks_of (rs_ranges rs))" using assms(1) by (simp add: set_ok_def)
  have "snd r - fst r \<le> - 1" by simp
  then have "unat (- 1 - (snd r - fst r)) = (2 ^ 64 - 1) - length (nums r)"
    using range_size [OF assms(2)] by (subst unat_sub) (simp_all add: unsigned_minus_1_eq_mask mask_eq_exp_minus_1)
  moreover have "length (nums r) < 2 ^ 64" using range_size [OF assms(2)] unsigned_less [of "snd r - fst r", where 'a = nat] by simp
  ultimately have "(rs_blocks rs \<ge> - 1 - (snd r - fst r)) = (\<not> length (blocks_of (rs_ranges rs)) + length (nums r) < 2 ^ 64 - 1)"
    using b by (auto simp: word_le_nat_alt)
  moreover have "\<not> fst r \<ge> snd r" using assms(2) by (simp add: range_ok_def not_le)
  ultimately show ?thesis by (simp add: PushBack_def Let_def)
qed

lemma pushed:
  assumes "set_ok rs" and "range_ok r" and "length (blocks_of (rs_ranges rs)) + length (nums r) < 2 ^ 64 - 1"
  defines "rs' \<equiv> rs\<lparr>rs_ranges := rs_ranges rs @ [r], rs_blocks := rs_blocks rs + (snd r - fst r)\<rparr>"
  shows "PushBack rs r = (True, rs')" and "set_ok rs'" and "blocks_of (rs_ranges rs') = blocks_of (rs_ranges rs) @ nums r"
proof -
  show "PushBack rs r = (True, rs')" using assms by (simp add: push_back_value)
  have "unat (rs_blocks rs + (snd r - fst r)) = unat (rs_blocks rs) + length (nums r)"
    using assms(1,3) range_size [OF assms(2)] by (subst unat_word_ariths) (simp add: set_ok_def)
  then show "set_ok rs'" "blocks_of (rs_ranges rs') = blocks_of (rs_ranges rs) @ nums r"
    using assms(1,2) by (simp_all add: rs'_def set_ok_def)
qed

subsection \<open>Splitting\<close>

definition pending :: "range \<Rightarrow> range list \<Rightarrow> nat list" where
  "pending cur its = (case its of [] \<Rightarrow> [] | r # its \<Rightarrow> nums cur @ blocks_of its)"

definition pending_ok :: "range \<Rightarrow> range list \<Rightarrow> bool" where
  "pending_ok cur its \<longleftrightarrow> (its \<noteq> [] \<longrightarrow> range_ok cur) \<and> list_all range_ok (tl its)"

lemma fill_group_value:
  assumes "set_ok buf" and "pending_ok cur its" and "unat needed \<le> length (pending cur its)"
    and "length (blocks_of (rs_ranges buf)) + unat needed < 2 ^ 64 - 1"
  shows "\<exists>buf' cur' its'. fill_group cur its needed buf = Some (buf', cur', its') \<and> set_ok buf'
    \<and> blocks_of (rs_ranges buf') = blocks_of (rs_ranges buf) @ take (unat needed) (pending cur its)
    \<and> pending cur' its' = drop (unat needed) (pending cur its) \<and> pending_ok cur' its'"
  using assms
proof (induction its arbitrary: cur needed buf)
  case Nil
  then have "needed = 0" by (simp add: pending_def unat_eq_0)
  then show ?case using Nil by (subst fill_group.simps) (simp add: pending_def)
next
  case (Cons r its)
  have cur: "range_ok cur" and its: "list_all range_ok its" using Cons.prems(2) by (simp_all add: pending_ok_def)
  let ?n = "length (nums cur)"
  have n: "unat (snd cur - fst cur) = ?n" by (rule range_size [OF cur])
  show ?case
  proof (cases "needed = 0")
    case True
    then show ?thesis using Cons.prems by (subst fill_group.simps) simp
  next
    case nz: False
    then have pos: "needed > 0" by (simp add: word_neq_0_conv)
    show ?thesis
    proof (cases "snd cur - fst cur > needed")
      case True
      then have less: "unat needed < ?n" using n by (simp add: word_less_nat_alt)
      let ?a = "unat (fst cur)" and ?m = "fst cur + needed"
      have "?a + unat needed < unat (snd cur)" using less by (simp add: length_nums)
      then have m: "unat ?m = ?a + unat needed" using unsigned_less [of "snd cur", where 'a = nat] by (subst unat_word_ariths) simp
      have sp: "nums cur = nums (fst cur, ?m) @ nums (?m, snd cur)" and ln: "length (nums (fst cur, ?m)) = unat needed"
        using m upt_add_eq_append [of ?a "?a + unat needed" "unat (snd cur) - (?a + unat needed)"] \<open>?a + unat needed < unat (snd cur)\<close>
        by (simp_all add: nums_def)
      have ok: "range_ok (fst cur, ?m)" "range_ok (?m, snd cur)"
        using m nz \<open>?a + unat needed < unat (snd cur)\<close> by (simp_all add: range_ok_def word_less_nat_alt unat_gt_0)
      have room: "length (blocks_of (rs_ranges buf)) + length (nums (fst cur, ?m)) < 2 ^ 64 - 1" using Cons.prems(4) ln by simp
      note p = pushed [OF Cons.prems(1) ok(1) room]
      show ?thesis using pos True p ok its sp ln
        by (subst fill_group.simps) (simp add: Let_def pending_def pending_ok_def)
    next
      case False
      then have le: "?n \<le> unat needed" using n by (simp add: not_less word_le_nat_alt)
      then have rest: "unat (needed - (snd cur - fst cur)) = unat needed - ?n" using n False by (simp add: unat_sub not_less)
      have room: "length (blocks_of (rs_ranges buf)) + ?n < 2 ^ 64 - 1" using Cons.prems(4) le by simp
      note p = pushed [OF Cons.prems(1) cur room]
      let ?cur = "if its \<noteq> [] then hd its else cur" and ?buf = "snd (PushBack buf cur)"
      have pend: "pending ?cur its = blocks_of its" "pending_ok ?cur its"
        using its by (cases its; simp add: pending_def pending_ok_def)+
      have "unat (needed - (snd cur - fst cur)) \<le> length (pending ?cur its)"
        using Cons.prems(3) rest unfolding pend(1) by (simp add: pending_def)
      moreover have "length (blocks_of (rs_ranges ?buf)) + unat (needed - (snd cur - fst cur)) < 2 ^ 64 - 1"
        using p Cons.prems(4) rest le by simp
      moreover have "set_ok ?buf" using p by simp
      ultimately show ?thesis
        using Cons.IH [of ?buf ?cur "needed - (snd cur - fst cur)"] pos False p le rest pend
        by (subst fill_group.simps) (auto simp: Let_def pending_def)
    qed
  qed
qed

lemma fill_groups_value:
  assumes "pending_ok cur its" and "sum_list (map unat ns) = length (pending cur its)" and "length (pending cur its) < 2 ^ 64 - 1"
  shows "\<exists>parts. fill_groups ns cur its = Some parts \<and> concat (map (\<lambda>p. blocks_of (rs_ranges p)) parts) = pending cur its
    \<and> (\<forall>p \<in> set parts. set_ok p) \<and> map (\<lambda>p. unat (rs_blocks p)) parts = map unat ns"
  using assms
proof (induction ns arbitrary: cur its)
  case Nil
  then show ?case by simp
next
  case (Cons n ns)
  have n: "unat n \<le> length (pending cur its)" using Cons.prems(2) by simp
  have "length (blocks_of (rs_ranges no_ranges)) + unat n < 2 ^ 64 - 1" using n Cons.prems(3) by (simp add: no_ranges_ok)
  from fill_group_value [OF no_ranges_ok(1) Cons.prems(1) n this]
  obtain buf cur' its' where g: "fill_group cur its n no_ranges = Some (buf, cur', its')" "set_ok buf"
      "blocks_of (rs_ranges buf) = take (unat n) (pending cur its)"
      "pending cur' its' = drop (unat n) (pending cur its)" "pending_ok cur' its'"
    by (auto simp: no_ranges_ok)
  then have "sum_list (map unat ns) = length (pending cur' its')" "length (pending cur' its') < 2 ^ 64 - 1"
    using Cons.prems n by simp_all
  from Cons.IH [OF g(5) this] obtain parts where "fill_groups ns cur' its' = Some parts"
      "concat (map (\<lambda>p. blocks_of (rs_ranges p)) parts) = pending cur' its'"
      "\<forall>p \<in> set parts. set_ok p" "map (\<lambda>p. unat (rs_blocks p)) parts = map unat ns"
    by blast
  moreover have "unat (rs_blocks buf) = unat n" using g(2,3) n by (simp add: set_ok_def)
  ultimately show ?case using g by simp
qed

subsection \<open>Indices\<close>

lemma nums_nth: "i < length (nums r) \<Longrightarrow> nums r ! i = unat (fst r) + i"
  by (simp add: nums_def)

lemma word_in_range:
  assumes "range_ok r" and "unat i < length (nums r)"
  shows "unat (fst r + i) = unat (fst r) + unat i"
  using assms unsigned_less [of "snd r", where 'a = nat] by (subst unat_word_ariths) (simp add: length_nums)

lemma find_block_value:
  assumes "list_all range_ok rs" and "unat idx < length (blocks_of rs)"
  shows "\<exists>n. find_block rs idx = Some n \<and> unat n = blocks_of rs ! unat idx"
  using assms
proof (induction rs arbitrary: idx)
  case (Cons r rs)
  obtain b e where r: "r = (b, e)" by force
  have ok: "range_ok r" using Cons.prems(1) by simp
  have sz: "unat (e - b) = length (nums r)" using range_size [OF ok] by (simp add: r)
  show ?case
  proof (cases "idx < e - b")
    case True
    then have "unat idx < length (nums r)" using sz by (simp add: word_less_nat_alt)
    then show ?thesis using word_in_range [OF ok] True by (simp add: r nums_nth nth_append)
  next
    case False
    then have le: "length (nums r) \<le> unat idx" using sz by (simp add: word_less_nat_alt)
    have "unat (idx - (e - b)) = unat idx - length (nums r)" using False sz by (simp add: unat_sub not_less)
    then show ?thesis using Cons.IH [of "idx - (e - b)"] Cons.prems le False by (simp add: r nth_append)
  qed
qed simp

lemma blocks_below:
  assumes "x \<in> set (blocks_of rs)"
  shows "x < 2 ^ 64"
proof -
  note assms
  then obtain r where "x \<in> set (nums r)" by (auto simp: blocks_of_def)
  then have "x < unat (snd r)" by (simp add: nums_def)
  then show ?thesis using unsigned_less [of "snd r", where 'a = nat] by simp
qed

text \<open>\<^verbatim>\<open>GetSubRanges\<close>: the blocks from \<open>start\<close> to \<open>stop\<close>, where \<open>i\<close> blocks are passed already. Its pushes never
  fail, since the result has fewer blocks than the set.\<close>

lemma sub_ranges_value:
  assumes "list_all range_ok rs" and "set_ok res" and "unat start < unat stop" and "unat current < unat stop"
    and "unat stop \<le> unat current + length (blocks_of rs)" and "unat current + length (blocks_of rs) < 2 ^ 64 - 1"
    and "length (blocks_of (rs_ranges res)) \<le> unat current"
  shows "\<exists>res'. sub_ranges rs current start stop res = Some (Some res') \<and> set_ok res'
    \<and> blocks_of (rs_ranges res') = blocks_of (rs_ranges res) @ drop (unat start - unat current) (take (unat stop - unat current) (blocks_of rs))"
  using assms
proof (induction rs arbitrary: current res)
  case Nil
  then show ?case by simp
next
  case (Cons r rs)
  obtain b e where r: "r = (b, e)" by force
  have ok: "range_ok r" and oks: "list_all range_ok rs" using Cons.prems(1) by simp_all
  let ?n = "length (nums r)" and ?c = "current + (e - b)"
  have n: "unat (e - b) = ?n" using range_size [OF ok] by (simp add: r)
  have be: "b < e" using ok by (simp add: r range_ok_def)
  have c: "unat ?c = unat current + ?n" using Cons.prems(6) n by (subst unat_word_ariths) simp
  show ?case
  proof (cases "?c \<le> start")
    case True
    then have le: "unat current + ?n \<le> unat start" using c by (simp add: word_le_nat_alt)
    have "\<exists>res'. sub_ranges rs ?c start stop res = Some (Some res') \<and> set_ok res'
      \<and> blocks_of (rs_ranges res') = blocks_of (rs_ranges res) @ drop (unat start - unat ?c) (take (unat stop - unat ?c) (blocks_of rs))"
      by (rule Cons.IH [OF oks Cons.prems(2,3)]) (use Cons.prems c le in auto)
    moreover have "unat start - unat current - ?n = unat start - unat ?c" "unat stop - unat current - ?n = unat stop - unat ?c" using c by simp_all
    moreover have "take (unat stop - unat current) (nums r) = nums r" "drop (unat start - unat current) (nums r) = []"
      using le Cons.prems(3) by simp_all
    ultimately show ?thesis using True be by (simp add: r [symmetric]) (simp add: r)
  next
    case False
    then have gt: "unat start < unat current + ?n" using c by (simp add: word_le_nat_alt not_le)
    let ?s = "unat start - unat current"
    define lo where "lo = (if current < start then b + (start - current) else b)"
    have lo: "unat lo = unat b + ?s"
    proof (cases "current < start")
      case True
      then have s: "unat (start - current) = ?s" "unat current < unat start"
        by (simp_all add: unat_sub less_imp_le word_less_nat_alt [symmetric])
      then have "unat (start - current) < ?n" using gt by linarith
      then show ?thesis using word_in_range [OF ok, of "start - current"] True s(1) by (simp add: lo_def r)
    qed (simp add: lo_def word_less_nat_alt)
    have len: "?n = unat e - unat b" by (simp add: length_nums r)
    show ?thesis
    proof (cases "?c \<ge> stop")
      case True
      then have le: "unat stop \<le> unat current + ?n" using c by (simp add: word_le_nat_alt)
      define hi where "hi = e - (?c - stop)"
      have d: "unat (?c - stop) = unat current + ?n - unat stop" using True c by (simp add: unat_sub)
      have "?c - stop \<le> e" using d len Cons.prems(4) by (simp only: word_le_nat_alt)
      then have "unat hi = unat e - unat (?c - stop)" unfolding hi_def by (rule unat_sub)
      moreover have "unat b < unat e" using be by (simp only: word_less_nat_alt)
      ultimately have hi: "unat hi = unat b + (unat stop - unat current)"
        using d len Cons.prems(4) le by linarith
      have o: "range_ok (lo, hi)" using lo hi Cons.prems(3,4) by (simp add: range_ok_def word_less_nat_alt)
      have nums: "nums (lo, hi) = drop ?s (take (unat stop - unat current) (nums r))"
        using lo hi le be by (simp add: nums_def r len take_upt drop_upt word_less_nat_alt)
      then have "length (nums (lo, hi)) \<le> ?n" by simp
      then have "length (blocks_of (rs_ranges res)) + length (nums (lo, hi)) < 2 ^ 64 - 1" using Cons.prems(6,7) by simp
      note p = pushed [OF Cons.prems(2) o this]
      have "unat stop - unat current - ?n = 0" using le by simp
      then show ?thesis using p False True be nums gt
        by (simp add: r [symmetric] Let_def lo_def [symmetric] hi_def [symmetric]) (simp add: r lo_def [symmetric] hi_def [symmetric])
    next
      case False
      then have gt2: "unat current + ?n < unat stop" using c by (simp add: word_le_nat_alt not_le)
      have o: "range_ok (lo, e)" using lo gt len be by (simp add: range_ok_def word_less_nat_alt)
      have nums: "nums (lo, e) = drop ?s (nums r)" using lo gt by (simp add: nums_def r len drop_upt)
      then have ln: "length (nums (lo, e)) \<le> ?n" by simp
      then have "length (blocks_of (rs_ranges res)) + length (nums (lo, e)) < 2 ^ 64 - 1" using Cons.prems(6,7) by simp
      note p = pushed [OF Cons.prems(2) o this]
      let ?res = "snd (PushBack res (lo, e))"
      have s: "set_ok ?res" "length (blocks_of (rs_ranges ?res)) \<le> unat ?c" using p ln c Cons.prems(7) by simp_all
      have "\<exists>res'. sub_ranges rs ?c start stop ?res = Some (Some res') \<and> set_ok res'
        \<and> blocks_of (rs_ranges res') = blocks_of (rs_ranges ?res) @ drop (unat start - unat ?c) (take (unat stop - unat ?c) (blocks_of rs))"
        by (rule Cons.IH [OF oks s(1) Cons.prems(3)]) (use Cons.prems c gt2 s in auto)
      moreover have "unat start - unat ?c = 0" "?s - ?n = 0" "unat stop - unat current - ?n = unat stop - unat ?c" using gt c by simp_all
      moreover have "take (unat stop - unat current) (nums r) = nums r" using gt2 by simp
      ultimately show ?thesis using p False \<open>\<not> ?c \<le> start\<close> be nums
        by (simp add: r [symmetric] Let_def lo_def [symmetric]) (simp add: r lo_def [symmetric])
    qed
  qed
qed

end
