(* ===== verification/Range_Set_Properties.thy ===== *)
theory Range_Set_Properties
  imports Range_Set
begin

section \<open>otautil: properties of range sets\<close>

text \<open>
  What the operations of \<^verbatim>\<open>rangeset.cpp\<close> do to the list of blocks of a set: splitting, selection by index,
  insertion into a sorted set, offsets, and the text form.
\<close>

subsection \<open>Sorted sets\<close>

definition apart :: "range list \<Rightarrow> bool" where
  "apart rs \<longleftrightarrow> list_all range_ok rs \<and> sorted_wrt (\<lambda>r s. snd r < fst s) rs"

definition sorted_ok :: "RangeSet \<Rightarrow> bool" where
  "sorted_ok rs \<longleftrightarrow> set_ok rs \<and> apart (rs_ranges rs)"

lemma set_nums: "x \<in> set (nums r) \<longleftrightarrow> unat (fst r) \<le> x \<and> x < unat (snd r)"
  by (simp add: nums_def)

lemma set_blocks: "x \<in> set (blocks_of rs) \<longleftrightarrow> (\<exists>r \<in> set rs. unat (fst r) \<le> x \<and> x < unat (snd r))"
  by (auto simp: blocks_of_def set_nums)

lemma apart_sorted: "apart rs \<Longrightarrow> sorted_wrt (<) (blocks_of rs)"
proof (induction rs)
  case (Cons r rs)
  then have "sorted_wrt (<) (blocks_of rs)" and "\<forall>s \<in> set rs. snd r < fst s" by (simp_all add: apart_def)
  then show ?case
    by (fastforce simp: sorted_wrt_append set_nums set_blocks word_less_nat_alt nums_def)
qed simp

lemma increasing_bound: "sorted_wrt (<) xs \<Longrightarrow> \<forall>x \<in> set xs. x < n \<Longrightarrow> length xs \<le> (n :: nat)"
  using card_mono [of "{..<n}" "set xs"] distinct_card [of xs] by (auto simp: strict_sorted_iff)

lemma apart_length: "apart rs \<Longrightarrow> length (blocks_of rs) < 2 ^ 64"
proof -
  assume a: "apart rs"
  have "\<forall>x \<in> set (blocks_of rs). x < 2 ^ 64 - 1"
  proof
    fix x assume "x \<in> set (blocks_of rs)"
    then obtain r :: range where "x < unat (snd r)" by (auto simp: set_blocks)
    then show "x < 2 ^ 64 - 1" using unsigned_less [of "snd r", where 'a = nat] by simp
  qed
  from increasing_bound [OF apart_sorted [OF a] this] show ?thesis by simp
qed

lemma increasing_unique: "sorted_wrt (<) (xs :: nat list) \<Longrightarrow> xs = sorted_list_of_set (set xs)"
  by (simp add: sorted_list_of_set.idem_if_sorted_distinct strict_sorted_iff)

text \<open>The counter follows the ranges modulo the word size, and there is no more room than that.\<close>

definition counted :: "RangeSet \<Rightarrow> bool" where
  "counted rs \<longleftrightarrow> rs_blocks rs = of_nat (length (blocks_of (rs_ranges rs)))"

lemma counted_ok: "counted rs \<Longrightarrow> apart (rs_ranges rs) \<Longrightarrow> sorted_ok rs"
  using apart_length [of "rs_ranges rs"] by (simp add: counted_def sorted_ok_def set_ok_def apart_def unat_of_nat)

lemma counted_append:
  "counted rs \<Longrightarrow> range_ok r \<Longrightarrow> counted (rs\<lparr>rs_ranges := rs_ranges rs @ [r], rs_blocks := rs_blocks rs + (snd r - fst r)\<rparr>)"
  using range_size [of r] by (simp add: counted_def flip: range_size)

lemma merge_ranges_value:
  assumes "counted rs" and "list_all range_ok (rs_ranges rs)" and "range_ok cur" and "list_all range_ok its" and "sorted (map fst (cur # its))"
    and "apart (rs_ranges rs @ [cur])"
  shows "counted (merge_ranges rs cur its) \<and> apart (rs_ranges (merge_ranges rs cur its))
    \<and> set (blocks_of (rs_ranges (merge_ranges rs cur its))) = set (blocks_of (rs_ranges rs)) \<union> set (nums cur) \<union> set (blocks_of its)"
  using assms
proof (induction its arbitrary: rs cur)
  case Nil
  then show ?case by (simp add: counted_append)
next
  case (Cons it its)
  show ?case
  proof (cases "fst it \<le> snd cur")
    case True
    let ?cur = "(fst cur, max (snd cur) (snd it))"
    have "range_ok ?cur" using Cons.prems(3) by (auto simp: range_ok_def max_def)
    moreover have "apart (rs_ranges rs @ [?cur])" using Cons.prems(6) by (auto simp: apart_def sorted_wrt_append range_ok_def max_def)
    moreover have "set (nums cur) \<union> set (nums it) = set (nums ?cur)"
      using True Cons.prems(5) by (auto simp: set_nums max_def word_le_nat_alt)
    ultimately show ?thesis using True Cons.IH [of rs ?cur] Cons.prems by auto
  next
    case False
    let ?rs = "rs\<lparr>rs_ranges := rs_ranges rs @ [cur], rs_blocks := rs_blocks rs + (snd cur - fst cur)\<rparr>"
    have "counted ?rs" by (rule counted_append) (rule Cons.prems)+
    moreover have "apart (rs_ranges ?rs @ [it])"
    proof -
      have "snd r < fst it" if "r \<in> set (rs_ranges rs)" for r
        using that Cons.prems(3,6) False by (fastforce simp: apart_def sorted_wrt_append range_ok_def)
      then show ?thesis using Cons.prems(4,6) False by (auto simp: apart_def sorted_wrt_append)
    qed
    ultimately show ?thesis using False Cons.IH [of ?rs it] Cons.prems by auto
  qed
qed

lemma sorted_fst: "sorted rs \<Longrightarrow> sorted (map fst (rs :: range list))"
  by (induction rs) (auto simp: less_eq_prod_def)

lemma insert_set_value:
  assumes "sorted_ok this" and "set_ok rs"
  shows "sorted_ok (Insert_set this rs)"
    and "set (blocks_of (rs_ranges (Insert_set this rs))) = set (blocks_of (rs_ranges this)) \<union> set (blocks_of (rs_ranges rs))"
proof -
  let ?t = "sort (rs_ranges this @ rs_ranges rs)"
  have "sorted_ok (Insert_set this rs) \<and> set (blocks_of (rs_ranges (Insert_set this rs))) = set (blocks_of (rs_ranges this)) \<union> set (blocks_of (rs_ranges rs))"
  proof (cases "rs_ranges rs = []")
    case True
    then show ?thesis using assms(1) by (simp add: Insert_set_def)
  next
    case False
    then obtain cur its where t: "?t = cur # its" by (metis append_is_Nil_conv length_0_conv length_sort list.exhaust)
    have ok: "list_all range_ok ?t" using assms by (auto simp: list_all_iff sorted_ok_def set_ok_def)
    have "sorted ?t" by (rule sorted_sort)
    then have s: "sorted (map fst (cur # its))" unfolding t by (rule sorted_fst)
    have b: "set (blocks_of ?t) = set (blocks_of (rs_ranges this)) \<union> set (blocks_of (rs_ranges rs))" by (auto simp: set_blocks)
    have c: "counted (Clear this)" "rs_ranges (Clear this) = []" by (simp_all add: counted_def Clear_def)
    have "counted (merge_ranges (Clear this) cur its) \<and> apart (rs_ranges (merge_ranges (Clear this) cur its))
      \<and> set (blocks_of (rs_ranges (merge_ranges (Clear this) cur its))) = set (blocks_of (rs_ranges (Clear this))) \<union> set (nums cur) \<union> set (blocks_of its)"
      by (rule merge_ranges_value) (use ok s t c in \<open>simp_all add: apart_def\<close>)
    then show ?thesis using False b t c counted_ok by (simp add: Insert_set_def)
  qed
  then show "sorted_ok (Insert_set this rs)"
    "set (blocks_of (rs_ranges (Insert_set this rs))) = set (blocks_of (rs_ranges this)) \<union> set (blocks_of (rs_ranges rs))" by blast+
qed

lemma single_range:
  "range_ok r \<Longrightarrow> length (nums r) < 2 ^ 64 - 1 \<Longrightarrow> set_ok (RangeSet_of [r]) \<and> rs_ranges (RangeSet_of [r]) = [r]"
  "\<not> range_ok r \<Longrightarrow> RangeSet_of [r] = no_ranges"
  using push_back_value [OF no_ranges_ok(1), of r] pushed [OF no_ranges_ok(1), of r]
  by (auto simp: RangeSet_of_def no_ranges_ok PushBack_def range_ok_def Clear_def Let_def)

lemma find_offset_value:
  assumes "apart rs" and "i < length (blocks_of rs)" and "unat n = blocks_of rs ! i"
  shows "find_offset rs n off acc = Some ((acc + of_nat i) * 4096 + off mod 4096)"
  using assms
proof (induction rs arbitrary: i acc)
  case (Cons r rs)
  obtain b e where r: "r = (b, e)" by force
  have ok: "range_ok r" and a: "apart rs" using Cons.prems(1) by (simp_all add: apart_def)
  have word: "of_nat (unat w) = w" for w :: u64 by simp
  have sz: "e - b = of_nat (length (nums r))" using range_size [OF ok] word [of "e - b"] by (simp only: r fst_conv snd_conv)
  show ?case
  proof (cases "i < length (nums r)")
    case True
    then have n: "unat n = unat b + i" using Cons.prems(3) by (simp add: nth_append nums_nth r)
    then have "\<not> n \<ge> e" "n \<ge> b" using True by (simp_all add: word_le_nat_alt length_nums r)
    moreover have "n - b = of_nat i"
    proof -
      have "n - b = of_nat (unat n - unat b)" using \<open>n \<ge> b\<close> by (metis unat_sub word)
      then show ?thesis using n by simp
    qed
    ultimately show ?thesis by (simp add: r)
  next
    case False
    then have i: "i - length (nums r) < length (blocks_of rs)" "unat n = blocks_of rs ! (i - length (nums r))"
      using Cons.prems(2,3) by (simp_all add: nth_append)
    then have "unat n \<in> set (blocks_of rs)" by simp
    then obtain s where "s \<in> set rs" "fst s \<le> n" by (auto simp: set_blocks word_le_nat_alt)
    then have "n \<ge> e" using Cons.prems(1) by (fastforce simp: apart_def r)
    moreover have "of_nat (length (nums r)) * 4096 + of_nat (i - length (nums r)) * 4096 = (of_nat i * 4096 :: u64)"
      using False by (simp flip: distrib_right of_nat_add)
    ultimately show ?thesis using Cons.IH [OF a i] by (simp add: r [symmetric]) (simp add: r sz [unfolded r] distrib_right add.assoc)
  qed
qed simp

lemma find_offset_none:
  assumes "apart rs" and "unat n \<notin> set (blocks_of rs)"
  shows "find_offset rs n off acc = None"
  using assms
proof (induction rs arbitrary: acc)
  case (Cons r rs)
  then show ?case by (cases r) (auto simp: apart_def set_nums word_le_nat_alt word_less_nat_alt)
qed simp

subsection \<open>The text form\<close>

definition comma :: byte where
  "comma = 0x2c"

fun join :: "byte list list \<Rightarrow> byte list" where
  "join [] = []"
| "join [p] = p"
| "join (p # ps) = p @ comma # join ps"

text \<open>What is relied on of libbase: \<^verbatim>\<open>Split\<close> cuts at every comma, \<^verbatim>\<open>ParseUint\<close> reads a decimal number up to
  the limit.\<close>

definition splits_commas :: "(byte list \<Rightarrow> byte list list) \<Rightarrow> bool" where
  "splits_commas split \<longleftrightarrow> (\<forall>ps. ps \<noteq> [] \<and> (\<forall>p \<in> set ps. comma \<notin> set p) \<longrightarrow> split (join ps) = ps)"

definition parses_decimal :: "(byte list \<Rightarrow> u64 \<Rightarrow> u64 option) \<Rightarrow> bool" where
  "parses_decimal parse \<longleftrightarrow> (\<forall>n limit. parse (decimal n) limit = (if n \<le> unat limit then Some (of_nat n) else None))"

lemma decimal_no_comma: "comma \<notin> set (decimal n)"
proof (induction n rule: decimal.induct)
  case (1 n)
  have ne: "(0x30 :: byte) + of_nat d \<noteq> comma" if "d < 10" for d
  proof
    assume "(0x30 :: byte) + of_nat d = comma"
    moreover have "(0x30 :: byte) + of_nat d = of_nat (48 + d)" by simp
    ultimately have "unat ((of_nat (48 + d)) :: byte) = unat comma" by (simp only:)
    then have "unat ((of_nat (48 + d)) :: byte) = 44" by (simp only: comma_def) simp
    then show False using that by (simp only: unat_of_nat) simp
  qed
  then show ?case using 1 ne [THEN not_sym] by (subst decimal.simps) auto
qed

definition pieces_of :: "RangeSet \<Rightarrow> byte list list" where
  "pieces_of rs = decimal (length (rs_ranges rs) * 2)
     # concat (map (\<lambda>r. [decimal (unat (fst r)), decimal (unat (snd r))]) (rs_ranges rs))"

lemma to_string_join: "rs_ranges rs \<noteq> [] \<Longrightarrow> ToString rs = join (pieces_of rs)"
proof -
  have j: "join (p # ps) = p @ concat (map ((#) comma) ps)" for p ps
    by (induction ps arbitrary: p) simp_all
  have "concat (map range_text l) = concat (map ((#) comma) (concat (map (\<lambda>r. [decimal (unat (fst r)), decimal (unat (snd r))]) l)))" for l
    by (induction l) (simp_all add: range_text_def str_def comma_def)
  then show "rs_ranges rs \<noteq> [] \<Longrightarrow> ToString rs = join (pieces_of rs)" by (simp add: ToString_def pieces_of_def j)
qed

lemma parse_pairs_value:
  assumes "parses_decimal parse" and "\<forall>r \<in> set l. snd r \<le> INT_MAX" and "list_all range_ok l"
  shows "parse_pairs parse (concat (map (\<lambda>r. [decimal (unat (fst r)), decimal (unat (snd r))]) l)) = Some l"
  using assms(2,3)
proof (induction l)
  case (Cons r l)
  then have "unat (fst r) \<le> unat INT_MAX" "unat (snd r) \<le> unat INT_MAX"
    by (auto simp: range_ok_def word_le_nat_alt word_less_nat_alt)
  then show ?case using Cons assms(1) by (simp add: parses_decimal_def)
qed simp

lemma push_all_value:
  assumes "list_all range_ok l" and "set_ok rs" and "length (blocks_of (rs_ranges rs)) + length (blocks_of l) < 2 ^ 64 - 1"
  shows "set_ok (push_all rs l) \<and> rs_ranges (push_all rs l) = rs_ranges rs @ l"
  using assms
proof (induction l arbitrary: rs)
  case (Cons r l)
  have ok: "range_ok r" and room: "length (blocks_of (rs_ranges rs)) + length (nums r) < 2 ^ 64 - 1" using Cons.prems by simp_all
  note p = pushed [OF Cons.prems(2) ok room]
  show ?case using Cons.IH [of "snd (PushBack rs r)"] Cons.prems p by simp
qed simp

lemma set_ok_eq: "set_ok rs \<Longrightarrow> set_ok rs' \<Longrightarrow> rs_ranges rs = rs_ranges rs' \<Longrightarrow> rs = rs'"
  by (intro RangeSet.equality) (auto simp: set_ok_def word_unat_eq_iff)

subsection \<open>Properties\<close>

lemma even_parts: "r \<le> g \<Longrightarrow> r * (q + 1) + (g - r) * q = g * q + (r :: nat)"
  by (auto simp: le_iff_add algebra_simps)

text \<open>(C18) \<^verbatim>\<open>Split\<close> always returns, and its parts are the blocks of the set in order: as many parts as
  asked for, or one per block if there are fewer blocks, of which the first ones have a block more when the
  division leaves a remainder.\<close>

theorem split_parts:
  assumes "set_ok rs" and "rs_ranges rs \<noteq> []" and "groups \<noteq> 0" and "length (blocks_of (rs_ranges rs)) < 2 ^ 64 - 1"
  defines "n \<equiv> length (blocks_of (rs_ranges rs))"
  defines "g \<equiv> min (unat groups) n"
  shows "\<exists>parts. Split rs groups = Some parts \<and> concat (map (\<lambda>p. blocks_of (rs_ranges p)) parts) = blocks_of (rs_ranges rs)
    \<and> (\<forall>p \<in> set parts. set_ok p) \<and> map (\<lambda>p. unat (rs_blocks p)) parts = replicate (n mod g) (n div g + 1) @ replicate (g - n mod g) (n div g)"
proof -
  let ?g = "if rs_blocks rs < groups then rs_blocks rs else groups"
  let ?ns = "replicate (unat (rs_blocks rs mod ?g)) (rs_blocks rs div ?g + 1) @ replicate (unat ?g - unat (rs_blocks rs mod ?g)) (rs_blocks rs div ?g)"
  obtain r l where l: "rs_ranges rs = r # l" using assms(2) by (cases "rs_ranges rs") auto
  have ok: "list_all range_ok (rs_ranges rs)" and b: "unat (rs_blocks rs) = n" using assms(1) by (simp_all add: set_ok_def n_def)
  have "n > 0" using range_positive [of r] ok by (simp add: n_def l)
  then have "rs_blocks rs \<noteq> 0" using b by (metis less_irrefl unat_0)
  then have g0: "?g \<noteq> 0" using assms(3) by simp
  have g: "unat ?g = g" using b by (simp add: g_def word_less_nat_alt min_def)
  have "unat ?g \<noteq> 0" using g0 by (simp only: unat_eq_0 simp_thms)
  then have gp: "g > 0" unfolding g by simp
  have dm: "unat (rs_blocks rs div ?g) = n div g" "unat (rs_blocks rs mod ?g) = n mod g"
    using b g by (simp_all add: unat_div unat_mod)
  have "n div g \<le> n" by (rule div_le_dividend)
  then have "n div g + 1 < 2 ^ 64" using assms(4) unfolding n_def [symmetric] by linarith
  then have "unat (rs_blocks rs div ?g + 1) = n div g + 1" using dm(1) by (subst unat_word_ariths) simp
  then have ns: "map unat ?ns = replicate (n mod g) (n div g + 1) @ replicate (g - n mod g) (n div g)"
    using dm g by simp
  have p: "pending r (r # l) = blocks_of (rs_ranges rs)" "pending_ok r (r # l)"
    using ok by (simp_all add: pending_def pending_ok_def l)
  have "n mod g < g" using gp by simp
  note even = even_parts [OF less_imp_le [OF this], of "n div g"]
  have "sum_list (map unat ?ns) = n"
    unfolding ns by (simp only: sum_list_append sum_list_replicate of_nat_id even mult_div_mod_eq)
  then have "sum_list (map unat ?ns) = length (pending r (r # l))" using p by (simp add: n_def)
  from fill_groups_value [OF p(2) this]
  obtain parts where f: "fill_groups ?ns r (r # l) = Some parts" "concat (map (\<lambda>p. blocks_of (rs_ranges p)) parts) = blocks_of (rs_ranges rs)"
      "\<forall>p \<in> set parts. set_ok p" "map (\<lambda>p. unat (rs_blocks p)) parts = map unat ?ns"
    using assms(4) p(1) by auto
  have "Split rs groups = fill_groups ?ns r (r # l)"
    using assms(3) g0 unfolding Split_def Let_def l by (simp only: list.sel list.distinct if_False simp_thms)
  then show ?thesis using f unfolding ns by (intro exI [of _ parts]) (simp only: simp_thms)
qed

definition two_ranges :: RangeSet where
  "two_ranges = \<lparr>rs_ranges = [(1, 9), (15, 19)], rs_blocks = 12\<rparr>"

lemma two_ranges_ok: "sorted_ok two_ranges"
  by (simp add: sorted_ok_def set_ok_def apart_def two_ranges_def range_ok_def nums_def)

lemma two_ranges_blocks: "blocks_of (rs_ranges two_ranges) = [1, 2, 3, 4, 5, 6, 7, 8, 15, 16, 17, 18]"
  by (simp add: two_ranges_def nums_def upt_rec)

theorem split_parts_witness:
  "\<exists>parts. Split two_ranges 5 = Some parts \<and> concat (map (\<lambda>p. blocks_of (rs_ranges p)) parts) = [1, 2, 3, 4, 5, 6, 7, 8, 15, 16, 17, 18]
    \<and> map (\<lambda>p. unat (rs_blocks p)) parts = [3, 3, 2, 2, 2]"
proof -
  have ok: "set_ok two_ranges" "rs_ranges two_ranges \<noteq> []" "(5 :: u64) \<noteq> 0" "length (blocks_of (rs_ranges two_ranges)) < 2 ^ 64 - 1"
    using two_ranges_ok by (simp_all add: two_ranges_blocks sorted_ok_def) (simp add: two_ranges_def)
  have n: "length (blocks_of (rs_ranges two_ranges)) = 12" by (simp add: two_ranges_blocks)
  have g: "min (unat (5 :: u64)) 12 = 5" by simp
  have r: "replicate (12 mod 5) (12 div 5 + 1) @ replicate (5 - 12 mod 5) (12 div 5) = [3, 3, 2, 2, 2 :: nat]"
    by (simp add: numeral_2_eq_2 numeral_3_eq_3)
  show ?thesis using split_parts [OF ok] unfolding n g r unfolding two_ranges_blocks by (elim exE conjE, intro exI conjI)
qed

text \<open>(C37) Selection by index: \<^verbatim>\<open>GetBlockNumber\<close> is the block at the index and fails only beyond the end;
  \<^verbatim>\<open>GetSubRanges\<close> is the set of the blocks at the indices asked for, in order, and refuses only
  intervals that reach beyond the end, also where the end of the interval wraps around.\<close>

theorem blocks_by_index:
  assumes "set_ok rs" and "length (blocks_of (rs_ranges rs)) < 2 ^ 64 - 1"
  defines "bs \<equiv> blocks_of (rs_ranges rs)"
  shows "(if unat idx < length bs then \<exists>n. GetBlockNumber rs idx = Some n \<and> unat n = bs ! unat idx else GetBlockNumber rs idx = None)
    \<and> (if unat start + unat num \<le> length bs
       then \<exists>sub. GetSubRanges rs start num = Some (Some sub) \<and> set_ok sub \<and> blocks_of (rs_ranges sub) = take (unat num) (drop (unat start) bs)
       else GetSubRanges rs start num = Some None)"
proof -
  have ok: "list_all range_ok (rs_ranges rs)" and b: "unat (rs_blocks rs) = length bs" using assms(1) by (simp_all add: set_ok_def bs_def)
  have i: "(idx < rs_blocks rs) = (unat idx < length bs)" using b by (simp add: word_less_nat_alt)
  have "if unat start + unat num \<le> length bs
     then \<exists>sub. GetSubRanges rs start num = Some (Some sub) \<and> set_ok sub \<and> blocks_of (rs_ranges sub) = take (unat num) (drop (unat start) bs)
     else GetSubRanges rs start num = Some None"
  proof (cases "unat start + unat num \<le> length bs")
    case True
    have e: "unat (start + num) = unat start + unat num" using True assms(2) by (subst unat_word_ariths) (simp add: bs_def)
    have no: "\<not> (start > start + num \<or> start + num > rs_blocks rs)" using e True b by (simp add: word_less_nat_alt)
    show ?thesis
    proof (cases "num = 0")
      case True
      then show ?thesis using no \<open>unat start + unat num \<le> length bs\<close> no_ranges_ok by (simp add: GetSubRanges_def)
    next
      case False
      then have pos: "unat num > 0" by (simp add: unat_gt_0)
      have "\<exists>sub. sub_ranges (rs_ranges rs) 0 start (start + num) no_ranges = Some (Some sub) \<and> set_ok sub
        \<and> blocks_of (rs_ranges sub) = blocks_of (rs_ranges no_ranges) @ drop (unat start - unat (0 :: u64)) (take (unat (start + num) - unat (0 :: u64)) (blocks_of (rs_ranges rs)))"
        by (rule sub_ranges_value [OF ok no_ranges_ok(1)]) (use True e pos assms(2) in \<open>simp_all add: bs_def no_ranges_ok\<close>)
      then show ?thesis using no False True e by (simp add: GetSubRanges_def no_ranges_ok bs_def drop_take)
    qed
  next
    case False
    have "start > start + num \<or> start + num > rs_blocks rs"
    proof (cases "unat start + unat num < 2 ^ 64")
      case True
      then have "unat (start + num) = unat start + unat num" by (subst unat_word_ariths) simp
      then show ?thesis using False b by (simp add: word_less_nat_alt)
    next
      case ov: False
      have lt: "unat start < 2 ^ 64" "unat num < 2 ^ 64"
        using unsigned_less [of start, where 'a = nat] unsigned_less [of num, where 'a = nat] by simp_all
      have "unat (start + num) = unat start + unat num - 2 ^ 64"
        using ov lt by (subst unat_word_ariths) (simp add: mod_if)
      moreover have "unat start + unat num - 2 ^ 64 < unat start" using ov lt by linarith
      ultimately have "start + num < start" by (simp only: word_less_nat_alt)
      then show ?thesis by simp
    qed
    then show ?thesis using False by (simp add: GetSubRanges_def Let_def)
  qed
  moreover have "if unat idx < length bs then \<exists>n. GetBlockNumber rs idx = Some n \<and> unat n = bs ! unat idx else GetBlockNumber rs idx = None"
    using find_block_value [OF ok, of idx] i by (simp add: GetBlockNumber_def bs_def)
  ultimately show ?thesis by blast
qed

theorem blocks_by_index_witness:
  "(\<exists>n. GetBlockNumber two_ranges 9 = Some n \<and> unat n = 16)
    \<and> (\<exists>sub. GetSubRanges two_ranges 6 4 = Some (Some sub) \<and> blocks_of (rs_ranges sub) = [7, 8, 15, 16])
    \<and> GetSubRanges two_ranges 6 7 = Some None"
  using blocks_by_index [of two_ranges 9 6 4] blocks_by_index [of two_ranges 9 6 7] two_ranges_ok
  by (auto simp: two_ranges_blocks sorted_ok_def)

text \<open>(C10) Inserting a set into a sorted set gives the sorted set of the blocks of both: its ranges are in order,
  apart from each other (touching ones are merged) and counted without overflow, so that the list of its
  blocks is the sorted list of the union. A single range that is empty or reversed changes nothing.\<close>

theorem sorted_insert:
  assumes "sorted_ok this" and "set_ok rs"
  defines "out \<equiv> Insert_set this rs"
  shows "sorted_ok out
    \<and> blocks_of (rs_ranges out) = sorted_list_of_set (set (blocks_of (rs_ranges this)) \<union> set (blocks_of (rs_ranges rs)))
    \<and> (range_ok r \<and> length (nums r) < 2 ^ 64 - 1 \<longrightarrow> sorted_ok (Insert_range this r)
         \<and> blocks_of (rs_ranges (Insert_range this r)) = sorted_list_of_set (set (blocks_of (rs_ranges this)) \<union> set (nums r)))
    \<and> (\<not> range_ok r \<longrightarrow> Insert_range this r = this)"
proof -
  have v: "sorted_ok (Insert_set this s) \<and> blocks_of (rs_ranges (Insert_set this s))
      = sorted_list_of_set (set (blocks_of (rs_ranges this)) \<union> set (blocks_of (rs_ranges s)))" if "set_ok s" for s
    using insert_set_value [OF assms(1) that] increasing_unique [OF apart_sorted, of "rs_ranges (Insert_set this s)"]
    by (simp add: sorted_ok_def)
  have s: "SortedRangeSet_of [r] = RangeSet_of [r]"
    using single_range [of r] by (cases "range_ok r") (auto simp: SortedRangeSet_of_def no_ranges_def RangeSet_of_def PushBack_def range_ok_def Clear_def Let_def)
  show ?thesis
    using v [OF assms(2)] v [of "RangeSet_of [r]"] single_range [of r]
    by (auto simp: out_def Insert_range_def s Insert_set_def [of this no_ranges] no_ranges_ok)
qed

theorem sorted_insert_witness:
  "sorted_ok (Insert_range two_ranges (8, 16)) \<and> blocks_of (rs_ranges (Insert_range two_ranges (8, 16))) = [1..<19]"
proof -
  have "set [1, 2, 3, 4, 5, 6, 7, 8, 15, 16, 17, 18] \<union> set (nums (8, 16)) = {1..<19 :: nat}"
    by (simp add: nums_def set_eq_iff) presburger
  then show ?thesis
    using sorted_insert [OF two_ranges_ok, of two_ranges "(8, 16)"] two_ranges_ok
    by (simp add: two_ranges_blocks sorted_ok_def range_ok_def nums_def sorted_list_of_set_range)
qed

text \<open>(C38) \<^verbatim>\<open>GetOffsetInRangeSet\<close>: the byte at any offset of the block with index \<open>i\<close> of a sorted set has, in the
  concatenation of the set's blocks, the same offset within block \<open>i\<close>; the byte of a block outside
  the set is refused.\<close>

theorem offset_in_set:
  assumes "sorted_ok rs"
  defines "bs \<equiv> blocks_of (rs_ranges rs)"
  shows "(unat off div 4096 \<in> set bs \<and> length bs \<le> 2 ^ 52
      \<longrightarrow> (\<exists>i new. i < length bs \<and> bs ! i = unat off div 4096 \<and> GetOffsetInRangeSet rs off = Some new \<and> unat new = i * 4096 + unat off mod 4096))
    \<and> (unat off div 4096 \<notin> set bs \<longrightarrow> GetOffsetInRangeSet rs off = None)"
proof -
  have a: "apart (rs_ranges rs)" using assms(1) by (simp add: sorted_ok_def)
  have d: "unat (off div 4096) = unat off div 4096" "unat (off mod 4096) = unat off mod 4096" by (simp_all add: unat_div unat_mod)
  have "\<exists>i new. i < length bs \<and> bs ! i = unat off div 4096 \<and> GetOffsetInRangeSet rs off = Some new \<and> unat new = i * 4096 + unat off mod 4096"
    if m: "unat off div 4096 \<in> set bs" and l: "length bs \<le> 2 ^ 52"
  proof -
    obtain i where i: "i < length bs" "bs ! i = unat off div 4096" using m unfolding in_set_conv_nth by blast
    let ?new = "of_nat i * 4096 + off mod 4096 :: u64"
    have "GetOffsetInRangeSet rs off = Some ?new"
      using find_offset_value [OF a, of i "off div 4096" off 0] i d by (simp add: GetOffsetInRangeSet_def bs_def)
    moreover have "?new = of_nat (i * 4096 + unat off mod 4096)" by (simp flip: d)
    moreover have "i * 4096 + unat off mod 4096 < 2 ^ 64" using i(1) l by simp
    moreover have "unat ?new = i * 4096 + unat off mod 4096" using calculation(2,3) by (simp only: unat_of_nat) simp
    ultimately show ?thesis using i by blast
  qed
  moreover have "GetOffsetInRangeSet rs off = None" if "unat off div 4096 \<notin> set bs"
    using find_offset_none [OF a, of "off div 4096" off 0] that d by (simp add: GetOffsetInRangeSet_def bs_def)
  ultimately show ?thesis by blast
qed

theorem offset_in_set_witness:
  "(\<exists>new. GetOffsetInRangeSet two_ranges 65636 = Some new \<and> unat new = 9 * 4096 + 100) \<and> GetOffsetInRangeSet two_ranges 36864 = None"
proof -
  have i: "i = 9" if "i < 12" and "[1, 2, 3, 4, 5, 6, 7, 8, 15, 16, 17, 18] ! i = (16 :: nat)" for i
    using that by (auto simp: less_Suc_eq numeral_eq_Suc)
  show ?thesis
    using offset_in_set [OF two_ranges_ok, of 65636] offset_in_set [OF two_ranges_ok, of 36864] i
    by (auto simp: two_ranges_blocks)
qed

text \<open>(C39) Round trip of the text form: parsing what \<^verbatim>\<open>ToString\<close> prints of a set gives the set, for every set with
  ends up to \<^verbatim>\<open>INT_MAX\<close>, when \<open>Split\<close> cuts at the commas and \<open>ParseUint\<close> reads decimal numbers.\<close>

theorem parse_to_string:
  assumes "splits_commas split" and "parses_decimal parse"
    and "set_ok rs" and "\<forall>r \<in> set (rs_ranges rs). snd r \<le> INT_MAX" and "2 * length (rs_ranges rs) \<le> unat INT_MAX"
    and "length (blocks_of (rs_ranges rs)) < 2 ^ 64 - 1" and "rs_ranges rs \<noteq> []"
  shows "Parse split parse (ToString rs) = rs"
proof -
  let ?l = "rs_ranges rs"
  let ?n = "of_nat (length ?l * 2) :: u64"
  have "\<forall>p \<in> set (pieces_of rs). comma \<notin> set p" using decimal_no_comma by (auto simp: pieces_of_def)
  moreover have "pieces_of rs \<noteq> []" by (simp add: pieces_of_def)
  ultimately have s: "split (ToString rs) = pieces_of rs" using assms(1) to_string_join [OF assms(7)] by (simp add: splits_commas_def)
  have len: "length (pieces_of rs) = length ?l * 2 + 1" by (simp add: pieces_of_def length_concat comp_def sum_list_triv)
  have p0: "parse (pieces_of rs ! 0) INT_MAX = Some ?n" using assms(2,5) by (simp add: parses_decimal_def pieces_of_def)
  have un: "unat ?n = length ?l * 2" using assms(5) by (simp only: unat_of_nat) (simp add: INT_MAX_def)
  have ok: "list_all range_ok ?l" using assms(3) by (simp add: set_ok_def)
  have pp: "parse_pairs parse (tl (pieces_of rs)) = Some ?l"
    using parse_pairs_value [OF assms(2,4) ok] by (simp add: pieces_of_def)
  have v: "RangeSet_of ?l = rs"
    using push_all_value [OF ok no_ranges_ok(1)] assms(3,6,7) by (intro set_ok_eq) (simp_all add: RangeSet_of_def no_ranges_ok)
  have "unat (?n mod 2) = 0" using un by (simp only: unat_mod) simp
  then have "?n mod 2 = 0" by (simp only: unat_eq_0)
  moreover have "?n \<noteq> 0" using un assms(7) by (metis length_0_conv mult_is_0 unat_0 zero_neq_numeral)
  moreover have "\<not> length (pieces_of rs) < 3" using assms(7) by (cases ?l) (simp_all add: len)
  ultimately show ?thesis
    using p0 pp v un by (simp add: Parse_def Let_def s len del: of_nat_mult)
qed

text \<open>The two functions of libbase, as their documentation has them, on the texts at hand.\<close>

fun cut_commas :: "byte list \<Rightarrow> byte list list" where
  "cut_commas [] = [[]]"
| "cut_commas (c # cs) = (if c = comma then [] # cut_commas cs else (c # hd (cut_commas cs)) # tl (cut_commas cs))"

lemma cut_piece: "comma \<notin> set p \<Longrightarrow> cut_commas p = [p]"
  by (induction p) auto

lemma cut_join: "comma \<notin> set p \<Longrightarrow> cut_commas (p @ comma # cs) = p # cut_commas cs"
  by (induction p) auto

lemma cut_splits: "splits_commas cut_commas"
proof -
  have "cut_commas (join ps) = ps" if "ps \<noteq> []" "\<forall>p \<in> set ps. comma \<notin> set p" for ps
    using that by (induction ps rule: join.induct) (auto simp: cut_piece cut_join)
  then show ?thesis by (simp add: splits_commas_def)
qed

definition read_number :: "byte list \<Rightarrow> u64 \<Rightarrow> u64 option" where
  "read_number s limit =
     (let n = foldl (\<lambda>n c. n * 10 + (unat c - 48)) 0 s
      in if n \<le> unat limit then Some (of_nat n) else None)"

lemma read_decimal: "foldl (\<lambda>n c. n * 10 + (unat c - 48)) 0 (decimal n) = n"
proof (induction n rule: decimal.induct)
  case (1 n)
  have d: "unat ((0x30 :: byte) + of_nat d) = 48 + d" if "d < 10" for d
  proof -
    have "(0x30 :: byte) + of_nat d = of_nat (48 + d)" by simp
    then show ?thesis using that by (simp only: unat_of_nat) simp
  qed
  show ?case using 1 by (subst decimal.simps) (simp add: d Let_def)
qed

lemma read_number_parses: "parses_decimal read_number"
  by (simp add: parses_decimal_def read_number_def read_decimal Let_def)

theorem parse_to_string_witness:
  "Parse cut_commas read_number (ToString two_ranges) = two_ranges"
  using parse_to_string [OF cut_splits read_number_parses, of two_ranges] two_ranges_ok
  by (simp add: two_ranges_blocks sorted_ok_def) (simp add: two_ranges_def INT_MAX_def)

end
