(* ===== verification/Twrp_Digest.thy ===== *)
theory Twrp_Digest
  imports Mincrypt_Hash
begin

section \<open>twrpDigest: MD5\<close>

text \<open>
  \<^verbatim>\<open>twrpDigest/digest/md5/md5.c\<close> and the classes \<^verbatim>\<open>twrpDigest\<close> and \<^verbatim>\<open>twrpMD5\<close> around it, as compiled for a
  little-endian machine (\<^verbatim>\<open>byteReverse\<close> is empty, the buffer is read as words in memory order). The digest is
  proved to be that of RFC 1321, for data fed in any pieces.
\<close>

subsection \<open>The code\<close>

record MD5Context =
  md_buf :: "u32 list"
  md_bits :: "u32 list"
  md_in :: "byte list"

definition MD5Init :: "MD5Context \<Rightarrow> MD5Context" where
  "MD5Init ctx = ctx\<lparr>md_buf := [0x67452301, 0xefcdab89, 0x98badcfe, 0x10325476], md_bits := [0, 0]\<rparr>"

datatype core = F1 | F2 | F3 | F4

fun core_function :: "core \<Rightarrow> u32 \<Rightarrow> u32 \<Rightarrow> u32 \<Rightarrow> u32" where
  "core_function F1 x y z = z XOR (x AND (y XOR z))"
| "core_function F2 x y z = y XOR (z AND (x XOR y))"
| "core_function F3 x y z = x XOR y XOR z"
| "core_function F4 x y z = y XOR (x OR NOT z)"

text \<open>One line \<^verbatim>\<open>MD5STEP(f, w, x, y, z, in[k] + t, s)\<close>. Each line changes the register \<open>w\<close>, and the next
  one has it as its \<open>x\<close>: the registers are given in the order the line names them.\<close>

definition MD5STEP :: "u32 list \<Rightarrow> u32 \<times> u32 \<times> u32 \<times> u32 \<Rightarrow> core \<times> nat \<times> u32 \<times> nat \<Rightarrow> u32 \<times> u32 \<times> u32 \<times> u32" where
  "MD5STEP data = (\<lambda>(w, x, y, z) (f, k, t, s).
     let w = w + (core_function f x y z + (data ! k + t));
         w = push_bit s w OR drop_bit (32 - s) w;
         w = w + x
     in (z, w, x, y))"

definition MD5_lines :: "(core \<times> nat \<times> u32 \<times> nat) list" where
  "MD5_lines = [
   (F1, 0, 0xd76aa478, 7), (F1, 1, 0xe8c7b756, 12), (F1, 2, 0x242070db, 17), (F1, 3, 0xc1bdceee, 22),
   (F1, 4, 0xf57c0faf, 7), (F1, 5, 0x4787c62a, 12), (F1, 6, 0xa8304613, 17), (F1, 7, 0xfd469501, 22),
   (F1, 8, 0x698098d8, 7), (F1, 9, 0x8b44f7af, 12), (F1, 10, 0xffff5bb1, 17), (F1, 11, 0x895cd7be, 22),
   (F1, 12, 0x6b901122, 7), (F1, 13, 0xfd987193, 12), (F1, 14, 0xa679438e, 17), (F1, 15, 0x49b40821, 22),
   (F2, 1, 0xf61e2562, 5), (F2, 6, 0xc040b340, 9), (F2, 11, 0x265e5a51, 14), (F2, 0, 0xe9b6c7aa, 20),
   (F2, 5, 0xd62f105d, 5), (F2, 10, 0x02441453, 9), (F2, 15, 0xd8a1e681, 14), (F2, 4, 0xe7d3fbc8, 20),
   (F2, 9, 0x21e1cde6, 5), (F2, 14, 0xc33707d6, 9), (F2, 3, 0xf4d50d87, 14), (F2, 8, 0x455a14ed, 20),
   (F2, 13, 0xa9e3e905, 5), (F2, 2, 0xfcefa3f8, 9), (F2, 7, 0x676f02d9, 14), (F2, 12, 0x8d2a4c8a, 20),
   (F3, 5, 0xfffa3942, 4), (F3, 8, 0x8771f681, 11), (F3, 11, 0x6d9d6122, 16), (F3, 14, 0xfde5380c, 23),
   (F3, 1, 0xa4beea44, 4), (F3, 4, 0x4bdecfa9, 11), (F3, 7, 0xf6bb4b60, 16), (F3, 10, 0xbebfbc70, 23),
   (F3, 13, 0x289b7ec6, 4), (F3, 0, 0xeaa127fa, 11), (F3, 3, 0xd4ef3085, 16), (F3, 6, 0x04881d05, 23),
   (F3, 9, 0xd9d4d039, 4), (F3, 12, 0xe6db99e5, 11), (F3, 15, 0x1fa27cf8, 16), (F3, 2, 0xc4ac5665, 23),
   (F4, 0, 0xf4292244, 6), (F4, 7, 0x432aff97, 10), (F4, 14, 0xab9423a7, 15), (F4, 5, 0xfc93a039, 21),
   (F4, 12, 0x655b59c3, 6), (F4, 3, 0x8f0ccc92, 10), (F4, 10, 0xffeff47d, 15), (F4, 1, 0x85845dd1, 21),
   (F4, 8, 0x6fa87e4f, 6), (F4, 15, 0xfe2ce6e0, 10), (F4, 6, 0xa3014314, 15), (F4, 13, 0x4e0811a1, 21),
   (F4, 4, 0xf7537e82, 6), (F4, 11, 0xbd3af235, 10), (F4, 2, 0x2ad7d2bb, 15), (F4, 9, 0xeb86d391, 21)]"

definition MD5Transform :: "u32 list \<Rightarrow> u32 list \<Rightarrow> u32 list" where
  "MD5Transform buf data =
     (let (a, b, c, d) = foldl (MD5STEP data) (buf ! 0, buf ! 1, buf ! 2, buf ! 3) MD5_lines
      in [buf ! 0 + a, buf ! 1 + b, buf ! 2 + c, buf ! 3 + d])"

text \<open>The bytes of the buffer read as 16 words; \<open>copy_at\<close> is \<^verbatim>\<open>memcpy(dst + i, bs, |bs|)\<close>.\<close>

definition words_of :: "byte list \<Rightarrow> u32 list" where
  "words_of b = map (\<lambda>i. le32 b (4 * i)) [0..<16]"

definition copy_at :: "byte list \<Rightarrow> nat \<Rightarrow> byte list \<Rightarrow> byte list" where
  "copy_at dst i bs = take i dst @ bs @ drop (i + length bs) dst"

definition transform_in :: "MD5Context \<Rightarrow> MD5Context" where
  "transform_in ctx = ctx\<lparr>md_buf := MD5Transform (md_buf ctx) (words_of (md_in ctx))\<rparr>"

text \<open>The loop over whole blocks and the copy of the rest; \<open>data\<close> is what \<open>buf\<close> and \<open>len\<close> still delimit.\<close>

function MD5_blocks :: "MD5Context \<Rightarrow> byte list \<Rightarrow> MD5Context" where
  "MD5_blocks ctx data =
     (if length data \<ge> 64 then MD5_blocks (transform_in (ctx\<lparr>md_in := take 64 data\<rparr>)) (drop 64 data)
      else ctx\<lparr>md_in := copy_at (md_in ctx) 0 data\<rparr>)"
  by pat_completeness auto
termination by (relation "measure (\<lambda>(ctx, data). length data)") auto

declare MD5_blocks.simps [simp del]

definition count_bits :: "u32 list \<Rightarrow> u32 \<Rightarrow> u32 list" where
  "count_bits bits len =
     (let t = bits ! 0;
          low = t + push_bit 3 len;
          high = (if low < t then bits ! 1 + 1 else bits ! 1)
      in [low, high + drop_bit 29 len])"

definition MD5Update :: "MD5Context \<Rightarrow> byte list \<Rightarrow> u32 \<Rightarrow> MD5Context" where
  "MD5Update ctx buf len =
     (let data = take (unat len) buf;
          t = unat (drop_bit 3 (md_bits ctx ! 0) AND 0x3f);
          ctx = ctx\<lparr>md_bits := count_bits (md_bits ctx) len\<rparr>
      in if t \<noteq> 0 then
           let room = 64 - t
           in if length data < room then ctx\<lparr>md_in := copy_at (md_in ctx) t data\<rparr>
              else MD5_blocks (transform_in (ctx\<lparr>md_in := copy_at (md_in ctx) t (take room data)\<rparr>)) (drop room data)
         else MD5_blocks ctx data)"

definition MD5Final :: "MD5Context \<Rightarrow> byte list \<times> MD5Context" where
  "MD5Final ctx =
     (let count = unat (drop_bit 3 (md_bits ctx ! 0) AND 0x3f);
          ctx = ctx\<lparr>md_in := copy_at (md_in ctx) count [0x80]\<rparr>;
          p = count + 1;
          count = 64 - 1 - count;
          ctx = (if count < 8 then
                   let ctx = transform_in (ctx\<lparr>md_in := copy_at (md_in ctx) p (replicate count 0)\<rparr>)
                   in ctx\<lparr>md_in := copy_at (md_in ctx) 0 (replicate 56 0)\<rparr>
                 else ctx\<lparr>md_in := copy_at (md_in ctx) p (replicate (count - 8) 0)\<rparr>);
          ctx = ctx\<lparr>md_in := copy_at (md_in ctx) 56 (le_bytes32 (md_bits ctx ! 0))\<rparr>;
          ctx = ctx\<lparr>md_in := copy_at (md_in ctx) 60 (le_bytes32 (md_bits ctx ! 1))\<rparr>;
          ctx = transform_in ctx
      in (concat (map le_bytes32 (md_buf ctx)), \<lparr>md_buf = replicate 4 0, md_bits = replicate 2 0, md_in = replicate 64 0\<rparr>))"

subsection \<open>The classes\<close>

record twrpMD5 =
  md5c :: MD5Context
  md5sum :: "byte list"

definition hex_digit :: "byte \<Rightarrow> byte" where
  "hex_digit n = (if n < 10 then 0x30 + n else 0x57 + n)"

fun hexify :: "byte list \<Rightarrow> byte list" where
  "hexify [] = []"
| "hexify (b # hash) = [hex_digit (drop_bit 4 b), hex_digit (b AND 0xf)] @ hexify hash"

definition md5_init :: "twrpMD5 \<Rightarrow> twrpMD5" where
  "md5_init d = d\<lparr>md5c := MD5Init (md5c d)\<rparr>"

definition md5_update :: "twrpMD5 \<Rightarrow> byte list \<Rightarrow> u64 \<Rightarrow> twrpMD5" where
  "md5_update d stream len = d\<lparr>md5c := MD5Update (md5c d) stream (ucast len)\<rparr>"

definition md5_finalize :: "twrpMD5 \<Rightarrow> twrpMD5" where
  "md5_finalize d = (let (sum, ctx) = MD5Final (md5c d) in d\<lparr>md5c := ctx, md5sum := sum\<rparr>)"

definition return_digest_string :: "twrpMD5 \<Rightarrow> byte list \<times> twrpMD5" where
  "return_digest_string d = (let d = md5_finalize d in (hexify (md5sum d), d))"

subsection \<open>RFC 1321\<close>

definition rfc_F :: "u32 \<Rightarrow> u32 \<Rightarrow> u32 \<Rightarrow> u32" where "rfc_F x y z = (x AND y) OR (NOT x AND z)"
definition rfc_G :: "u32 \<Rightarrow> u32 \<Rightarrow> u32 \<Rightarrow> u32" where "rfc_G x y z = (x AND z) OR (y AND NOT z)"
definition rfc_H :: "u32 \<Rightarrow> u32 \<Rightarrow> u32 \<Rightarrow> u32" where "rfc_H x y z = x XOR y XOR z"
definition rfc_I :: "u32 \<Rightarrow> u32 \<Rightarrow> u32 \<Rightarrow> u32" where "rfc_I x y z = y XOR (x OR NOT z)"

text \<open>Round function, word index and rotation of operation \<open>i\<close>; \<open>rfc_T\<close> is the sine table of the document.\<close>

definition rfc_function :: "nat \<Rightarrow> u32 \<Rightarrow> u32 \<Rightarrow> u32 \<Rightarrow> u32" where
  "rfc_function i = (if i < 16 then rfc_F else if i < 32 then rfc_G else if i < 48 then rfc_H else rfc_I)"

definition rfc_index :: "nat \<Rightarrow> nat" where
  "rfc_index i = (if i < 16 then i else if i < 32 then (5 * i + 1) mod 16 else if i < 48 then (3 * i + 5) mod 16 else (7 * i) mod 16)"

definition rfc_shift :: "nat \<Rightarrow> nat" where
  "rfc_shift i = [[7, 12, 17, 22], [5, 9, 14, 20], [4, 11, 16, 23], [6, 10, 15, 21]] ! (i div 16) ! (i mod 4)"

definition rfc_T :: "u32 list" where
  "rfc_T = [
   0xd76aa478, 0xe8c7b756, 0x242070db, 0xc1bdceee, 0xf57c0faf, 0x4787c62a, 0xa8304613, 0xfd469501,
   0x698098d8, 0x8b44f7af, 0xffff5bb1, 0x895cd7be, 0x6b901122, 0xfd987193, 0xa679438e, 0x49b40821,
   0xf61e2562, 0xc040b340, 0x265e5a51, 0xe9b6c7aa, 0xd62f105d, 0x02441453, 0xd8a1e681, 0xe7d3fbc8,
   0x21e1cde6, 0xc33707d6, 0xf4d50d87, 0x455a14ed, 0xa9e3e905, 0xfcefa3f8, 0x676f02d9, 0x8d2a4c8a,
   0xfffa3942, 0x8771f681, 0x6d9d6122, 0xfde5380c, 0xa4beea44, 0x4bdecfa9, 0xf6bb4b60, 0xbebfbc70,
   0x289b7ec6, 0xeaa127fa, 0xd4ef3085, 0x04881d05, 0xd9d4d039, 0xe6db99e5, 0x1fa27cf8, 0xc4ac5665,
   0xf4292244, 0x432aff97, 0xab9423a7, 0xfc93a039, 0x655b59c3, 0x8f0ccc92, 0xffeff47d, 0x85845dd1,
   0x6fa87e4f, 0xfe2ce6e0, 0xa3014314, 0x4e0811a1, 0xf7537e82, 0xbd3af235, 0x2ad7d2bb, 0xeb86d391]"

definition rfc_step :: "byte list \<Rightarrow> u32 \<times> u32 \<times> u32 \<times> u32 \<Rightarrow> nat \<Rightarrow> u32 \<times> u32 \<times> u32 \<times> u32" where
  "rfc_step m = (\<lambda>(a, b, c, d) i.
     (d, b + word_rotl (rfc_shift i) (a + rfc_function i b c d + le32 m (4 * rfc_index i) + rfc_T ! i), b, c))"

definition rfc_block :: "u32 list \<Rightarrow> byte list \<Rightarrow> u32 list" where
  "rfc_block h m =
     (let (a, b, c, d) = foldl (rfc_step m) (h ! 0, h ! 1, h ! 2, h ! 3) [0..<64]
      in [h ! 0 + a, h ! 1 + b, h ! 2 + c, h ! 3 + d])"

text \<open>The length in bits, modulo \<open>2^64\<close>, the low word first.\<close>

definition bit_length :: "nat \<Rightarrow> u32 list" where
  "bit_length n = [of_nat (8 * n), of_nat (8 * n div 2 ^ 32)]"

definition rfc_pad :: "byte list \<Rightarrow> byte list" where
  "rfc_pad m = m @ [0x80] @ replicate (md_zeros (length m + 1)) 0 @ concat (map le_bytes32 (bit_length (length m)))"

definition rfc_iv :: "u32 list" where
  "rfc_iv = [0x67452301, 0xefcdab89, 0x98badcfe, 0x10325476]"

definition rfc_md5 :: "byte list \<Rightarrow> byte list" where
  "rfc_md5 m = concat (map le_bytes32 (foldl rfc_block rfc_iv (blocks64 (rfc_pad m))))"

subsection \<open>The transformation\<close>

lemma core_rfc:
  "core_function F1 = rfc_F" "core_function F2 = rfc_G" "core_function F3 = rfc_H" "core_function F4 = rfc_I"
  by (intro ext bit_word_eqI; auto simp: rfc_F_def rfc_G_def rfc_H_def rfc_I_def bit_simps)+

lemma lines_rfc:
  "MD5_lines = map (\<lambda>i. ([F1, F2, F3, F4] ! (i div 16), rfc_index i, rfc_T ! i, rfc_shift i)) [0..<64]"
  by code_simp

lemma shift_range: "i < 64 \<Longrightarrow> 0 < rfc_shift i \<and> rfc_shift i < 32"
proof -
  have "list_all (\<lambda>i. 0 < rfc_shift i \<and> rfc_shift i < 32) [0..<64]" by code_simp
  then show "i < 64 \<Longrightarrow> 0 < rfc_shift i \<and> rfc_shift i < 32" by (simp add: list_all_iff)
qed

lemma core_nth: "i < 64 \<Longrightarrow> core_function ([F1, F2, F3, F4] ! (i div 16)) = rfc_function i"
proof -
  assume "i < 64"
  then consider "i div 16 = 0" "i < 16" | "i div 16 = 1" "\<not> i < 16" "i < 32" | "i div 16 = 2" "\<not> i < 32" "i < 48" | "i div 16 = 3" "\<not> i < 48"
    by linarith
  then show ?thesis by cases (simp_all add: rfc_function_def core_rfc numeral_2_eq_2 numeral_3_eq_3)
qed

lemma index_range: "rfc_index i < 16"
  by (simp add: rfc_index_def)

lemma step_rfc:
  assumes "i < 64"
  shows "MD5STEP (words_of m) s ([F1, F2, F3, F4] ! (i div 16), rfc_index i, rfc_T ! i, rfc_shift i) = rfc_step m s i"
proof -
  have "words_of m ! rfc_index i = le32 m (4 * rfc_index i)" using index_range by (simp add: words_of_def)
  then show ?thesis using shift_range [OF assms] core_nth [OF assms]
    by (cases s) (simp add: MD5STEP_def rfc_step_def Let_def rol_def [symmetric] rol_rotl ac_simps)
qed

lemma transform_rfc: "MD5Transform h (words_of m) = rfc_block h m"
proof -
  have "foldl (MD5STEP (words_of m)) s MD5_lines = foldl (rfc_step m) s [0..<64]" for s
    unfolding lines_rfc foldl_map by (rule foldl_cong) (auto simp: step_rfc)
  then show ?thesis by (simp only: MD5Transform_def rfc_block_def)
qed

subsection \<open>Feeding data\<close>

lemma blocks64_app: "length a mod 64 = 0 \<Longrightarrow> blocks64 (a @ b) = blocks64 a @ blocks64 b"
proof (induction "length a div 64" arbitrary: a)
  case 0
  then show ?case by (simp add: div_eq_0_iff)
next
  case (Suc k)
  then have len: "64 \<le> length a" by (metis div_less nat.distinct(1) not_le)
  then have "k = length (drop 64 a) div 64" "length (drop 64 a) mod 64 = 0"
    using Suc.hyps(2) Suc.prems by (simp_all add: le_div_geq le_mod_geq)
  then have "blocks64 (drop 64 a @ b) = blocks64 (drop 64 a) @ blocks64 b" by (rule Suc.hyps(1))
  moreover have "a @ b = take 64 a @ drop 64 a @ b" "a = take 64 a @ drop 64 a" by simp_all
  moreover have "length (take 64 a) = 64" using len by simp
  ultimately show ?case by (metis append_Cons blocks64_block)
qed

definition unread :: "byte list \<Rightarrow> byte list" where
  "unread m = drop (64 * (length m div 64)) m"

lemma length_unread: "length (unread m) = length m mod 64"
  by (simp add: unread_def minus_mult_div_eq_mod)

lemma blocks64_full: "length (unread m @ d) = 64 \<Longrightarrow> blocks64 (m @ d @ e) = blocks64 m @ (unread m @ d) # blocks64 e"
proof -
  assume full: "length (unread m @ d) = 64"
  let ?a = "take (64 * (length m div 64)) m"
  have a: "length ?a mod 64 = 0" by simp
  have m: "m = ?a @ unread m" by (simp add: unread_def)
  have "blocks64 (?a @ unread m) = blocks64 ?a @ blocks64 (unread m)" by (rule blocks64_app [OF a])
  then have "blocks64 m = blocks64 ?a" using m length_unread [of m] by (simp add: blocks64_short)
  moreover have "blocks64 (?a @ (unread m @ d) @ e) = blocks64 ?a @ blocks64 ((unread m @ d) @ e)" by (rule blocks64_app [OF a])
  moreover have "m @ d @ e = ?a @ (unread m @ d) @ e" by (simp add: unread_def)
  ultimately show ?thesis by (simp only: blocks64_block [OF full])
qed

lemma filled: "length (unread m @ d) = 64 \<Longrightarrow> length (m @ d) mod 64 = 0"
proof -
  assume "length (unread m @ d) = 64"
  then have l: "length m mod 64 + length d = 64" by (simp add: length_unread)
  have "length (m @ d) mod 64 = (length m mod 64 + length d) mod 64" by (simp add: mod_add_left_eq)
  then show ?thesis unfolding l by simp
qed

definition absorbed :: "MD5Context \<Rightarrow> byte list \<Rightarrow> bool" where
  "absorbed c m \<longleftrightarrow> length (md_in c) = 64 \<and> md_buf c = foldl rfc_block rfc_iv (blocks64 m) \<and> take (length m mod 64) (md_in c) = unread m"

definition MD5_repr :: "MD5Context \<Rightarrow> byte list \<Rightarrow> bool" where
  "MD5_repr c m \<longleftrightarrow> absorbed c m \<and> md_bits c = bit_length (length m)"

lemma length_copy_at: "i + length bs \<le> length dst \<Longrightarrow> length (copy_at dst i bs) = length dst"
  by (simp add: copy_at_def)

lemma absorb_block:
  assumes "absorbed c m" and "length (unread m @ d) = 64"
  shows "absorbed (transform_in (c\<lparr>md_in := unread m @ d\<rparr>)) (m @ d)"
proof -
  have z: "(length m + length d) mod 64 = 0" using filled [OF assms(2)] by simp
  then have "64 * ((length m + length d) div 64) = length m + length d" by (metis add.right_neutral mult_div_mod_eq)
  then have "unread (m @ d) = []" by (simp add: unread_def)
  then show ?thesis using assms z blocks64_full [OF assms(2), of "[]"]
    by (simp add: absorbed_def transform_in_def transform_rfc)
qed

lemma absorb_part:
  assumes "absorbed c m" and "length m mod 64 + length d < 64"
  shows "absorbed (c\<lparr>md_in := copy_at (md_in c) (length m mod 64) d\<rparr>) (m @ d)"
proof -
  let ?a = "take (64 * (length m div 64)) m"
  have m: "(length m + length d) div 64 = length m div 64" "(length m + length d) mod 64 = length m mod 64 + length d"
    using assms(2) by (simp_all add: div_add1_eq [of "length m"] mod_add_eq [of "length m", symmetric] div_less mod_less)
  have le: "64 * (length m div 64) \<le> length m" by simp
  then have u: "unread (m @ d) = unread m @ d" by (simp add: unread_def m)
  have a: "length ?a mod 64 = 0" by simp
  have "m = ?a @ unread m" "m @ d = ?a @ unread m @ d" by (simp_all add: unread_def)
  moreover have "blocks64 (unread m) = []" "blocks64 (unread m @ d) = []"
    using assms(2) by (simp_all add: blocks64_short length_unread)
  ultimately have "blocks64 (m @ d) = blocks64 m" by (metis append_Nil2 blocks64_app [OF a])
  moreover have "take (length m mod 64 + length d) (copy_at (md_in c) (length m mod 64) d) = unread m @ d"
    using assms by (simp add: copy_at_def absorbed_def length_unread)
  moreover have "length (copy_at (md_in c) (length m mod 64) d) = 64"
    using assms by (subst length_copy_at) (simp_all add: absorbed_def)
  ultimately show ?thesis using assms(1) by (simp add: absorbed_def m u)
qed

lemma blocks_value:
  "absorbed c m \<Longrightarrow> length m mod 64 = 0 \<Longrightarrow> absorbed (MD5_blocks c data) (m @ data) \<and> md_bits (MD5_blocks c data) = md_bits c"
proof (induction c data arbitrary: m rule: MD5_blocks.induct)
  case (1 c data)
  have u: "unread m = []" using length_unread [of m] "1.prems"(2) by simp
  show ?case
  proof (cases "length data \<ge> 64")
    case True
    have "absorbed (transform_in (c\<lparr>md_in := unread m @ take 64 data\<rparr>)) (m @ take 64 data)"
      by (rule absorb_block [OF "1.prems"(1)]) (use True u in simp)
    moreover have "length (m @ take 64 data) mod 64 = 0" using True "1.prems"(2) by simp
    ultimately show ?thesis using "1.IH" [of "m @ take 64 data"] True u
      by (subst (1 2) MD5_blocks.simps) (simp add: transform_in_def)
  next
    case False
    then show ?thesis using absorb_part [OF "1.prems"(1), of data] "1.prems"(2)
      by (subst (1 2) MD5_blocks.simps) simp
  qed
qed

lemma unread_count: "unat (drop_bit 3 (bit_length n ! 0) AND 0x3f) = n mod 64"
proof -
  let ?w = "of_nat (8 * n) :: u32"
  have "drop_bit 3 ?w AND 0x3f = take_bit 6 (drop_bit 3 ?w)" by (simp add: take_bit_eq_mask mask_eq_exp_minus_1)
  then have "unat (drop_bit 3 ?w AND 0x3f) = unat ?w div 8 mod 64"
    by (simp only: take_bit_eq_mod drop_bit_eq_div unat_div unat_mod) simp
  also have "unat ?w = 8 * (n mod 2 ^ 29)" by (simp only: unat_of_nat) (simp add: mult_mod_right)
  also have "8 * (n mod 2 ^ 29) div 8 mod 64 = n mod 64" by (simp add: mod_mod_cancel)
  finally show ?thesis by (simp add: bit_length_def)
qed

lemma carry_out:
  fixes a b :: nat
  assumes "a < 2 ^ 32" and "b < 2 ^ 32"
  shows "((a + b) mod 2 ^ 32 < a) = (\<not> a + b < 2 ^ 32)" and "(a + b) div 2 ^ 32 = (if a + b < 2 ^ 32 then 0 else 1)"
  using assms by (auto simp: mod_if div_if)

lemma count_value: "count_bits (bit_length n) len = bit_length (n + unat len)"
proof -
  let ?t = "of_nat (8 * n) :: u32" and ?s = "push_bit 3 len" and ?h = "of_nat (8 * n div 2 ^ 32) :: u32"
  let ?N = "8 * n" and ?L = "8 * unat len"
  have s: "?s = of_nat ?L" by (simp add: push_bit_eq_mult)
  have t: "unat ?t = ?N mod 2 ^ 32" "unat ?s = ?L mod 2 ^ 32" unfolding s by (simp_all only: unat_of_nat) simp_all
  have low: "?t + ?s = of_nat (8 * (n + unat len))" unfolding s by simp
  have lt: "?N mod 2 ^ 32 < 2 ^ 32" "?L mod 2 ^ 32 < 2 ^ 32" by simp_all
  have "unat (?t + ?s) = (?N mod 2 ^ 32 + ?L mod 2 ^ 32) mod 2 ^ 32" by (simp only: unat_word_ariths t) simp
  then have "(?t + ?s < ?t) = (\<not> ?N mod 2 ^ 32 + ?L mod 2 ^ 32 < 2 ^ 32)"
    by (simp only: word_less_nat_alt t carry_out(1) [OF lt])
  moreover note carry_out(2) [OF lt]
  ultimately have "(if ?t + ?s < ?t then ?h + 1 else ?h) = ?h + of_nat ((?N mod 2 ^ 32 + ?L mod 2 ^ 32) div 2 ^ 32)"
    by (simp only: split: if_split) simp
  moreover have "drop_bit 29 len = (of_nat (?L div 2 ^ 32) :: u32)"
  proof -
    have "?L div 2 ^ 32 = unat len div 2 ^ 29" using div_mult_mult1 [of 8 "unat len" "2 ^ 29"] by simp
    also have "\<dots> = unat (drop_bit 29 len)" by (simp add: drop_bit_eq_div unat_div)
    finally show ?thesis by simp
  qed
  moreover have "8 * (n + unat len) div 2 ^ 32 = ?N div 2 ^ 32 + ?L div 2 ^ 32 + (?N mod 2 ^ 32 + ?L mod 2 ^ 32) div 2 ^ 32"
    unfolding distrib_left by (rule div_add1_eq)
  ultimately have high: "(if ?t + ?s < ?t then ?h + 1 else ?h) + drop_bit 29 len = of_nat (8 * (n + unat len) div 2 ^ 32)"
    by (simp only: of_nat_add add.assoc add.commute add.left_commute)
  have nth: "[x, y] ! 0 = x" "[x, y] ! 1 = y" for x y :: u32 by simp_all
  show ?thesis by (simp only: count_bits_def bit_length_def Let_def nth high) (simp only: low)
qed

lemma update_value:
  assumes "MD5_repr c m" and "unat len \<le> length buf"
  shows "MD5_repr (MD5Update c buf len) (m @ take (unat len) buf)"
proof -
  let ?d = "take (unat len) buf" and ?r = "length m mod 64"
  let ?c = "c\<lparr>md_bits := count_bits (md_bits c) len\<rparr>"
  have b: "md_bits c = bit_length (length m)" and a: "absorbed c m" using assms(1) by (simp_all add: MD5_repr_def)
  have bits: "md_bits ?c = bit_length (length (m @ ?d))" using assms(2) by (simp add: b count_value min_def)
  have t: "unat (drop_bit 3 (md_bits c ! 0) AND 0x3f) = ?r" unfolding b by (rule unread_count)
  have ac: "absorbed ?c m" using a by (simp add: absorbed_def)
  have r: "?r < 64" by simp
  consider (part) "?r \<noteq> 0" "length ?d < 64 - ?r" | (full) "?r \<noteq> 0" "\<not> length ?d < 64 - ?r" | (aligned) "?r = 0" by blast
  then show ?thesis
  proof cases
    case part
    then have "MD5Update c buf len = ?c\<lparr>md_in := copy_at (md_in ?c) ?r ?d\<rparr>" by (simp add: MD5Update_def t Let_def del: length_take)
    then show ?thesis using absorb_part [OF ac, of ?d] part bits by (simp add: MD5_repr_def)
  next
    case full
    let ?h = "take (64 - ?r) ?d" and ?e = "drop (64 - ?r) ?d"
    have l: "length ?h = 64 - ?r" using full(2) by simp
    then have f: "length (unread m @ ?h) = 64" using r by (simp add: length_unread del: length_take)
    have i: "copy_at (md_in ?c) ?r ?h = unread m @ ?h" using ac l r by (simp add: copy_at_def absorbed_def)
    let ?x = "transform_in (?c\<lparr>md_in := unread m @ ?h\<rparr>)"
    have x: "absorbed ?x (m @ ?h)" by (rule absorb_block [OF ac f])
    note z = filled [OF f]
    have e: "MD5Update c buf len = MD5_blocks ?x ?e" using full i by (simp add: MD5Update_def t Let_def del: length_take)
    have m: "(m @ ?h) @ ?e = m @ ?d" by (simp only: append_assoc append_take_drop_id)
    show ?thesis using blocks_value [OF x z, of ?e] bits unfolding e m by (simp add: MD5_repr_def transform_in_def)
  next
    case aligned
    then have "MD5Update c buf len = MD5_blocks ?c ?d" by (simp add: MD5Update_def t Let_def)
    then show ?thesis using blocks_value [OF ac aligned, of ?d] bits by (simp add: MD5_repr_def)
  qed
qed

subsection \<open>The digest\<close>

lemma copy_on: "length a = n \<Longrightarrow> i + n \<le> length dst \<Longrightarrow> copy_at (copy_at dst i a) (i + n) b = copy_at dst i (a @ b)"
  by (simp add: copy_at_def ac_simps)

lemma copy_all: "length (u @ bs) = length dst \<Longrightarrow> take (length u) dst = u \<Longrightarrow> copy_at dst (length u) bs = u @ bs"
  by (simp add: copy_at_def)

lemma digest_value:
  assumes "MD5_repr c m"
  shows "fst (MD5Final c) = rfc_md5 m"
proof -
  let ?r = "length m mod 64" and ?len = "concat (map le_bytes32 (bit_length (length m)))"
  have b: "md_bits c = bit_length (length m)" and a: "absorbed c m" using assms by (simp_all add: MD5_repr_def)
  have t: "unat (drop_bit 3 (md_bits c ! 0) AND 0x3f) = ?r" unfolding b by (rule unread_count)
  have r: "?r < 64" by simp
  have len: "?len = le_bytes32 (md_bits c ! 0) @ le_bytes32 (md_bits c ! 1)" by (simp add: b bit_length_def)
  have inp: "length (md_in c) = 64" "take (length (unread m)) (md_in c) = unread m" "length (unread m) = ?r"
    using a by (simp_all add: absorbed_def length_unread)
  show ?thesis
  proof (cases "?r \<le> 55")
    case True
    let ?p = "[0x80] @ replicate (55 - ?r) 0 @ ?len"
    have c: "\<not> 63 - ?r < 8" using True by linarith
    have z: "md_zeros (length m + 1) = 55 - ?r" using True by (simp add: md_zeros_low mod_Suc)
    have "copy_at (copy_at (copy_at (copy_at (md_in c) ?r [0x80]) (?r + 1) (replicate (55 - ?r) 0)) 56 (le_bytes32 (md_bits c ! 0))) 60 (le_bytes32 (md_bits c ! 1))
        = unread m @ ?p"
    proof -
      have "copy_at (copy_at (md_in c) ?r [0x80]) (?r + 1) (replicate (55 - ?r) 0) = copy_at (md_in c) ?r ([0x80] @ replicate (55 - ?r) 0)"
        by (rule copy_on) (use inp True in simp_all)
      moreover have "copy_at (copy_at (md_in c) ?r ([0x80] @ replicate (55 - ?r) 0)) (?r + (56 - ?r)) (le_bytes32 (md_bits c ! 0))
          = copy_at (md_in c) ?r (([0x80] @ replicate (55 - ?r) 0) @ le_bytes32 (md_bits c ! 0))"
        by (rule copy_on) (use inp True in simp_all)
      moreover have "copy_at (copy_at (md_in c) ?r (([0x80] @ replicate (55 - ?r) 0) @ le_bytes32 (md_bits c ! 0))) (?r + (60 - ?r)) (le_bytes32 (md_bits c ! 1))
          = copy_at (md_in c) ?r ((([0x80] @ replicate (55 - ?r) 0) @ le_bytes32 (md_bits c ! 0)) @ le_bytes32 (md_bits c ! 1))"
        by (rule copy_on) (use inp True in simp_all)
      moreover have "?r + (56 - ?r) = 56" "?r + (60 - ?r) = 60" using True by simp_all
      moreover have "copy_at (md_in c) (length (unread m)) ?p = unread m @ ?p" by (rule copy_all) (use inp True in \<open>simp_all add: len\<close>)
      ultimately show ?thesis unfolding len inp(3) by (simp only: append_assoc)
    qed
    then have "fst (MD5Final c) = concat (map le_bytes32 (md_buf (transform_in (c\<lparr>md_in := unread m @ ?p\<rparr>))))"
      using c by (simp add: MD5Final_def t Let_def transform_in_def)
    moreover have "absorbed (transform_in (c\<lparr>md_in := unread m @ ?p\<rparr>)) (m @ ?p)"
      by (rule absorb_block [OF a]) (use inp True in \<open>simp add: len\<close>)
    moreover have "rfc_pad m = m @ ?p" unfolding rfc_pad_def z ..
    ultimately show ?thesis by (simp only: absorbed_def rfc_md5_def)
  next
    case False
    have c: "63 - ?r < 8" using False by linarith
    let ?p = "[0x80] @ replicate (63 - ?r) 0" and ?q = "replicate 56 0 @ ?len"
    have z: "md_zeros (length m + 1) = (63 - ?r) + 56"
      using False r by (cases "?r = 63") (simp_all add: md_zeros_low md_zeros_high mod_Suc)
    have "copy_at (copy_at (md_in c) ?r [0x80]) (?r + 1) (replicate (63 - ?r) 0) = copy_at (md_in c) ?r ?p"
      by (rule copy_on) (use inp r in simp_all)
    moreover have "copy_at (md_in c) (length (unread m)) ?p = unread m @ ?p" by (rule copy_all) (use inp r in simp_all)
    ultimately have p: "copy_at (copy_at (md_in c) ?r [0x80]) (?r + 1) (replicate (63 - ?r) 0) = unread m @ ?p" unfolding inp(3) by (simp only:)
    let ?x = "transform_in (c\<lparr>md_in := unread m @ ?p\<rparr>)"
    have fp: "length (unread m @ ?p) = 64" using inp r by simp
    have x: "absorbed ?x (m @ ?p)" by (rule absorb_block [OF a fp])
    have u: "unread (m @ ?p) = []"
      using length_unread [of "m @ ?p"] filled [OF fp] by (simp only: length_0_conv)
    have q: "copy_at (copy_at (copy_at in' 0 (replicate 56 0)) 56 (le_bytes32 (md_bits c ! 0))) 60 (le_bytes32 (md_bits c ! 1)) = ?q"
      if "length in' = 64" for in'
      using that by (simp add: copy_at_def len)
    have "fst (MD5Final c) = concat (map le_bytes32 (md_buf (transform_in (?x\<lparr>md_in := unread (m @ ?p) @ ?q\<rparr>))))"
      using c p q [OF fp] u by (simp add: MD5Final_def t Let_def transform_in_def)
    moreover have "absorbed (transform_in (?x\<lparr>md_in := unread (m @ ?p) @ ?q\<rparr>)) ((m @ ?p) @ ?q)"
      by (rule absorb_block [OF x]) (use u in \<open>simp add: len\<close>)
    moreover have "rfc_pad m = (m @ ?p) @ ?q" unfolding rfc_pad_def z by (simp only: replicate_add append_assoc)
    ultimately show ?thesis by (simp only: absorbed_def rfc_md5_def)
  qed
qed

definition md5_ok :: "MD5Context \<Rightarrow> bool" where
  "md5_ok c \<longleftrightarrow> length (md_in c) = 64"

lemma init_value: "md5_ok c \<Longrightarrow> MD5_repr (MD5Init c) []"
  by (simp add: md5_ok_def MD5_repr_def absorbed_def MD5Init_def unread_def bit_length_def rfc_iv_def)

interpretation md5: hash_stream md5_ok MD5Init "\<lambda>c d. MD5Update c d (of_nat (length d))" "\<lambda>c. fst (MD5Final c)" MD5_repr rfc_md5 "\<lambda>d. length d < 2 ^ 32"
proof (unfold_locales, goal_cases)
  case (2 c m d)
  then show ?case using update_value [of c m "of_nat (length d)" d] by (simp add: unat_of_nat)
qed (simp_all add: init_value digest_value)

subsection \<open>Properties\<close>

lemma digest_string: "fst (return_digest_string d) = hexify (fst (MD5Final (md5c d)))"
  by (simp add: return_digest_string_def md5_finalize_def Let_def split: prod.split)

lemma feed_context:
  "list_all (\<lambda>s. length s < 2 ^ 32) ds \<Longrightarrow> md5c (foldl (\<lambda>d s. md5_update d s (of_nat (length s))) d ds)
     = foldl (\<lambda>c s. MD5Update c s (of_nat (length s))) (md5c d) ds"
proof (induction ds arbitrary: d)
  case (Cons s ds)
  have "(ucast (of_nat (length s) :: u64) :: u32) = of_nat (length s)" by (simp add: unsigned_of_nat word_of_nat_eq_iff)
  then show ?case using Cons by (simp add: md5_update_def)
qed simp

text \<open>(C9) The digest string of \<^verbatim>\<open>twrpMD5\<close> is the MD5 of RFC 1321 of the data in hexadecimal, in whatever pieces
  it was given; of a piece of \<open>2^32\<close> bytes or more only as many bytes are hashed as the low 32 bits of
  its length say.\<close>

theorem twrpMD5_correct:
  assumes "md5_ok (md5c d)" and "list_all (\<lambda>s. length s < 2 ^ 32) ds" and "unat len \<le> length big"
  shows "fst (return_digest_string (foldl (\<lambda>d s. md5_update d s (of_nat (length s))) (md5_init d) ds)) = hexify (rfc_md5 (concat ds))
    \<and> fst (return_digest_string (md5_update (md5_init d) big len)) = hexify (rfc_md5 (take (unat len mod 2 ^ 32) big))"
proof -
  have i: "md5c (md5_init d) = MD5Init (md5c d)" by (simp add: md5_init_def)
  have l: "unat (ucast len :: u32) = unat len mod 2 ^ 32" by (simp add: unsigned_ucast_eq take_bit_eq_mod)
  then have le: "unat (ucast len :: u32) \<le> length big" using assms(3) by (simp add: mod_less_eq_dividend [THEN le_trans])
  have "MD5_repr (MD5Update (MD5Init (md5c d)) big (ucast len)) ([] @ take (unat len mod 2 ^ 32) big)"
    using update_value [OF init_value [OF assms(1)] le] by (simp only: l)
  from digest_value [OF this] md5.digest_chunks [OF assms(1,2)] show ?thesis
    by (simp only: digest_string feed_context [OF assms(2)] i append_Nil simp_thms) (simp add: md5_update_def i)
qed

definition old_md5 :: twrpMD5 where
  "old_md5 = \<lparr>md5c = \<lparr>md_buf = [], md_bits = [], md_in = replicate 64 7\<rparr>, md5sum = []\<rparr>"

text \<open>The block of a short message and its digest, evaluated.\<close>

lemma abc_padded:
  "rfc_pad (str ''abc'') = [0x61, 0x62, 0x63, 0x80] @ replicate 52 0 @ [24, 0, 0, 0, 0, 0, 0, 0]"
  by (simp add: rfc_pad_def str_def of_char_def md_zeros_def bit_length_def le_bytes32_def)

lemma abc_block:
  "concat (map le_bytes32 (rfc_block rfc_iv ([0x61, 0x62, 0x63, 0x80] @ replicate 52 0 @ [24, 0, 0, 0, 0, 0, 0, 0])))
     = [0x90, 0x01, 0x50, 0x98, 0x3c, 0xd2, 0x4f, 0xb0, 0xd6, 0x96, 0x3f, 0x7d, 0x28, 0xe1, 0x7f, 0x72]"
  by code_simp

lemma abc_md5: "rfc_md5 (str ''abc'') = [0x90, 0x01, 0x50, 0x98, 0x3c, 0xd2, 0x4f, 0xb0, 0xd6, 0x96, 0x3f, 0x7d, 0x28, 0xe1, 0x7f, 0x72]"
proof -
  let ?b = "[0x61, 0x62, 0x63, 0x80] @ replicate 52 0 @ [24, 0, 0, 0, 0, 0, 0, 0] :: byte list"
  have "blocks64 ?b = [?b]" using blocks64_block [of ?b "[]"] by simp
  then show ?thesis unfolding rfc_md5_def abc_padded using abc_block by simp
qed

theorem twrpMD5_correct_witness:
  "fst (return_digest_string (foldl (\<lambda>d s. md5_update d s (of_nat (length s))) (md5_init old_md5) [str ''a'', [], str ''bc'']))
     = str ''900150983cd24fb0d6963f7d28e17f72''"
proof -
  have "hexify [0x90, 0x01, 0x50, 0x98, 0x3c, 0xd2, 0x4f, 0xb0, 0xd6, 0x96, 0x3f, 0x7d, 0x28, 0xe1, 0x7f, 0x72] = str ''900150983cd24fb0d6963f7d28e17f72''"
    by code_simp
  moreover have "concat [str ''a'', [], str ''bc''] = str ''abc''" by (simp add: str_def)
  ultimately have "hexify (rfc_md5 (concat [str ''a'', [], str ''bc''])) = str ''900150983cd24fb0d6963f7d28e17f72''" by (simp only: abc_md5)
  moreover have "md5_ok (md5c old_md5)" by (simp add: md5_ok_def old_md5_def)
  ultimately show ?thesis
    using twrpMD5_correct [of old_md5 "[str ''a'', [], str ''bc'']" 0 "[]"] by simp
qed

end
