(* ===== verification/Spec2Isabelle.thy ===== *)
theory Spec2Isabelle
  imports Mincrypt_Dsa Minzip_Hash Archive_Links Oaes_Properties Range_Set_Properties Twrp_Digest
begin

text \<open>
  Verification library of the OrangeFox recovery: the C code (and one C++ class) that saves and
  restores partitions, checks packages and keys, and encrypts backups. The sources are under \<^verbatim>\<open>src/\<close>.

  \<^bold>\<open>The program and the parts modelled.\<close> Recovery makes a backup by walking a partition and handing each
  file to libtar (\<^verbatim>\<open>tar_append_file\<close>), whose 512-byte blocks go through the write buffer of \<^verbatim>\<open>tarWrite.c\<close> into
  a file or a pipe; openaes encrypts it on the way, \<^verbatim>\<open>twrpDigest\<close> computes the MD5 stored beside it. A restore
  reads the blocks back (\<^verbatim>\<open>th_read\<close>) and makes the files again (\<^verbatim>\<open>tar_extract_*\<close>). A package is accepted when
  libmincrypt verifies the RSA signature of its SHA-1 or SHA-256 digest; minzip keeps the entries of an archive in
  its hash table; block-based updates work on the range sets of otautil.

  \<^item> Shared: \<open>Prelude\<close> (integer types at their width, memory as lists of bytes, lists, words and blocks),
    \<open>Hash_Interface\<close> (the locale of a streaming hash, interpreted on SHA-1, SHA-256 and MD5), \<open>Posix_Files\<close>
    (files behind descriptors, the locale of a writer).
  \<^item> libmincrypt: \<open>Mincrypt_Hash\<close> (\<^verbatim>\<open>sha.c\<close>, \<^verbatim>\<open>sha256.c\<close>: \<open>HASH_CTX\<close> is the context, the engine both share is a
    locale; equal to FIPS 180 for every message and every cut of it), \<open>Mincrypt_Rsa\<close> (\<^verbatim>\<open>rsa.c\<close>: numbers as little-endian
    lists of words, Montgomery multiplication and \<open>modpow\<close> equal to modular exponentiation, \<open>RSA_verify\<close> characterised
    on every branch), \<open>Mincrypt_P256\<close> (\<^verbatim>\<open>p256.c\<close>: numbers of 256 bits, their product and inverse modulo a prime, the test of
    a point), \<open>Mincrypt_Dsa\<close> (\<^verbatim>\<open>dsa_sig.c\<close>: exactly which bytes are unpacked,
    more than the DER encodings of two numbers).
  \<^item> minzip: \<open>Minzip_Hash\<close> (\<^verbatim>\<open>Hash.c\<close>: the open-addressing table with tombstones and resizing; invariant, lookup, insertion,
    removal, iteration).
  \<^item> libtar, on memory: \<open>Libtar_Strings\<close> (\<^verbatim>\<open>strlcpy.c\<close>, \<^verbatim>\<open>strlcat.c\<close>, \<^verbatim>\<open>strsep.c\<close>, \<^verbatim>\<open>basename.c\<close>, \<^verbatim>\<open>dirname.c\<close>, \<^verbatim>\<open>strmode.c\<close>, \<^verbatim>\<open>strrstr.c\<close>),
    \<open>Libtar_Header\<close> (\<^verbatim>\<open>libtar.h\<close>, \<^verbatim>\<open>util.c\<close>, \<^verbatim>\<open>encode.c\<close>, \<^verbatim>\<open>decode.c\<close>: a header is a record and its 512 bytes; numbers in octal
    and base 256, checksums), \<open>Libtar_List\<close> and \<open>Libtar_Hash\<close> (\<^verbatim>\<open>libtar_list.c\<close>, \<^verbatim>\<open>libtar_hash.c\<close>: nodes on an explicit store,
    shown to be lists and tables of their elements), \<open>Libtar_Links\<close> (the tables of devices and inodes of \<^verbatim>\<open>append.c\<close>,
    through the locale \<open>keyed_store\<close>).
  \<^item> libtar, on a world: \<open>Libtar_Block\<close> (\<^verbatim>\<open>block.c\<close>: \<^verbatim>\<open>th_write\<close>, \<^verbatim>\<open>th_read\<close>), \<open>Libtar_Member\<close> (the blocks of a member and
    what reading makes of them, for every medium of the locales \<open>tar_sink\<close> and \<open>tar_source\<close>), \<open>Libtar_Stat\<close>,
    \<open>Tar_Write\<close> (\<^verbatim>\<open>tarWrite.c\<close> on the record of its globals), \<open>Libtar_Append\<close> (\<^verbatim>\<open>append.c\<close>), \<open>Libtar_Extract\<close> (\<^verbatim>\<open>extract.c\<close>,
    \<^verbatim>\<open>android_utils.c\<close>, \<^verbatim>\<open>mkdirhier\<close>), \<open>Libtar_Mkdir\<close>.
  \<^item> \<open>Archive\<close>, \<open>Archive_Files\<close>, \<open>Archive_Links\<close>: the composition, what is written by the one side is read by the other,
    through the write buffer, for members, contents, whole files and hard links.
  \<^item> openaes: \<open>Oaes_Tables\<close>, \<open>Oaes_Field\<close> (the tables of \<^verbatim>\<open>oaes_lib.c\<close> and GF(256)), \<open>Oaes_Block\<close>, \<open>Oaes_Cipher\<close> (key expansion and
    cipher, equal to FIPS-197), \<open>Oaes_Random\<close> (\<^verbatim>\<open>isaac/rand.c\<close>), \<open>Oaes\<close> (the interface on contexts and buffers),
    \<open>Oaes_Modes\<close>, \<open>Oaes_Properties\<close> (round trips, and the invariant of every context that can be reached).
  \<^item> twrpDigest: \<open>Twrp_Digest\<close> (\<^verbatim>\<open>md5.c\<close> and the class \<^verbatim>\<open>twrpMD5\<close>, equal to RFC 1321).
  \<^item> otautil: \<open>Range_Set\<close>, \<open>Range_Set_Properties\<close> (\<^verbatim>\<open>rangeset.cpp\<close>: the value of a set is the list of its blocks).

  \<^bold>\<open>How code becomes definitions.\<close> A definition has the name of the function it models, a struct is a record, an
  enum a datatype, a loop a recursive function named after what it does. Memory that C code reads or
  writes is a list of bytes, and an access outside it, a null pointer followed, a failing assertion and a loop
  that does not return are the result \<open>None\<close>; so a theorem that an operation gives \<open>Some\<close> says that it returns and stays
  within its memory. Error codes are values. Machine integers have their width and wrap around.
  System calls work on a world of their own, a type variable: reading is \<open>rd fd n w\<close>, writing \<open>wr fd b w\<close>, and the record
  \<open>fsys\<close> holds the calls extraction makes. \<open>Posix_Files\<close> gives them a meaning, and the round trips are proved there.

  \<^bold>\<open>What is a parameter.\<close> Code outside the repository and the state of the machine: read, write and the other
  system calls; lstat, readlink, getpwuid, getgrgid and the attribute calls (the record \<open>host\<close>); malloc and calloc where
  their failure is handled; the random seed of openaes; the comparison and hash functions given to a table;
  \<^verbatim>\<open>Split\<close> and \<^verbatim>\<open>ParseUint\<close> of libbase. What is relied on of them stands as a named hypothesis or as a locale.

  \<^bold>\<open>The build modelled.\<close> 64-bit little-endian machines (\<^verbatim>\<open>size_t\<close> and \<^verbatim>\<open>unsigned long\<close> have 64 bits), without \<^verbatim>\<open>USE_FSCRYPT\<close> and
  \<^verbatim>\<open>LIBTAR_FILE_HASH\<close>, with \<^verbatim>\<open>OAES_HAVE_ISAAC\<close> and \<^verbatim>\<open>OAES_DEBUG\<close> defined.

  \<^bold>\<open>Termination and bounds.\<close> No definition uses fuel: loops over data recurse on it, the others have a measure
  (the bits of an exponent, the room of a block, the slots of a table, the ranges left), and pointer loops recurse on
  the store and give \<open>None\<close> on a cycle; the binary Euclid of \<open>modinv_loop\<close> is a partial function, and that it ends is proved. Theorems that need a bound state it: buffers below \<open>2^31\<close> bytes where
  the code counts in \<^verbatim>\<open>int\<close>, names below \<open>2^39\<close>, for the same reason, paths below \<^verbatim>\<open>MAXPATHLEN\<close>, pieces of a digest below \<open>2^32\<close>, range
  sets below \<open>2^64 - 1\<close> blocks.

  \<^bold>\<open>Flaws the model shows\<close> are stated as theorems: \<open>hardlinked_symlink\<close>, \<open>mkdirhier_overflow\<close>, \<open>list_empty_dangling\<close>,
  \<open>short_write_lost\<close>, \<open>valid_point_rejected\<close>, and the last parts of \<open>member_round_trip\<close>, \<open>twrpMD5_correct\<close> and
  \<open>dsa_sig_unpack_correct\<close>.

  \<^bold>\<open>Not modelled.\<close>
  \<^item> libtar: \<^verbatim>\<open>output.c\<close> and \<^verbatim>\<open>print_caps\<close> only print; \<^verbatim>\<open>glob.c\<close>, \<^verbatim>\<open>fnmatch.c\<close>, \<^verbatim>\<open>snprintf.c\<close> and the resolver files replace C library
    functions; \<^verbatim>\<open>handle.c\<close> and \<^verbatim>\<open>wrapper.c\<close> open descriptors and walk directories around the operations modelled.
  \<^item> libmincrypt: \<^verbatim>\<open>p256_ec.c\<close> and \<^verbatim>\<open>p256_ecdsa.c\<close>, the elliptic curve itself.
  \<^item> minzip: \<^verbatim>\<open>Zip.c\<close>, \<^verbatim>\<open>SysUtil.c\<close>, \<^verbatim>\<open>DirUtil.c\<close>, mappings, zlib and work on directories.
  \<^item> Device access (\<^verbatim>\<open>mtdutils\<close>, \<^verbatim>\<open>mmcutils\<close>, \<^verbatim>\<open>bmlutils\<close>, \<^verbatim>\<open>flashutils\<close>, \<^verbatim>\<open>gpt\<close>, \<^verbatim>\<open>htcdumlock\<close>, \<^verbatim>\<open>injecttwrp\<close>): the logic is that of the devices.
  \<^item> Third-party projects kept as they are: fuse, libblkid, exfat, dosfstools, pigz, fb2png, libpixelflinger, scrypt.
  \<^item> The C++ parts (partition manager, \<^verbatim>\<open>twrpTar\<close>, installer, updater, user interface, MTP, adb): processes, threads, drawing,
    settings and sequences of system calls over libraries that are not in the repository.
\<close>

end
